(* ===== verification/Prelude.thy ===== *)
theory Prelude
  imports Main "HOL-Library.Word" "HOL-Library.Monad_Syntax" "HOL-Library.Multiset"
begin

text \<open>
  Shared vocabulary of the development.

  The C++ sources are modelled in the option monad: \<open>None\<close> is a run that leaves the
  defined behaviour of the program (a write past the end of an array, a copy longer than
  the buffer it goes to, a call through a pointer that was never set), \<open>Some s\<close> is a run that
  reaches the state \<open>s\<close>. Array accesses and string copies therefore go through the checked
  operations below. Types: \<open>ring_id\<close> is \<open>ring_id_t\<close> (\<open>uint64_t\<close>, src/src/Sharp.h),
  a C \<open>int\<close> that is only stored, compared or decremented under a guard is an \<open>int\<close>, and an
  IPv4 address in a \<open>char[20]\<close> buffer is the C string it holds.
\<close>

type_synonym byte = "8 word"
type_synonym u32 = "32 word"
type_synonym u64 = "64 word"
type_synonym ring_id = "64 word"
type_synonym ip_addr = string

named_theorems safe_intros \<open>introduction rules for runs that stay within defined behaviour\<close>
named_theorems frame_simps \<open>what an operation leaves unchanged\<close>

subsection \<open>Checked arrays and string copies\<close>

definition arr_get :: "'a list \<Rightarrow> int \<Rightarrow> 'a option" where
  "arr_get xs i = (if 0 \<le> i \<and> i < int (length xs) then Some (xs ! nat i) else None)"

definition arr_set :: "'a list \<Rightarrow> int \<Rightarrow> 'a \<Rightarrow> 'a list option" where
  "arr_set xs i v = (if 0 \<le> i \<and> i < int (length xs) then Some (xs[nat i := v]) else None)"

text \<open>
  \<open>strncpy(dst, s, strlen(s) + 1)\<close> into a buffer of \<open>cap\<close> bytes: the bound passed is the
  length of the source, so the copy is within the buffer only if the source fits.
\<close>

definition strncpy_into :: "nat \<Rightarrow> string \<Rightarrow> string option" where
  "strncpy_into cap s = (if length s + 1 \<le> cap then Some s else None)"

text \<open>\<open>memcpy(dst, src, n)\<close> onto the first bytes of a buffer, with a C \<open>int\<close> count.\<close>

definition memcpy_into :: "byte list \<Rightarrow> byte list \<Rightarrow> int \<Rightarrow> byte list option" where
  "memcpy_into dst src n =
     (if 0 \<le> n \<and> nat n \<le> length dst \<and> nat n \<le> length src
      then Some (take (nat n) src @ drop (nat n) dst) else None)"

text \<open>
  Signed arithmetic in a 32-bit \<open>int\<close> is undefined when the result does not fit. \<open>1 << k\<close> is
  defined for \<open>k < 32\<close>; for \<open>k = 31\<close> the bit pattern becomes the sign bit.
\<close>

definition c_int :: "int \<Rightarrow> int option" where
  "c_int x = (if - (2 ^ 31) \<le> x \<and> x < 2 ^ 31 then Some x else None)"

text \<open>The same in a 64-bit \<open>long\<close>.\<close>

definition c_long :: "int \<Rightarrow> int option" where
  "c_long x = (if - (2 ^ 63) \<le> x \<and> x < 2 ^ 63 then Some x else None)"

definition shl_one :: "int \<Rightarrow> int option" where
  "shl_one k = (if 0 \<le> k \<and> k < 31 then Some (2 ^ nat k)
     else if k = 31 then Some (- (2 ^ 31)) else None)"

text \<open>A run that stays within defined behaviour and ends in a result with property \<open>P\<close>.\<close>

definition returns :: "'a option \<Rightarrow> ('a \<Rightarrow> bool) \<Rightarrow> bool" where
  "returns x P \<longleftrightarrow> (\<exists>y. x = Some y \<and> P y)"

text \<open>A run that has a result with property \<open>P\<close> unless \<open>Q\<close> holds.\<close>

definition returns_unless :: "'a option \<Rightarrow> ('a \<Rightarrow> bool) \<Rightarrow> bool \<Rightarrow> bool" where
  "returns_unless x P Q \<longleftrightarrow> (case x of None \<Rightarrow> Q | Some y \<Rightarrow> P y)"

text \<open>Removing an element of a list by moving the last one into its place.\<close>

definition swap_remove :: "nat \<Rightarrow> 'a list \<Rightarrow> 'a list" where
  "swap_remove i xs = (if i = length xs - 1 then butlast xs else (butlast xs)[i := last xs])"

subsection \<open>Lemmas on the checked operations\<close>

lemma arr_get_nat [simp]: "arr_get xs (int i) = (if i < length xs then Some (xs ! i) else None)"
  by (simp add: arr_get_def)

lemma arr_set_nat [simp]: "arr_set xs (int i) v = (if i < length xs then Some (xs[i := v]) else None)"
  by (simp add: arr_set_def)

lemma arr_set_eq_Some:
  "arr_set xs i v = Some ys \<longleftrightarrow> 0 \<le> i \<and> i < int (length xs) \<and> ys = xs[nat i := v]"
  by (auto simp: arr_set_def)

lemma arr_set_eq_None: "arr_set xs i v = None \<longleftrightarrow> i < 0 \<or> int (length xs) \<le> i"
  by (auto simp: arr_set_def)

lemma arr_get_eq_Some:
  "arr_get xs i = Some x \<longleftrightarrow> 0 \<le> i \<and> i < int (length xs) \<and> x = xs ! nat i"
  by (auto simp: arr_get_def)

lemma arr_set_length: "arr_set xs i v = Some ys \<Longrightarrow> length ys = length xs"
  by (auto simp: arr_set_eq_Some)

lemma strncpy_into_eq_Some: "strncpy_into cap s = Some t \<longleftrightarrow> t = s \<and> length s < cap"
  by (auto simp: strncpy_into_def)

lemma strncpy_into_fits [simp]: "length s < cap \<Longrightarrow> strncpy_into cap s = Some s"
  by (simp add: strncpy_into_def)

lemma memcpy_into_eq_Some:
  "memcpy_into dst src n = Some out \<longleftrightarrow>
     0 \<le> n \<and> nat n \<le> length dst \<and> nat n \<le> length src \<and> out = take (nat n) src @ drop (nat n) dst"
  by (auto simp: memcpy_into_def)

lemma memcpy_into_length: "memcpy_into dst src n = Some out \<Longrightarrow> length out = length dst"
  by (auto simp: memcpy_into_eq_Some)

lemma memcpy_into_take: "memcpy_into dst src n = Some out \<Longrightarrow> take (nat n) out = take (nat n) src"
  by (auto simp: memcpy_into_eq_Some)

lemma returns_Some [simp]: "returns (Some y) P = P y"
  by (simp add: returns_def)

lemma returns_bind:
  "returns x Q \<Longrightarrow> (\<And>y. Q y \<Longrightarrow> returns (f y) P) \<Longrightarrow> returns (Option.bind x f) P"
  by (auto simp: returns_def)

lemma returns_unless_Some [simp]: "returns_unless (Some y) P Q = P y"
  by (simp add: returns_unless_def)

lemma returns_unless_SomeD: "returns_unless x P Q \<Longrightarrow> x = Some y \<Longrightarrow> P y"
  by (simp add: returns_unless_def)

lemma returns_unlessD: "returns_unless x P Q \<Longrightarrow> \<not> Q \<Longrightarrow> returns x P"
  by (cases x) (auto simp: returns_unless_def returns_def)

lemma returns_unless_mono:
  "returns_unless x P Q \<Longrightarrow> (\<And>y. P y \<Longrightarrow> P' y) \<Longrightarrow> (Q \<Longrightarrow> Q') \<Longrightarrow> returns_unless x P' Q'"
  by (cases x) (auto simp: returns_unless_def)

lemma returns_imp_unless: "returns x P \<Longrightarrow> returns_unless x P Q"
  by (auto simp: returns_def)

lemma returns_unless_bind:
  "returns_unless x P Q \<Longrightarrow> (\<And>y. P y \<Longrightarrow> returns_unless (f y) P' Q) \<Longrightarrow> returns_unless (x \<bind> f) P' Q"
  by (cases x) (auto simp: returns_unless_def)

lemma returns_mono: "returns x Q \<Longrightarrow> (\<And>y. Q y \<Longrightarrow> P y) \<Longrightarrow> returns x P"
  by (auto simp: returns_def)

lemma bind_SomeE:
  assumes "Option.bind x f = Some y"
  obtains z where "x = Some z" and "f z = Some y"
  using assms by (cases x) auto

lemma list_all_update [intro]: "list_all P xs \<Longrightarrow> P v \<Longrightarrow> list_all P (xs[i := v])"
  by (cases "i < length xs") (auto simp: list_all_length nth_list_update list_update_beyond)

lemma length_swap_remove [simp]: "length (swap_remove i xs) = length xs - 1"
  by (simp add: swap_remove_def)

lemma mset_move:
  assumes "i < length xs" "j < length xs" "i \<noteq> j"
  shows "mset ((xs[i := xs ! j])[j := t]) = mset (xs[i := t])"
proof -
  have "(xs[i := xs ! j])[j := t] = (xs[i := t])[i := (xs[i := t]) ! j, j := (xs[i := t]) ! i]"
    using assms by simp
  with assms show ?thesis by (metis length_list_update mset_swap)
qed

lemma mset_swap_remove:
  assumes "i < length xs"
  shows "mset xs = add_mset (xs ! i) (mset (swap_remove i xs))"
proof -
  from assms have ne: "xs \<noteq> []" by auto
  have xs: "mset xs = add_mset (last xs) (mset (butlast xs))"
  proof -
    have "mset xs = mset (butlast xs @ [last xs])" using ne by simp
    then show ?thesis unfolding mset_append by simp
  qed
  show ?thesis
  proof (cases "i = length xs - 1")
    case True
    with ne xs show ?thesis by (simp add: swap_remove_def last_conv_nth)
  next
    case False
    with assms have i: "i < length (butlast xs)" by simp
    then have "butlast xs ! i \<in># mset (butlast xs)" by simp
    with i False xs show ?thesis
      by (simp add: swap_remove_def mset_update nth_butlast add_mset_commute)
  qed
qed

subsection \<open>Lemmas on words\<close>

lemma unat_power_64:
  assumes "m < 64"
  shows "unat (word_of_int (2 ^ m) :: u64) = 2 ^ m"
proof -
  have "(2::nat) ^ m < 2 ^ 64" using assms by (intro power_strict_increasing) auto
  then have "unat (word_of_nat (2 ^ m) :: u64) = 2 ^ m"
    using assms by (simp add: unsigned_of_nat take_bit_nat_eq_self del: of_nat_power)
  then show ?thesis by simp
qed

lemma unat_narrow_widen:
  assumes "unat (x :: u64) < 2 ^ 31"
  shows "unat (scast (ucast x :: u32) :: u64) = unat x"
proof -
  have b: "\<not> bit x n" if "n \<ge> 31" for n
  proof
    assume "bit x n"
    then have "bit (unat x) n" by (simp add: bit_unsigned_iff)
    then have "2 ^ n \<le> unat x" by (metis bit_iff_odd div_less even_zero not_le)
    moreover have "(2::nat) ^ 31 \<le> 2 ^ n" using that by (rule power_increasing) simp
    ultimately show False using assms by linarith
  qed
  have "scast (ucast x :: u32) = x"
    by (rule bit_word_eqI) (auto simp: bit_signed_iff bit_unsigned_iff b min_def not_less)
  then show ?thesis by simp
qed

end
