(* ===== verification/Strings.thy ===== *)
theory Strings
  imports Prelude
begin

text \<open>
  What the sources use of the C++ string library: \<open>std::to_string\<close>, \<open>std::stoi\<close> and the extraction of
  whitespace-separated tokens by \<open>operator>>\<close>. \<open>None\<close> is a thrown \<open>std::invalid_argument\<close> or
  \<open>std::out_of_range\<close>, which no caller catches.
\<close>

subsection \<open>Characters\<close>

definition digit_char :: "nat \<Rightarrow> char" where
  "digit_char d = char_of (d + 48)"

definition is_digit :: "char \<Rightarrow> bool" where
  "is_digit c \<longleftrightarrow> 48 \<le> (of_char c :: nat) \<and> (of_char c :: nat) \<le> 57"

definition digit_val :: "char \<Rightarrow> nat" where
  "digit_val c = of_char c - 48"

text \<open>The white space of the C locale.\<close>

definition is_space :: "char \<Rightarrow> bool" where
  "is_space c \<longleftrightarrow> (let k = of_char c :: nat in k = 32 \<or> (9 \<le> k \<and> k \<le> 13))"

subsection \<open>Numbers\<close>

fun to_string :: "nat \<Rightarrow> string" where
  "to_string n = (if n < 10 then [digit_char n] else to_string (n div 10) @ [digit_char (n mod 10)])"

declare to_string.simps [simp del]

definition digits_val :: "nat \<Rightarrow> string \<Rightarrow> nat" where
  "digits_val = foldl (\<lambda>a c. a * 10 + digit_val c)"

text \<open>\<open>stoi\<close> skips white space, takes an optional sign and the longest run of digits, ignores the rest,
  and throws when there is no digit or the number does not fit an \<open>int\<close>.\<close>

definition stoi :: "string \<Rightarrow> int option" where
  "stoi s =
     (let t = dropWhile is_space s;
          (neg, u) = (case t of c # cs \<Rightarrow> if c = CHR ''-'' then (True, cs)
                        else if c = CHR ''+'' then (False, cs) else (False, t) | [] \<Rightarrow> (False, []));
          ds = takeWhile is_digit u; v = int (digits_val 0 ds)
      in if ds = [] then None else c_int (if neg then - v else v))"

subsection \<open>Tokens\<close>

fun words_of :: "string \<Rightarrow> string \<Rightarrow> string list" where
  "words_of cur [] = (if cur = [] then [] else [cur])"
| "words_of cur (c # cs) =
     (if is_space c then (if cur = [] then words_of [] cs else cur # words_of [] cs)
      else words_of (cur @ [c]) cs)"

definition tokens :: "string \<Rightarrow> string list" where
  "tokens s = words_of [] s"

text \<open>The pieces between the occurrences of a character.\<close>

fun split_at :: "char \<Rightarrow> string \<Rightarrow> string list" where
  "split_at c [] = [[]]"
| "split_at c (x # xs) = (if x = c then [] # split_at c xs else (case split_at c xs of w # ws \<Rightarrow> (x # w) # ws | [] \<Rightarrow> [[x]]))"

subsection \<open>Lemmas\<close>

lemma digit_char:
  assumes "d < 10"
  shows "is_digit (digit_char d)" and "digit_val (digit_char d) = d" and "\<not> is_space (digit_char d)"
    and "digit_char d \<noteq> CHR ''-''" and "digit_char d \<noteq> CHR ''+''"
proof -
  have c: "of_char (digit_char d) = d + 48" using assms by (simp add: digit_char_def)
  then show "is_digit (digit_char d)" "digit_val (digit_char d) = d" "\<not> is_space (digit_char d)"
    using assms by (simp_all add: is_digit_def digit_val_def is_space_def Let_def)
  show "digit_char d \<noteq> CHR ''-''" "digit_char d \<noteq> CHR ''+''" using c by auto
qed

lemma digits_val_snoc [simp]: "digits_val a (s @ [c]) = digits_val a s * 10 + digit_val c"
  by (simp add: digits_val_def)

lemma to_string_digits: "list_all is_digit (to_string n)" and to_string_nonempty: "to_string n \<noteq> []"
proof -
  have "list_all is_digit (to_string n) \<and> to_string n \<noteq> []"
  proof (induction n rule: to_string.induct)
    case (1 n)
    then show ?case by (cases "n < 10") (simp_all add: to_string.simps [of n] digit_char(1))
  qed
  then show "list_all is_digit (to_string n)" "to_string n \<noteq> []" by auto
qed

lemma digits_val_to_string: "digits_val 0 (to_string n) = n"
proof (induction n rule: to_string.induct)
  case (1 n)
  show ?case
  proof (cases "n < 10")
    case True
    then show ?thesis by (simp add: to_string.simps [of n] digits_val_def digit_char(2))
  next
    case False
    with 1 show ?thesis by (subst to_string.simps) (simp add: digit_char(2))
  qed
qed

lemma digit_no_sign: "is_digit c \<Longrightarrow> c \<noteq> CHR ''-'' \<and> c \<noteq> CHR ''+'' \<and> \<not> is_space c"
  by (auto simp: is_digit_def is_space_def Let_def)

lemma stoi_to_string: "stoi (to_string n) = (if n < 2 ^ 31 then Some (int n) else None)"
proof -
  obtain c cs where s: "to_string n = c # cs" using to_string_nonempty by (cases "to_string n") auto
  from to_string_digits [of n] s have c: "is_digit c" and all: "list_all is_digit (to_string n)" by auto
  from digit_no_sign [OF c] s have "dropWhile is_space (to_string n) = to_string n" by simp
  moreover from all have "takeWhile is_digit (to_string n) = to_string n"
    by (simp add: list_all_iff takeWhile_eq_all_conv)
  ultimately show ?thesis
    using digit_no_sign [OF c] s digits_val_to_string [of n] by (auto simp: stoi_def Let_def c_int_def)
qed

text \<open>A file of tokens separated by white space is read back as those tokens.\<close>

lemma words_of_word: "list_all (\<lambda>c. \<not> is_space c) w \<Longrightarrow> words_of cur (w @ s) = words_of (cur @ w) s"
  by (induction w arbitrary: cur) auto

lemma tokens_line:
  assumes "list_all (\<lambda>c. \<not> is_space c) w" and "w \<noteq> []" and "is_space c"
  shows "tokens (w @ c # s) = w # tokens s"
  using assms by (simp add: tokens_def words_of_word)

lemma tokens_Nil [simp]: "tokens [] = []"
  by (simp add: tokens_def)

lemma split_at_append: "c \<notin> set w \<Longrightarrow> split_at c (w @ c # s) = w # split_at c s"
  by (induction w) auto

lemma split_at_none: "c \<notin> set w \<Longrightarrow> split_at c w = [w]"
  by (induction w) auto

end
