(* ===== verification/Numerals.thy ===== *)
theory Numerals
  imports Strings
begin

text \<open>
  \<open>strtol\<close>, \<open>std::stoll\<close> and \<open>std::stoull\<close> with base 0 or 16: skip white space, take a sign, find the base from the
  prefix, read the longest run of digits.
\<close>

subsection \<open>Scanning\<close>

definition hex_val :: "char \<Rightarrow> nat option" where
  "hex_val c =
     (let k = of_char c :: nat
      in if 48 \<le> k \<and> k \<le> 57 then Some (k - 48) else if 65 \<le> k \<and> k \<le> 70 then Some (k - 55)
         else if 97 \<le> k \<and> k \<le> 102 then Some (k - 87) else None)"

definition is_hex_digit :: "nat \<Rightarrow> char \<Rightarrow> bool" where
  "is_hex_digit base c = (case hex_val c of Some v \<Rightarrow> v < base | None \<Rightarrow> False)"

definition strip_0x :: "string \<Rightarrow> (nat \<times> string)" where
  "strip_0x s =
     (case s of
        c0 # x # d # t \<Rightarrow> if c0 = CHR ''0'' \<and> (x = CHR ''x'' \<or> x = CHR ''X'') \<and> is_hex_digit 16 d then (16, d # t)
                         else (if c0 = CHR ''0'' then 8 else 10, s)
      | c0 # t \<Rightarrow> (if c0 = CHR ''0'' then 8 else 10, s)
      | [] \<Rightarrow> (10, []))"

definition split_sign :: "string \<Rightarrow> bool \<times> string" where
  "split_sign t =
     (case t of c # cs \<Rightarrow> if c = CHR ''-'' then (True, cs) else if c = CHR ''+'' then (False, cs) else (False, t)
      | [] \<Rightarrow> (False, []))"

text \<open>The number before it is fitted into its type, and how many characters were used; none when there is no digit.\<close>

definition scan_number :: "string \<Rightarrow> nat \<Rightarrow> int \<times> nat" where
  "scan_number s base =
     (let (neg, u) = split_sign (dropWhile is_space s);
          (b0, w) = strip_0x u;
          (b, w') = (if base = 0 then (b0, w) else (base, if b0 = 16 then w else u));
          ds = takeWhile (is_hex_digit b) w';
          v = int (foldl (\<lambda>a c. a * b + the (hex_val c)) 0 ds)
      in (if neg then - v else v, if ds = [] then 0 else length s - length (drop (length ds) w')))"

definition strtol :: "string \<Rightarrow> nat \<Rightarrow> int" where
  "strtol s base = max (- (2 ^ 63)) (min (2 ^ 63 - 1) (fst (scan_number s base)))"

text \<open>The functions of C++ throw when there is no number or it does not fit; \<open>stoull\<close> takes a negative number modulo
  \<open>2 ^ 64\<close>.\<close>

definition stoll :: "string \<Rightarrow> (int \<times> nat) option" where
  "stoll s =
     (let (v, n) = scan_number s 0 in if n = 0 \<or> v < - (2 ^ 63) \<or> 2 ^ 63 \<le> v then None else Some (v, n))"

definition stoull :: "string \<Rightarrow> (int \<times> nat) option" where
  "stoull s =
     (let (v, n) = scan_number s 0 in if n = 0 \<or> 2 ^ 64 \<le> \<bar>v\<bar> then None else Some (v mod 2 ^ 64, n))"

subsection \<open>Numbers that were printed\<close>

lemma hd_to_string: "0 < n \<Longrightarrow> hd (to_string n) \<noteq> CHR ''0''"
proof (induction n rule: to_string.induct)
  case (1 n)
  show ?case
  proof (cases "n < 10")
    case True
    then have "of_char (digit_char n) = (n + 48 :: nat)" by (simp add: digit_char_def)
    then have "digit_char n \<noteq> CHR ''0''" using "1.prems" by auto
    then show ?thesis using True by (subst to_string.simps) simp
  next
    case False
    then have "hd (to_string n) = hd (to_string (n div 10))"
      using to_string_nonempty [of "n div 10"] by (subst to_string.simps) simp
    then show ?thesis using 1 False by simp
  qed
qed

lemma hex_val_digit: "is_digit c \<Longrightarrow> hex_val c = Some (digit_val c)"
  by (simp add: is_digit_def hex_val_def digit_val_def Let_def)

lemma is_hex_digit_10: "is_hex_digit 10 = is_digit"
  by (rule ext) (auto simp: is_hex_digit_def hex_val_def is_digit_def Let_def split: option.splits)

lemma foldl_hex_digits:
  "list_all is_digit s \<Longrightarrow> foldl (\<lambda>a c. a * 10 + the (hex_val c)) k s = digits_val k s"
  by (induction s arbitrary: k) (simp_all add: digits_val_def hex_val_digit)

lemma strip_0x_to_string: "0 < n \<Longrightarrow> strip_0x (to_string n) = (10, to_string n)"
  using hd_to_string [of n] to_string_nonempty [of n]
  by (auto simp: strip_0x_def split: list.splits)

text \<open>A sign and the digits of a number.\<close>

definition int_string :: "int \<Rightarrow> string" where
  "int_string v = (if v < 0 then CHR ''-'' # to_string (nat (- v)) else to_string (nat v))"

lemma split_sign_to_string: "split_sign (dropWhile is_space (to_string n)) = (False, to_string n)"
proof -
  obtain c cs where s: "to_string n = c # cs" using to_string_nonempty by (cases "to_string n") auto
  with to_string_digits [of n] have "is_digit c" by simp
  then have "\<not> is_space c" "c \<noteq> CHR ''-''" "c \<noteq> CHR ''+''" by (auto simp: is_digit_def is_space_def Let_def)
  then show ?thesis by (simp add: s split_sign_def)
qed

lemma takeWhile_to_string: "takeWhile is_digit (to_string n) = to_string n"
  using to_string_digits [of n] by (simp add: list_all_iff)

lemma scan_to_string: "scan_number (to_string n) 0 = (int n, length (to_string n))"
proof (cases "n = 0")
  case True
  have "to_string 0 = ''0''" by code_simp
  then show ?thesis unfolding True by (simp add: scan_number_def split_sign_def is_space_def strip_0x_def is_hex_digit_def hex_val_def)
next
  case False
  then show ?thesis
    using to_string_digits [of n] to_string_nonempty [of n]
    by (simp add: scan_number_def split_sign_to_string strip_0x_to_string is_hex_digit_10 takeWhile_to_string foldl_hex_digits
        digits_val_to_string)
qed

lemma strtol_to_string: "n < 2 ^ 63 \<Longrightarrow> strtol (to_string n) 0 = int n"
  by (simp add: strtol_def scan_to_string)

lemma scan_int_string: "scan_number (int_string v) 0 = (v, length (int_string v))"
proof (cases "v < 0")
  case True
  let ?n = "nat (- v)"
  have "split_sign (CHR ''-'' # to_string ?n) = (True, to_string ?n)" by (simp add: split_sign_def)
  then show ?thesis
    using True to_string_digits [of ?n] to_string_nonempty [of ?n]
    by (simp add: int_string_def scan_number_def is_space_def strip_0x_to_string is_hex_digit_10 takeWhile_to_string foldl_hex_digits
        digits_val_to_string Let_def)
next
  case False then show ?thesis by (simp add: int_string_def scan_to_string)
qed

lemma stoll_int_string: "- (2 ^ 63) \<le> v \<Longrightarrow> v < 2 ^ 63 \<Longrightarrow> stoll (int_string v) = Some (v, length (int_string v))"
  using to_string_nonempty by (auto simp: stoll_def scan_int_string) (simp add: int_string_def split: if_splits)

lemma int_string_nonempty [simp]: "int_string v \<noteq> []"
  using to_string_nonempty by (simp add: int_string_def)

end
