(* ===== verification/Cli.thy ===== *)
theory Cli
  imports Numerals
begin

text \<open>
  The command line parser the relay uses (src/src/utils/CLI11.hpp): names of options, classification of arguments,
  the parsing loop and the processing of what was collected. A program is an \<open>App\<close> without subcommands, as the
  relay's is; configuration files, environment variables, validators and requirements between options, which are
  off unless a program asks for them, and the texts of help and errors are left out. The arguments are a list whose
  head is the back of the reversed vector of the code; an option is named by its position among the options.
  Exceptions are the left values of a sum.
\<close>

subsection \<open>Strings\<close>

definition is_alpha :: "char \<Rightarrow> bool" where
  "is_alpha c \<longleftrightarrow> (let k = of_char c :: nat in (65 \<le> k \<and> k \<le> 90) \<or> (97 \<le> k \<and> k \<le> 122))"

definition valid_first_char :: "char \<Rightarrow> bool" where
  "valid_first_char c \<longleftrightarrow> is_alpha c \<or> c = CHR ''_''"

definition valid_later_char :: "char \<Rightarrow> bool" where
  "valid_later_char c \<longleftrightarrow> is_alpha c \<or> is_digit c \<or> c = CHR ''_'' \<or> c = CHR ''.'' \<or> c = CHR ''-''"

definition valid_name_string :: "string \<Rightarrow> bool" where
  "valid_name_string s \<longleftrightarrow> (case s of [] \<Rightarrow> False | c # cs \<Rightarrow> valid_first_char c \<and> list_all valid_later_char cs)"

definition ltrim :: "string \<Rightarrow> string" where
  "ltrim s = dropWhile is_space s"

definition rtrim :: "string \<Rightarrow> string" where
  "rtrim s = rev (dropWhile is_space (rev s))"

definition trim_copy :: "string \<Rightarrow> string" where
  "trim_copy s = ltrim (rtrim s)"

definition lower_char :: "char \<Rightarrow> char" where
  "lower_char c = (let k = of_char c :: nat in if 65 \<le> k \<and> k \<le> 90 then char_of (k + 32) else c)"

definition to_lower :: "string \<Rightarrow> string" where
  "to_lower s = map lower_char s"

definition remove_underscore :: "string \<Rightarrow> string" where
  "remove_underscore s = filter (\<lambda>c. c \<noteq> CHR ''_'') s"

subsection \<open>Arguments\<close>

definition split_short :: "string \<Rightarrow> (string \<times> string) option" where
  "split_short current =
     (if length current > 1 \<and> current ! 0 = CHR ''-'' \<and> valid_first_char (current ! 1)
      then Some ([current ! 1], drop 2 current) else None)"

definition split_long :: "string \<Rightarrow> (string \<times> string) option" where
  "split_long current =
     (if length current > 2 \<and> take 2 current = ''--'' \<and> valid_first_char (current ! 2)
      then let name = takeWhile (\<lambda>c. c \<noteq> CHR ''='') (drop 2 current) in Some (name, drop (length name + 3) current)
      else None)"

definition split_windows :: "string \<Rightarrow> (string \<times> string) option" where
  "split_windows current =
     (if length current > 1 \<and> current ! 0 = CHR ''/'' \<and> valid_first_char (current ! 1)
      then let name = takeWhile (\<lambda>c. c \<noteq> CHR '':'') (drop 1 current) in Some (name, drop (length name + 2) current)
      else None)"

definition split_names :: "string \<Rightarrow> string list" where
  "split_names current = map trim_copy (split_at CHR '','' current)"

datatype cli_error =
    BadNameString
  | OptionAlreadyAdded
  | IncorrectConstruction
  | InvalidError
  | HorribleError
  | ArgumentMismatch
  | ConversionError
  | CallForHelp
  | RequiredError
  | ExtrasError "string list"

fun get_names :: "string list \<Rightarrow> string list \<times> string list \<times> string \<Rightarrow> cli_error + (string list \<times> string list \<times> string)" where
  "get_names [] acc = Inr acc"
| "get_names (name # names) (short_names, long_names, pos_name) =
     (if length name = 0 then get_names names (short_names, long_names, pos_name)
      else if length name > 1 \<and> name ! 0 = CHR ''-'' \<and> name ! 1 \<noteq> CHR ''-''
      then if length name = 2 \<and> valid_first_char (name ! 1)
           then get_names names (short_names @ [[name ! 1]], long_names, pos_name) else Inl BadNameString
      else if length name > 2 \<and> take 2 name = ''--''
      then if valid_name_string (drop 2 name)
           then get_names names (short_names, long_names @ [drop 2 name], pos_name) else Inl BadNameString
      else if name = ''-'' \<or> name = ''--'' then Inl BadNameString
      else if length pos_name > 0 then Inl BadNameString
      else get_names names (short_names, long_names, name))"

subsection \<open>Options\<close>

datatype multi_option_policy = Throw | TakeLast | TakeFirst | Join

text \<open>
  The callback of an option converts the texts it was given; its result is what it assigns to variables of the
  program, and \<open>None\<close> when it returns false.
\<close>

record 'v cli_option =
  co_snames :: "string list"
  co_lnames :: "string list"
  co_pname :: string
  co_required :: bool
  co_ignore_case :: bool
  co_ignore_underscore :: bool
  co_policy :: multi_option_policy
  co_type_size :: int
  co_expected :: int
  co_callback :: "string list \<Rightarrow> 'v list option"
  co_results :: "string list"
  co_callback_run :: bool

definition Option0 :: "string list \<Rightarrow> string list \<Rightarrow> string \<Rightarrow> (string list \<Rightarrow> 'v list option) \<Rightarrow> 'v cli_option" where
  "Option0 snames lnames pname callback =
     \<lparr>co_snames = snames, co_lnames = lnames, co_pname = pname, co_required = False, co_ignore_case = False,
      co_ignore_underscore = False, co_policy = Throw, co_type_size = 1, co_expected = 1, co_callback = callback,
      co_results = [], co_callback_run = False\<rparr>"

definition opt_count :: "'v cli_option \<Rightarrow> nat" where
  "opt_count opt = length (co_results opt)"

definition get_positional :: "'v cli_option \<Rightarrow> bool" where
  "get_positional opt \<longleftrightarrow> length (co_pname opt) > 0"

definition get_items_expected :: "'v cli_option \<Rightarrow> int" where
  "get_items_expected opt =
     \<bar>co_type_size opt * co_expected opt\<bar> *
       (if co_policy opt \<noteq> Throw \<or> (co_expected opt < 0 \<and> co_type_size opt < 0) then -1 else 1)"

definition check_sname :: "'v cli_option \<Rightarrow> string \<Rightarrow> bool" where
  "check_sname opt name \<longleftrightarrow>
     (if co_ignore_case opt then to_lower name \<in> set (map to_lower (co_snames opt)) else name \<in> set (co_snames opt))"

definition check_lname :: "'v cli_option \<Rightarrow> string \<Rightarrow> bool" where
  "check_lname opt name \<longleftrightarrow>
     (if co_ignore_case opt
      then if co_ignore_underscore opt
           then to_lower (remove_underscore name) \<in> set (map (to_lower \<circ> remove_underscore) (co_lnames opt))
           else to_lower name \<in> set (map to_lower (co_lnames opt))
      else if co_ignore_underscore opt then remove_underscore name \<in> set (map remove_underscore (co_lnames opt))
      else name \<in> set (co_lnames opt))"

definition same_option :: "'v cli_option \<Rightarrow> 'v cli_option \<Rightarrow> bool" where
  "same_option a b \<longleftrightarrow>
     list_ex (check_sname b) (co_snames a) \<or> list_ex (check_lname b) (co_lnames a) \<or>
     list_ex (check_sname a) (co_snames b) \<or> list_ex (check_lname a) (co_lnames b)"

definition trim_results :: "int \<Rightarrow> string list \<Rightarrow> nat" where
  "trim_results items results = nat (min (max \<bar>items\<bar> 1) (int (length results)))"

fun join_lines :: "string list \<Rightarrow> string" where
  "join_lines [] = []"
| "join_lines [s] = s"
| "join_lines (s # t # ss) = s @ CHR 0x0A # join_lines (t # ss)"

definition run_callback :: "'v cli_option \<Rightarrow> cli_error + 'v list" where
  "run_callback opt =
     (let results = co_results opt; items = get_items_expected opt; k = trim_results items results;
          finish = (\<lambda>rs. case co_callback opt rs of None \<Rightarrow> Inl ConversionError | Some vs \<Rightarrow> Inr vs)
      in case co_policy opt of
           TakeLast \<Rightarrow> finish (drop (length results - k) results)
         | TakeFirst \<Rightarrow> finish (take k results)
         | Join \<Rightarrow> finish [join_lines results]
         | Throw \<Rightarrow>
             if items > 0
             then if int (length results) \<noteq> items then Inl ArgumentMismatch else finish results
             else if items < 0 \<and> (int (length results) < - items \<or> length results mod nat \<bar>co_type_size opt\<bar> \<noteq> 0)
             then Inl ArgumentMismatch
             else finish results)"

subsection \<open>The application\<close>

datatype classifier = NONE | POSITIONAL_MARK | SHORT | LONG | WINDOWS

record 'v cli_app =
  ca_allow_extras :: bool
  ca_prefix_command :: bool
  ca_windows :: bool
  ca_options :: "'v cli_option list"
  ca_help :: "nat option"
  ca_missing :: "(classifier \<times> string) list"
  ca_parse_order :: "nat list"

text \<open>An option with a callback, one that is bound to a variable by a conversion, and a flag.\<close>

definition add_option :: "string \<Rightarrow> (string list \<Rightarrow> 'v list option) \<Rightarrow> 'v cli_app \<Rightarrow> cli_error + 'v cli_app" where
  "add_option option_name callback app =
     (case get_names (split_names option_name) ([], [], []) of
        Inl e \<Rightarrow> Inl e
      | Inr (snames, lnames, pname) \<Rightarrow>
          let myopt = Option0 snames lnames pname callback
          in if list_ex (\<lambda>v. same_option v myopt) (ca_options app) then Inl OptionAlreadyAdded
             else Inr (app\<lparr>ca_options := ca_options app @ [myopt]\<rparr>))"

definition add_variable :: "string \<Rightarrow> (string \<Rightarrow> 'v option) \<Rightarrow> 'v cli_app \<Rightarrow> cli_error + 'v cli_app" where
  "add_variable option_name cast app = add_option option_name (\<lambda>res. map_option (\<lambda>v. [v]) (cast (res ! 0))) app"

definition add_flag :: "string \<Rightarrow> 'v cli_app \<Rightarrow> cli_error + 'v cli_app" where
  "add_flag flag_name app =
     (case add_option flag_name (\<lambda>_. Some []) app of
        Inl e \<Rightarrow> Inl e
      | Inr app' \<Rightarrow>
          let opt = last (ca_options app')
          in if get_positional opt then Inl IncorrectConstruction
             else Inr (app'\<lparr>ca_options := butlast (ca_options app') @ [opt\<lparr>co_type_size := 0, co_required := False\<rparr>]\<rparr>))"

definition App0 :: "'v cli_app" where
  "App0 = \<lparr>ca_allow_extras = False, ca_prefix_command = False, ca_windows = False, ca_options = [], ca_help = None,
     ca_missing = [], ca_parse_order = []\<rparr>"

definition App :: "cli_error + 'v cli_app" where
  "App = (case add_flag ''-h,--help'' App0 of Inl e \<Rightarrow> Inl e | Inr app \<Rightarrow> Inr (app\<lparr>ca_help := Some 0\<rparr>))"

subsection \<open>Parsing\<close>

definition recognize :: "bool \<Rightarrow> string \<Rightarrow> classifier" where
  "recognize windows current =
     (if current = ''--'' then POSITIONAL_MARK
      else if split_long current \<noteq> None then LONG
      else if split_short current \<noteq> None then SHORT
      else if windows \<and> split_windows current \<noteq> None then WINDOWS
      else NONE)"

definition add_result :: "nat \<Rightarrow> string \<Rightarrow> 'v cli_app \<Rightarrow> 'v cli_app" where
  "add_result i s app =
     (let opt = ca_options app ! i
      in app\<lparr>ca_options := (ca_options app)[i := opt\<lparr>co_results := co_results opt @ [s], co_callback_run := False\<rparr>],
             ca_parse_order := ca_parse_order app @ [i]\<rparr>)"

text \<open>As in the code, an option that is still to be filled replaces the count of those before it.\<close>

definition count_remaining_positionals :: "bool \<Rightarrow> 'v cli_app \<Rightarrow> int" where
  "count_remaining_positionals required app =
     foldl (\<lambda>retval opt.
         if get_positional opt \<and> (\<not> required \<or> co_required opt) \<and> get_items_expected opt > 0 \<and>
            int (opt_count opt) < get_items_expected opt
         then get_items_expected opt - int (opt_count opt) else retval) 0 (ca_options app)"

fun find_index :: "('a \<Rightarrow> bool) \<Rightarrow> 'a list \<Rightarrow> nat option" where
  "find_index P [] = None"
| "find_index P (x # xs) = (if P x then Some 0 else map_option Suc (find_index P xs))"

definition parse_positional :: "string \<Rightarrow> string list \<Rightarrow> 'v cli_app \<Rightarrow> 'v cli_app \<times> string list" where
  "parse_positional positional args app =
     (case find_index (\<lambda>opt. get_positional opt \<and>
             (int (opt_count opt) < get_items_expected opt \<or> get_items_expected opt < 0)) (ca_options app) of
        Some i \<Rightarrow> (add_result i positional app, args)
      | None \<Rightarrow>
          if ca_prefix_command app
          then (app\<lparr>ca_missing := ca_missing app @ map (Pair NONE) (positional # args)\<rparr>, [])
          else (app\<lparr>ca_missing := ca_missing app @ [(NONE, positional)]\<rparr>, args))"

text \<open>The name, the value after an equals sign and the rest after a letter.\<close>

definition split_arg :: "classifier \<Rightarrow> string \<Rightarrow> (string \<times> string \<times> string) option" where
  "split_arg current_type current =
     (case current_type of
        LONG \<Rightarrow> map_option (\<lambda>(n, v). (n, v, [])) (split_long current)
      | SHORT \<Rightarrow> map_option (\<lambda>(n, r). (n, [], r)) (split_short current)
      | WINDOWS \<Rightarrow> map_option (\<lambda>(n, v). (n, v, [])) (split_windows current)
      | _ \<Rightarrow> None)"

definition find_option :: "classifier \<Rightarrow> string \<Rightarrow> 'v cli_app \<Rightarrow> nat option" where
  "find_option current_type arg_name app =
     find_index (\<lambda>opt.
         if current_type = LONG then check_lname opt arg_name
         else if current_type = SHORT then check_sname opt arg_name
         else check_lname opt arg_name \<or> check_sname opt arg_name) (ca_options app)"

text \<open>The two loops that take further arguments for an option.\<close>

fun eat_unlimited :: "nat \<Rightarrow> int \<Rightarrow> int \<Rightarrow> string list \<Rightarrow> 'v cli_app \<Rightarrow> 'v cli_app \<times> string list" where
  "eat_unlimited i num collected [] app = (app, [])"
| "eat_unlimited i num collected (a # as) app =
     (if recognize (ca_windows app) a \<noteq> NONE then (app, a # as)
      else if collected \<ge> - num \<and> count_remaining_positionals False app > 0 then (app, a # as)
      else eat_unlimited i num (collected + 1) as (add_result i a app))"

fun eat_fixed :: "nat \<Rightarrow> int \<Rightarrow> string list \<Rightarrow> 'v cli_app \<Rightarrow> int \<times> 'v cli_app \<times> string list" where
  "eat_fixed i num [] app = (num, app, [])"
| "eat_fixed i num (a # as) app = (if num > 0 then eat_fixed i (num - 1) as (add_result i a app) else (num, app, a # as))"

definition parse_arg :: "classifier \<Rightarrow> string \<Rightarrow> string list \<Rightarrow> 'v cli_app \<Rightarrow> cli_error + ('v cli_app \<times> string list)" where
  "parse_arg current_type current args app =
     (case split_arg current_type current of
        None \<Rightarrow> Inl HorribleError
      | Some (arg_name, value, rest) \<Rightarrow>
          case find_option current_type arg_name app of
            None \<Rightarrow> Inr (app\<lparr>ca_missing := ca_missing app @ [(current_type, current)]\<rparr>, args)
          | Some i \<Rightarrow>
              let num = get_items_expected (ca_options app ! i);
                  (app1, num1, rest1, collected) =
                    (if value \<noteq> [] then (add_result i value app, if num > 0 then num - 1 else num, rest, 1)
                     else if num = 0 then (add_result i [] app, num, rest, 0)
                     else if rest \<noteq> [] then (add_result i rest app, if num > 0 then num - 1 else num, [], 1)
                     else (app, num, rest, 0));
                  push = (\<lambda>args. if rest1 \<noteq> [] then (CHR ''-'' # rest1) # args else args)
              in if num1 < 0
                 then let (app2, args2) = eat_unlimited i num1 collected args app1;
                          args3 = (case args2 of a # as \<Rightarrow> if recognize (ca_windows app2) a = POSITIONAL_MARK then as else args2 | [] \<Rightarrow> [])
                      in Inr (app2, push args3)
                 else let (num2, app2, args2) = eat_fixed i num1 args app1
                      in if num2 > 0 then Inl ArgumentMismatch else Inr (app2, push args2))"

definition parse_single :: "bool \<Rightarrow> string \<Rightarrow> string list \<Rightarrow> 'v cli_app \<Rightarrow> cli_error + (bool \<times> 'v cli_app \<times> string list)" where
  "parse_single positional_only current args app =
     (case if positional_only then NONE else recognize (ca_windows app) current of
        POSITIONAL_MARK \<Rightarrow> Inr (True, app\<lparr>ca_missing := ca_missing app @ [(POSITIONAL_MARK, current)]\<rparr>, args)
      | NONE \<Rightarrow> Inr (positional_only, parse_positional current args app)
      | c \<Rightarrow> map_sum id (Pair positional_only) (parse_arg c current args app))"

subsection \<open>The loop over the arguments\<close>

text \<open>What is left to parse, in characters with one more for each argument: the rest after the letter of a flag goes
  back as an argument that is one character shorter.\<close>

definition args_size :: "string list \<Rightarrow> nat" where
  "args_size args = sum_list (map (\<lambda>a. length a + 1) args)"

lemma args_size_simps [simp]: "args_size [] = 0" "args_size (a # as) = length a + 1 + args_size as"
  by (simp_all add: args_size_def)

lemma eat_unlimited_size: "eat_unlimited i num collected args app = (app', args') \<Longrightarrow> args_size args' \<le> args_size args"
  by (induction i num collected args app rule: eat_unlimited.induct) (auto split: if_splits)

lemma eat_fixed_size: "eat_fixed i num args app = (num', app', args') \<Longrightarrow> args_size args' \<le> args_size args"
  by (induction i num args app rule: eat_fixed.induct) (auto split: if_splits)

lemma split_arg_rest: "split_arg t current = Some (n, v, r) \<Longrightarrow> r \<noteq> [] \<Longrightarrow> length current = length r + 2"
  by (auto simp: split_arg_def split_short_def split: classifier.splits if_splits)

lemma parse_arg_size:
  assumes "parse_arg t current args app = Inr (app', args')"
  shows "args_size args' < args_size (current # args)"
proof (cases "split_arg t current")
  case (Some nvr)
  then obtain n v r where s: "split_arg t current = Some (n, v, r)" by (cases nvr) auto
  have r: "length r < length current \<or> r = []" using split_arg_rest [OF s] by auto
  show ?thesis
    using assms s r split_arg_rest [OF s]
    by (auto simp: parse_arg_def Let_def split: option.splits prod.splits if_splits list.splits
        dest!: eat_unlimited_size eat_fixed_size)
qed (use assms in \<open>simp add: parse_arg_def\<close>)

lemma parse_positional_size: "parse_positional p args app = (app', args') \<Longrightarrow> args_size args' \<le> args_size args"
  by (auto simp: parse_positional_def split: option.splits if_splits)

lemma parse_single_size:
  "parse_single po current args app = Inr (po', app', args') \<Longrightarrow> args_size args' < args_size (current # args)"
  by (auto simp: parse_single_def map_sum_def split: classifier.splits sum.splits if_splits
      dest!: parse_positional_size parse_arg_size)

function parse_loop :: "bool \<Rightarrow> string list \<Rightarrow> 'v cli_app \<Rightarrow> cli_error + 'v cli_app" where
  "parse_loop positional_only [] app = Inr app"
| "parse_loop positional_only (current # args) app =
     (case parse_single positional_only current args app of
        Inl e \<Rightarrow> Inl e
      | Inr (positional_only', app', args') \<Rightarrow> parse_loop positional_only' args' app')"
  by pat_completeness auto
termination
  by (relation "measure (\<lambda>(_, args, _). args_size args)") (auto dest!: parse_single_size)

subsection \<open>What follows the loop\<close>

fun process_callbacks :: "'v cli_option list \<Rightarrow> cli_error + ('v list \<times> 'v cli_option list)" where
  "process_callbacks [] = Inr ([], [])"
| "process_callbacks (opt # opts) =
     (case if opt_count opt > 0 \<and> \<not> co_callback_run opt
           then map_sum id (\<lambda>vs. (vs, opt\<lparr>co_callback_run := True\<rparr>)) (run_callback opt) else Inr ([], opt) of
        Inl e \<Rightarrow> Inl e
      | Inr (vs, opt') \<Rightarrow>
          (case process_callbacks opts of Inl e \<Rightarrow> Inl e | Inr (vss, opts') \<Rightarrow> Inr (vs @ vss, opt' # opts')))"

definition process_help_flags :: "'v cli_app \<Rightarrow> cli_error option" where
  "process_help_flags app =
     (case ca_help app of
        Some i \<Rightarrow> if opt_count (ca_options app ! i) > 0 then Some CallForHelp else None
      | None \<Rightarrow> None)"

fun process_requirements :: "'v cli_option list \<Rightarrow> cli_error option" where
  "process_requirements [] = None"
| "process_requirements (opt # opts) =
     (if (co_required opt \<or> opt_count opt \<noteq> 0) \<and> get_items_expected opt < 0 \<and>
         int (opt_count opt) < - get_items_expected opt
      then Some ArgumentMismatch
      else if co_required opt \<and> opt_count opt = 0 then Some RequiredError
      else process_requirements opts)"

text \<open>The values the callbacks have assigned, in the order of the options.\<close>

definition process_app :: "'v cli_app \<Rightarrow> cli_error + ('v list \<times> 'v cli_app)" where
  "process_app app =
     (case process_callbacks (ca_options app) of
        Inl e \<Rightarrow> Inl e
      | Inr (vs, opts) \<Rightarrow>
          let app' = app\<lparr>ca_options := opts\<rparr>
          in case process_help_flags app' of
               Some e \<Rightarrow> Inl e
             | None \<Rightarrow> (case process_requirements opts of Some e \<Rightarrow> Inl e | None \<Rightarrow> Inr (vs, app')))"

definition remaining :: "'v cli_app \<Rightarrow> string list" where
  "remaining app = map snd (ca_missing app)"

definition remaining_size :: "'v cli_app \<Rightarrow> nat" where
  "remaining_size app = length (filter (\<lambda>(c, _). c \<noteq> POSITIONAL_MARK) (ca_missing app))"

definition process_extras :: "'v cli_app \<Rightarrow> cli_error option" where
  "process_extras app =
     (if \<not> (ca_allow_extras app \<or> ca_prefix_command app) \<and> remaining_size app > 0
      then Some (ExtrasError (remaining app)) else None)"

definition parse_args :: "string list \<Rightarrow> 'v cli_app \<Rightarrow> cli_error + ('v list \<times> 'v cli_app)" where
  "parse_args args app =
     (case parse_loop False args app of
        Inl e \<Rightarrow> Inl e
      | Inr app1 \<Rightarrow>
          (case process_app app1 of
             Inl e \<Rightarrow> Inl e
           | Inr (vs, app2) \<Rightarrow> (case process_extras app2 of Some e \<Rightarrow> Inl e | None \<Rightarrow> Inr (vs, app2))))"

definition validate_app :: "'v cli_app \<Rightarrow> bool" where
  "validate_app app \<longleftrightarrow> length (filter (\<lambda>opt. get_items_expected opt < 0 \<and> get_positional opt) (ca_options app)) \<le> 1"

text \<open>The first call of \<open>parse\<close> on an application; the first argument is the name of the program.\<close>

definition parse_argv :: "string list \<Rightarrow> 'v cli_app \<Rightarrow> cli_error + ('v list \<times> 'v cli_app)" where
  "parse_argv argv app = (if validate_app app then parse_args (drop 1 argv) app else Inl InvalidError)"

subsection \<open>Conversions\<close>

definition lexical_cast_int :: "string \<Rightarrow> int option" where
  "lexical_cast_int input =
     (case stoll input of
        None \<Rightarrow> None
      | Some (output_ll, n) \<Rightarrow>
          let output = signed_take_bit 31 output_ll
          in if n = length input \<and> output = output_ll then Some output else None)"

definition lexical_cast_bool :: "string \<Rightarrow> bool option" where
  "lexical_cast_bool input =
     (if input \<noteq> [] \<and> input ! 0 = CHR ''-'' then None
      else case stoull input of
             None \<Rightarrow> None
           | Some (output_ll, n) \<Rightarrow>
               let output = output_ll \<noteq> 0
               in if n = length input \<and> of_bool output = output_ll then Some output else None)"

definition lexical_cast_string :: "string \<Rightarrow> string option" where
  "lexical_cast_string input = Some input"

lemma lexical_cast_int_string: "- (2 ^ 31) \<le> v \<Longrightarrow> v < 2 ^ 31 \<Longrightarrow> lexical_cast_int (int_string v) = Some v"
  by (simp add: lexical_cast_int_def stoll_int_string signed_take_bit_int_eq_self)

lemma lexical_cast_bool_digit: "lexical_cast_bool (if b then ''1'' else ''0'') = Some b"
  by (cases b) (simp_all add: lexical_cast_bool_def stoull_def scan_number_def split_sign_def is_space_def strip_0x_def
      is_hex_digit_def hex_val_def)

end
