(* ===== verification/CliLines.thy ===== *)
theory CliLines
  imports Cli
begin

text \<open>
  What a command line means. A line is a list of items: an option with its value in one of the four ways of writing
  it, a flag, or an argument that the program does not know. For a program whose options take one value each,
  \<open>line_outcome\<close> says directly what is assigned or which error is raised, and the parser is proved to compute it.
\<close>

subsection \<open>Lines\<close>

datatype arg_style = ShortSep | ShortJoined | LongSep | LongEq

datatype cli_item =
    Given nat arg_style string string
  | ShortFlag nat string
  | LongFlag nat string
  | Unknown string

fun render_arg :: "arg_style \<Rightarrow> string \<Rightarrow> string \<Rightarrow> string list" where
  "render_arg ShortSep n v = [''-'' @ n, v]"
| "render_arg ShortJoined n v = [''-'' @ n @ v]"
| "render_arg LongSep n v = [''--'' @ n, v]"
| "render_arg LongEq n v = [''--'' @ n @ ''='' @ v]"

fun render_item :: "cli_item \<Rightarrow> string list" where
  "render_item (Given i st n v) = render_arg st n v"
| "render_item (ShortFlag i n) = [''-'' @ n]"
| "render_item (LongFlag i n) = [''--'' @ n]"
| "render_item (Unknown s) = [s]"

definition render_line :: "cli_item list \<Rightarrow> string list" where
  "render_line items = concat (map render_item items)"

text \<open>The name is one the option has, and a joined value is not empty.\<close>

definition short_ok :: "'v cli_app \<Rightarrow> nat \<Rightarrow> string \<Rightarrow> bool" where
  "short_ok app i n \<longleftrightarrow> length n = 1 \<and> valid_first_char (n ! 0) \<and> find_option SHORT n app = Some i"

definition long_ok :: "'v cli_app \<Rightarrow> nat \<Rightarrow> string \<Rightarrow> bool" where
  "long_ok app i n \<longleftrightarrow> valid_name_string n \<and> find_option LONG n app = Some i"

definition style_ok :: "'v cli_app \<Rightarrow> nat \<Rightarrow> arg_style \<Rightarrow> string \<Rightarrow> string \<Rightarrow> bool" where
  "style_ok app i st n v \<longleftrightarrow>
     (case st of ShortSep \<Rightarrow> short_ok app i n | ShortJoined \<Rightarrow> short_ok app i n \<and> v \<noteq> []
      | LongSep \<Rightarrow> long_ok app i n | LongEq \<Rightarrow> long_ok app i n \<and> v \<noteq> [])"

definition unknown_ok :: "'v cli_app \<Rightarrow> string \<Rightarrow> bool" where
  "unknown_ok app s \<longleftrightarrow>
     (case recognize (ca_windows app) s of
        NONE \<Rightarrow> True
      | POSITIONAL_MARK \<Rightarrow> False
      | c \<Rightarrow> (case split_arg c s of Some (n, _) \<Rightarrow> find_option c n app = None | None \<Rightarrow> False))"

fun item_ok :: "'v cli_app \<Rightarrow> cli_item \<Rightarrow> bool" where
  "item_ok app (Given i st n v) \<longleftrightarrow> get_items_expected (ca_options app ! i) = 1 \<and> style_ok app i st n v"
| "item_ok app (ShortFlag i n) \<longleftrightarrow> get_items_expected (ca_options app ! i) = 0 \<and> short_ok app i n"
| "item_ok app (LongFlag i n) \<longleftrightarrow> get_items_expected (ca_options app ! i) = 0 \<and> long_ok app i n"
| "item_ok app (Unknown s) \<longleftrightarrow> unknown_ok app s"

fun apply_item :: "'v cli_app \<Rightarrow> cli_item \<Rightarrow> 'v cli_app" where
  "apply_item app (Given i st n v) = add_result i v app"
| "apply_item app (ShortFlag i n) = add_result i [] app"
| "apply_item app (LongFlag i n) = add_result i [] app"
| "apply_item app (Unknown s) = app\<lparr>ca_missing := ca_missing app @ [(recognize (ca_windows app) s, s)]\<rparr>"

subsection \<open>One item\<close>

lemma dash_not_first: "\<not> valid_first_char CHR ''-''"
  by (simp add: valid_first_char_def is_alpha_def)

lemma split_short_dash:
  "length n = 1 \<Longrightarrow> valid_first_char (n ! 0) \<Longrightarrow> split_short (CHR ''-'' # n @ r) = Some (n, r)"
  by (cases n) (auto simp: split_short_def)

lemma recognize_short:
  assumes "length n = 1" "valid_first_char (n ! 0)"
  shows "recognize w (CHR ''-'' # n @ r) = SHORT"
proof -
  obtain c where "n = [c]" "c \<noteq> CHR ''-''" using assms dash_not_first by (cases n) auto
  then show ?thesis using split_short_dash [OF assms, of r] by (simp add: recognize_def split_long_def)
qed

lemma equals_not_valid: "\<not> valid_first_char CHR ''=''" "\<not> valid_later_char CHR ''=''"
  by (simp_all add: valid_first_char_def valid_later_char_def is_alpha_def is_digit_def)

lemma name_no_equals:
  assumes "valid_name_string n"
  shows "CHR ''='' \<notin> set n"
proof (cases n)
  case (Cons c cs)
  with assms have "valid_first_char c" and "\<forall>x\<in>set cs. valid_later_char x" by (simp_all add: valid_name_string_def list_all_iff)
  then have "c \<noteq> CHR ''=''" and "CHR ''='' \<notin> set cs" using equals_not_valid by blast+
  then show ?thesis using Cons by simp
qed simp

lemma split_long_name:
  assumes "valid_name_string n"
  shows "split_long (CHR ''-'' # CHR ''-'' # n) = Some (n, [])"
    and "split_long (CHR ''-'' # CHR ''-'' # n @ CHR ''='' # v) = Some (n, v)"
proof -
  have t: "takeWhile (\<lambda>c. c \<noteq> CHR ''='') n = n" using name_no_equals [OF assms] by (auto simp: takeWhile_eq_all_conv)
  have u: "takeWhile (\<lambda>c. c \<noteq> CHR ''='') (n @ CHR ''='' # v) = n"
    using name_no_equals [OF assms] by (subst takeWhile_append2) auto
  have f: "n \<noteq> []" "valid_first_char (n ! 0)" using assms by (cases n; simp add: valid_name_string_def)+
  then have "(n @ CHR ''='' # v) ! 0 = n ! 0" by (simp add: nth_append)
  note f = f this
  show "split_long (CHR ''-'' # CHR ''-'' # n) = Some (n, [])"
    and "split_long (CHR ''-'' # CHR ''-'' # n @ CHR ''='' # v) = Some (n, v)"
    using f by (simp_all add: split_long_def Let_def t u eval_nat_numeral)
qed

lemma recognize_long:
  assumes "valid_name_string n"
  shows "recognize w (CHR ''-'' # CHR ''-'' # n) = LONG" and "recognize w (CHR ''-'' # CHR ''-'' # n @ CHR ''='' # v) = LONG"
proof -
  have "n \<noteq> []" using assms by (auto simp: valid_name_string_def)
  then show "recognize w (CHR ''-'' # CHR ''-'' # n) = LONG" "recognize w (CHR ''-'' # CHR ''-'' # n @ CHR ''='' # v) = LONG"
    using split_long_name [OF assms] by (simp_all add: recognize_def)
qed

lemma add_result_fields [simp]:
  "ca_windows (add_result i v app) = ca_windows app" "ca_missing (add_result i v app) = ca_missing app"
  "ca_help (add_result i v app) = ca_help app" "ca_allow_extras (add_result i v app) = ca_allow_extras app"
  "ca_prefix_command (add_result i v app) = ca_prefix_command app"
  "length (ca_options (add_result i v app)) = length (ca_options app)"
  by (simp_all add: add_result_def Let_def)

text \<open>An option with its value, by the number of values it expects.\<close>

lemma eat_one [simp]: "eat_fixed i 1 (v # args) app = (0, add_result i v app, args)"
  by (cases args) simp_all

lemma eat_none [simp]: "eat_fixed i 0 args app = (0, app, args)"
  by (cases args) simp_all

lemma parse_given:
  assumes "style_ok app i st n v" "get_items_expected (ca_options app ! i) = 1"
  shows "\<exists>c as. render_arg st n v = c # as \<and> parse_single False c (as @ args) app = Inr (False, add_result i v app, args)"
proof -
  have s: ?thesis if "st = ShortSep \<or> st = ShortJoined"
  proof -
    from that assms(1) have n: "length n = 1" "valid_first_char (n ! 0)" and f: "find_option SHORT n app = Some i"
      by (auto simp: style_ok_def short_ok_def)
    from that assms(1) have "st = ShortSep \<or> st = ShortJoined \<and> v \<noteq> []" by (auto simp: style_ok_def)
    then show ?thesis using recognize_short [OF n, of _ "[]"] recognize_short [OF n, of _ v] split_short_dash [OF n, of "[]"]
        split_short_dash [OF n, of v] f assms(2)
      by (elim disjE conjE) (simp_all add: parse_single_def parse_arg_def split_arg_def Let_def)
  qed
  have l: ?thesis if "st = LongSep \<or> st = LongEq"
  proof -
    from that assms(1) have n: "valid_name_string n" and f: "find_option LONG n app = Some i"
      by (auto simp: style_ok_def long_ok_def)
    from that assms(1) have "st = LongSep \<or> st = LongEq \<and> v \<noteq> []" by (auto simp: style_ok_def)
    then show ?thesis using recognize_long [OF n] split_long_name [OF n] f assms(2)
      by (elim disjE conjE) (simp_all add: parse_single_def parse_arg_def split_arg_def Let_def)
  qed
  show ?thesis using s l by (cases st) auto
qed

lemma parse_flag:
  assumes "get_items_expected (ca_options app ! i) = 0"
  shows "short_ok app i n \<Longrightarrow> parse_single False (''-'' @ n) args app = Inr (False, add_result i [] app, args)"
    and "long_ok app i n \<Longrightarrow> parse_single False (''--'' @ n) args app = Inr (False, add_result i [] app, args)"
  using assms recognize_short [of n _ "[]"] split_short_dash [of n "[]"] recognize_long [of n] split_long_name [of n]
  by (simp_all add: short_ok_def long_ok_def parse_single_def parse_arg_def split_arg_def Let_def)

text \<open>A program of which every option is a flag or takes one value, before it has parsed anything.\<close>

definition plain_option :: "'v cli_option \<Rightarrow> bool" where
  "plain_option opt \<longleftrightarrow> co_policy opt = Throw \<and> (co_type_size opt = 0 \<or> co_type_size opt = 1) \<and> co_expected opt = 1 \<and>
     co_pname opt = [] \<and> \<not> co_required opt"

definition plain_app :: "'v cli_app \<Rightarrow> bool" where
  "plain_app app \<longleftrightarrow> \<not> ca_allow_extras app \<and> \<not> ca_prefix_command app \<and> list_all plain_option (ca_options app) \<and>
     (\<forall>h. ca_help app = Some h \<longrightarrow> h < length (ca_options app))"

definition fresh_app :: "'v cli_app \<Rightarrow> bool" where
  "fresh_app app \<longleftrightarrow> ca_missing app = [] \<and> list_all (\<lambda>opt. co_results opt = [] \<and> \<not> co_callback_run opt) (ca_options app)"

lemma plain_items: "plain_option opt \<Longrightarrow> get_items_expected opt = co_type_size opt"
  by (auto simp: plain_option_def get_items_expected_def)

lemma find_index_none: "find_index P xs = None \<longleftrightarrow> (\<forall>x\<in>set xs. \<not> P x)"
  by (induction xs) auto

lemma find_index_map: "find_index P xs = find_index (\<lambda>b. b) (map P xs)"
  by (induction xs) auto

lemma find_index_bound: "find_index P xs = Some i \<Longrightarrow> i < length xs"
  by (induction xs arbitrary: i) (auto split: if_splits)

lemma parse_unknown:
  assumes "unknown_ok app s" "plain_app app"
  shows "parse_single False s args app = Inr (False, apply_item app (Unknown s), args)"
proof (cases "recognize (ca_windows app) s")
  case NONE
  have "find_index (\<lambda>opt. get_positional opt \<and> (int (opt_count opt) < get_items_expected opt \<or> get_items_expected opt < 0))
      (ca_options app) = None"
    using assms(2) by (auto simp: find_index_none plain_app_def plain_option_def list_all_iff get_positional_def)
  then show ?thesis using NONE assms(2) by (simp add: parse_single_def parse_positional_def plain_app_def)
qed (use assms in \<open>auto simp: unknown_ok_def parse_single_def parse_arg_def split: option.splits\<close>)

subsection \<open>Items do not disturb each other\<close>

lemma add_result_nth:
  assumes "\<And>opt s. f (opt\<lparr>co_results := s, co_callback_run := False\<rparr>) = f opt"
  shows "f (ca_options (add_result i v app) ! j) = f (ca_options app ! j)"
proof (cases "i < length (ca_options app)")
  case True
  then show ?thesis using assms by (simp add: add_result_def Let_def nth_list_update)
next
  case False
  then show ?thesis by (simp add: add_result_def Let_def list_update_beyond)
qed

lemma add_result_map:
  assumes "\<And>opt s. f (opt\<lparr>co_results := s, co_callback_run := False\<rparr>) = f opt"
  shows "map f (ca_options (add_result i v app)) = map f (ca_options app)"
  by (rule nth_equalityI) (simp_all add: add_result_nth [of f] assms)

lemma find_option_add [simp]: "find_option t n (add_result i v app) = find_option t n app"
  unfolding find_option_def
  by (subst (1 2) find_index_map, subst add_result_map) (auto simp: check_lname_def check_sname_def)

lemma items_expected_add [simp]:
  "get_items_expected (ca_options (add_result i v app) ! j) = get_items_expected (ca_options app ! j)"
  by (rule add_result_nth) (simp add: get_items_expected_def)

lemma find_option_item [simp]: "find_option t n (apply_item app it) = find_option t n app"
  by (cases it) (simp_all add: find_option_def [of _ _ "app\<lparr>ca_missing := _\<rparr>"] find_option_def [of _ _ app, symmetric])

lemma items_expected_item [simp]:
  "get_items_expected (ca_options (apply_item app it) ! j) = get_items_expected (ca_options app ! j)"
  by (cases it) simp_all

lemma apply_item_fields [simp]:
  "ca_windows (apply_item app it) = ca_windows app" "ca_help (apply_item app it) = ca_help app"
  "ca_allow_extras (apply_item app it) = ca_allow_extras app"
  "ca_prefix_command (apply_item app it) = ca_prefix_command app"
  "length (ca_options (apply_item app it)) = length (ca_options app)"
  by (cases it; simp)+

lemma item_ok_item [simp]: "item_ok (apply_item app it) jt \<longleftrightarrow> item_ok app jt"
  by (cases jt) (auto simp: style_ok_def short_ok_def long_ok_def unknown_ok_def split: arg_style.splits classifier.splits option.splits)

lemma list_all_map: "list_all P xs \<longleftrightarrow> list_all (\<lambda>b. b) (map P xs)"
  by (induction xs) simp_all

lemma plain_item [simp]: "plain_app (apply_item app it) \<longleftrightarrow> plain_app app"
proof -
  have "map plain_option (ca_options (apply_item app it)) = map plain_option (ca_options app)"
    by (cases it) (simp_all add: add_result_map [of plain_option] plain_option_def)
  then have "list_all plain_option (ca_options (apply_item app it)) = list_all plain_option (ca_options app)"
    by (simp add: list_all_map [of plain_option])
  then show ?thesis by (simp add: plain_app_def)
qed

text \<open>The loop does what the items say, one after the other.\<close>

lemma parse_loop_line:
  assumes "plain_app app" "list_all (item_ok app) items"
  shows "parse_loop False (render_line items) app = Inr (foldl apply_item app items)"
  using assms
proof (induction items arbitrary: app)
  case Nil then show ?case by (simp add: render_line_def)
next
  case (Cons it items)
  have r: "render_line (it # items) = render_item it @ render_line items" by (simp add: render_line_def)
  have "\<exists>c as. render_item it = c # as \<and>
      parse_single False c (as @ render_line items) app = Inr (False, apply_item app it, render_line items)"
    using Cons.prems parse_given [of app _ _ _ _ "render_line items"] parse_flag [of app] parse_unknown [of app]
    by (cases it) simp_all
  then have "parse_loop False (render_line (it # items)) app = parse_loop False (render_line items) (apply_item app it)"
    unfolding r by auto
  then show ?case using Cons by (simp add: list_all_iff)
qed

subsection \<open>What a line means\<close>

fun item_results :: "nat \<Rightarrow> cli_item \<Rightarrow> string list" where
  "item_results j (Given i st n v) = (if i = j then [v] else [])"
| "item_results j (ShortFlag i n) = (if i = j then [[]] else [])"
| "item_results j (LongFlag i n) = (if i = j then [[]] else [])"
| "item_results j (Unknown s) = []"

fun item_unknown :: "cli_item \<Rightarrow> string list" where
  "item_unknown (Unknown s) = [s]"
| "item_unknown _ = []"

definition results_of :: "cli_item list \<Rightarrow> nat \<Rightarrow> string list" where
  "results_of items j = concat (map (item_results j) items)"

definition unknowns_of :: "cli_item list \<Rightarrow> string list" where
  "unknowns_of items = concat (map item_unknown items)"

definition option_outcome :: "'v cli_option \<Rightarrow> string list \<Rightarrow> cli_error + 'v list" where
  "option_outcome opt texts =
     (if texts = [] then Inr []
      else if co_type_size opt = 1 \<and> length texts \<noteq> 1 then Inl ArgumentMismatch
      else case co_callback opt texts of None \<Rightarrow> Inl ConversionError | Some vs \<Rightarrow> Inr vs)"

fun first_error :: "('e + 'v list) list \<Rightarrow> 'e + 'v list" where
  "first_error [] = Inr []"
| "first_error (Inl e # rs) = Inl e"
| "first_error (Inr vs # rs) = map_sum id ((@) vs) (first_error rs)"

definition help_asked :: "'v cli_app \<Rightarrow> cli_item list \<Rightarrow> bool" where
  "help_asked app items \<longleftrightarrow> (case ca_help app of Some h \<Rightarrow> results_of items h \<noteq> [] | None \<Rightarrow> False)"

definition line_outcome :: "'v cli_app \<Rightarrow> cli_item list \<Rightarrow> cli_error + 'v list" where
  "line_outcome app items =
     (case first_error (map (\<lambda>j. option_outcome (ca_options app ! j) (results_of items j)) [0 ..< length (ca_options app)]) of
        Inl e \<Rightarrow> Inl e
      | Inr vs \<Rightarrow>
          if help_asked app items then Inl CallForHelp
          else if unknowns_of items \<noteq> [] then Inl (ExtrasError (unknowns_of items))
          else Inr vs)"

lemma results_of_simps [simp]:
  "results_of [] j = []" "results_of (it # items) j = item_results j it @ results_of items j"
  "unknowns_of [] = []" "unknowns_of (it # items) = item_unknown it @ unknowns_of items"
  by (simp_all add: results_of_def unknowns_of_def)

subsection \<open>The parser computes it\<close>

lemma line_options:
  assumes "j < length (ca_options app)"
  shows "co_results (ca_options (foldl apply_item app items) ! j) = co_results (ca_options app ! j) @ results_of items j"
  using assms
proof (induction items arbitrary: app)
  case (Cons it items)
  have "co_results (ca_options (apply_item app it) ! j) = co_results (ca_options app ! j) @ item_results j it"
    using Cons.prems by (cases it) (auto simp: add_result_def Let_def nth_list_update)
  then show ?case using Cons by simp
qed simp

lemma line_keeps:
  assumes "\<And>opt s. f (opt\<lparr>co_results := s, co_callback_run := False\<rparr>) = f opt"
  shows "map f (ca_options (foldl apply_item app items)) = map f (ca_options app)"
proof (induction items arbitrary: app)
  case (Cons it items)
  have "map f (ca_options (apply_item app it)) = map f (ca_options app)"
    using add_result_map [of f] assms by (cases it) simp_all
  then show ?case using Cons by simp
qed simp

lemma line_not_run:
  "list_all (\<lambda>opt. \<not> co_callback_run opt) (ca_options app) \<Longrightarrow>
     list_all (\<lambda>opt. \<not> co_callback_run opt) (ca_options (foldl apply_item app items))"
proof (induction items arbitrary: app)
  case (Cons it items)
  have "list_all (\<lambda>opt. \<not> co_callback_run opt) (ca_options (apply_item app it))"
    using Cons.prems by (cases it) (auto simp: add_result_def Let_def list_all_iff dest!: subsetD [OF set_update_subset_insert])
  then show ?case using Cons by simp
qed simp

lemma line_missing:
  "\<exists>cs. length cs = length (unknowns_of items) \<and> ca_missing (foldl apply_item app items) = ca_missing app @ zip cs (unknowns_of items)
     \<and> (list_all (item_ok app) items \<longrightarrow> POSITIONAL_MARK \<notin> set cs)"
proof (induction items arbitrary: app)
  case (Cons it items)
  obtain cs where cs: "length cs = length (unknowns_of items)"
    "ca_missing (foldl apply_item (apply_item app it) items) = ca_missing (apply_item app it) @ zip cs (unknowns_of items)"
    "list_all (item_ok app) items \<Longrightarrow> POSITIONAL_MARK \<notin> set cs"
    using Cons.IH [of "apply_item app it"] by (auto simp: list_all_iff)
  show ?case
  proof (cases it)
    case (Unknown s)
    have "item_ok app it \<Longrightarrow> recognize (ca_windows app) s \<noteq> POSITIONAL_MARK" using Unknown by (auto simp: unknown_ok_def)
    then show ?thesis using cs Unknown by (intro exI [of _ "recognize (ca_windows app) s # cs"]) auto
  qed (use cs in auto)
qed simp

lemma plain_callbacks:
  assumes "list_all plain_option opts" "list_all (\<lambda>opt. \<not> co_callback_run opt) opts"
  shows "case first_error (map (\<lambda>opt. option_outcome opt (co_results opt)) opts) of
      Inl e \<Rightarrow> process_callbacks opts = Inl e
    | Inr vs \<Rightarrow> \<exists>opts'. process_callbacks opts = Inr (vs, opts') \<and> map co_results opts' = map co_results opts \<and>
        list_all plain_option opts'"
  using assms
proof (induction opts)
  case (Cons opt opts)
  have plain: "plain_option opt" "plain_option (opt\<lparr>co_callback_run := True\<rparr>)" using Cons.prems by (simp_all add: plain_option_def)
  have r: "run_callback opt = option_outcome opt (co_results opt)" if "co_results opt \<noteq> []"
    using that plain(1) plain_items [OF plain(1)] by (auto simp: run_callback_def option_outcome_def plain_option_def Let_def)
  show ?case
    using Cons plain r
    by (cases "co_results opt = []"; cases "option_outcome opt (co_results opt)";
        cases "first_error (map (\<lambda>opt. option_outcome opt (co_results opt)) opts)")
      (auto simp: option_outcome_def [of opt "[]"] opt_count_def)
qed simp

lemma plain_requirements: "list_all plain_option opts \<Longrightarrow> process_requirements opts = None"
proof (induction opts)
  case (Cons opt opts)
  then show ?case using plain_items [of opt] by (auto simp: plain_option_def)
qed simp

lemma line_outcomes:
  assumes "fresh_app app"
  shows "map (\<lambda>opt. option_outcome opt (co_results opt)) (ca_options (foldl apply_item app items)) =
    map (\<lambda>j. option_outcome (ca_options app ! j) (results_of items j)) [0 ..< length (ca_options app)]"
proof (rule nth_equalityI)
  let ?opts = "ca_options (foldl apply_item app items)"
  have t: "map co_type_size ?opts = map co_type_size (ca_options app)" and
    c: "map co_callback ?opts = map co_callback (ca_options app)" by (rule line_keeps; simp)+
  from t have len: "length ?opts = length (ca_options app)" by (metis length_map)
  then show "length (map (\<lambda>opt. option_outcome opt (co_results opt)) ?opts) =
    length (map (\<lambda>j. option_outcome (ca_options app ! j) (results_of items j)) [0 ..< length (ca_options app)])" by simp
  fix j assume "j < length (map (\<lambda>opt. option_outcome opt (co_results opt)) ?opts)"
  then have j: "j < length ?opts" "j < length (ca_options app)" by (simp_all add: len)
  have "co_type_size (?opts ! j) = co_type_size (ca_options app ! j)" "co_callback (?opts ! j) = co_callback (ca_options app ! j)"
    using t c j by (metis nth_map)+
  then show "map (\<lambda>opt. option_outcome opt (co_results opt)) ?opts ! j =
      map (\<lambda>j. option_outcome (ca_options app ! j) (results_of items j)) [0 ..< length (ca_options app)] ! j"
    using j line_options [OF j(2), of items] assms by (simp add: option_outcome_def fresh_app_def list_all_length)
qed

lemma plain_line: "plain_app app \<Longrightarrow> plain_app (foldl apply_item app items)"
  by (induction items arbitrary: app) auto

lemma line_fields [simp]:
  "ca_help (foldl apply_item app items) = ca_help app" "length (ca_options (foldl apply_item app items)) = length (ca_options app)"
  by (induction items arbitrary: app) simp_all

text \<open>What is left over, and whether help was asked for.\<close>

lemma line_extras:
  assumes "plain_app app" "fresh_app app" "list_all (item_ok app) items"
  shows "process_extras ((foldl apply_item app items)\<lparr>ca_options := opts\<rparr>) =
    (if unknowns_of items = [] then None else Some (ExtrasError (unknowns_of items)))"
proof -
  let ?app = "foldl apply_item app items"
  obtain cs where cs: "length cs = length (unknowns_of items)" "ca_missing ?app = zip cs (unknowns_of items)" "POSITIONAL_MARK \<notin> set cs"
    using line_missing [of items app] assms(2,3) by (auto simp: fresh_app_def)
  have "filter (\<lambda>(c, _). c \<noteq> POSITIONAL_MARK) (zip cs (unknowns_of items)) = zip cs (unknowns_of items)"
    using cs(3) by (auto simp: filter_id_conv dest!: set_zip_leftD)
  then show ?thesis
    using cs(1,2) plain_line [OF assms(1), of items] by (simp add: process_extras_def remaining_def remaining_size_def plain_app_def)
qed

lemma line_help:
  assumes "plain_app app" "fresh_app app" "map co_results opts = map co_results (ca_options (foldl apply_item app items))"
  shows "process_help_flags ((foldl apply_item app items)\<lparr>ca_options := opts\<rparr>) =
    (if help_asked app items then Some CallForHelp else None)"
proof (cases "ca_help app")
  case (Some h)
  let ?app = "foldl apply_item app items"
  have h: "h < length (ca_options app)" using Some assms(1) by (simp add: plain_app_def)
  have "length opts = length (ca_options app)" using arg_cong [OF assms(3), of length] by simp
  then have "co_results (opts ! h) = co_results (ca_options ?app ! h)"
    using h nth_map [of h opts co_results] nth_map [of h "ca_options ?app" co_results] assms(3) by simp
  also have "\<dots> = results_of items h" using line_options [OF h, of items] assms(2) h by (simp add: fresh_app_def list_all_length)
  finally show ?thesis using Some by (simp add: process_help_flags_def help_asked_def opt_count_def)
qed (simp add: process_help_flags_def help_asked_def)

lemma parse_plain_line:
  assumes "plain_app app" "fresh_app app" "list_all (item_ok app) items"
  shows "map_sum id fst (parse_argv (prog # render_line items) app) = line_outcome app items"
proof -
  let ?app = "foldl apply_item app items"
  have "filter (\<lambda>opt. get_items_expected opt < 0 \<and> get_positional opt) (ca_options app) = []"
    using assms(1) by (auto simp: filter_empty_conv plain_app_def plain_option_def list_all_iff get_positional_def)
  then have valid: "validate_app app" by (simp add: validate_app_def)
  have plain: "list_all plain_option (ca_options ?app)" using plain_line [OF assms(1)] by (simp add: plain_app_def)
  have run: "list_all (\<lambda>opt. \<not> co_callback_run opt) (ca_options ?app)"
    using assms(2) by (intro line_not_run) (simp add: fresh_app_def list_all_iff)
  have step: "parse_argv (prog # render_line items) app = (case process_app ?app of
       Inl e \<Rightarrow> Inl e | Inr (vs, app2) \<Rightarrow> (case process_extras app2 of Some e \<Rightarrow> Inl e | None \<Rightarrow> Inr (vs, app2)))"
    using valid parse_loop_line [OF assms(1,3)] by (simp add: parse_argv_def parse_args_def)
  show ?thesis
  proof (cases "first_error (map (\<lambda>opt. option_outcome opt (co_results opt)) (ca_options ?app))")
    case (Inl e)
    then have "process_callbacks (ca_options ?app) = Inl e" using plain_callbacks [OF plain run] by simp
    then show ?thesis unfolding step line_outcome_def line_outcomes [OF assms(2), symmetric] Inl by (simp add: process_app_def)
  next
    case (Inr vs)
    then obtain opts where cb: "process_callbacks (ca_options ?app) = Inr (vs, opts)"
      "map co_results opts = map co_results (ca_options ?app)" "list_all plain_option opts"
      using plain_callbacks [OF plain run] by auto
    show ?thesis
      unfolding step line_outcome_def line_outcomes [OF assms(2), symmetric] Inr
      using cb(1) line_help [OF assms(1,2) cb(2)] line_extras [OF assms, of opts] plain_requirements [OF cb(3)]
      by (simp add: process_app_def)
  qed
qed

end
