(* ===== verification/Config.thy ===== *)
theory Config
  imports Strings
begin

text \<open>
  The configuration of a relay (src/src/relay/RelayConfig.hpp) with its default member values, and
  the choice of a node identifier from it (src/src/p2p/DAEService.hpp). \<open>shuffle_P\<close>, a binary64
  probability that the program only ever multiplies by \<open>RAND_MAX\<close> and compares with a value of
  \<open>rand()\<close>, is kept as the integer part of that product; the conversion from the text of the
  configuration file to that integer is the argument \<open>stod_bound\<close>. The command line enters as the
  options that were parsed from it.
\<close>

record peer_pair =
  pp_ip :: ip_addr
  pp_port :: int
  pp_relay_id :: ring_id
  pp_check_usage :: bool

type_synonym msg_info = "int \<times> int"

record relay_config =
  cf_relay_ip :: ip_addr
  cf_relay_port :: int
  cf_standalone :: bool
  cf_debug_shuffle :: bool
  cf_shuffle :: string
  cf_init_peers :: peer_pair
  cf_ring_bits :: int
  cf_daemon :: int
  cf_debug :: int
  cf_is_server :: bool
  cf_msg_rate :: int
  cf_min_pool :: int
  cf_bt_time :: int
  cf_cnt_interval :: int
  cf_shuffle_bound :: int
  cf_recheck :: int
  cf_checkwait :: int
  cf_d_p2p_time_before :: int
  cf_d_p2p_time_after :: int
  cf_send_dummy :: int
  cf_check_failure :: int
  cf_relay_id :: ring_id
  cf_max_relay_id :: ring_id
  cf_session :: int
  cf_transmission :: string
  cf_seed :: int

text \<open>The default member initialisers; \<open>seed\<close> has none, its first value is an argument.\<close>

definition RelayConfig :: "int \<Rightarrow> relay_config" where
  "RelayConfig seed0 = \<lparr>
     cf_relay_ip = ''0.0.0.0'', cf_relay_port = 3010, cf_standalone = False, cf_debug_shuffle = False,
     cf_shuffle = ''shuffle'',
     cf_init_peers = \<lparr>pp_ip = ''10.22.1.16'', pp_port = 3010, pp_relay_id = 0,
                      pp_check_usage = True\<rparr>,
     cf_ring_bits = 10, cf_daemon = 0, cf_debug = 0, cf_is_server = False, cf_msg_rate = 10, cf_min_pool = 10,
     cf_bt_time = 10, cf_cnt_interval = 1, cf_shuffle_bound = 1717986917, cf_recheck = 10,
     cf_checkwait = 2, cf_d_p2p_time_before = 10, cf_d_p2p_time_after = 1, cf_send_dummy = 0,
     cf_check_failure = 0, cf_relay_id = 0, cf_max_relay_id = 0, cf_session = 0,
     cf_transmission = '''', cf_seed = seed0\<rparr>"

text \<open>
  \<open>get_dae_node_id\<close>: the configured identifier in debug mode, else a value of
  \<open>randombytes_random()\<close> reduced modulo \<open>max_relay_id\<close> in 64 bits, narrowed to an \<open>int\<close> and widened
  again. A modulus of zero is undefined.
\<close>

definition get_dae_node_id :: "relay_config \<Rightarrow> u32 \<Rightarrow> ring_id option" where
  "get_dae_node_id config rnd =
     (if cf_debug config \<noteq> 0 then Some (cf_relay_id config)
      else if cf_max_relay_id config = 0 then None
      else Some (scast (ucast ((ucast rnd :: u64) mod cf_max_relay_id config) :: u32)))"

subsection \<open>The configuration file\<close>

text \<open>One key with its value. \<open>None\<close> is an exception of \<open>std::stoi\<close> or \<open>std::stod\<close>; an unknown key
  changes nothing.\<close>

definition config_entry ::
  "(string \<Rightarrow> int option) \<Rightarrow> relay_config \<Rightarrow> string \<Rightarrow> string \<Rightarrow> relay_config option" where
  "config_entry stod_bound c key val =
     (if key = ''peer_ip'' then Some (c\<lparr>cf_init_peers := (cf_init_peers c)\<lparr>pp_ip := val\<rparr>\<rparr>)
      else if key = ''peer_port'' then
        map_option (\<lambda>v. c\<lparr>cf_init_peers := (cf_init_peers c)\<lparr>pp_port := v\<rparr>\<rparr>) (stoi val)
      else if key = ''debug'' then Some (c\<lparr>cf_debug := 1\<rparr>)
      else if key = ''key'' then map_option (\<lambda>v. c\<lparr>cf_relay_id := word_of_int v\<rparr>) (stoi val)
      else if key = ''m'' then map_option (\<lambda>v. c\<lparr>cf_ring_bits := v\<rparr>) (stoi val)
      else if key = ''session'' then map_option (\<lambda>v. c\<lparr>cf_session := v\<rparr>) (stoi val)
      else if key = ''transmission'' then Some (c\<lparr>cf_transmission := val\<rparr>)
      else if key = ''seed'' then map_option (\<lambda>v. c\<lparr>cf_seed := v\<rparr>) (stoi val)
      else if key = ''server'' then Some (c\<lparr>cf_is_server := True\<rparr>)
      else if key = ''msg_rate'' then map_option (\<lambda>v. c\<lparr>cf_msg_rate := v\<rparr>) (stoi val)
      else if key = ''pool_size'' then map_option (\<lambda>v. c\<lparr>cf_min_pool := v\<rparr>) (stoi val)
      else if key = ''bt_time'' then map_option (\<lambda>v. c\<lparr>cf_bt_time := v\<rparr>) (stoi val)
      else if key = ''debug_shuffle'' then Some (c\<lparr>cf_debug_shuffle := True\<rparr>)
      else if key = ''shuffle'' then Some (c\<lparr>cf_shuffle := val\<rparr>)
      else if key = ''cnt_time'' then map_option (\<lambda>v. c\<lparr>cf_cnt_interval := v\<rparr>) (stoi val)
      else if key = ''shuffle_P'' then map_option (\<lambda>v. c\<lparr>cf_shuffle_bound := v\<rparr>) (stod_bound val)
      else if key = ''recheck'' then map_option (\<lambda>v. c\<lparr>cf_recheck := v\<rparr>) (stoi val)
      else if key = ''checkwait'' then map_option (\<lambda>v. c\<lparr>cf_checkwait := v\<rparr>) (stoi val)
      else if key = ''p2p_time_before'' then
        map_option (\<lambda>v. c\<lparr>cf_d_p2p_time_before := v\<rparr>) (stoi val)
      else if key = ''p2p_time_after'' then
        map_option (\<lambda>v. c\<lparr>cf_d_p2p_time_after := v\<rparr>) (stoi val)
      else if key = ''send_dummy'' then map_option (\<lambda>v. c\<lparr>cf_send_dummy := v\<rparr>) (stoi val)
      else if key = ''check_failure'' then map_option (\<lambda>v. c\<lparr>cf_check_failure := v\<rparr>) (stoi val)
      else Some c)"

text \<open>The loop reads two tokens at a time; a last key without a value is dropped.\<close>

fun config_entries ::
  "(string \<Rightarrow> int option) \<Rightarrow> relay_config \<Rightarrow> string list \<Rightarrow> relay_config option" where
  "config_entries stod_bound c (key # val # ts) = do {
     c' \<leftarrow> config_entry stod_bound c key val;
     config_entries stod_bound c' ts }"
| "config_entries stod_bound c ts = Some c"

definition read_from_file ::
  "(string \<Rightarrow> int option) \<Rightarrow> int \<Rightarrow> string \<Rightarrow> relay_config option" where
  "read_from_file stod_bound seed0 file = do {
     c \<leftarrow> config_entries stod_bound (RelayConfig seed0) (tokens file);
     bits \<leftarrow> shl_one (cf_ring_bits c);
     Some (c\<lparr>cf_max_relay_id := word_of_int bits\<rparr>) }"

subsection \<open>The command line\<close>

text \<open>An option with its value, in the order of the calls of \<open>add_option\<close>.\<close>

datatype cmd_option =
    OptIp string
  | OptPort int
  | OptKey int
  | OptKeyRange int
  | OptDaemon int
  | OptPeerIp string
  | OptPeerPort int
  | OptStandalone bool
  | OptDebug int
  | OptMsgRate int
  | OptPoolSize int
  | OptBtTime int
  | OptCntTime int
  | OptDebugShuffle bool
  | OptShuffleP int
  | OptRecheck int
  | OptCheckwait int
  | OptTimeBefore int
  | OptTimeAfter int
  | OptCheckFailure int
  | OptSendDummy int

text \<open>The variable an option is bound to; the key goes to the local \<open>debug_int_relay_id\<close>.\<close>

fun cmd_set :: "int \<times> relay_config \<Rightarrow> cmd_option \<Rightarrow> int \<times> relay_config" where
  "cmd_set (k, c) (OptIp s) = (k, c\<lparr>cf_relay_ip := s\<rparr>)"
| "cmd_set (k, c) (OptPort v) = (k, c\<lparr>cf_relay_port := v\<rparr>)"
| "cmd_set (k, c) (OptKey v) = (v, c)"
| "cmd_set (k, c) (OptKeyRange v) = (k, c\<lparr>cf_ring_bits := v\<rparr>)"
| "cmd_set (k, c) (OptDaemon v) = (k, c\<lparr>cf_daemon := v\<rparr>)"
| "cmd_set (k, c) (OptPeerIp s) = (k, c\<lparr>cf_init_peers := (cf_init_peers c)\<lparr>pp_ip := s\<rparr>\<rparr>)"
| "cmd_set (k, c) (OptPeerPort v) = (k, c\<lparr>cf_init_peers := (cf_init_peers c)\<lparr>pp_port := v\<rparr>\<rparr>)"
| "cmd_set (k, c) (OptStandalone b) = (k, c\<lparr>cf_standalone := b\<rparr>)"
| "cmd_set (k, c) (OptDebug v) = (k, c\<lparr>cf_debug := v\<rparr>)"
| "cmd_set (k, c) (OptMsgRate v) = (k, c\<lparr>cf_msg_rate := v\<rparr>)"
| "cmd_set (k, c) (OptPoolSize v) = (k, c\<lparr>cf_min_pool := v\<rparr>)"
| "cmd_set (k, c) (OptBtTime v) = (k, c\<lparr>cf_bt_time := v\<rparr>)"
| "cmd_set (k, c) (OptCntTime v) = (k, c\<lparr>cf_cnt_interval := v\<rparr>)"
| "cmd_set (k, c) (OptDebugShuffle b) = (k, c\<lparr>cf_debug_shuffle := b\<rparr>)"
| "cmd_set (k, c) (OptShuffleP v) = (k, c\<lparr>cf_shuffle_bound := v\<rparr>)"
| "cmd_set (k, c) (OptRecheck v) = (k, c\<lparr>cf_recheck := v\<rparr>)"
| "cmd_set (k, c) (OptCheckwait v) = (k, c\<lparr>cf_checkwait := v\<rparr>)"
| "cmd_set (k, c) (OptTimeBefore v) = (k, c\<lparr>cf_d_p2p_time_before := v\<rparr>)"
| "cmd_set (k, c) (OptTimeAfter v) = (k, c\<lparr>cf_d_p2p_time_after := v\<rparr>)"
| "cmd_set (k, c) (OptCheckFailure v) = (k, c\<lparr>cf_check_failure := v\<rparr>)"
| "cmd_set (k, c) (OptSendDummy v) = (k, c\<lparr>cf_send_dummy := v\<rparr>)"

text \<open>\<open>key0\<close> is what the uninitialised local holds; \<open>None\<close> as the options is the exception of a command line that
  does not parse, which nothing catches.\<close>

definition init_from_cmd :: "int \<Rightarrow> int \<Rightarrow> cmd_option list option \<Rightarrow> relay_config option" where
  "init_from_cmd key0 seed0 parsed = do {
     opts \<leftarrow> parsed;
     let (k, c) = foldl cmd_set (key0, RelayConfig seed0) opts;
     bits \<leftarrow> shl_one (cf_ring_bits c);
     Some (c\<lparr>cf_relay_id := word_of_int k, cf_max_relay_id := word_of_int bits\<rparr>) }"

subsection \<open>Writing a configuration file\<close>

definition render :: "(string \<times> string) list \<Rightarrow> string" where
  "render kvs = concat (map (\<lambda>(k, v). k @ '' '' @ v @ [CHR 0x0A]) kvs)"

definition token_ok :: "string \<Rightarrow> bool" where
  "token_ok s \<longleftrightarrow> s \<noteq> [] \<and> list_all (\<lambda>c. \<not> is_space c) s"

fun apply_entries ::
  "(string \<Rightarrow> int option) \<Rightarrow> relay_config \<Rightarrow> (string \<times> string) list \<Rightarrow> relay_config option" where
  "apply_entries stod_bound c [] = Some c"
| "apply_entries stod_bound c (kv # kvs) = do {
     c' \<leftarrow> config_entry stod_bound c (fst kv) (snd kv);
     apply_entries stod_bound c' kvs }"

lemma tokens_render:
  "list_all (\<lambda>(k, v). token_ok k \<and> token_ok v) kvs \<Longrightarrow> tokens (render kvs) = concat (map (\<lambda>(k, v). [k, v]) kvs)"
  by (induction kvs) (auto simp: render_def token_ok_def tokens_line is_space_def)

lemma config_entries_pairs:
  "config_entries stod_bound c (concat (map (\<lambda>(k, v). [k, v]) kvs)) = apply_entries stod_bound c kvs"
  by (induction kvs arbitrary: c) (auto split: bind_split)

lemma to_string_token: "token_ok (to_string n)"
  using to_string_digits [of n] to_string_nonempty [of n] digit_no_sign
  by (auto simp: token_ok_def list_all_iff)

text \<open>
  A configuration file is read as written: for keys and values without white space the settings of
  the file are applied line by line, so the last line for a key wins and an unknown key changes
  nothing, and the size of the identifier space is two to the number of ring bits. With 31 bits
  the shift of an \<open>int\<close> gives the sign bit, which widens to \<open>2 ^ 64 - 2 ^ 31\<close>, and beyond it is undefined.
\<close>

theorem config_file_read:
  assumes "list_all (\<lambda>(k, v). token_ok k \<and> token_ok v) kvs"
    and "apply_entries stod_bound (RelayConfig seed0) kvs = Some c"
  shows "read_from_file stod_bound seed0 (render kvs) =
    (if 0 \<le> cf_ring_bits c \<and> cf_ring_bits c < 31
     then Some (c\<lparr>cf_max_relay_id := 2 ^ nat (cf_ring_bits c)\<rparr>)
     else if cf_ring_bits c = 31 then Some (c\<lparr>cf_max_relay_id := 0xFFFFFFFF80000000\<rparr>) else None)"
  using assms by (auto simp: read_from_file_def tokens_render config_entries_pairs shl_one_def)

theorem config_file_read_witness:
  "read_from_file (\<lambda>_. None) 0 (render [(''m'', ''8''), (''peer_ip'', ''10.0.0.9''), (''colour'', ''red''),
     (''m'', to_string 12)]) =
   Some ((RelayConfig 0)\<lparr>cf_init_peers := (cf_init_peers (RelayConfig 0))\<lparr>pp_ip := ''10.0.0.9''\<rparr>,
     cf_ring_bits := 12, cf_max_relay_id := 4096\<rparr>)"
proof -
  have "stoi ''8'' = Some 8" by (simp add: stoi_def is_space_def is_digit_def digits_val_def digit_val_def c_int_def)
  then have "apply_entries (\<lambda>_. None) (RelayConfig 0) [(''m'', ''8''), (''peer_ip'', ''10.0.0.9''),
      (''colour'', ''red''), (''m'', to_string 12)] =
    Some ((RelayConfig 0)\<lparr>cf_init_peers := (cf_init_peers (RelayConfig 0))\<lparr>pp_ip := ''10.0.0.9''\<rparr>, cf_ring_bits := 12\<rparr>)"
    by (simp add: config_entry_def stoi_to_string RelayConfig_def)
  from config_file_read [OF _ this] show ?thesis
    by (simp add: to_string_token) (simp add: token_ok_def is_space_def)
qed

subsection \<open>The command line and the file\<close>

text \<open>
  The line of a configuration file for an option that both have, with a value the file can hold. The probability
  \<open>shuffle_P\<close> is left out: the command line converts its text with \<open>std::stold\<close> and the file with \<open>std::stod\<close>,
  both of them arguments of the model.
\<close>

definition int_entry :: "string \<Rightarrow> int \<Rightarrow> (string \<times> string) option" where
  "int_entry key v = (if 0 \<le> v \<and> v < 2 ^ 31 then Some (key, to_string (nat v)) else None)"

fun cmd_entry :: "cmd_option \<Rightarrow> (string \<times> string) option" where
  "cmd_entry (OptKey v) = int_entry ''key'' v"
| "cmd_entry (OptKeyRange v) = int_entry ''m'' v"
| "cmd_entry (OptPeerIp s) = (if token_ok s then Some (''peer_ip'', s) else None)"
| "cmd_entry (OptPeerPort v) = int_entry ''peer_port'' v"
| "cmd_entry (OptDebug v) = int_entry ''debug'' v"
| "cmd_entry (OptMsgRate v) = int_entry ''msg_rate'' v"
| "cmd_entry (OptPoolSize v) = int_entry ''pool_size'' v"
| "cmd_entry (OptBtTime v) = int_entry ''bt_time'' v"
| "cmd_entry (OptCntTime v) = int_entry ''cnt_time'' v"
| "cmd_entry (OptDebugShuffle b) = int_entry ''debug_shuffle'' (if b then 1 else 0)"
| "cmd_entry (OptRecheck v) = int_entry ''recheck'' v"
| "cmd_entry (OptCheckwait v) = int_entry ''checkwait'' v"
| "cmd_entry (OptTimeBefore v) = int_entry ''p2p_time_before'' v"
| "cmd_entry (OptTimeAfter v) = int_entry ''p2p_time_after'' v"
| "cmd_entry (OptCheckFailure v) = int_entry ''check_failure'' v"
| "cmd_entry (OptSendDummy v) = int_entry ''send_dummy'' v"
| "cmd_entry _ = None"

text \<open>What a line of the file sets: the two switches are turned on by their key, whatever the value says.\<close>

fun file_reads :: "cmd_option \<Rightarrow> cmd_option" where
  "file_reads (OptDebug v) = OptDebug 1"
| "file_reads (OptDebugShuffle b) = OptDebugShuffle True"
| "file_reads opt = opt"

definition is_key :: "cmd_option \<Rightarrow> bool" where
  "is_key opt \<longleftrightarrow> (\<exists>v. opt = OptKey v)"

lemma is_key_simps [simp]: "is_key (OptKey v)"
  by (simp add: is_key_def)

lemma file_reads_switch: "file_reads opt = OptDebug w \<Longrightarrow> w = 1" "file_reads opt = OptDebugShuffle b \<Longrightarrow> b"
  by (cases opt; simp)+

lemma is_key_file_reads [simp]: "is_key (file_reads opt) = is_key opt"
  by (cases opt) (auto simp: is_key_def)

lemma int_entryD: "int_entry key v = Some kv \<Longrightarrow> fst kv = key \<and> token_ok (snd kv) \<and> stoi (snd kv) = Some v"
  by (auto simp: int_entry_def stoi_to_string to_string_token split: if_splits)

lemma ip_entryD: "(if token_ok s then Some (key, s) else None) = Some kv \<Longrightarrow> fst kv = key \<and> snd kv = s \<and> token_ok s"
  by (auto split: if_splits)

lemma cmd_entry_token: "cmd_entry opt = Some kv \<Longrightarrow> token_ok (fst kv) \<and> token_ok (snd kv)"
  by (cases opt; (simp only: cmd_entry.simps option.distinct)?;
      ((drule int_entryD | drule ip_entryD), elim conjE, simp add: token_ok_def is_space_def))

text \<open>Applying a line does what setting the option it is read as does, but for the key.\<close>

lemma cmd_entry_step:
  "cmd_entry opt = Some kv \<Longrightarrow> config_entry stod_bound (c\<lparr>cf_relay_id := r\<rparr>) (fst kv) (snd kv) =
      Some (snd (cmd_set (k, c) (file_reads opt))\<lparr>cf_relay_id := (if is_key opt then word_of_int (fst (cmd_set (k, c) (file_reads opt))) else r)\<rparr>)"
  by (cases opt; (simp only: cmd_entry.simps option.distinct)?;
      ((drule int_entryD | drule ip_entryD), elim conjE, simp add: config_entry_def is_key_def))

lemma cmd_set_key: "\<not> is_key opt \<Longrightarrow> fst (cmd_set s opt) = fst s"
  by (cases opt; cases s) (auto simp: is_key_def)

lemma cmd_sets_key: "\<not> list_ex is_key opts \<Longrightarrow> fst (foldl cmd_set s opts) = fst s"
  by (induction opts arbitrary: s) (simp_all add: cmd_set_key)

lemma cmd_entries:
  assumes "map cmd_entry opts = map Some kvs"
  shows "apply_entries stod_bound (c\<lparr>cf_relay_id := r\<rparr>) kvs =
    Some (snd (foldl cmd_set (k, c) (map file_reads opts))\<lparr>cf_relay_id :=
      (if list_ex is_key opts then word_of_int (fst (foldl cmd_set (k, c) (map file_reads opts))) else r)\<rparr>)"
  using assms
proof (induction opts arbitrary: kvs k c r)
  case (Cons opt opts)
  then obtain kv kvs' where kvs: "kvs = kv # kvs'" "cmd_entry opt = Some kv" "map cmd_entry opts = map Some kvs'" by auto
  obtain k' c' where s: "cmd_set (k, c) (file_reads opt) = (k', c')" by fastforce
  have keep: "fst (foldl cmd_set (k', c') (map file_reads opts)) = k'" if "\<not> list_ex is_key opts"
    using that cmd_sets_key [of "map file_reads opts" "(k', c')"] by (simp add: list_ex_iff)
  show ?case
    using kvs(1) cmd_entry_step [OF kvs(2), where c = c and r = r and k = k and stod_bound = stod_bound] Cons.IH [OF kvs(3), where c = c' and k = k'] s keep by auto
qed simp

text \<open>
  With the key among them, the file with a line for each option gives the configuration of the command line with
  the options it is read as.
\<close>

lemma file_is_command_line:
  assumes "map cmd_entry opts = map Some kvs" "OptKey v \<in> set opts"
  shows "read_from_file stod_bound seed0 (render kvs) = init_from_cmd key0 seed0 (Some (map file_reads opts))"
proof -
  let ?c = "RelayConfig seed0" and ?st = "foldl cmd_set (key0, RelayConfig seed0) (map file_reads opts)"
  have t: "list_all (\<lambda>(k, v). token_ok k \<and> token_ok v) kvs"
  proof -
    have "token_ok (fst kv) \<and> token_ok (snd kv)" if "kv \<in> set kvs" for kv
    proof -
      have "Some kv \<in> set (map cmd_entry opts)" unfolding assms(1) using that by simp
      then obtain opt where "cmd_entry opt = Some kv" by auto
      then show ?thesis by (rule cmd_entry_token)
    qed
    then show ?thesis by (auto simp: list_all_iff)
  qed
  have "?c\<lparr>cf_relay_id := 0\<rparr> = ?c" by (simp add: RelayConfig_def)
  moreover have "list_ex is_key opts" using assms(2) by (auto simp: list_ex_iff intro!: bexI [of _ "OptKey v"])
  ultimately have a: "apply_entries stod_bound ?c kvs = Some (snd ?st\<lparr>cf_relay_id := word_of_int (fst ?st)\<rparr>)"
    using cmd_entries [OF assms(1), where c = ?c and r = 0 and k = key0] by simp
  show ?thesis
    unfolding read_from_file_def tokens_render [OF t] config_entries_pairs a init_from_cmd_def by (simp add: case_prod_beta)
qed

text \<open>An option given once decides its variable.\<close>

lemma cmd_sets_debug:
  "OptDebug v \<in> set opts \<Longrightarrow> (\<And>w. OptDebug w \<in> set opts \<Longrightarrow> w = v) \<Longrightarrow> cf_debug (snd (foldl cmd_set s opts)) = v"
proof (induction opts rule: rev_induct)
  case (snoc opt opts)
  have same: "cf_debug (snd (cmd_set t opt)) = cf_debug (snd t)" if "\<forall>w. opt \<noteq> OptDebug w" for t
    using that by (cases opt; cases t) simp_all
  have sets: "cf_debug (snd (cmd_set t (OptDebug w))) = w" for t w by (cases t) simp
  show ?case
  proof (cases "\<exists>w. opt = OptDebug w")
    case True
    then obtain w where w: "opt = OptDebug w" by blast
    then have "w = v" using snoc.prems(2) [of w] by simp
    then show ?thesis using w sets by simp
  next
    case False
    then have "OptDebug v \<in> set opts" using snoc.prems(1) by auto
    then have "cf_debug (snd (foldl cmd_set s opts)) = v" using snoc.prems(2) by (intro snoc.IH) simp_all
    then show ?thesis using same False by simp
  qed
qed simp

lemma cmd_sets_debug_shuffle:
  "OptDebugShuffle v \<in> set opts \<Longrightarrow> (\<And>w. OptDebugShuffle w \<in> set opts \<Longrightarrow> w = v) \<Longrightarrow>
   cf_debug_shuffle (snd (foldl cmd_set s opts)) = v"
proof (induction opts rule: rev_induct)
  case (snoc opt opts)
  have same: "cf_debug_shuffle (snd (cmd_set t opt)) = cf_debug_shuffle (snd t)" if "\<forall>w. opt \<noteq> OptDebugShuffle w" for t
    using that by (cases opt; cases t) simp_all
  have sets: "cf_debug_shuffle (snd (cmd_set t (OptDebugShuffle w))) = w" for t w by (cases t) simp
  show ?case
  proof (cases "\<exists>w. opt = OptDebugShuffle w")
    case True
    then obtain w where w: "opt = OptDebugShuffle w" by blast
    then have "w = v" using snoc.prems(2) [of w] by simp
    then show ?thesis using w sets by simp
  next
    case False
    then have "OptDebugShuffle v \<in> set opts" using snoc.prems(1) by auto
    then have "cf_debug_shuffle (snd (foldl cmd_set s opts)) = v" using snoc.prems(2) by (intro snoc.IH) simp_all
    then show ?thesis using same False by simp
  qed
qed simp

lemma init_from_cmd_switches:
  assumes "init_from_cmd key0 seed0 (Some opts) = Some c"
  shows "cf_debug c = cf_debug (snd (foldl cmd_set (key0, RelayConfig seed0) opts))"
    "cf_debug_shuffle c = cf_debug_shuffle (snd (foldl cmd_set (key0, RelayConfig seed0) opts))"
  using assms by (auto simp: init_from_cmd_def case_prod_beta split: bind_splits)

text \<open>
  The command line with options given once each and the one the file is read as agree exactly when no switch is
  given a value other than the one the file sets.
\<close>

lemma line_agrees_iff:
  assumes "\<And>v w. OptDebug v \<in> set opts \<Longrightarrow> OptDebug w \<in> set opts \<Longrightarrow> v = w"
    and "\<And>v w. OptDebugShuffle v \<in> set opts \<Longrightarrow> OptDebugShuffle w \<in> set opts \<Longrightarrow> v = w"
    and c: "init_from_cmd key0 seed0 (Some opts) = Some c"
  shows "init_from_cmd key0 seed0 (Some (map file_reads opts)) = Some c \<longleftrightarrow> (\<forall>opt \<in> set opts. file_reads opt = opt)"
proof
  assume f: "init_from_cmd key0 seed0 (Some (map file_reads opts)) = Some c"
  let ?s = "(key0, RelayConfig seed0)"
  have mem: "OptDebug w \<in> set (map file_reads opts) \<Longrightarrow> w = 1" "OptDebugShuffle b \<in> set (map file_reads opts) \<Longrightarrow> b" for w b
    using file_reads_switch(1) file_reads_switch(2) unfolding set_map image_iff by metis+
  show "\<forall>opt \<in> set opts. file_reads opt = opt"
  proof
    fix opt assume opt: "opt \<in> set opts"
    then have r: "file_reads opt \<in> set (map file_reads opts)" by simp
    show "file_reads opt = opt"
    proof (cases "(\<exists>v. opt = OptDebug v) \<or> (\<exists>b. opt = OptDebugShuffle b)")
      case True
      then consider (d) v where "opt = OptDebug v" | (s) b where "opt = OptDebugShuffle b" by blast
      then show ?thesis
      proof cases
        case d
        have "cf_debug (snd (foldl cmd_set ?s opts)) = v" using opt d assms(1) by (intro cmd_sets_debug) auto
        moreover have "cf_debug (snd (foldl cmd_set ?s (map file_reads opts))) = 1" using r d mem(1) by (intro cmd_sets_debug) auto
        ultimately show ?thesis using d init_from_cmd_switches(1) [OF c] init_from_cmd_switches(1) [OF f] by simp
      next
        case s
        have "cf_debug_shuffle (snd (foldl cmd_set ?s opts)) = b" using opt s assms(2) by (intro cmd_sets_debug_shuffle) auto
        moreover have "cf_debug_shuffle (snd (foldl cmd_set ?s (map file_reads opts))) = True"
          using r s mem(2) by (intro cmd_sets_debug_shuffle) auto
        ultimately show ?thesis using s init_from_cmd_switches(2) [OF c] init_from_cmd_switches(2) [OF f] by simp
      qed
    next
      case False then show ?thesis by (cases opt) auto
    qed
  qed
next
  assume "\<forall>opt \<in> set opts. file_reads opt = opt"
  then have "map file_reads opts = opts" by (intro map_idI) simp
  then show "init_from_cmd key0 seed0 (Some (map file_reads opts)) = Some c" using c by simp
qed

lemma sample_line_is_file:
  "init_from_cmd 99 0 (Some [OptKey 5, OptKeyRange 8]) = read_from_file (\<lambda>_. None) 0 (render [(''key'', to_string 5), (''m'', to_string 8)])"
  using file_is_command_line [of "[OptKey 5, OptKeyRange 8]" "[(''key'', to_string 5), (''m'', to_string 8)]" 5 "\<lambda>_. None" 0 99] by (simp add: int_entry_def)

text \<open>Without a key on the command line the identifier is what the stack held.\<close>

lemma cmd_key_uninitialised: "\<exists>c. init_from_cmd key0 seed0 (Some []) = Some c \<and> cf_relay_id c = word_of_int key0"
  by (simp add: init_from_cmd_def shl_one_def RelayConfig_def)

end
