(* ===== verification/CommandLine.thy ===== *)
theory CommandLine
  imports CliLines Config "HOL-Library.Multiset"
begin

text \<open>
  The command line of the relay: the options \<open>init_from_cmd\<close> declares (src/src/relay/RelayConfig.hpp), their
  conversions, and the configuration that a command line gives. The conversion of the text of \<open>shuffle_P\<close> to the
  integer that stands for it is the argument \<open>stold_bound\<close>, \<open>None\<close> when \<open>std::stold\<close> throws or does not use the
  whole text.
\<close>

subsection \<open>The options\<close>

definition declare_options :: "(string \<times> (string \<Rightarrow> 'v option)) list \<Rightarrow> 'v cli_app \<Rightarrow> cli_error + 'v cli_app" where
  "declare_options decls app =
     foldl (\<lambda>r (name, cast). case r of Inl e \<Rightarrow> Inl e | Inr app \<Rightarrow> add_variable name cast app) (Inr app) decls"

definition relay_decls :: "(string \<Rightarrow> int option) \<Rightarrow> (string \<times> (string \<Rightarrow> cmd_option option)) list" where
  "relay_decls stold_bound =
     [(''-i,--ip'', map_option OptIp \<circ> lexical_cast_string),
      (''-p,--port'', map_option OptPort \<circ> lexical_cast_int),
      (''-k,--key'', map_option OptKey \<circ> lexical_cast_int),
      (''-m,--key_range'', map_option OptKeyRange \<circ> lexical_cast_int),
      (''-e,--daemon'', map_option OptDaemon \<circ> lexical_cast_int),
      (''-l,--peer_ip'', map_option OptPeerIp \<circ> lexical_cast_string),
      (''-o,--peer_port'', map_option OptPeerPort \<circ> lexical_cast_int),
      (''-s,--standalone'', map_option OptStandalone \<circ> lexical_cast_bool),
      (''-d,--debug'', map_option OptDebug \<circ> lexical_cast_int),
      (''--msg_rate'', map_option OptMsgRate \<circ> lexical_cast_int),
      (''--pool_size'', map_option OptPoolSize \<circ> lexical_cast_int),
      (''--bt_time'', map_option OptBtTime \<circ> lexical_cast_int),
      (''--cnt_time'', map_option OptCntTime \<circ> lexical_cast_int),
      (''--debug_shuffle'', map_option OptDebugShuffle \<circ> lexical_cast_bool),
      (''--shuffle_P'', map_option OptShuffleP \<circ> stold_bound),
      (''--recheck'', map_option OptRecheck \<circ> lexical_cast_int),
      (''--checkwait'', map_option OptCheckwait \<circ> lexical_cast_int),
      (''--p2p_time_before'', map_option OptTimeBefore \<circ> lexical_cast_int),
      (''--p2p_time_after'', map_option OptTimeAfter \<circ> lexical_cast_int),
      (''--check_failure'', map_option OptCheckFailure \<circ> lexical_cast_int),
      (''--send_dummy'', map_option OptSendDummy \<circ> lexical_cast_int)]"

definition relay_app :: "(string \<Rightarrow> int option) \<Rightarrow> cli_error + cmd_option cli_app" where
  "relay_app stold_bound = (case App of Inl e \<Rightarrow> Inl e | Inr app \<Rightarrow> declare_options (relay_decls stold_bound) app)"

definition relay_parse :: "(string \<Rightarrow> int option) \<Rightarrow> string list \<Rightarrow> cli_error + cmd_option list" where
  "relay_parse stold_bound argv =
     (case relay_app stold_bound of Inl e \<Rightarrow> Inl e | Inr app \<Rightarrow> map_sum id fst (parse_argv argv app))"

text \<open>Nothing catches what the parser throws.\<close>

definition config_from_argv :: "int \<Rightarrow> int \<Rightarrow> (string \<Rightarrow> int option) \<Rightarrow> string list \<Rightarrow> relay_config option" where
  "config_from_argv key0 seed0 stold_bound argv =
     init_from_cmd key0 seed0 (case relay_parse stold_bound argv of Inl _ \<Rightarrow> None | Inr opts \<Rightarrow> Some opts)"

subsection \<open>Declaring options\<close>

definition variable_option :: "string list \<times> string list \<Rightarrow> (string \<Rightarrow> 'v option) \<Rightarrow> 'v cli_option" where
  "variable_option names cast = Option0 (fst names) (snd names) [] (\<lambda>res. map_option (\<lambda>v. [v]) (cast (res ! 0)))"

definition names_of :: "'v cli_option \<Rightarrow> string list \<times> string list" where
  "names_of opt = (co_snames opt, co_lnames opt)"

definition clash :: "string list \<times> string list \<Rightarrow> string list \<times> string list \<Rightarrow> bool" where
  "clash a b \<longleftrightarrow> list_ex (\<lambda>s. s \<in> set (fst b)) (fst a) \<or> list_ex (\<lambda>s. s \<in> set (snd b)) (snd a)"

fun clash_free :: "(string list \<times> string list) list \<Rightarrow> (string list \<times> string list) list \<Rightarrow> bool" where
  "clash_free old [] \<longleftrightarrow> True"
| "clash_free old (n # ns) \<longleftrightarrow> \<not> list_ex (\<lambda>m. clash m n) old \<and> clash_free (old @ [n]) ns"

definition exact_names :: "'v cli_option \<Rightarrow> bool" where
  "exact_names opt \<longleftrightarrow> \<not> co_ignore_case opt \<and> \<not> co_ignore_underscore opt"

lemma same_option_clash: "exact_names a \<Longrightarrow> exact_names b \<Longrightarrow> same_option a b \<longleftrightarrow> clash (names_of a) (names_of b)"
  by (auto simp: same_option_def clash_def names_of_def exact_names_def check_sname_def check_lname_def list_ex_iff)

lemma variable_option_simps [simp]:
  "exact_names (variable_option names cast)" "names_of (variable_option names cast) = names"
  "plain_option (variable_option names cast)"
  "co_results (variable_option names cast) = []" "\<not> co_callback_run (variable_option names cast)"
  "co_type_size (variable_option names cast) = 1"
  "co_callback (variable_option names cast) = (\<lambda>res. map_option (\<lambda>v. [v]) (cast (res ! 0)))"
  by (simp_all add: variable_option_def Option0_def exact_names_def names_of_def plain_option_def)

lemma add_variable_free:
  assumes "get_names (split_names name) ([], [], []) = Inr (fst n, snd n, [])"
    and "list_all exact_names (ca_options app)" "\<not> list_ex (\<lambda>m. clash m n) (map names_of (ca_options app))"
  shows "add_variable name cast app = Inr (app\<lparr>ca_options := ca_options app @ [variable_option n cast]\<rparr>)"
proof -
  have "\<not> list_ex (\<lambda>v. same_option v (variable_option n cast)) (ca_options app)"
    using assms(2,3) same_option_clash [of _ "variable_option n cast"] by (auto simp: list_ex_iff list_all_iff)
  then show ?thesis using assms(1) by (simp add: add_variable_def add_option_def Let_def variable_option_def)
qed

lemma declare_free:
  assumes "map (\<lambda>d. get_names (split_names (fst d)) ([], [], [])) decls = map (\<lambda>n. Inr (fst n, snd n, [])) names"
    and "list_all exact_names (ca_options app)" "clash_free (map names_of (ca_options app)) names"
  shows "declare_options decls app = Inr (app\<lparr>ca_options := ca_options app @ map2 (\<lambda>n d. variable_option n (snd d)) names decls\<rparr>)"
  using assms
proof (induction decls arbitrary: names app)
  case Nil then show ?case by (simp add: declare_options_def)
next
  case (Cons d decls)
  then obtain n ns where names: "names = n # ns" by (cases names) auto
  let ?app = "app\<lparr>ca_options := ca_options app @ [variable_option n (snd d)]\<rparr>"
  have "add_variable (fst d) (snd d) app = Inr ?app" using Cons.prems names by (intro add_variable_free) auto
  then have "declare_options (d # decls) app = declare_options decls ?app" by (simp add: declare_options_def case_prod_beta)
  also have "\<dots> = Inr (?app\<lparr>ca_options := ca_options ?app @ map2 (\<lambda>n d. variable_option n (snd d)) ns decls\<rparr>)"
    using Cons.prems names by (intro Cons.IH) auto
  finally show ?case using names by simp
qed

subsection \<open>The relay's options\<close>

definition relay_names :: "(string list \<times> string list) list" where
  "relay_names =
     [([''i''], [''ip'']), ([''p''], [''port'']), ([''k''], [''key'']), ([''m''], [''key_range'']), ([''e''], [''daemon'']),
      ([''l''], [''peer_ip'']), ([''o''], [''peer_port'']), ([''s''], [''standalone'']), ([''d''], [''debug'']),
      ([], [''msg_rate'']), ([], [''pool_size'']), ([], [''bt_time'']), ([], [''cnt_time'']), ([], [''debug_shuffle'']),
      ([], [''shuffle_P'']), ([], [''recheck'']), ([], [''checkwait'']), ([], [''p2p_time_before'']),
      ([], [''p2p_time_after'']), ([], [''check_failure'']), ([], [''send_dummy''])]"

definition help_option :: "cmd_option cli_option" where
  "help_option = (Option0 [''h''] [''help''] [] (\<lambda>_. Some []))\<lparr>co_type_size := 0, co_required := False\<rparr>"

definition relay_cli :: "(string \<Rightarrow> int option) \<Rightarrow> cmd_option cli_app" where
  "relay_cli stold_bound = App0\<lparr>ca_options := help_option # map2 (\<lambda>n d. variable_option n (snd d)) relay_names (relay_decls stold_bound),
     ca_help := Some 0\<rparr>"

lemma App_eq: "App = Inr (App0\<lparr>ca_options := [help_option], ca_help := Some 0\<rparr>)"
proof -
  have "get_names (split_names ''-h,--help'') ([], [], []) = Inr ([''h''], [''help''], [])" by code_simp
  then show ?thesis
    by (simp add: App_def add_flag_def add_option_def App0_def help_option_def Option0_def Let_def get_positional_def)
qed

lemma relay_names_parsed:
  "map (\<lambda>s. get_names (split_names s) ([], [], []))
     [''-i,--ip'', ''-p,--port'', ''-k,--key'', ''-m,--key_range'', ''-e,--daemon'', ''-l,--peer_ip'', ''-o,--peer_port'',
      ''-s,--standalone'', ''-d,--debug'', ''--msg_rate'', ''--pool_size'', ''--bt_time'', ''--cnt_time'', ''--debug_shuffle'',
      ''--shuffle_P'', ''--recheck'', ''--checkwait'', ''--p2p_time_before'', ''--p2p_time_after'', ''--check_failure'',
      ''--send_dummy''] = map (\<lambda>n. Inr (fst n, snd n, [])) relay_names"
  by code_simp

lemma relay_names_free: "clash_free [([''h''], [''help''])] relay_names"
  by code_simp

lemma relay_app_eq: "relay_app stold_bound = Inr (relay_cli stold_bound)"
proof -
  let ?app = "App0\<lparr>ca_options := [help_option], ca_help := Some 0\<rparr> :: cmd_option cli_app"
  have "map (\<lambda>d. get_names (split_names (fst d)) ([], [], [])) (relay_decls stold_bound) = map (\<lambda>n. Inr (fst n, snd n, [])) relay_names"
    unfolding relay_names_parsed [symmetric] by (simp add: relay_decls_def)
  then have "declare_options (relay_decls stold_bound) ?app =
      Inr (?app\<lparr>ca_options := ca_options ?app @ map2 (\<lambda>n d. variable_option n (snd d)) relay_names (relay_decls stold_bound)\<rparr>)"
    using relay_names_free by (intro declare_free) (simp_all add: help_option_def Option0_def exact_names_def names_of_def)
  then show ?thesis by (simp add: relay_app_def App_eq relay_cli_def App0_def)
qed

subsection \<open>Finding an option\<close>

lemma relay_lengths [simp]: "length relay_names = 21" "length (relay_decls stold_bound) = 21"
  by (simp_all add: relay_names_def relay_decls_def)

lemma relay_options_length [simp]: "length (ca_options (relay_cli stold_bound)) = 22"
  by (simp add: relay_cli_def)

lemma relay_option_nth:
  "j < 21 \<Longrightarrow> ca_options (relay_cli stold_bound) ! Suc j = variable_option (relay_names ! j) (snd (relay_decls stold_bound ! j))"
  by (simp add: relay_cli_def)

lemma relay_plain: "plain_app (relay_cli stold_bound)"
  by (auto simp: plain_app_def relay_cli_def App0_def list_all_iff set_zip)
    (simp add: help_option_def Option0_def plain_option_def)

lemma relay_fresh: "fresh_app (relay_cli stold_bound)"
  by (auto simp: fresh_app_def relay_cli_def App0_def help_option_def Option0_def list_all_iff set_zip)

lemma relay_option_names:
  "map names_of (ca_options (relay_cli stold_bound)) = ([''h''], [''help'']) # relay_names"
proof -
  have "names_of help_option = ([''h''], [''help''])" by (simp add: names_of_def help_option_def Option0_def)
  moreover have "map names_of (map2 (\<lambda>n d. variable_option n (snd d)) relay_names (relay_decls stold_bound)) = relay_names"
    by (rule nth_equalityI) simp_all
  ultimately show ?thesis by (simp add: relay_cli_def)
qed

lemma relay_exact: "opt \<in> set (ca_options (relay_cli stold_bound)) \<Longrightarrow> exact_names opt"
  by (auto simp: relay_cli_def set_zip) (simp add: help_option_def Option0_def exact_names_def)

lemma relay_find:
  "find_option SHORT n (relay_cli stold_bound) = find_index (\<lambda>m. n \<in> set (fst m)) (([''h''], [''help'']) # relay_names)"
  "find_option LONG n (relay_cli stold_bound) = find_index (\<lambda>m. n \<in> set (snd m)) (([''h''], [''help'']) # relay_names)"
proof -
  have f: "find_index P xs = find_index Q (map names_of xs)" if "\<And>x. x \<in> set xs \<Longrightarrow> P x \<longleftrightarrow> Q (names_of x)"
    for P Q and xs :: "cmd_option cli_option list"
    using that by (induction xs) auto
  show "find_option SHORT n (relay_cli stold_bound) = find_index (\<lambda>m. n \<in> set (fst m)) (([''h''], [''help'']) # relay_names)"
    "find_option LONG n (relay_cli stold_bound) = find_index (\<lambda>m. n \<in> set (snd m)) (([''h''], [''help'']) # relay_names)"
    unfolding find_option_def relay_option_names [symmetric, of stold_bound]
    by (rule f; simp add: check_sname_def check_lname_def names_of_def relay_exact [unfolded exact_names_def])+
qed

text \<open>The names of an option, by its number; only the first nine have a letter.\<close>

definition relay_name :: "arg_style \<Rightarrow> nat \<Rightarrow> string" where
  "relay_name st j = (case st of ShortSep \<Rightarrow> hd (fst (relay_names ! j)) | ShortJoined \<Rightarrow> hd (fst (relay_names ! j))
     | _ \<Rightarrow> hd (snd (relay_names ! j)))"

lemma relay_short_table:
  "list_all (\<lambda>j. let n = hd (fst (relay_names ! j)) in length n = 1 \<and> valid_first_char (n ! 0) \<and>
     find_index (\<lambda>m. n \<in> set (fst m)) (([''h''], [''help'']) # relay_names) = Some (Suc j)) [0 ..< 9]"
  by code_simp

lemma relay_long_table:
  "list_all (\<lambda>j. let n = hd (snd (relay_names ! j)) in valid_name_string n \<and>
     find_index (\<lambda>m. n \<in> set (snd m)) (([''h''], [''help'']) # relay_names) = Some (Suc j)) [0 ..< 21]"
  by code_simp

definition spelling_ok :: "arg_style \<Rightarrow> nat \<Rightarrow> string \<Rightarrow> bool" where
  "spelling_ok st j text \<longleftrightarrow> j < 21 \<and> (st = ShortSep \<or> st = ShortJoined \<longrightarrow> j < 9) \<and> (st = ShortJoined \<or> st = LongEq \<longrightarrow> text \<noteq> [])"

lemma relay_style_ok:
  assumes "spelling_ok st j text"
  shows "style_ok (relay_cli stold_bound) (Suc j) st (relay_name st j) text"
proof -
  have "short_ok (relay_cli stold_bound) (Suc j) (hd (fst (relay_names ! j)))" if "j < 9"
    using that relay_short_table by (simp add: short_ok_def relay_find Let_def list_all_iff del: find_index.simps)
  moreover have "long_ok (relay_cli stold_bound) (Suc j) (hd (snd (relay_names ! j)))" if "j < 21"
    using that relay_long_table by (simp add: long_ok_def relay_find Let_def list_all_iff del: find_index.simps)
  ultimately show ?thesis using assms by (cases st) (simp_all add: style_ok_def spelling_ok_def relay_name_def)
qed

subsection \<open>Lines of options\<close>

text \<open>An option of a line: its number, how it is written and its text.\<close>

type_synonym relay_arg = "nat \<times> arg_style \<times> string"

fun relay_item :: "relay_arg \<Rightarrow> cli_item" where
  "relay_item (j, st, text) = Given (Suc j) st (relay_name st j) text"

fun relay_value :: "(string \<Rightarrow> int option) \<Rightarrow> relay_arg \<Rightarrow> cmd_option option" where
  "relay_value stold_bound (j, st, text) = snd (relay_decls stold_bound ! j) text"

fun relay_arg_ok :: "relay_arg \<Rightarrow> bool" where
  "relay_arg_ok (j, st, text) \<longleftrightarrow> spelling_ok st j text"

fun cmd_index :: "cmd_option \<Rightarrow> nat" where
  "cmd_index (OptIp _) = 0"
| "cmd_index (OptPort _) = 1"
| "cmd_index (OptKey _) = 2"
| "cmd_index (OptKeyRange _) = 3"
| "cmd_index (OptDaemon _) = 4"
| "cmd_index (OptPeerIp _) = 5"
| "cmd_index (OptPeerPort _) = 6"
| "cmd_index (OptStandalone _) = 7"
| "cmd_index (OptDebug _) = 8"
| "cmd_index (OptMsgRate _) = 9"
| "cmd_index (OptPoolSize _) = 10"
| "cmd_index (OptBtTime _) = 11"
| "cmd_index (OptCntTime _) = 12"
| "cmd_index (OptDebugShuffle _) = 13"
| "cmd_index (OptShuffleP _) = 14"
| "cmd_index (OptRecheck _) = 15"
| "cmd_index (OptCheckwait _) = 16"
| "cmd_index (OptTimeBefore _) = 17"
| "cmd_index (OptTimeAfter _) = 18"
| "cmd_index (OptCheckFailure _) = 19"
| "cmd_index (OptSendDummy _) = 20"

lemma cmd_index_bound: "cmd_index opt < 21"
  by (cases opt) simp_all

lemma relay_decl_index:
  "list_all (\<lambda>(j, d). \<forall>text opt. snd d text = Some opt \<longrightarrow> cmd_index opt = j) (zip [0 ..< 21] (relay_decls stold_bound))"
  by (auto simp: relay_decls_def upt_rec)

lemma relay_value_index:
  assumes "relay_arg_ok a" "relay_value stold_bound a = Some opt"
  shows "cmd_index opt = fst a"
proof -
  obtain j st v where a: "a = (j, st, v)" by (cases a) auto
  then have j: "j < 21" using assms(1) by (simp add: spelling_ok_def)
  have "(j, relay_decls stold_bound ! j) \<in> set (zip [0 ..< 21] (relay_decls stold_bound))"
    using j by (auto simp: set_zip intro!: exI [of _ j])
  then show ?thesis using relay_decl_index [of stold_bound] assms(2) a by (fastforce simp: list_all_iff)
qed

text \<open>Setting two different options commutes.\<close>

lemma cmd_set_commute: "cmd_index a \<noteq> cmd_index b \<Longrightarrow> cmd_set (cmd_set s a) b = cmd_set (cmd_set s b) a"
  by (cases s; cases a; simp; cases b; simp)

lemma first_error_Inr: "(\<And>x. x \<in> set xs \<Longrightarrow> f x = Inr (g x)) \<Longrightarrow> first_error (map f xs) = Inr (concat (map g xs))"
  by (induction xs) simp_all

lemma buckets_mset: "(\<And>x. x \<in> set xs \<Longrightarrow> f x < n) \<Longrightarrow> mset (concat (map (\<lambda>j. filter (\<lambda>x. f x = j) xs) [0 ..< n])) = mset xs"
proof -
  have "mset (concat (map (\<lambda>j. filter (\<lambda>x. f x = j) xs) [0 ..< m])) = mset (filter (\<lambda>x. f x < m) xs)" for m
  proof (induction m)
    case (Suc m)
    have "mset (filter (\<lambda>x. f x < m) xs) + mset (filter (\<lambda>x. f x = m) xs) = mset (filter (\<lambda>x. f x < Suc m) xs)"
      by (induction xs) auto
    then show ?case using Suc by simp
  qed simp
  moreover assume "\<And>x. x \<in> set xs \<Longrightarrow> f x < n"
  then have "filter (\<lambda>x. f x < n) xs = xs" by (simp add: filter_id_conv)
  ultimately show ?thesis by metis
qed

lemma relay_line_none:
  assumes "j \<notin> fst ` set args" "list_all relay_arg_ok args" "map (relay_value stold_bound) args = map Some opts"
  shows "results_of (map relay_item args) (Suc j) = [] \<and> filter (\<lambda>opt. cmd_index opt = j) opts = []"
  using assms
proof (induction args arbitrary: opts)
  case (Cons a args)
  then obtain opt opts' where o': "opts = opt # opts'" "relay_value stold_bound a = Some opt" by (cases opts) auto
  then have "cmd_index opt = fst a" using relay_value_index Cons.prems(2) by simp
  then show ?case using Cons.IH [of opts'] Cons.prems o' by (cases a) auto
qed simp

lemma relay_line_texts:
  assumes "distinct (map fst args)" "list_all relay_arg_ok args" "map (relay_value stold_bound) args = map Some opts"
  shows "results_of (map relay_item args) (Suc j) = [] \<and> filter (\<lambda>opt. cmd_index opt = j) opts = [] \<or>
    (\<exists>v opt. results_of (map relay_item args) (Suc j) = [v] \<and> filter (\<lambda>opt. cmd_index opt = j) opts = [opt] \<and>
       j < 21 \<and> snd (relay_decls stold_bound ! j) v = Some opt)"
  using assms
proof (induction args arbitrary: opts)
  case (Cons a args)
  obtain i st v where a: "a = (i, st, v)" by (cases a) auto
  obtain opt opts' where o': "opts = opt # opts'" "relay_value stold_bound a = Some opt" "map (relay_value stold_bound) args = map Some opts'"
    using Cons.prems by (cases opts) auto
  have c: "cmd_index opt = i" using relay_value_index [OF _ o'(2)] Cons.prems(2) a by simp
  show ?case
  proof (cases "i = j")
    case True
    then have "j \<notin> fst ` set args" using Cons.prems(1) a by auto
    then have "results_of (map relay_item args) (Suc j) = [] \<and> filter (\<lambda>opt. cmd_index opt = j) opts' = []"
      using Cons.prems(2) o'(3) by (intro relay_line_none) auto
    then show ?thesis using True a o' c Cons.prems(2) by (auto simp: spelling_ok_def)
  next
    case False
    then show ?thesis using Cons.IH [of opts'] Cons.prems a o' c by simp
  qed
qed simp

lemma relay_line_fixed: "results_of (map relay_item args) 0 = []" "unknowns_of (map relay_item args) = []"
  by (induction args) auto

lemma relay_outcome:
  assumes "distinct (map fst args)" "list_all relay_arg_ok args" "map (relay_value stold_bound) args = map Some opts"
  shows "line_outcome (relay_cli stold_bound) (map relay_item args) =
    Inr (concat (map (\<lambda>j. filter (\<lambda>opt. cmd_index opt = j) opts) [0 ..< 21]))"
proof -
  let ?out = "\<lambda>j. option_outcome (ca_options (relay_cli stold_bound) ! j) (results_of (map relay_item args) j)"
  let ?g = "\<lambda>j. case j of 0 \<Rightarrow> [] | Suc j \<Rightarrow> filter (\<lambda>opt. cmd_index opt = j) opts"
  have "?out j = Inr (?g j)" for j
  proof (cases j)
    case 0 then show ?thesis by (simp add: option_outcome_def relay_line_fixed)
  next
    case (Suc k)
    show ?thesis using relay_line_texts [OF assms, of k] Suc by (auto simp: option_outcome_def relay_option_nth)
  qed
  then have "first_error (map ?out [0 ..< 22]) = Inr (concat (map ?g [0 ..< 22]))" by (intro first_error_Inr) simp
  moreover have "concat (map ?g [0 ..< 22]) = concat (map (\<lambda>j. filter (\<lambda>opt. cmd_index opt = j) opts) [0 ..< 21])"
  proof -
    have "[0 ..< 22] = 0 # map Suc [0 ..< 21]" by (simp add: map_Suc_upt upt_rec [of 0 22])
    then show ?thesis by (simp add: comp_def)
  qed
  moreover have "\<not> help_asked (relay_cli stold_bound) (map relay_item args)"
    using relay_line_fixed [of args] by (simp add: help_asked_def relay_cli_def)
  ultimately show ?thesis using relay_line_fixed [of args] by (simp add: line_outcome_def)
qed

subsection \<open>From a command line to a configuration\<close>

lemma relay_items_ok:
  assumes "list_all relay_arg_ok args"
  shows "list_all (item_ok (relay_cli stold_bound)) (map relay_item args)"
proof -
  have "item_ok (relay_cli stold_bound) (relay_item a)" if a: "relay_arg_ok a" for a
  proof -
    obtain j st v where [simp]: "a = (j, st, v)" by (cases a) auto
    have "j < 21" using a by (simp add: spelling_ok_def)
    then show ?thesis using a relay_style_ok [of st j v] by (simp add: relay_option_nth plain_items)
  qed
  then show ?thesis using assms by (auto simp: list_all_iff)
qed

lemma foldl_buckets:
  assumes "distinct (map cmd_index opts)"
  shows "foldl cmd_set s (concat (map (\<lambda>j. filter (\<lambda>opt. cmd_index opt = j) opts) [0 ..< 21])) = foldl cmd_set s opts"
proof -
  let ?xs = "concat (map (\<lambda>j. filter (\<lambda>opt. cmd_index opt = j) opts) [0 ..< 21])"
  have m: "mset ?xs = mset opts" by (rule buckets_mset) (rule cmd_index_bound)
  have "fold (\<lambda>x s. cmd_set s x) ?xs = fold (\<lambda>x s. cmd_set s x) opts"
  proof (rule fold_multiset_equiv [OF _ m])
    fix x y assume "x \<in> set ?xs" "y \<in> set ?xs"
    then have "x = y \<or> cmd_index x \<noteq> cmd_index y" using assms by (auto simp: distinct_map inj_on_def)
    then show "(\<lambda>s. cmd_set s x) \<circ> (\<lambda>s. cmd_set s y) = (\<lambda>s. cmd_set s y) \<circ> (\<lambda>s. cmd_set s x)"
      using cmd_set_commute [of x y] by (auto simp: fun_eq_iff simp del: cmd_set.simps)
  qed
  then show ?thesis by (simp add: foldl_conv_fold)
qed

lemma relay_values_index:
  assumes "list_all relay_arg_ok args" "map (relay_value stold_bound) args = map Some opts"
  shows "map cmd_index opts = map fst args"
  using assms by (induction args arbitrary: opts) (auto dest!: relay_value_index simp del: relay_value.simps relay_arg_ok.simps)

lemma file_reads_same:
  "(\<forall>opt \<in> set opts. file_reads opt = opt) \<longleftrightarrow> (\<forall>w. OptDebug w \<in> set opts \<longrightarrow> w = 1) \<and> OptDebugShuffle False \<notin> set opts"
proof -
  have "file_reads opt = opt \<longleftrightarrow> (\<forall>w. opt = OptDebug w \<longrightarrow> w = 1) \<and> opt \<noteq> OptDebugShuffle False" for opt
    by (cases opt) auto
  then show ?thesis by auto
qed

text \<open>
  The command line of the relay: options written in any order and in any of the four spellings, each at most
  once and with a text that converts, give the configuration with exactly those options set.
\<close>

lemma relay_command_line:
  assumes "distinct (map fst args)" "list_all relay_arg_ok args" "map (relay_value stold_bound) args = map Some opts"
  shows "config_from_argv key0 seed0 stold_bound (prog # render_line (map relay_item args)) = init_from_cmd key0 seed0 (Some opts)"
proof -
  let ?xs = "concat (map (\<lambda>j. filter (\<lambda>opt. cmd_index opt = j) opts) [0 ..< 21])"
  have "relay_parse stold_bound (prog # render_line (map relay_item args)) = Inr ?xs"
    using parse_plain_line [OF relay_plain relay_fresh relay_items_ok [OF assms(2)]] relay_outcome [OF assms]
    by (simp add: relay_parse_def relay_app_eq)
  moreover have "map cmd_index opts = map fst args" by (rule relay_values_index [OF assms(2,3)])
  ultimately show ?thesis
    using assms(1) foldl_buckets [of opts "(key0, RelayConfig seed0)"] by (simp add: config_from_argv_def init_from_cmd_def)
qed

lemma sample_command_line:
  "config_from_argv 7 0 (\<lambda>_. None) [''relay'', ''--port=80'', ''-i'', ''10.0.0.1'', ''-m8''] =
   init_from_cmd 7 0 (Some [OptPort 80, OptIp ''10.0.0.1'', OptKeyRange 8])"
proof -
  let ?args = "[(1, LongEq, ''80''), (0, ShortSep, ''10.0.0.1''), (3, ShortJoined, ''8'')] :: relay_arg list"
  have "map (relay_value (\<lambda>_. None)) ?args = map Some [OptPort 80, OptIp ''10.0.0.1'', OptKeyRange 8]" by code_simp
  moreover have "render_line (map relay_item ?args) = [''--port=80'', ''-i'', ''10.0.0.1'', ''-m8'']" by code_simp
  ultimately show ?thesis using relay_command_line [of ?args] by (simp add: spelling_ok_def)
qed

text \<open>
  C32. When the command line and the configuration file mean the same: let options, the key among them, be written
  on the command line in any order and spelling, each at most once, and let the file have a line for each of them
  (all the options both have, except \<open>shuffle_P\<close>). The file is read as the options with the two switches \<open>debug\<close> and
  \<open>debug_shuffle\<close> on, whatever the value beside them is. So a command line that starts the relay and the file give the same
  configuration if and only if the command line does not set \<open>debug\<close> to something else than 1 and does not turn
  \<open>debug_shuffle\<close> off.
\<close>

theorem argv_is_file:
  assumes "distinct (map fst args)" "list_all relay_arg_ok args" "map (relay_value stold_bound) args = map Some opts"
    and "map cmd_entry opts = map Some kvs" "OptKey v \<in> set opts"
  shows "read_from_file stod_bound seed0 (render kvs) = init_from_cmd key0 seed0 (Some (map file_reads opts)) \<and>
    (\<forall>c. config_from_argv key0 seed0 stold_bound (prog # render_line (map relay_item args)) = Some c \<longrightarrow>
      (read_from_file stod_bound seed0 (render kvs) = Some c \<longleftrightarrow> (\<forall>w. OptDebug w \<in> set opts \<longrightarrow> w = 1) \<and> OptDebugShuffle False \<notin> set opts))"
proof -
  have f: "read_from_file stod_bound seed0 (render kvs) = init_from_cmd key0 seed0 (Some (map file_reads opts))"
    by (rule file_is_command_line [OF assms(4,5)])
  have "map cmd_index opts = map fst args" by (rule relay_values_index [OF assms(2,3)])
  then have inj: "inj_on cmd_index (set opts)" using assms(1) distinct_map [of cmd_index opts] by simp
  have same: "opt = opt'" if "opt \<in> set opts" "opt' \<in> set opts" "cmd_index opt = cmd_index opt'" for opt opt' using inj_onD [OF inj] that by blast
  have one: "OptDebug x \<in> set opts \<Longrightarrow> OptDebug y \<in> set opts \<Longrightarrow> x = y"
      "OptDebugShuffle b \<in> set opts \<Longrightarrow> OptDebugShuffle b' \<in> set opts \<Longrightarrow> b = b'" for x y b b'
    using same [of "OptDebug x" "OptDebug y"] same [of "OptDebugShuffle b" "OptDebugShuffle b'"] by simp_all
  have "(\<forall>opt \<in> set opts. file_reads opt = opt) \<longleftrightarrow> (\<forall>w. OptDebug w \<in> set opts \<longrightarrow> w = 1) \<and> OptDebugShuffle False \<notin> set opts"
    by (rule file_reads_same)
  then show ?thesis
    unfolding relay_command_line [OF assms(1-3)] using f line_agrees_iff [OF one] by simp
qed

theorem argv_is_file_witness:
  "read_from_file (\<lambda>_. None) 0 (render [(''m'', to_string 8), (''key'', to_string 5), (''debug'', to_string 0)]) =
     init_from_cmd 99 0 (Some [OptKeyRange 8, OptKey 5, OptDebug 1]) \<and>
   (\<exists>c. config_from_argv 99 0 (\<lambda>_. None) [''relay'', ''--key_range=8'', ''-k'', ''5'', ''-d0''] = Some c \<and>
     read_from_file (\<lambda>_. None) 0 (render [(''m'', to_string 8), (''key'', to_string 5), (''debug'', to_string 0)]) \<noteq> Some c)"
proof -
  let ?args = "[(3, LongEq, ''8''), (2, ShortSep, ''5''), (8, ShortJoined, ''0'')] :: relay_arg list"
  let ?opts = "[OptKeyRange 8, OptKey 5, OptDebug 0]"
  have o': "map (relay_value (\<lambda>_. None)) ?args = map Some ?opts" by code_simp
  have r: "render_line (map relay_item ?args) = [''--key_range=8'', ''-k'', ''5'', ''-d0'']" by code_simp
  have ok: "distinct (map fst ?args)" "list_all relay_arg_ok ?args" by (simp_all add: spelling_ok_def)
  have "\<exists>c. init_from_cmd 99 0 (Some ?opts) = Some c" by (simp add: init_from_cmd_def shl_one_def RelayConfig_def)
  then have c: "\<exists>c. config_from_argv 99 0 (\<lambda>_. None) (''relay'' # render_line (map relay_item ?args)) = Some c"
    using relay_command_line [OF ok o', of 99 0 "''relay''"] by simp
  have "map cmd_entry ?opts = map Some [(''m'', to_string 8), (''key'', to_string 5), (''debug'', to_string 0)]" "OptKey 5 \<in> set ?opts"
    "map file_reads ?opts = [OptKeyRange 8, OptKey 5, OptDebug 1]" "\<not> (\<forall>w. OptDebug w \<in> set ?opts \<longrightarrow> w = 1)" by (simp_all add: int_entry_def)
  note e = this
  obtain c' where c': "config_from_argv 99 0 (\<lambda>_. None) (''relay'' # render_line (map relay_item ?args)) = Some c'" using c ..
  note t = argv_is_file [OF ok o' e(1,2), of "\<lambda>_. None" 0 99 "''relay''", unfolded e(3)]
  have "read_from_file (\<lambda>_. None) 0 (render [(''m'', to_string 8), (''key'', to_string 5), (''debug'', to_string 0)]) \<noteq> Some c'"
    using t [THEN conjunct2, rule_format, OF c'] e(4) by argo
  with conjunct1 [OF t] c' show ?thesis unfolding r by (intro conjI exI [of _ c'])
qed

text \<open>
  C30. What a command line does: for a program whose options are flags or take one value, and a line of options in
  any order and any of the four spellings, flags and unknown arguments, the parser assigns the converted values in
  the order in which the options were declared. The errors have an order: first that of the first declared option
  that was given twice or whose value does not convert, then the call for help, then the list of unknown arguments.
\<close>

theorem parse_line:
  assumes "plain_app app" "fresh_app app" "list_all (item_ok app) items"
  shows "map_sum id fst (parse_argv (prog # render_line items) app) = line_outcome app items"
  using assms by (rule parse_plain_line)

theorem parse_line_witness:
  "map_sum id fst (parse_argv [''relay'', ''--port=80'', ''--colour'', ''-i'', ''-h''] (relay_cli (\<lambda>_. None))) = Inl (ExtrasError [''--colour'']) \<and>
   map_sum id fst (parse_argv [''relay'', ''--help'', ''--colour''] (relay_cli (\<lambda>_. None))) = Inl CallForHelp \<and>
   map_sum id fst (parse_argv [''relay'', ''-h'', ''--port'', ''80'', ''-p81''] (relay_cli (\<lambda>_. None))) = Inl ArgumentMismatch"
proof (intro conjI)
  let ?app = "relay_cli (\<lambda>_. None)"
  let ?a = "[Given 2 LongEq ''port'' ''80'', Unknown ''--colour'', Given 1 ShortSep ''i'' ''-h'']"
  have "list_all (item_ok ?app) ?a" "line_outcome ?app ?a = Inl (ExtrasError [''--colour''])"
    "render_line ?a = [''--port=80'', ''--colour'', ''-i'', ''-h'']" by code_simp+
  then show "map_sum id fst (parse_argv [''relay'', ''--port=80'', ''--colour'', ''-i'', ''-h''] ?app) = Inl (ExtrasError [''--colour''])"
    using parse_line [OF relay_plain relay_fresh] by metis
  let ?b = "[LongFlag 0 ''help'', Unknown ''--colour'']"
  have "list_all (item_ok ?app) ?b" "line_outcome ?app ?b = Inl CallForHelp" "render_line ?b = [''--help'', ''--colour'']" by code_simp+
  then show "map_sum id fst (parse_argv [''relay'', ''--help'', ''--colour''] ?app) = Inl CallForHelp"
    using parse_line [OF relay_plain relay_fresh] by metis
  let ?c = "[ShortFlag 0 ''h'', Given 2 LongSep ''port'' ''80'', Given 2 ShortJoined ''p'' ''81'']"
  have "list_all (item_ok ?app) ?c" "line_outcome ?app ?c = Inl ArgumentMismatch"
    "render_line ?c = [''-h'', ''--port'', ''80'', ''-p81'']" by code_simp+
  then show "map_sum id fst (parse_argv [''relay'', ''-h'', ''--port'', ''80'', ''-p81''] ?app) = Inl ArgumentMismatch"
    using parse_line [OF relay_plain relay_fresh] by metis
qed

end
