(* ===== verification/AnyLine.thy ===== *)
theory AnyLine
  imports CommandLine
begin

text \<open>
  Arbitrary command lines: what the parser keeps of a program whose options are flags or take one value, whatever
  the arguments are, and what the relay can get from it.
\<close>

subsection \<open>What the loop keeps\<close>

text \<open>The parser only adds results and left-over arguments.\<close>

definition same_program :: "'v cli_app \<Rightarrow> 'v cli_app \<Rightarrow> bool" where
  "same_program app app' \<longleftrightarrow> plain_app app' \<and> ca_help app' = ca_help app \<and>
     map co_callback (ca_options app') = map co_callback (ca_options app) \<and>
     map co_type_size (ca_options app') = map co_type_size (ca_options app) \<and>
     (list_all (\<lambda>opt. \<not> co_callback_run opt) (ca_options app) \<longrightarrow> list_all (\<lambda>opt. \<not> co_callback_run opt) (ca_options app'))"

lemma same_program_refl: "plain_app app \<Longrightarrow> same_program app app"
  by (simp add: same_program_def)

lemma same_program_trans: "same_program app app1 \<Longrightarrow> same_program app1 app2 \<Longrightarrow> same_program app app2"
  by (auto simp: same_program_def)

lemma same_program_plain: "same_program app app' \<Longrightarrow> plain_app app'"
  by (simp add: same_program_def)

lemma same_program_add:
  assumes "plain_app app"
  shows "same_program app (add_result i v app)"
proof -
  have "plain_app (add_result i v app)" using plain_item [of app "Given i LongSep [] v"] assms by simp
  moreover have "map co_callback (ca_options (add_result i v app)) = map co_callback (ca_options app)"
    "map co_type_size (ca_options (add_result i v app)) = map co_type_size (ca_options app)"
    by (rule add_result_map; simp)+
  moreover have "list_all (\<lambda>opt. \<not> co_callback_run opt) (ca_options (add_result i v app))"
    if "list_all (\<lambda>opt. \<not> co_callback_run opt) (ca_options app)"
    using line_not_run [OF that, of "[Given i LongSep [] v]"] by simp
  ultimately show ?thesis by (simp add: same_program_def)
qed

lemma same_program_missing: "plain_app app \<Longrightarrow> same_program app (app\<lparr>ca_missing := m\<rparr>)"
  by (simp add: same_program_def plain_app_def)

lemma eat_fixed_same:
  "plain_app app \<Longrightarrow> eat_fixed i num args app = (num', app', args') \<Longrightarrow> same_program app app'"
proof (induction i num args app rule: eat_fixed.induct)
  case (2 i num a as app)
  then show ?case
    using same_program_add [of app i a] by (auto simp: same_program_refl same_program_plain intro: same_program_trans split: if_splits)
qed (auto simp: same_program_refl)

lemma eat_unlimited_same:
  "plain_app app \<Longrightarrow> eat_unlimited i num collected args app = (app', args') \<Longrightarrow> same_program app app'"
proof (induction i num collected args app rule: eat_unlimited.induct)
  case (2 i num collected a as app)
  then show ?case
    using same_program_add [of app i a] by (auto simp: same_program_refl same_program_plain intro: same_program_trans split: if_splits)
qed (auto simp: same_program_refl)

lemma recognize_split:
  "recognize w s = c \<Longrightarrow> c \<noteq> NONE \<Longrightarrow> c \<noteq> POSITIONAL_MARK \<Longrightarrow> split_arg c s \<noteq> None"
  by (auto simp: recognize_def split_arg_def split: if_splits)

lemma parse_arg_same:
  assumes "plain_app app" "split_arg c s \<noteq> None"
  shows "case parse_arg c s args app of Inl e \<Rightarrow> e = ArgumentMismatch | Inr (app', args') \<Rightarrow> same_program app app'"
proof -
  obtain n v r where s: "split_arg c s = Some (n, v, r)" using assms(2) by (cases "split_arg c s") auto
  show ?thesis
  proof (cases "find_option c n app")
    case None
    then show ?thesis using s assms(1) by (simp add: parse_arg_def same_program_missing)
  next
    case (Some i)
    let ?num = "get_items_expected (ca_options app ! i)"
    obtain app1 num1 rest1 collected where t:
      "(if v \<noteq> [] then (add_result i v app, if ?num > 0 then ?num - 1 else ?num, r, 1)
        else if ?num = 0 then (add_result i [] app, ?num, r, 0)
        else if r \<noteq> [] then (add_result i r app, if ?num > 0 then ?num - 1 else ?num, [], 1)
        else (app, ?num, r, 0)) = (app1, num1, rest1, collected :: int)"
      by (metis prod_cases4)
    then have "app1 = app \<or> (\<exists>v. app1 = add_result i v app)" by (auto split: if_splits)
    then have 1: "same_program app app1" using assms(1) by (auto simp: same_program_refl same_program_add)
    have f: "same_program app app2" if "eat_fixed i num1 args app1 = (num2, app2, args2)" for num2 app2 args2
      using same_program_trans [OF 1 eat_fixed_same [OF same_program_plain [OF 1] that]] .
    have u: "same_program app app2" if "eat_unlimited i num1 collected args app1 = (app2, args2)" for app2 args2
      using same_program_trans [OF 1 eat_unlimited_same [OF same_program_plain [OF 1] that]] .
    show ?thesis
      unfolding parse_arg_def s option.case prod.case Some Let_def t by (auto split: prod.splits intro: f u)
  qed
qed

lemma parse_positional_same: "plain_app app \<Longrightarrow> parse_positional s args app = (app', args') \<Longrightarrow> same_program app app'"
  by (auto simp: parse_positional_def same_program_add same_program_missing split: option.splits if_splits)

lemma parse_single_same:
  assumes "plain_app app"
  shows "case parse_single po s args app of Inl e \<Rightarrow> e = ArgumentMismatch | Inr (po', app', args') \<Rightarrow> same_program app app'"
proof (cases "(if po then NONE else recognize (ca_windows app) s) \<in> {NONE, POSITIONAL_MARK}")
  case True
  then show ?thesis
    using parse_positional_same [OF assms, of s args] same_program_missing [OF assms]
    by (auto simp: parse_single_def split: classifier.splits prod.splits)
next
  case False
  then have c: "\<not> po" "recognize (ca_windows app) s \<noteq> NONE" "recognize (ca_windows app) s \<noteq> POSITIONAL_MARK"
    by (auto split: if_splits)
  have "case parse_arg (recognize (ca_windows app) s) s args app of Inl e \<Rightarrow> e = ArgumentMismatch | Inr (app', args') \<Rightarrow> same_program app app'"
    using parse_arg_same [OF assms recognize_split [OF refl c(2,3)], of args] .
  then show ?thesis
    using c by (cases "recognize (ca_windows app) s") (auto simp: parse_single_def split: sum.splits)
qed

lemma parse_loop_same:
  "plain_app app \<Longrightarrow> case parse_loop po args app of Inl e \<Rightarrow> e = ArgumentMismatch | Inr app' \<Rightarrow> same_program app app'"
proof (induction po args app rule: parse_loop.induct)
  case (2 po s args app)
  show ?case
  proof (cases "parse_single po s args app")
    case (Inr r)
    then obtain po' app' args' where r: "parse_single po s args app = Inr (po', app', args')" by (cases r) auto
    then have same: "same_program app app'" using parse_single_same [OF "2.prems", of po s args] by simp
    then have "case parse_loop po' args' app' of Inl e \<Rightarrow> e = ArgumentMismatch | Inr app'' \<Rightarrow> same_program app' app''"
      using "2.IH" r same_program_plain by blast
    then show ?thesis using r same by (auto split: sum.splits intro: same_program_trans)
  qed (use parse_single_same [OF "2.prems", of po s args] in simp)
qed (simp add: same_program_refl)

subsection \<open>What follows it\<close>

lemma option_outcome_error: "option_outcome opt texts = Inl e \<Longrightarrow> e = ArgumentMismatch \<or> e = ConversionError"
  by (auto simp: option_outcome_def split: if_splits option.splits)

lemma first_error_Inl: "first_error rs = Inl e \<Longrightarrow> Inl e \<in> set rs"
  by (induction rs rule: first_error.induct) (auto simp: map_sum_def split: sum.splits)

definition seen_error :: "cli_error \<Rightarrow> bool" where
  "seen_error e \<longleftrightarrow> (case e of ArgumentMismatch \<Rightarrow> True | ConversionError \<Rightarrow> True | CallForHelp \<Rightarrow> True
     | ExtrasError extras \<Rightarrow> extras \<noteq> [] | _ \<Rightarrow> False)"

lemma process_app_plain:
  assumes "plain_app app" "list_all (\<lambda>opt. \<not> co_callback_run opt) (ca_options app)"
  shows "case process_app app of
      Inl e \<Rightarrow> seen_error e
    | Inr (vs, app') \<Rightarrow> first_error (map (\<lambda>opt. option_outcome opt (co_results opt)) (ca_options app)) = Inr vs"
proof (cases "first_error (map (\<lambda>opt. option_outcome opt (co_results opt)) (ca_options app))")
  case (Inl e)
  then have "process_app app = Inl e"
    using plain_callbacks [of "ca_options app"] assms by (simp add: process_app_def plain_app_def)
  moreover have "seen_error e" using first_error_Inl [OF Inl] by (auto simp: seen_error_def dest!: option_outcome_error [OF sym])
  ultimately show ?thesis by simp
next
  case (Inr vs)
  then obtain opts where "process_callbacks (ca_options app) = Inr (vs, opts)" "list_all plain_option opts"
    using plain_callbacks [of "ca_options app"] assms by (auto simp: plain_app_def)
  then show ?thesis
    using Inr plain_requirements [of opts]
    by (auto simp: process_app_def Let_def process_help_flags_def seen_error_def split: option.splits)
qed

lemma process_extras_seen: "process_extras app = Some e \<Longrightarrow> seen_error e"
  by (auto simp: process_extras_def seen_error_def remaining_def remaining_size_def split: if_splits)

lemma first_error_sorted:
  assumes "first_error rs = Inr vs"
    and "\<And>k ws. k < length rs \<Longrightarrow> rs ! k = Inr ws \<Longrightarrow> length ws \<le> 1 \<and> (\<forall>x\<in>set ws. f x = b + k)"
  shows "sorted_wrt (<) (map f vs) \<and> (\<forall>x\<in>set vs. (b :: nat) \<le> f x)"
  using assms
proof (induction rs arbitrary: vs b)
  case (Cons r rs)
  then obtain ws us where r: "r = Inr ws" "first_error rs = Inr us" "vs = ws @ us"
    by (cases r; cases "first_error rs") auto
  have "sorted_wrt (<) (map f us) \<and> (\<forall>x\<in>set us. b + 1 \<le> f x)"
    using Cons.IH [OF r(2), of "b + 1"] Cons.prems(2) [of "Suc _"] by simp
  moreover have "ws = [] \<or> (\<exists>x. ws = [x] \<and> f x = b)" using Cons.prems(2) [of 0] r(1) by (cases ws) auto
  ultimately show ?case using r(3) by fastforce
qed simp

subsection \<open>The relay\<close>

lemma relay_callback_index:
  assumes "j < 21" "co_callback opt = co_callback (ca_options (relay_cli stold_bound) ! Suc j)" "co_type_size opt = 1"
    and "option_outcome opt texts = Inr ws"
  shows "length ws \<le> 1 \<and> (\<forall>x\<in>set ws. cmd_index x = j)"
proof (cases texts)
  case (Cons t ts)
  let ?d = "relay_decls stold_bound ! j"
  have "(j, ?d) \<in> set (zip [0 ..< 21] (relay_decls stold_bound))" using assms(1) by (auto simp: set_zip intro!: exI [of _ j])
  then have "snd ?d v = Some x \<Longrightarrow> cmd_index x = j" for v x
    using relay_decl_index [of stold_bound] by (fastforce simp: list_all_iff)
  then show ?thesis using Cons assms by (auto simp: option_outcome_def relay_option_nth split: if_splits option.splits)
qed (use assms(4) in \<open>simp add: option_outcome_def\<close>)

lemma relay_help_callback:
  assumes "co_callback opt = co_callback (ca_options (relay_cli stold_bound) ! 0)" "option_outcome opt texts = Inr ws" "co_type_size opt = 0"
  shows "ws = []"
  using assms by (auto simp: option_outcome_def relay_cli_def help_option_def Option0_def split: if_splits)

lemma relay_types: "co_type_size (ca_options (relay_cli stold_bound) ! 0) = 0" "j < 21 \<Longrightarrow> co_type_size (ca_options (relay_cli stold_bound) ! Suc j) = 1"
  by (simp_all add: relay_option_nth) (simp add: relay_cli_def help_option_def)

lemma relay_values_sorted:
  assumes "same_program (relay_cli stold_bound) app" "first_error (map (\<lambda>opt. option_outcome opt (co_results opt)) (ca_options app)) = Inr vs"
  shows "sorted_wrt (<) (map cmd_index vs)"
proof -
  have c: "map co_callback (ca_options app) = map co_callback (ca_options (relay_cli stold_bound))"
    and t: "map co_type_size (ca_options app) = map co_type_size (ca_options (relay_cli stold_bound))"
    using assms(1) by (simp_all add: same_program_def)
  have len: "length (ca_options app) = 22" using arg_cong [OF c, of length] by simp
  have "sorted_wrt (<) (map (\<lambda>x. Suc (cmd_index x)) vs) \<and> (\<forall>x\<in>set vs. 0 \<le> Suc (cmd_index x))"
  proof (rule first_error_sorted [OF assms(2)])
    fix k ws
    assume "k < length (map (\<lambda>opt. option_outcome opt (co_results opt)) (ca_options app))"
      and out: "map (\<lambda>opt. option_outcome opt (co_results opt)) (ca_options app) ! k = Inr ws"
    then have k: "k < 22" and o': "option_outcome (ca_options app ! k) (co_results (ca_options app ! k)) = Inr ws" by (simp_all add: len)
    have ck: "co_callback (ca_options app ! k) = co_callback (ca_options (relay_cli stold_bound) ! k)"
      "co_type_size (ca_options app ! k) = co_type_size (ca_options (relay_cli stold_bound) ! k)"
      using arg_cong [OF c, of "\<lambda>xs. xs ! k"] arg_cong [OF t, of "\<lambda>xs. xs ! k"] k by (simp_all add: len)
    show "length ws \<le> 1 \<and> (\<forall>x\<in>set ws. Suc (cmd_index x) = 0 + k)"
    proof (cases k)
      case 0 then show ?thesis using relay_help_callback [OF _ o'] ck relay_types(1) by simp
    next
      case (Suc j)
      then show ?thesis using relay_callback_index [OF _ _ _ o', of j stold_bound] ck relay_types(2) [of j] k by simp
    qed
  qed
  then show ?thesis by (simp add: sorted_wrt_map)
qed

text \<open>
  C31. Any command line at all: the parser returns, and either every option is assigned at most once and in the order
  of the declarations, or the error is that an option has too few or too many values, that a value does not convert,
  the call for help, or a list of arguments that were not understood, which is not empty. The internal errors of
  the parser and those of a wrong declaration do not occur.
\<close>

theorem relay_any_line:
  "case relay_parse stold_bound argv of Inl e \<Rightarrow> seen_error e | Inr opts \<Rightarrow> sorted_wrt (<) (map cmd_index opts)"
proof -
  let ?app = "relay_cli stold_bound"
  have "filter (\<lambda>opt. get_items_expected opt < 0 \<and> get_positional opt) (ca_options ?app) = []"
    using relay_plain [of stold_bound] by (auto simp: filter_empty_conv plain_app_def plain_option_def list_all_iff get_positional_def)
  then have valid: "validate_app ?app" by (simp add: validate_app_def)
  show ?thesis
  proof (cases "parse_loop False (drop 1 argv) ?app")
    case (Inl e)
    then show ?thesis
      using parse_loop_same [OF relay_plain, of stold_bound False "drop 1 argv"] valid
      by (simp add: relay_parse_def relay_app_eq parse_argv_def parse_args_def seen_error_def)
  next
    case (Inr app)
    then have same: "same_program ?app app" using parse_loop_same [OF relay_plain, of stold_bound False "drop 1 argv"] by simp
    have "list_all (\<lambda>opt. \<not> co_callback_run opt) (ca_options app)"
      using same relay_fresh [of stold_bound] by (simp add: same_program_def fresh_app_def list_all_iff)
    from process_app_plain [OF same_program_plain [OF same] this]
    show ?thesis
      using Inr valid relay_values_sorted [OF same] process_extras_seen
      by (auto simp: relay_parse_def relay_app_eq parse_argv_def parse_args_def split: sum.splits option.splits)
  qed
qed

end
