(* ===== verification/Ring.thy ===== *)
theory Ring
  imports Prelude
begin

text \<open>
  The identifier ring of src/src/p2p/DAENode.hpp: \<open>is_in_range\<close> and
  \<open>is_right_tight_in_range\<close>. One branch of \<open>is_in_range\<close> compares with
  \<open>desti_id + pow(2, m)\<close>, which C++ evaluates in binary64; the model rounds both operands and the
  sum to 53 bits, ties to even, as the hardware does. The lemmas show that below \<open>2 ^ 53\<close> the
  rounding is the identity and that the two predicates are the open and the half-open clockwise
  interval of the ring of \<open>2 ^ m\<close> identifiers.
\<close>

subsection \<open>Integers in binary64\<close>

fun bit_length :: "nat \<Rightarrow> nat" where
  "bit_length n = (if n = 0 then 0 else Suc (bit_length (n div 2)))"

declare bit_length.simps [simp del]

definition to_double :: "nat \<Rightarrow> nat" where
  "to_double n =
     (let e = bit_length n - 53; q = n div 2 ^ e; r = n mod 2 ^ e
      in if e = 0 then n
         else if 2 ^ e < 2 * r \<or> (2 * r = 2 ^ e \<and> odd q) then (q + 1) * 2 ^ e
         else q * 2 ^ e)"

definition double_add :: "nat \<Rightarrow> nat \<Rightarrow> nat" where
  "double_add a b = to_double (a + b)"

subsection \<open>The range tests\<close>

definition is_in_range :: "nat \<Rightarrow> ring_id \<Rightarrow> ring_id \<Rightarrow> ring_id \<Rightarrow> bool" where
  "is_in_range m current_id desti_id successor_id =
     (if current_id < desti_id then current_id < successor_id \<and> successor_id < desti_id
      else if successor_id > current_id
      then to_double (unat successor_id) < double_add (to_double (unat desti_id)) (2 ^ m)
      else successor_id < desti_id)"

definition is_right_tight_in_range :: "nat \<Rightarrow> ring_id \<Rightarrow> ring_id \<Rightarrow> ring_id \<Rightarrow> bool" where
  "is_right_tight_in_range m left right val =
     (if right = val then True else is_in_range m left val right)"

subsection \<open>Clockwise distance on a ring of \<open>2 ^ m\<close> identifiers\<close>

definition cw :: "nat \<Rightarrow> ring_id \<Rightarrow> ring_id \<Rightarrow> nat" where
  "cw m a b = (unat b + 2 ^ m - unat a) mod 2 ^ m"

definition on_ring :: "nat \<Rightarrow> ring_id \<Rightarrow> bool" where
  "on_ring m a \<longleftrightarrow> unat a < 2 ^ m"

text \<open>The open arc from \<open>a\<close> to \<open>b\<close>: everything but \<open>a\<close> when the two ends meet.\<close>

definition ring_open :: "nat \<Rightarrow> ring_id \<Rightarrow> ring_id \<Rightarrow> ring_id \<Rightarrow> bool" where
  "ring_open m a b x \<longleftrightarrow> 0 < cw m a x \<and> (a = b \<or> cw m a x < cw m a b)"

subsection \<open>Rounding is exact on small integers\<close>

lemma bit_length_le: "n < 2 ^ k \<Longrightarrow> bit_length n \<le> k"
proof (induction n arbitrary: k rule: bit_length.induct)
  case (1 n)
  show ?case
  proof (cases "n = 0")
    case False
    with "1.prems" obtain j where k: "k = Suc j" by (cases k) auto
    with "1.prems" have "n div 2 < 2 ^ j" by auto
    with "1.IH" False have "bit_length (n div 2) \<le> j" by blast
    with False k show ?thesis by (simp add: bit_length.simps [of n])
  qed (simp add: bit_length.simps)
qed

lemma to_double_exact: "n < 2 ^ 53 \<Longrightarrow> to_double n = n"
  using bit_length_le [of n 53] by (simp add: to_double_def Let_def)

lemma bit_length_gt: "2 ^ k \<le> n \<Longrightarrow> k < bit_length n"
proof (induction n arbitrary: k rule: bit_length.induct)
  case (1 n)
  from "1.prems" have n: "n \<noteq> 0" by (auto intro: gr0I)
  show ?case
  proof (cases k)
    case 0
    with n show ?thesis by (simp add: bit_length.simps [of n])
  next
    case (Suc j)
    with "1.prems" have "2 ^ j \<le> n div 2" by auto
    with "1.IH" n have "j < bit_length (n div 2)" by blast
    with n Suc show ?thesis by (simp add: bit_length.simps [of n])
  qed
qed

lemma bit_length_eq: "2 ^ k \<le> n \<Longrightarrow> n < 2 ^ Suc k \<Longrightarrow> bit_length n = Suc k"
  using bit_length_gt [of k n] bit_length_le [of n "Suc k"] by linarith

text \<open>
  The identifier \<open>-1\<close> (no predecessor known) is \<open>2 ^ 64 - 1\<close>; binary64 rounds it up to \<open>2 ^ 64\<close>.
\<close>

lemma to_double_id_none: "to_double (unat (- 1 :: ring_id)) = 2 ^ 64"
proof -
  have "unat (- 1 :: ring_id) = 18446744073709551615"
    by (simp add: unsigned_minus_1_eq_mask mask_eq_exp_minus_1)
  moreover have "bit_length 18446744073709551615 = 64"
    using bit_length_eq [of 63 18446744073709551615] by simp
  ultimately show ?thesis by (simp add: to_double_def)
qed

lemma is_in_range_exact:
  assumes "unat successor_id < 2 ^ 53" and "unat desti_id < 2 ^ 52" and "m \<le> 52"
  shows "is_in_range m current_id desti_id successor_id =
     (if current_id < desti_id then current_id < successor_id \<and> successor_id < desti_id
      else if successor_id > current_id then unat successor_id < unat desti_id + 2 ^ m
      else successor_id < desti_id)"
proof -
  have "(2::nat) ^ m \<le> 2 ^ 52"
    using assms(3) by (rule power_increasing) simp
  then have "unat desti_id + 2 ^ m < 2 ^ 53"
    using assms(2) by simp
  then show ?thesis
    using assms by (simp add: is_in_range_def double_add_def to_double_exact)
qed

lemma double_add_small:
  assumes "unat d < 2 ^ 52" and "m \<le> 52"
  shows "double_add (to_double (unat d)) (2 ^ m) = unat d + 2 ^ m"
proof -
  have "(2::nat) ^ m \<le> 2 ^ 52"
    using assms(2) by (rule power_increasing) simp
  with assms(1) show ?thesis by (simp add: double_add_def to_double_exact)
qed

lemma id_none_max: "a \<le> (- 1 :: ring_id)"
  by (rule word_n1_ge)

lemma id_none_not_in_range:
  assumes "unat desti_id < 2 ^ 52" and "m \<le> 52"
  shows "\<not> is_in_range m current_id desti_id (- 1)"
proof -
  have "(2::nat) ^ m \<le> 2 ^ 52"
    using assms(2) by (rule power_increasing) simp
  with assms show ?thesis
    by (auto simp: is_in_range_def double_add_small to_double_id_none id_none_max not_less)
qed

subsection \<open>The range tests are the clockwise intervals\<close>

lemma cw_less: "cw m a b < 2 ^ m"
  by (simp add: cw_def)

text \<open>Below, identifiers are read as natural numbers; \<open>cw_nat\<close> is the distance on those.\<close>

lemma cw_nat:
  assumes "on_ring m a" and "on_ring m b"
  shows "cw m a b = (if unat a \<le> unat b then unat b - unat a else unat b + 2 ^ m - unat a)"
proof (cases "unat a \<le> unat b")
  case True
  then have eq: "unat b + 2 ^ m - unat a = (unat b - unat a) + 2 ^ m" by simp
  have "unat b - unat a < 2 ^ m" using assms(2) by (auto simp: on_ring_def)
  with True show ?thesis unfolding cw_def eq mod_add_self2 by simp
qed (use assms in \<open>simp add: cw_def on_ring_def\<close>)

lemma cw_self [simp]: "cw m a a = 0"
  by (simp add: cw_def)


lemma cw_inject:
  assumes "on_ring m a" and "on_ring m b" and "on_ring m c"
  shows "cw m a b = cw m a c \<longleftrightarrow> b = c"
proof
  assume "cw m a b = cw m a c"
  then have "unat b = unat c"
    using assms by (auto simp: cw_nat on_ring_def split: if_splits)
  then show "b = c" by (rule unsigned_word_eqI)
qed simp

lemma cw_eq_0_iff: "on_ring m a \<Longrightarrow> on_ring m b \<Longrightarrow> cw m a b = 0 \<longleftrightarrow> a = b"
  using cw_inject [of m a b a] by auto

text \<open>Distances add up along an arc that does not pass its end.\<close>

lemma cw_split:
  assumes "on_ring m a" and "on_ring m b" and "on_ring m c" and "cw m a b \<le> cw m a c"
  shows "cw m b c = cw m a c - cw m a b"
  using assms by (auto simp: cw_nat on_ring_def split: if_splits)

lemma is_in_range_ring_open:
  assumes "m \<le> 52" and "on_ring m c" and "on_ring m d" and "on_ring m s"
  shows "is_in_range m c d s \<longleftrightarrow> ring_open m c d s"
proof -
  have p: "(2::nat) ^ m \<le> 2 ^ 52"
    using assms(1) by (rule power_increasing) simp
  have "unat s < 2 ^ 53" and "unat d < 2 ^ 52"
    using assms p by (auto simp: on_ring_def)
  note ex = is_in_range_exact [OF this assms(1)]
  show ?thesis
    unfolding ex ring_open_def using assms(2-)
    by (auto simp: cw_nat on_ring_def word_less_nat_alt split: if_splits
        intro: unsigned_word_eqI)
qed

lemma is_right_tight_ring:
  assumes "m \<le> 52" and "on_ring m l" and "on_ring m r" and "on_ring m v"
  shows "is_right_tight_in_range m l r v \<longleftrightarrow> l = v \<or> (0 < cw m l r \<and> cw m l r \<le> cw m l v)"
proof (cases "r = v")
  case True
  then show ?thesis
    using cw_eq_0_iff [OF assms(2,4)] by (auto simp: is_right_tight_in_range_def)
next
  case False
  with cw_inject [OF assms(2,3,4)] have "cw m l r \<noteq> cw m l v" by blast
  with False cw_eq_0_iff [OF assms(2,3)] show ?thesis
    by (auto simp: is_right_tight_in_range_def is_in_range_ring_open [OF assms(1,2,4,3)] ring_open_def)
qed

text \<open>
  C11. The range tests are the clockwise intervals of the ring: for identifiers below \<open>2 ^ m\<close>, \<open>m\<close> up to
  52, \<open>is_in_range(c, d, s)\<close> holds exactly when walking clockwise from \<open>c\<close> one meets \<open>s\<close> strictly
  before \<open>d\<close> (and for \<open>c = d\<close> exactly when \<open>s \<noteq> c\<close>), \<open>is_right_tight_in_range(l, r, v)\<close> exactly when
  one meets \<open>r\<close> before or at \<open>v\<close>; wrap-around past zero and the comparison in binary64 included.
\<close>

theorem range_tests_clockwise:
  assumes "m \<le> 52" and "on_ring m a" and "on_ring m b" and "on_ring m x"
  shows "(is_in_range m a b x \<longleftrightarrow> 0 < cw m a x \<and> (a = b \<or> cw m a x < cw m a b)) \<and>
    (is_right_tight_in_range m a x b \<longleftrightarrow> a = b \<or> (0 < cw m a x \<and> cw m a x \<le> cw m a b))"
  using is_in_range_ring_open [OF assms] is_right_tight_ring [OF assms(1,2,4,3)] by (simp add: ring_open_def)

theorem range_tests_clockwise_witness:
  "is_in_range 10 1000 3 2 \<and> \<not> is_in_range 10 1000 3 3 \<and> is_right_tight_in_range 10 1000 3 3"
proof -
  have r: "on_ring 10 1000" "on_ring 10 3" "on_ring 10 2" by (simp_all add: on_ring_def)
  show ?thesis
    using range_tests_clockwise [of 10, OF _ r] range_tests_clockwise [of 10, OF _ r(1,2,2)]
    by (simp add: cw_def)
qed

text \<open>
  The identifier \<open>-1\<close>, which stands for an unknown node, is never inside a range: no finger and no
  predecessor is ever replaced because of it, although it is \<open>2 ^ 64 - 1\<close> as a \<open>ring_id_t\<close> and the
  largest of all identifiers.
\<close>

theorem unknown_id_never_in_range:
  assumes "m \<le> 52" and "on_ring m b"
  shows "\<not> is_in_range m a b (- 1)"
proof -
  have "(2::nat) ^ m \<le> 2 ^ 52" using assms(1) by (rule power_increasing) simp
  with assms show ?thesis by (intro id_none_not_in_range) (auto simp: on_ring_def)
qed

theorem unknown_id_never_in_range_witness: "\<not> is_in_range 10 5 5 (- 1)"
  by (rule unknown_id_never_in_range) (simp_all add: on_ring_def)

end
