(* ===== verification/Packet.thy ===== *)
theory Packet
  imports Prelude
begin

text \<open>
  The messages of DAENet: the message identifiers of src/src/message/message.hpp and the packet
  of src/src/packet/AnonymousPacket.hpp, a header overlaid on the first bytes of a buffer of
  \<open>MAX_MTU\<close> bytes with the payload behind it. A constructor writes into freshly allocated memory
  and leaves the header fields it does not name as they were, so each constructor takes the packet
  \<open>mem\<close> that the memory held before. A datagram is what \<open>sendto\<close> puts on the wire.
\<close>

subsection \<open>Message identifiers\<close>

definition dummy_message :: u64 where "dummy_message = 0xfff1"
definition internal_join_find_successor :: u64 where "internal_join_find_successor = 0xfff2"
definition internal_reply_find_successor :: u64 where "internal_reply_find_successor = 0xfff3"
definition internal_find_predecessor :: u64 where "internal_find_predecessor = 0xfff4"
definition internal_reply_get_predecessor :: u64 where "internal_reply_get_predecessor = 0xfff5"
definition internal_notify_predecessor_join :: u64 where "internal_notify_predecessor_join = 0xfff6"
definition internal_fetch_successor_list :: u64 where "internal_fetch_successor_list = 0xfff7"
definition internal_reply_successor_list :: u64 where "internal_reply_successor_list = 0xfff8"
definition internal_check_predecessor_existence :: u64 where
  "internal_check_predecessor_existence = 0xfff9"
definition internal_reply_predecessor_existence :: u64 where
  "internal_reply_predecessor_existence = 0xfffa"
definition internal_check_successor_existence :: u64 where
  "internal_check_successor_existence = 0xfffb"
definition internal_reply_successor_existence :: u64 where
  "internal_reply_successor_existence = 0xfffc"
definition external_pingpong_service :: u64 where "external_pingpong_service = 0xfffd"
definition external_reply_pingpong_service :: u64 where "external_reply_pingpong_service = 0xfffe"
definition external_deaddrop_messaging :: u64 where "external_deaddrop_messaging = 0xffff"
definition external_reply_deaddrop_messaging :: u64 where
  "external_reply_deaddrop_messaging = 0x10000"

lemmas message_defs =
  dummy_message_def internal_join_find_successor_def internal_reply_find_successor_def
  internal_find_predecessor_def internal_reply_get_predecessor_def
  internal_notify_predecessor_join_def internal_fetch_successor_list_def
  internal_reply_successor_list_def internal_check_predecessor_existence_def
  internal_reply_predecessor_existence_def internal_check_successor_existence_def
  internal_reply_successor_existence_def external_pingpong_service_def
  external_reply_pingpong_service_def external_deaddrop_messaging_def
  external_reply_deaddrop_messaging_def

text \<open>The types of the application packets.\<close>

definition external_id :: "u64 \<Rightarrow> bool" where
  "external_id i \<longleftrightarrow> i = external_pingpong_service \<or> i = external_reply_pingpong_service \<or>
     i = external_deaddrop_messaging \<or> i = external_reply_deaddrop_messaging"

subsection \<open>Header and packet\<close>

definition MAX_MTU :: nat where "MAX_MTU = 1024"

text \<open>
  \<open>sizeof(anonymous_header_t)\<close> with the alignment of the x86-64 ABI: the last member,
  \<open>session_id\<close>, ends at byte 156, and the 8-byte alignment of the identifiers rounds up to 160.
\<close>

definition sizeof_header :: nat where "sizeof_header = 160"

text \<open>Room for the payload, and the size of each address buffer of the header.\<close>

definition body_cap :: nat where "body_cap = MAX_MTU - sizeof_header"
definition ip_cap :: nat where "ip_cap = 20"

record anonymous_header =
  h_id :: u64
  h_size :: int
  h_relay_id :: u64
  h_relay_ip :: ip_addr
  h_relay_dest_id :: u64
  h_relay_dest_ip :: ip_addr
  h_relay_dest_port :: int
  h_relay_reply_id :: u64
  h_relay_reply_ip :: ip_addr
  h_relay_reply_port :: int
  h_key_id :: u64
  h_key_ip :: ip_addr
  h_key_port :: int
  h_index :: int
  h_msg_type :: bool
  h_is_dest :: bool
  h_session_id :: int

record anonymous_packet = anonymous_header +
  p_body :: "byte list"

subsection \<open>Constructors\<close>

definition AnonymousPacket3 :: "anonymous_packet \<Rightarrow> u64 \<Rightarrow> u64 \<Rightarrow> u64 \<Rightarrow> anonymous_packet" where
  "AnonymousPacket3 mem i src dest =
     mem\<lparr>h_id := i, h_relay_id := src, h_relay_dest_id := dest, h_size := 0\<rparr>"

definition AnonymousPacket0 :: "anonymous_packet \<Rightarrow> anonymous_packet" where
  "AnonymousPacket0 mem = AnonymousPacket3 mem 0 0 0"

text \<open>The copy constructor takes its argument by reference and writes to it: the pair is the
  copy and the argument afterwards.\<close>

definition AnonymousPacket_copy ::
  "anonymous_packet \<Rightarrow> anonymous_packet \<Rightarrow> anonymous_packet \<times> anonymous_packet" where
  "AnonymousPacket_copy mem packet =
     (let packet' = packet\<lparr>h_size := 0\<rparr>
      in (mem\<lparr>h_id := h_id packet, h_relay_id := h_relay_id packet,
              h_relay_dest_id := h_relay_dest_id packet, h_size := 0,
              h_msg_type := h_msg_type packet\<rparr>, packet'))"

definition AnonymousPacket4 ::
  "anonymous_packet \<Rightarrow> u64 \<Rightarrow> u64 \<Rightarrow> u64 \<Rightarrow> bool \<Rightarrow> anonymous_packet" where
  "AnonymousPacket4 mem i src dest is_internal_msg =
     mem\<lparr>h_id := i, h_relay_id := src, h_relay_dest_id := dest, h_size := 0,
         h_msg_type := is_internal_msg\<rparr>"

definition AnonymousPacket14 ::
  "anonymous_packet \<Rightarrow> u64 \<Rightarrow> ip_addr \<Rightarrow> u64 \<Rightarrow> ip_addr \<Rightarrow> u64 \<Rightarrow> int \<Rightarrow> ip_addr \<Rightarrow> u64 \<Rightarrow> int \<Rightarrow>
   ip_addr \<Rightarrow> u64 \<Rightarrow> int \<Rightarrow> int \<Rightarrow> bool \<Rightarrow> anonymous_packet option" where
  "AnonymousPacket14 mem i s_ip s_id r_ip r_id r_port reply_ip reply_id reply_port
     k_ip k_id k_port index is_internal_msg = do {
       sip \<leftarrow> strncpy_into ip_cap s_ip;
       rip \<leftarrow> strncpy_into ip_cap r_ip;
       reip \<leftarrow> strncpy_into ip_cap reply_ip;
       kip \<leftarrow> strncpy_into ip_cap k_ip;
       Some (mem\<lparr>h_id := i, h_relay_id := s_id, h_relay_ip := sip,
             h_relay_dest_id := r_id, h_relay_dest_ip := rip, h_relay_dest_port := r_port,
             h_relay_reply_id := reply_id, h_relay_reply_ip := reip,
             h_relay_reply_port := reply_port,
             h_key_id := k_id, h_key_ip := kip, h_key_port := k_port,
             h_index := index, h_size := 0, h_msg_type := is_internal_msg\<rparr>) }"

definition AnonymousPacket18 ::
  "anonymous_packet \<Rightarrow> u64 \<Rightarrow> ip_addr \<Rightarrow> u64 \<Rightarrow> ip_addr \<Rightarrow> u64 \<Rightarrow> int \<Rightarrow> ip_addr \<Rightarrow> u64 \<Rightarrow> int \<Rightarrow>
   ip_addr \<Rightarrow> u64 \<Rightarrow> int \<Rightarrow> int \<Rightarrow> bool \<Rightarrow> byte list \<Rightarrow> int \<Rightarrow> bool \<Rightarrow> int \<Rightarrow>
   anonymous_packet option" where
  "AnonymousPacket18 mem i s_ip s_id r_ip r_id r_port reply_ip reply_id reply_port
     k_ip k_id k_port index is_internal_msg package sz is_dest session = do {
       sip \<leftarrow> strncpy_into ip_cap s_ip;
       rip \<leftarrow> strncpy_into ip_cap r_ip;
       reip \<leftarrow> strncpy_into ip_cap reply_ip;
       kip \<leftarrow> strncpy_into ip_cap k_ip;
       body \<leftarrow> memcpy_into (p_body mem) package sz;
       Some (mem\<lparr>h_id := i, h_relay_id := s_id, h_relay_ip := sip,
             h_relay_dest_id := r_id, h_relay_dest_ip := rip, h_relay_dest_port := r_port,
             h_relay_reply_id := reply_id, h_relay_reply_ip := reip,
             h_relay_reply_port := reply_port,
             h_key_id := k_id, h_key_ip := kip, h_key_port := k_port,
             h_index := index, h_size := sz, h_msg_type := is_internal_msg,
             h_is_dest := is_dest, h_session_id := session, p_body := body\<rparr>) }"

subsection \<open>Accessors\<close>

definition payload :: "anonymous_packet \<Rightarrow> byte list" where
  "payload p = p_body p"

definition payload_size :: "anonymous_packet \<Rightarrow> int" where
  "payload_size p = h_size p"

definition total_size :: "anonymous_packet \<Rightarrow> int" where
  "total_size p = int sizeof_header + payload_size p"

definition is_internal_msg :: "anonymous_packet \<Rightarrow> bool" where
  "is_internal_msg p = h_msg_type p"

definition set_service_ID :: "anonymous_packet \<Rightarrow> u64 \<Rightarrow> anonymous_packet" where
  "set_service_ID p s_id = p\<lparr>h_id := s_id\<rparr>"

text \<open>The application message inside a packet: the first \<open>payload_size\<close> bytes behind the header.\<close>

definition content :: "anonymous_packet \<Rightarrow> byte list" where
  "content p = take (nat (payload_size p)) (payload p)"

subsection \<open>Well-formed packets\<close>

definition wf_mem :: "anonymous_packet \<Rightarrow> bool" where
  "wf_mem p \<longleftrightarrow> length (p_body p) = body_cap"

definition ip_ok :: "ip_addr \<Rightarrow> bool" where
  "ip_ok s \<longleftrightarrow> length s < ip_cap"

definition wf_packet :: "anonymous_packet \<Rightarrow> bool" where
  "wf_packet p \<longleftrightarrow> wf_mem p \<and> 0 \<le> h_size p \<and> h_size p \<le> int body_cap \<and>
     ip_ok (h_relay_ip p) \<and> ip_ok (h_relay_dest_ip p) \<and>
     ip_ok (h_relay_reply_ip p) \<and> ip_ok (h_key_ip p)"

text \<open>What travels: \<open>sendto\<close> transmits \<open>total_size\<close> bytes, so the payload is cut to its size; the
  receiver's buffer keeps its own old bytes behind it.\<close>

definition on_wire :: "anonymous_packet \<Rightarrow> anonymous_packet" where
  "on_wire p = p\<lparr>p_body := content p\<rparr>"

text \<open>The packet inside a datagram that a correct relay sends: the payload is exactly as long as the
  header says, and except in dummy messages all addresses are set.\<close>

definition wire_packet :: "anonymous_packet \<Rightarrow> bool" where
  "wire_packet p \<longleftrightarrow> 0 \<le> h_size p \<and> h_size p \<le> int body_cap \<and>
     length (p_body p) = nat (h_size p) \<and>
     (h_id p \<noteq> dummy_message \<longrightarrow> ip_ok (h_relay_ip p) \<and> ip_ok (h_relay_dest_ip p) \<and>
        ip_ok (h_relay_reply_ip p) \<and> ip_ok (h_key_ip p))"

definition recvfrom_into :: "anonymous_packet \<Rightarrow> anonymous_packet \<Rightarrow> anonymous_packet" where
  "recvfrom_into mem d = d\<lparr>p_body := p_body d @ drop (length (p_body d)) (p_body mem)\<rparr>"

subsection \<open>Lemmas\<close>

lemmas packet_cap_defs = body_cap_def MAX_MTU_def sizeof_header_def ip_cap_def

lemma ip_ok_copy [simp]: "ip_ok s \<Longrightarrow> strncpy_into ip_cap s = Some s"
  by (simp add: ip_ok_def)

lemma ip_ok_copy_iff: "strncpy_into ip_cap s = Some t \<longleftrightarrow> t = s \<and> ip_ok s"
  by (simp add: strncpy_into_eq_Some ip_ok_def)

lemma bind_strncpy: "Option.bind (strncpy_into ip_cap s) f = (if ip_ok s then f s else None)"
  by (simp add: ip_ok_def strncpy_into_def)

lemma message_ids_distinct:
  "distinct [dummy_message, internal_join_find_successor, internal_reply_find_successor,
     internal_find_predecessor, internal_reply_get_predecessor, internal_notify_predecessor_join,
     internal_fetch_successor_list, internal_reply_successor_list,
     internal_check_predecessor_existence, internal_reply_predecessor_existence,
     internal_check_successor_existence, internal_reply_successor_existence,
     external_pingpong_service, external_reply_pingpong_service, external_deaddrop_messaging,
     external_reply_deaddrop_messaging]"
  by (simp add: message_defs)

lemma wf_packet_14:
  assumes "AnonymousPacket14 mem i s_ip s_id r_ip r_id r_port reply_ip reply_id reply_port
     k_ip k_id k_port index internal = Some p" and "wf_mem mem"
  shows "wf_packet p"
  using assms
  by (auto simp: AnonymousPacket14_def bind_strncpy wf_packet_def wf_mem_def
      split: if_splits)

lemma wf_packet_18:
  assumes "AnonymousPacket18 mem i s_ip s_id r_ip r_id r_port reply_ip reply_id reply_port
     k_ip k_id k_port index internal package sz is_dest session = Some p" and "wf_mem mem"
  shows "wf_packet p"
  using assms
  by (auto simp: AnonymousPacket18_def bind_strncpy wf_packet_def wf_mem_def
      memcpy_into_eq_Some split: if_splits elim!: bind_SomeE)

lemma content_recv_on_wire:
  "wf_packet p \<Longrightarrow> content (recvfrom_into mem (on_wire p)) = content p"
  by (auto simp: content_def recvfrom_into_def on_wire_def payload_def payload_size_def
      wf_packet_def wf_mem_def)

lemma recv_on_wire_wf:
  "wf_packet p \<Longrightarrow> wf_mem mem \<Longrightarrow> wf_packet (recvfrom_into mem (on_wire p))"
  by (auto simp: wf_packet_def wf_mem_def recvfrom_into_def on_wire_def content_def payload_def
      payload_size_def)

lemma wire_packet_on_wire: "wf_packet p \<Longrightarrow> wire_packet (on_wire p)"
  by (auto simp: wire_packet_def wf_packet_def wf_mem_def on_wire_def content_def payload_def
      payload_size_def)

lemma recv_wire_packet:
  "wire_packet p \<Longrightarrow> wf_mem mem \<Longrightarrow> h_id p \<noteq> dummy_message \<Longrightarrow> wf_packet (recvfrom_into mem p)"
  by (auto simp: wire_packet_def wf_packet_def wf_mem_def recvfrom_into_def)

text \<open>A concrete content of a fresh packet, for examples.\<close>

definition sample_mem :: anonymous_packet where
  "sample_mem = \<lparr>h_id = 0, h_size = 0, h_relay_id = 0, h_relay_ip = [], h_relay_dest_id = 0,
     h_relay_dest_ip = [], h_relay_dest_port = 0, h_relay_reply_id = 0, h_relay_reply_ip = [],
     h_relay_reply_port = 0, h_key_id = 0, h_key_ip = [], h_key_port = 0, h_index = 0,
     h_msg_type = False, h_is_dest = False, h_session_id = 0, p_body = replicate body_cap 0\<rparr>"

lemma wf_sample_mem [simp]: "wf_mem sample_mem"
  by (simp add: sample_mem_def wf_mem_def)

text \<open>
  Building a packet is memory safe exactly when everything fits: the constructor with payload stays
  within the packet's buffer if and only if each of the four addresses has fewer than 20
  characters and the size given lies between 0, the 864 bytes behind the header and the length
  of the source buffer. The code checks none of this, so a size read from the network overruns the heap.
\<close>

theorem packet_constructor_safe_iff:
  assumes "wf_mem mem"
  shows "AnonymousPacket18 mem i s_ip s_id r_ip r_id r_port reply_ip reply_id reply_port
     k_ip k_id k_port index internal package sz is_dest session \<noteq> None \<longleftrightarrow>
   length s_ip < 20 \<and> length r_ip < 20 \<and> length reply_ip < 20 \<and> length k_ip < 20 \<and>
   0 \<le> sz \<and> sz \<le> 864 \<and> sz \<le> int (length package)"
  using assms unfolding AnonymousPacket18_def bind_strncpy
  by (auto simp: ip_ok_def memcpy_into_def wf_mem_def packet_cap_defs nat_le_iff)

theorem packet_constructor_safe_iff_witness:
  "AnonymousPacket18 sample_mem 0xffff ''10.0.0.1'' 1 ''10.0.0.2'' 4 3010 ''10.0.0.2'' 1 3010
     ''10.0.0.2'' 6 3010 0 False (replicate 864 0) 865 True 7 = None"
proof (rule ccontr)
  assume "\<not> ?thesis"
  from iffD1 [OF packet_constructor_safe_iff [OF wf_sample_mem] this] show False by simp
qed

end
