(* ===== verification/Queues.thy ===== *)
theory Queues
  imports Prelude
begin

text \<open>
  The queues of src/src/utils: ConcurrentBlockQueue.hpp, ConcurrentQueue.hpp and
  ConcurrentRandomQueue.hpp. Every operation holds the queue's mutex from its first access to its
  last, so one operation is one atomic step; what a blocked operation waits for is given as the
  list of its wake-ups. The locale \<open>buffer\<close> is the contract the packet pools and the sockets rely
  on: nothing is lost, duplicated or invented. The three queues interpret it.
\<close>

subsection \<open>ConcurrentBlockQueue\<close>

type_synonym 'a block_queue = "'a list"

definition cbq_push :: "'a block_queue \<Rightarrow> 'a \<Rightarrow> 'a block_queue" where
  "cbq_push q t = q @ [t]"

text \<open>\<open>None\<close>: the queue is empty and the caller stays blocked in \<open>cv.wait\<close>.\<close>

definition cbq_pop_front :: "'a block_queue \<Rightarrow> ('a \<times> 'a block_queue) option" where
  "cbq_pop_front q = (case q of [] \<Rightarrow> None | t # q' \<Rightarrow> Some (t, q'))"

text \<open>
  The timed pop loops on \<open>cv.wait_for\<close>. A wake-up is a pair: whether the wait timed out, and what
  other threads pushed meanwhile. \<open>TimedOut\<close> is the return with \<open>timeout = true\<close> and a
  default-constructed element, \<open>Waiting\<close> a caller whose wait has not ended yet.
\<close>

datatype 'a timed_pop = Got 'a "'a block_queue" | TimedOut "'a block_queue" | Waiting

fun cbq_pop_front_timed :: "'a block_queue \<Rightarrow> (bool \<times> 'a list) list \<Rightarrow> 'a timed_pop" where
  "cbq_pop_front_timed (t # q) ws = Got t q"
| "cbq_pop_front_timed [] [] = Waiting"
| "cbq_pop_front_timed [] ((timeout, pushed) # ws) =
     (if timeout then TimedOut pushed else cbq_pop_front_timed pushed ws)"

definition cbq_size :: "'a block_queue \<Rightarrow> nat" where
  "cbq_size q = length q"

subsection \<open>ConcurrentQueue\<close>

definition cq_push :: "'a list \<Rightarrow> 'a \<Rightarrow> 'a list" where
  "cq_push q t = q @ [t]"

definition cq_pop_front :: "'a list \<Rightarrow> 'a option \<times> 'a list" where
  "cq_pop_front q = (case q of [] \<Rightarrow> (None, q) | t # q' \<Rightarrow> (Some t, q'))"

subsection \<open>ConcurrentRandomQueue\<close>

text \<open>An array of unique pointers (\<open>None\<close> is \<open>nullptr\<close>) of which the first \<open>rq_n\<close> are in use.\<close>

record 'a random_queue =
  rq_arr :: "'a option list"
  rq_n :: nat

definition ConcurrentRandomQueue :: "nat \<Rightarrow> 'a random_queue" where
  "ConcurrentRandomQueue cap = \<lparr>rq_arr = replicate cap None, rq_n = 0\<rparr>"

definition random_queue_default_cap :: nat where
  "random_queue_default_cap = 10240"

definition crq_push :: "'a random_queue \<Rightarrow> 'a \<Rightarrow> 'a random_queue option" where
  "crq_push q t = do {
     arr \<leftarrow> arr_set (rq_arr q) (int (rq_n q)) (Some t);
     Some (q\<lparr>rq_arr := arr, rq_n := rq_n q + 1\<rparr>) }"

definition crq_pop_front :: "'a random_queue \<Rightarrow> ('a option \<times> 'a random_queue) option" where
  "crq_pop_front q =
     (if rq_n q = 0 then Some (None, q)
      else do {
        t \<leftarrow> arr_get (rq_arr q) (int (rq_n q - 1));
        arr \<leftarrow> arr_set (rq_arr q) (int (rq_n q - 1)) None;
        Some (t, q\<lparr>rq_arr := arr, rq_n := rq_n q - 1\<rparr>) })"

text \<open>Taking the pointer at \<open>idx\<close> out and moving the last one into its place.\<close>

definition crq_take :: "'a random_queue \<Rightarrow> nat \<Rightarrow> ('a option \<times> 'a random_queue) option" where
  "crq_take q idx = do {
     t \<leftarrow> arr_get (rq_arr q) (int idx);
     arr \<leftarrow> arr_set (rq_arr q) (int idx) None;
     arr' \<leftarrow> (if idx \<noteq> rq_n q - 1
              then do { l \<leftarrow> arr_get arr (int (rq_n q - 1));
                        a \<leftarrow> arr_set arr (int idx) l;
                        arr_set a (int (rq_n q - 1)) None }
              else Some arr);
     Some (t, q\<lparr>rq_arr := arr', rq_n := rq_n q - 1\<rparr>) }"

text \<open>\<open>idx_s\<close> is the value \<open>randombytes_random()\<close> returns; a modulus of zero is undefined.\<close>

definition crq_pop_random ::
  "'a random_queue \<Rightarrow> int \<Rightarrow> u32 \<Rightarrow> ('a option \<times> 'a random_queue) option" where
  "crq_pop_random q min_pool idx_s =
     (if min_pool = 0
      then if rq_n q = 0 then Some (None, q)
           else crq_take q (unat idx_s mod rq_n q)
      else let pool_max = nat (max (int (rq_n q)) min_pool)
           in if pool_max = 0 then None
              else let idx = unat idx_s mod pool_max
                   in if idx \<ge> rq_n q then Some (None, q) else crq_take q idx)"

text \<open>\<open>r\<close> is the value of \<open>rand()\<close>; the test \<open>r <= p * RAND_MAX\<close> compares an integer with a
  binary64 value, that is with its integer part \<open>bound\<close>.\<close>

definition crq_pop_with_P ::
  "'a random_queue \<Rightarrow> int \<Rightarrow> int \<Rightarrow> u32 \<Rightarrow> ('a option \<times> 'a random_queue) option" where
  "crq_pop_with_P q bound r idx_s =
     (if r \<le> bound then crq_pop_random q 0 idx_s else Some (None, q))"

definition crq_size :: "'a random_queue \<Rightarrow> nat" where
  "crq_size q = rq_n q"

text \<open>The slots in use hold packets, the others \<open>nullptr\<close>.\<close>

definition crq_wf :: "'a random_queue \<Rightarrow> bool" where
  "crq_wf q \<longleftrightarrow> rq_n q \<le> length (rq_arr q) \<and>
     (\<forall>i < length (rq_arr q). rq_arr q ! i \<noteq> None \<longleftrightarrow> i < rq_n q)"

definition crq_items :: "'a random_queue \<Rightarrow> 'a multiset" where
  "crq_items q = mset (map the (take (rq_n q) (rq_arr q)))"

subsection \<open>The contract of a buffer\<close>

datatype ('a, 'c) buffer_op = Put 'a | Get 'c

text \<open>Running operations in the order the mutex admits them; the result also collects what was
  taken out.\<close>

fun run_buffer ::
  "('q \<Rightarrow> 'a \<Rightarrow> 'q option) \<Rightarrow> ('q \<Rightarrow> 'c \<Rightarrow> ('a option \<times> 'q) option) \<Rightarrow> 'q \<Rightarrow>
   ('a, 'c) buffer_op list \<Rightarrow> ('a list \<times> 'q) option" where
  "run_buffer put get q [] = Some ([], q)"
| "run_buffer put get q (Put x # ops) = do { q' \<leftarrow> put q x; run_buffer put get q' ops }"
| "run_buffer put get q (Get c # ops) = do {
     (r, q') \<leftarrow> get q c;
     (out, q'') \<leftarrow> run_buffer put get q' ops;
     Some (case r of None \<Rightarrow> out | Some x \<Rightarrow> x # out, q'') }"

fun puts_of :: "('a, 'c) buffer_op list \<Rightarrow> 'a list" where
  "puts_of [] = []"
| "puts_of (Put x # ops) = x # puts_of ops"
| "puts_of (Get c # ops) = puts_of ops"

locale buffer =
  fixes put :: "'q \<Rightarrow> 'a \<Rightarrow> 'q option"
    and get :: "'q \<Rightarrow> 'c \<Rightarrow> ('a option \<times> 'q) option"
    and items :: "'q \<Rightarrow> 'a multiset"
    and wf :: "'q \<Rightarrow> bool"
  assumes put_ok: "wf q \<Longrightarrow> put q x = Some q' \<Longrightarrow> wf q' \<and> items q' = add_mset x (items q)"
    and get_ok: "wf q \<Longrightarrow> get q c = Some (r, q') \<Longrightarrow>
      wf q' \<and> items q = items q' + mset (case r of None \<Rightarrow> [] | Some x \<Rightarrow> [x])"
begin

lemma run_conserves:
  "wf q \<Longrightarrow> run_buffer put get q ops = Some (out, q') \<Longrightarrow>
     wf q' \<and> items q + mset (puts_of ops) = items q' + mset out"
proof (induction ops arbitrary: q out)
  case Nil
  then show ?case by simp
next
  case (Cons op ops)
  show ?case
  proof (cases op)
    case (Put x)
    with Cons.prems obtain q1 where
      q1: "put q x = Some q1" and run: "run_buffer put get q1 ops = Some (out, q')"
      by (auto elim: bind_SomeE)
    from put_ok [OF Cons.prems(1) q1] have "wf q1" and eq: "items q1 = add_mset x (items q)"
      by auto
    from Cons.IH [OF \<open>wf q1\<close> run] show ?thesis by (simp add: eq Put)
  next
    case (Get c)
    with Cons.prems obtain r q1 out1 where
      q1: "get q c = Some (r, q1)" and run: "run_buffer put get q1 ops = Some (out1, q')"
      and out: "out = (case r of None \<Rightarrow> out1 | Some x \<Rightarrow> x # out1)"
      by (auto elim!: bind_SomeE)
    from get_ok [OF Cons.prems(1) q1] have "wf q1"
      and eq: "items q = items q1 + mset (case r of None \<Rightarrow> [] | Some x \<Rightarrow> [x])"
      by auto
    from Cons.IH [OF \<open>wf q1\<close> run] show ?thesis by (simp add: eq Get out split: option.splits)
  qed
qed

end

subsection \<open>The queues keep the contract\<close>

interpretation cbq: buffer
  where put = "\<lambda>q x. Some (cbq_push q x)"
    and get = "\<lambda>q (_ :: unit). map_option (\<lambda>(x, q'). (Some x, q')) (cbq_pop_front q)"
    and items = mset and wf = "\<lambda>_. True"
  by unfold_locales (auto simp: cbq_push_def cbq_pop_front_def split: list.splits)

interpretation cq: buffer
  where put = "\<lambda>q x. Some (cq_push q x)" and get = "\<lambda>q (_ :: unit). Some (cq_pop_front q)"
    and items = mset and wf = "\<lambda>_. True"
  by unfold_locales (auto simp: cq_push_def cq_pop_front_def split: list.splits)

lemma crq_wf_new: "crq_wf (ConcurrentRandomQueue cap)"
  by (simp add: crq_wf_def ConcurrentRandomQueue_def)

lemma crq_items_new [simp]: "crq_items (ConcurrentRandomQueue cap) = {#}"
  by (simp add: crq_items_def ConcurrentRandomQueue_def)

lemma crq_push_ok:
  assumes "crq_wf q" and "crq_push q t = Some q'"
  shows "crq_wf q' \<and> crq_items q' = add_mset t (crq_items q)"
proof -
  from assms(2) have n: "rq_n q < length (rq_arr q)"
    and q': "q' = q\<lparr>rq_arr := (rq_arr q)[rq_n q := Some t], rq_n := rq_n q + 1\<rparr>"
    by (auto simp: crq_push_def split: if_splits)
  have "take (rq_n q + 1) ((rq_arr q)[rq_n q := Some t]) = take (rq_n q) (rq_arr q) @ [Some t]"
    using n by (simp add: take_Suc_conv_app_nth)
  with n q' assms(1) show ?thesis
    by (auto simp: crq_wf_def crq_items_def nth_list_update)
qed

lemma crq_take_eq:
  assumes "crq_wf q" and "idx < rq_n q"
  shows "\<exists>x q'. crq_take q idx = Some (Some x, q') \<and> rq_arr q ! idx = Some x \<and> crq_wf q' \<and>
     rq_n q' = rq_n q - 1 \<and> length (rq_arr q') = length (rq_arr q) \<and>
     take (rq_n q') (rq_arr q') = swap_remove idx (take (rq_n q) (rq_arr q))"
proof -
  let ?n = "rq_n q" and ?a = "rq_arr q"
  from assms have len: "?n \<le> length ?a" and idx: "idx < length ?a" and last: "?n - 1 < length ?a"
    by (auto simp: crq_wf_def)
  from assms idx have "?a ! idx \<noteq> None" unfolding crq_wf_def by blast
  then obtain x where x: "?a ! idx = Some x" by blast
  show ?thesis
  proof (cases "idx = ?n - 1")
    case True
    let ?q = "q\<lparr>rq_arr := ?a[idx := None], rq_n := ?n - 1\<rparr>"
    have "crq_take q idx = Some (Some x, ?q)"
      using True idx x by (simp add: crq_take_def)
    moreover have "crq_wf ?q"
      using assms True by (auto simp: crq_wf_def nth_list_update)
    moreover have "take (?n - 1) (?a[idx := None]) = swap_remove idx (take ?n ?a)"
      using True len by (simp add: swap_remove_def butlast_take)
    ultimately show ?thesis using x by auto
  next
    case False
    let ?b = "?a[idx := ?a ! (?n - 1), ?n - 1 := None]"
    let ?q = "q\<lparr>rq_arr := ?b, rq_n := ?n - 1\<rparr>"
    have "crq_take q idx = Some (Some x, ?q)"
      using False idx last x by (simp add: crq_take_def)
    moreover have "crq_wf ?q"
      using assms False last by (auto simp: crq_wf_def nth_list_update)
    moreover have "last (take ?n ?a) = ?a ! (?n - 1)"
    proof -
      have "take ?n ?a \<noteq> []" using assms(2) len by auto
      with len show ?thesis by (simp add: last_conv_nth)
    qed
    with False len assms(2) have "take (?n - 1) ?b = swap_remove idx (take ?n ?a)"
      by (simp add: swap_remove_def butlast_take take_update_swap list_update_beyond)
    ultimately show ?thesis using x by auto
  qed
qed

lemma crq_take_ok:
  assumes "crq_wf q" and "idx < rq_n q" and "crq_take q idx = Some (r, q')"
  shows "crq_wf q' \<and> (\<exists>x. r = Some x \<and> crq_items q = add_mset x (crq_items q'))"
proof -
  from crq_take_eq [OF assms(1,2)] assms(3) obtain x where r: "r = Some x"
    and x: "rq_arr q ! idx = Some x" and wf: "crq_wf q'"
    and eq: "take (rq_n q') (rq_arr q') = swap_remove idx (take (rq_n q) (rq_arr q))"
    by auto
  have "idx < length (take (rq_n q) (rq_arr q))"
    using assms(1,2) by (simp add: crq_wf_def)
  from mset_swap_remove [OF this]
  have "mset (take (rq_n q) (rq_arr q)) = add_mset (Some x) (mset (take (rq_n q') (rq_arr q')))"
    using assms(2) x by (simp add: eq)
  then have "image_mset the (mset (take (rq_n q) (rq_arr q))) =
      image_mset the (add_mset (Some x) (mset (take (rq_n q') (rq_arr q'))))"
    by (rule arg_cong)
  then have "crq_items q = add_mset x (crq_items q')"
    by (simp add: crq_items_def)
  with r wf show ?thesis by blast
qed

text \<open>Every pop either leaves the queue alone or takes the pointer of a slot in use.\<close>

lemma crq_pop_random_cases:
  assumes "crq_pop_random q min_pool idx_s = Some (r, q')"
  shows "r = None \<and> q' = q \<or> (\<exists>idx < rq_n q. crq_take q idx = Some (r, q'))"
proof (cases "min_pool = 0")
  case True
  with assms show ?thesis
    by (cases "rq_n q = 0") (auto simp: crq_pop_random_def intro: mod_less_divisor)
next
  case False
  with assms show ?thesis
    by (auto simp: crq_pop_random_def Let_def not_le split: if_splits)
qed

lemma crq_pop_random_ok:
  assumes "crq_wf q" and "crq_pop_random q min_pool idx_s = Some (r, q')"
  shows "crq_wf q' \<and> crq_items q = crq_items q' + mset (case r of None \<Rightarrow> [] | Some x \<Rightarrow> [x])"
  using crq_pop_random_cases [OF assms(2)]
proof (elim disjE exE conjE)
  fix idx assume "idx < rq_n q" and "crq_take q idx = Some (r, q')"
  from crq_take_ok [OF assms(1) this] show ?thesis by auto
qed (use assms(1) in simp)

interpretation crq: buffer
  where put = crq_push and get = "\<lambda>q (min_pool, idx_s). crq_pop_random q min_pool idx_s"
    and items = crq_items and wf = crq_wf
  by unfold_locales (auto dest: crq_push_ok crq_pop_random_ok)

lemma crq_pop_with_P_ok:
  assumes "crq_wf q" and "crq_pop_with_P q bound r idx_s = Some (t, q')"
  shows "crq_wf q' \<and> crq_items q = crq_items q' + mset (case t of None \<Rightarrow> [] | Some x \<Rightarrow> [x])"
  using assms by (auto simp: crq_pop_with_P_def dest: crq_pop_random_ok split: if_splits)

lemma crq_push_room: "(\<exists>q'. crq_push q t = Some q') \<longleftrightarrow> rq_n q < length (rq_arr q)"
  by (simp add: crq_push_def)

lemma crq_pop_with_P_total:
  assumes "crq_wf q"
  shows "\<exists>t q'. crq_pop_with_P q bound r idx_s = Some (t, q') \<and>
     length (rq_arr q') = length (rq_arr q)"
proof (cases "r \<le> bound \<and> rq_n q \<noteq> 0")
  case True
  then have "unat idx_s mod rq_n q < rq_n q" by simp
  from crq_take_eq [OF assms this] True show ?thesis
    by (auto simp: crq_pop_with_P_def crq_pop_random_def)
qed (auto simp: crq_pop_with_P_def crq_pop_random_def)

lemma crq_pop_random_total:
  assumes "crq_wf q" and "0 \<le> min_pool"
  shows "\<exists>t q'. crq_pop_random q min_pool idx_s = Some (t, q') \<and> length (rq_arr q') = length (rq_arr q) \<and>
     rq_n q' \<le> rq_n q"
proof -
  have take: "\<exists>t q'. crq_take q idx = Some (t, q') \<and> length (rq_arr q') = length (rq_arr q) \<and> rq_n q' \<le> rq_n q"
    if "idx < rq_n q" for idx
    using crq_take_eq [OF assms(1) that] by force
  show ?thesis
    using assms(2) take [of "unat idx_s mod rq_n q"] take [of "unat idx_s mod nat (max (int (rq_n q)) min_pool)"]
    by (auto simp: crq_pop_random_def Let_def not_le)
qed

text \<open>
  C15. A random queue loses, duplicates and invents nothing and never touches memory outside its array:
  any sequence of \<open>push\<close> and \<open>pop_random\<close> in the order the mutex admits them, with at most as many
  pushes as the array has free slots, runs to the end for all random numbers, and the packets
  pushed are those taken out together with those still queued, as multisets.
\<close>

theorem random_queue_conserves:
  assumes "crq_wf q" and "rq_n q + length (puts_of ops) \<le> length (rq_arr q)"
    and "\<forall>c i. Get (c, i) \<in> set ops \<longrightarrow> 0 \<le> c"
  shows "returns (run_buffer crq_push (\<lambda>q (min_pool, idx_s). crq_pop_random q min_pool idx_s) q ops)
    (\<lambda>(out, q'). crq_wf q' \<and> crq_items q + mset (puts_of ops) = crq_items q' + mset out)"
proof -
  let ?get = "\<lambda>q (min_pool, idx_s). crq_pop_random q min_pool idx_s"
  have "\<exists>out q'. run_buffer crq_push ?get q ops = Some (out, q')"
    using assms
  proof (induction ops arbitrary: q)
    case (Cons op ops)
    show ?case
    proof (cases op)
      case (Put x)
      with Cons.prems(2) have "rq_n q < length (rq_arr q)" by simp
      then have "\<exists>q1. crq_push q x = Some q1" by (rule iffD2 [OF crq_push_room])
      then obtain q1 where q1: "crq_push q x = Some q1" ..
      then have "rq_n q1 = rq_n q + 1" "length (rq_arr q1) = length (rq_arr q)"
        by (auto simp: crq_push_def split: if_splits)
      with Cons.prems Put crq_push_ok [OF Cons.prems(1) q1]
      have "\<exists>out q'. run_buffer crq_push ?get q1 ops = Some (out, q')" by (intro Cons.IH) auto
      with Put q1 show ?thesis by auto
    next
      case (Get c)
      obtain min_pool i where c: "c = (min_pool, i)" by (cases c)
      with Get Cons.prems(3) have "0 \<le> min_pool" by auto
      from crq_pop_random_total [OF Cons.prems(1) this, of i] obtain t q1 where
        q1: "crq_pop_random q min_pool i = Some (t, q1)" "length (rq_arr q1) = length (rq_arr q)"
          "rq_n q1 \<le> rq_n q" by blast
      with Cons.prems Get crq_pop_random_ok [OF Cons.prems(1) q1(1)]
      have "\<exists>out q'. run_buffer crq_push ?get q1 ops = Some (out, q')" by (intro Cons.IH) auto
      with Get c q1(1) show ?thesis by auto
    qed
  qed simp
  with crq.run_conserves [OF assms(1)] show ?thesis by (auto simp: returns_def)
qed

theorem random_queue_conserves_witness:
  "returns (run_buffer crq_push (\<lambda>q (min_pool, idx_s). crq_pop_random q min_pool idx_s)
      (ConcurrentRandomQueue 3) [Put 1, Put (2::nat), Get (0, 7), Get (5, 1), Put 3])
    (\<lambda>(out, q'). {#1, 2, 3#} = crq_items q' + mset out)"
proof -
  let ?ops = "[Put 1, Put (2::nat), Get (0::int, 7::u32), Get (5, 1), Put 3]"
  have "rq_n (ConcurrentRandomQueue 3 :: nat random_queue) + length (puts_of ?ops) \<le> length (rq_arr (ConcurrentRandomQueue 3 :: nat random_queue))"
    by (simp add: ConcurrentRandomQueue_def)
  moreover have "\<forall>c i. Get (c, i) \<in> set ?ops \<longrightarrow> 0 \<le> c" by auto
  ultimately show ?thesis
    by (rule returns_mono [OF random_queue_conserves [OF crq_wf_new]]) auto
qed

text \<open>
  A push into a full random queue is undefined: \<open>ConcurrentRandomQueue::push\<close> has no bound, so it
  stays within the array exactly while fewer packets are queued than the array has slots.
\<close>

theorem random_queue_push_bound:
  "crq_push q t \<noteq> None \<longleftrightarrow> crq_size q < length (rq_arr q)"
  by (auto simp: crq_size_def crq_push_def)

end
