(* ===== verification/Node.thy ===== *)
theory Node
  imports Ring Packet Queues Config
begin

text \<open>
  The overlay node, src/src/p2p/DAENode.hpp and DAENode.cpp: the routing state, the ring protocol
  (join, stabilize, notify, fix_fingers, failure checks, backup successors) and the forwarding of
  application messages. A node talks to the rest of the system through the interface
  \<open>DAEProtocol\<close> and the timer queue \<open>EventTask\<close>; each operation returns the list of the calls it
  makes on them, in order. \<open>None\<close> is a run that leaves defined behaviour.

  The file-scope variables \<open>joiner\<close>, \<open>current_node\<close>, \<open>start\<close> and \<open>is_bootstrap\<close> belong to the one
  node of a process: \<open>joiner\<close> and \<open>is_bootstrap\<close> are fields of the record, \<open>current_node\<close> is the
  record itself, and the time since \<open>start\<close> is an argument of the task that reads it.
\<close>

subsection \<open>State\<close>

record chord_finger =
  fg_start :: ring_id
  fg_to :: ring_id
  fg_successor :: ring_id
  fg_ip :: ip_addr
  fg_port :: int

record msg_descriptor =
  mi_is_deaddrop :: bool
  mi_session_id :: int
  mi_seq_id :: int
  mi_msgtype :: u64
  mi_to_id :: ring_id
  mi_from_id :: ring_id
  mi_msg :: "byte list"
  mi_size_of_payload :: int

text \<open>The descriptor copies \<open>size\<close> bytes into its buffer of \<open>MAX_MTU\<close>; \<open>old\<close> is what it held.\<close>

definition MsgDescriptor ::
  "byte list \<Rightarrow> bool \<Rightarrow> int \<Rightarrow> int \<Rightarrow> u64 \<Rightarrow> ring_id \<Rightarrow> ring_id \<Rightarrow> byte list \<Rightarrow> int \<Rightarrow>
   msg_descriptor option" where
  "MsgDescriptor old is_dd session sq msg_type connector_id client_key buf sz = do {
     msg \<leftarrow> memcpy_into old buf sz;
     Some \<lparr>mi_is_deaddrop = is_dd, mi_session_id = session, mi_seq_id = sq,
           mi_msgtype = msg_type, mi_to_id = connector_id, mi_from_id = client_key,
           mi_msg = msg, mi_size_of_payload = sz\<rparr> }"

record dae_node =
  n_m :: nat
  n_bootstrap_time :: int
  n_id :: ring_id
  n_ip :: ip_addr
  n_port :: int
  n_successor_status :: bool
  n_successor_onchecking :: bool
  n_predecessor :: ring_id
  n_predecessor_ip :: ip_addr
  n_predecessor_port :: int
  n_predecessor_status :: bool
  n_predecessor_onchecking :: bool
  n_pos :: ring_id
  n_pos_ip :: ip_addr
  n_pos_port :: int
  n_successor_list :: "peer_pair list"
  n_client_service_list :: "u64 \<Rightarrow> bool option"
  n_server_client_to_service :: "ring_id \<Rightarrow> u64 option"
  n_package_queue :: "string list"
  n_finger_table :: "chord_finger list"
  n_dummy_cnt :: u64
  n_app_cnt :: u64
  n_p2p_cnt :: u64
  n_cnt_interval :: int
  n_recheck :: int
  n_checkwait :: int
  n_d_p2p_time_before :: int
  n_d_p2p_time_after :: int
  n_config :: relay_config
  n_recv_list_deaddrop :: "msg_info \<Rightarrow> anonymous_packet option"
  n_recv_list_user :: "anonymous_packet list"
  n_MsgQueue :: "msg_descriptor list"
  n_ServiceQueue :: "relay_config list"
  n_joiner :: peer_pair
  n_is_bootstrap :: bool

subsection \<open>Calls made by a node\<close>

text \<open>The interface of src/src/p2p/DAEProtocol.hpp, arguments in the order of the source; the
  reference argument \<open>is_find\<close>, which no implementation reads, is left out.\<close>

datatype proto_call =
    JoinFindSuccessor ip_addr ring_id int ip_addr ring_id int int ring_id
  | ReplyFindSuccessor ip_addr int ring_id int ring_id ip_addr int
  | FindPredecessor ip_addr int ring_id ip_addr int ring_id
  | ReplyGetPredecessor ip_addr int ring_id ip_addr int
  | NotifyPredecessorJoin ip_addr ring_id int ring_id
  | FetchBackupSuccessor int ip_addr int ring_id ip_addr int
  | ReplyBackupSuccessor int ip_addr int ring_id ip_addr int
  | CheckPredecessorExistence ip_addr int ip_addr int
  | ReplyPredecessorExistence ring_id ip_addr int
  | CheckSuccessorExistence ip_addr int ip_addr int
  | ReplySuccessorExistence ring_id ip_addr int
  | ExternalMessaging bool int int ring_id ip_addr int u64 ring_id ring_id "byte list" int

text \<open>The tasks a node hands to the timer queue, one per lambda of the source.\<close>

datatype timer =
    JoinRetry | Maintain | FetchList
  | ProbePredecessor | JudgePredecessor | ProbeSuccessor | JudgeSuccessor

type_synonym timeval = "int \<times> int"

datatype action =
    Call proto_call
  | FutureExecute timeval timer
  | AddTimeTask timeval timer
  | SetInterval timeval

type_synonym node_op = "dae_node \<Rightarrow> (dae_node \<times> action list) option"

subsection \<open>Constructor\<close>

definition new_finger :: "nat \<Rightarrow> ring_id \<Rightarrow> ip_addr \<Rightarrow> int \<Rightarrow> nat \<Rightarrow> chord_finger option" where
  "new_finger m i addr port k = do {
     lo \<leftarrow> shl_one (int k);
     hi \<leftarrow> shl_one (int k + 1);
     ring \<leftarrow> shl_one (int m);
     ip \<leftarrow> strncpy_into ip_cap addr;
     Some \<lparr>fg_start = (i + word_of_int lo) mod word_of_int ring,
           fg_to = (i + word_of_int hi) mod word_of_int ring,
           fg_successor = i, fg_ip = ip, fg_port = port\<rparr> }"

fun new_fingers :: "nat \<Rightarrow> ring_id \<Rightarrow> ip_addr \<Rightarrow> int \<Rightarrow> nat list \<Rightarrow> chord_finger list option" where
  "new_fingers m i addr port [] = Some []"
| "new_fingers m i addr port (k # ks) = do {
     f \<leftarrow> new_finger m i addr port k;
     fs \<leftarrow> new_fingers m i addr port ks;
     Some (f # fs) }"

text \<open>Members the constructor leaves alone keep the bytes of \<open>mem\<close>, except those with a default
  initialiser or a default constructor. A negative table size makes \<open>new\<close> throw.\<close>

definition DAENode ::
  "dae_node \<Rightarrow> int \<Rightarrow> ring_id \<Rightarrow> int \<Rightarrow> ip_addr \<Rightarrow> int \<Rightarrow> relay_config \<Rightarrow> dae_node option" where
  "DAENode mem m i port addr bootstrap_t config = do {
     ip \<leftarrow> strncpy_into ip_cap addr;
     pip \<leftarrow> strncpy_into ip_cap addr;
     _ \<leftarrow> (if m < 0 then None else Some ());
     ft \<leftarrow> new_fingers (nat m) i addr port [0..<nat m];
     Some \<lparr>n_m = nat m, n_bootstrap_time = bootstrap_t, n_id = i, n_ip = ip, n_port = port,
       n_successor_status = False, n_successor_onchecking = False,
       n_predecessor = - 1, n_predecessor_ip = pip, n_predecessor_port = port,
       n_predecessor_status = False, n_predecessor_onchecking = False,
       n_pos = - 1, n_pos_ip = n_pos_ip mem, n_pos_port = n_pos_port mem,
       n_successor_list = [], n_client_service_list = Map.empty,
       n_server_client_to_service = Map.empty, n_package_queue = [], n_finger_table = ft,
       n_dummy_cnt = 0, n_app_cnt = 0, n_p2p_cnt = 0,
       n_cnt_interval = cf_cnt_interval config, n_recheck = cf_recheck config,
       n_checkwait = cf_checkwait config,
       n_d_p2p_time_before = cf_d_p2p_time_before config,
       n_d_p2p_time_after = cf_d_p2p_time_after config, n_config = config,
       n_recv_list_deaddrop = Map.empty, n_recv_list_user = [], n_MsgQueue = [],
       n_ServiceQueue = [],
       n_joiner = \<lparr>pp_ip = '''', pp_port = 0, pp_relay_id = 0, pp_check_usage = True\<rparr>, n_is_bootstrap = True\<rparr> }"

subsection \<open>Small operations\<close>

definition check_existence :: "dae_node \<Rightarrow> int \<Rightarrow> int \<Rightarrow> bool" where
  "check_existence n session sq \<longleftrightarrow> n_recv_list_deaddrop n (session, sq) \<noteq> None"

definition getContent :: "dae_node \<Rightarrow> (string \<times> dae_node) option" where
  "getContent n =
     map_option (\<lambda>(s, q). (s, n\<lparr>n_package_queue := q\<rparr>)) (cbq_pop_front (n_package_queue n))"

definition set_server_list :: "dae_node \<Rightarrow> ring_id \<Rightarrow> u64 \<Rightarrow> dae_node" where
  "set_server_list n i service =
     n\<lparr>n_server_client_to_service := (n_server_client_to_service n)(i \<mapsto> service)\<rparr>"

text \<open>\<open>operator[]\<close> of a \<open>std::map\<close> inserts a zero for a key it does not find.\<close>

definition is_client_registered :: "dae_node \<Rightarrow> ring_id \<Rightarrow> u64 \<Rightarrow> bool \<times> dae_node" where
  "is_client_registered n i service =
     (case n_server_client_to_service n i of
        Some s \<Rightarrow> (s = service, n)
      | None \<Rightarrow> (0 = service, set_server_list n i 0))"

definition set_client_service_list :: "dae_node \<Rightarrow> u64 \<Rightarrow> bool \<Rightarrow> dae_node" where
  "set_client_service_list n service connect_or_not =
     n\<lparr>n_client_service_list := (n_client_service_list n)(service \<mapsto> connect_or_not)\<rparr>"

definition is_service_connected :: "dae_node \<Rightarrow> u64 \<Rightarrow> bool \<times> dae_node" where
  "is_service_connected n service =
     (case n_client_service_list n service of
        Some b \<Rightarrow> (b, n)
      | None \<Rightarrow> (False, set_client_service_list n service False))"

text \<open>The copy of the peer gets the default \<open>check_usage\<close>.\<close>

definition add_to_successor_list :: "dae_node \<Rightarrow> peer_pair \<Rightarrow> dae_node" where
  "add_to_successor_list n peer =
     n\<lparr>n_successor_list := n_successor_list n @ [peer\<lparr>pp_check_usage := True\<rparr>]\<rparr>"

definition set_predecessor_of_successor :: "dae_node \<Rightarrow> ring_id \<Rightarrow> dae_node" where
  "set_predecessor_of_successor n i = n\<lparr>n_pos := i\<rparr>"

definition set_predecessor_of_successor_ip :: "dae_node \<Rightarrow> ip_addr \<Rightarrow> dae_node option" where
  "set_predecessor_of_successor_ip n ip = do {
     s \<leftarrow> strncpy_into ip_cap ip; Some (n\<lparr>n_pos_ip := s\<rparr>) }"

definition set_predecessor_of_successor_port :: "dae_node \<Rightarrow> int \<Rightarrow> dae_node" where
  "set_predecessor_of_successor_port n port = n\<lparr>n_pos_port := port\<rparr>"

definition updatesuccessor :: "dae_node \<Rightarrow> int \<Rightarrow> ring_id \<Rightarrow> dae_node option" where
  "updatesuccessor n k su = do {
     f \<leftarrow> arr_get (n_finger_table n) k;
     ft \<leftarrow> arr_set (n_finger_table n) k (f\<lparr>fg_successor := su\<rparr>);
     Some (n\<lparr>n_finger_table := ft\<rparr>) }"

definition updatesuccessor_ip :: "dae_node \<Rightarrow> int \<Rightarrow> ip_addr \<Rightarrow> dae_node option" where
  "updatesuccessor_ip n k ip = do {
     f \<leftarrow> arr_get (n_finger_table n) k;
     s \<leftarrow> strncpy_into ip_cap ip;
     ft \<leftarrow> arr_set (n_finger_table n) k (f\<lparr>fg_ip := s\<rparr>);
     Some (n\<lparr>n_finger_table := ft\<rparr>) }"

definition updatesuccessor_port :: "dae_node \<Rightarrow> int \<Rightarrow> int \<Rightarrow> dae_node option" where
  "updatesuccessor_port n k port = do {
     f \<leftarrow> arr_get (n_finger_table n) k;
     ft \<leftarrow> arr_set (n_finger_table n) k (f\<lparr>fg_port := port\<rparr>);
     Some (n\<lparr>n_finger_table := ft\<rparr>) }"

text \<open>The three updates always come together.\<close>

definition update_finger :: "dae_node \<Rightarrow> int \<Rightarrow> ring_id \<Rightarrow> ip_addr \<Rightarrow> int \<Rightarrow> dae_node option" where
  "update_finger n k su ip port = do {
     n1 \<leftarrow> updatesuccessor n k su;
     n2 \<leftarrow> updatesuccessor_ip n1 k ip;
     updatesuccessor_port n2 k port }"

definition finger :: "dae_node \<Rightarrow> int \<Rightarrow> chord_finger option" where
  "finger n k = arr_get (n_finger_table n) k"

definition successor :: "dae_node \<Rightarrow> ring_id option" where
  "successor n = map_option fg_successor (finger n 0)"

definition setpredecessor :: "dae_node \<Rightarrow> ring_id \<Rightarrow> dae_node" where
  "setpredecessor n i = n\<lparr>n_predecessor := i\<rparr>"

definition setpredecessor_ip :: "dae_node \<Rightarrow> ip_addr \<Rightarrow> dae_node option" where
  "setpredecessor_ip n ip = do {
     s \<leftarrow> strncpy_into ip_cap ip; Some (n\<lparr>n_predecessor_ip := s\<rparr>) }"

definition setpredecessor_port :: "dae_node \<Rightarrow> int \<Rightarrow> dae_node" where
  "setpredecessor_port n port = n\<lparr>n_predecessor_port := port\<rparr>"

definition reverse_predecessor_status :: "dae_node \<Rightarrow> dae_node" where
  "reverse_predecessor_status n = n\<lparr>n_predecessor_status := True\<rparr>"

definition reverse_successor_status :: "dae_node \<Rightarrow> dae_node" where
  "reverse_successor_status n = n\<lparr>n_successor_status := True\<rparr>"

subsection \<open>Routing\<close>

text \<open>The loop \<open>for (i = m - 1; i >= 0; i--)\<close> over the fingers; \<open>Some None\<close> when none is in range.\<close>

fun closest_finger :: "dae_node \<Rightarrow> ring_id \<Rightarrow> nat \<Rightarrow> chord_finger option option" where
  "closest_finger n dest_id 0 = Some None"
| "closest_finger n dest_id (Suc i) = do {
     f \<leftarrow> finger n (int i);
     if is_in_range (n_m n) (n_id n) dest_id (fg_successor f) then Some (Some f)
     else closest_finger n dest_id i }"

definition find_closest_preceding_node :: "dae_node \<Rightarrow> ring_id \<Rightarrow> ring_id option" where
  "find_closest_preceding_node n dest_id =
     map_option (\<lambda>r. case r of None \<Rightarrow> n_id n | Some f \<Rightarrow> fg_successor f)
       (closest_finger n dest_id (n_m n))"

definition find_closest_preceding_node_ip :: "dae_node \<Rightarrow> ring_id \<Rightarrow> ip_addr option" where
  "find_closest_preceding_node_ip n dest_id =
     map_option (\<lambda>r. case r of None \<Rightarrow> n_ip n | Some f \<Rightarrow> fg_ip f)
       (closest_finger n dest_id (n_m n))"

definition find_closest_preceding_node_port :: "dae_node \<Rightarrow> ring_id \<Rightarrow> int option" where
  "find_closest_preceding_node_port n dest_id =
     map_option (\<lambda>r. case r of None \<Rightarrow> n_port n | Some f \<Rightarrow> fg_port f)
       (closest_finger n dest_id (n_m n))"

text \<open>The result also carries the reference argument \<open>is_find\<close>.\<close>

definition handle_find_successor ::
  "dae_node \<Rightarrow> ip_addr \<Rightarrow> int \<Rightarrow> int \<Rightarrow> ring_id \<Rightarrow> bool \<Rightarrow> (bool \<times> action list) option" where
  "handle_find_successor n src_ip src_port index dest_id is_find =
     (if n_id n = dest_id
      then Some (True, [Call (ReplyFindSuccessor src_ip src_port dest_id index
                               (n_id n) (n_ip n) (n_port n))])
      else do {
        f0 \<leftarrow> finger n 0;
        if is_right_tight_in_range (n_m n) (n_id n) dest_id (fg_successor f0)
        then Some (True, [Call (ReplyFindSuccessor src_ip src_port dest_id index
                                 (fg_successor f0) (fg_ip f0) (fg_port f0))])
        else do {
          c \<leftarrow> find_closest_preceding_node n dest_id;
          c_ip \<leftarrow> find_closest_preceding_node_ip n dest_id;
          c_port \<leftarrow> find_closest_preceding_node_port n dest_id;
          if c = n_id n
          then Some (is_find, [Call (ReplyFindSuccessor src_ip src_port dest_id index
                                      (fg_successor f0) (fg_ip f0) (fg_port f0))])
          else Some (is_find, [Call (JoinFindSuccessor c_ip c c_port src_ip (- 1) src_port
                                      index dest_id)]) } })"

text \<open>
  \<open>find_successor\<close> is declared to return an identifier and its body ends without a return statement. By the
  language the behaviour of a call is then undefined; the model describes the object code of a compiler that emits
  the body and returns to the caller with an unspecified value, which both callers (\<open>fix_fingers\<close> and the join) ignore.
  Every statement about these operations rests on that.
\<close>

definition find_successor ::
  "dae_node \<Rightarrow> ip_addr \<Rightarrow> int \<Rightarrow> int \<Rightarrow> ring_id \<Rightarrow> bool \<Rightarrow> (bool \<times> action list) option" where
  "find_successor n src_ip port index dest_id is_find =
     handle_find_successor n src_ip port index dest_id is_find"

definition handle_external_messaging ::
  "dae_node \<Rightarrow> bool \<Rightarrow> int \<Rightarrow> int \<Rightarrow> u64 \<Rightarrow> ring_id \<Rightarrow> ring_id \<Rightarrow> byte list \<Rightarrow> int \<Rightarrow>
   action list option" where
  "handle_external_messaging n is_deaddrop session sq msg_type dest_id client_key ct sz =
     (if n_id n = dest_id
      then Some [Call (ExternalMessaging True session sq (n_id n) (n_ip n) (n_port n)
                        msg_type dest_id client_key ct sz)]
      else do {
        f0 \<leftarrow> finger n 0;
        if is_right_tight_in_range (n_m n) (n_id n) dest_id (fg_successor f0)
        then Some [Call (ExternalMessaging True session sq (fg_successor f0) (fg_ip f0)
                          (fg_port f0) msg_type dest_id client_key ct sz)]
        else do {
          c \<leftarrow> find_closest_preceding_node n dest_id;
          c_ip \<leftarrow> find_closest_preceding_node_ip n dest_id;
          c_port \<leftarrow> find_closest_preceding_node_port n dest_id;
          if c = n_id n
          then Some [Call (ExternalMessaging True session sq (fg_successor f0) (fg_ip f0)
                            (fg_port f0) msg_type dest_id client_key ct sz)]
          else Some [Call (ExternalMessaging False session sq c c_ip c_port
                            msg_type dest_id client_key ct sz)] } })"

definition handle_get_predecessor :: "dae_node \<Rightarrow> ip_addr \<Rightarrow> int \<Rightarrow> action list" where
  "handle_get_predecessor n src_ip src_port =
     [Call (ReplyGetPredecessor src_ip src_port (n_predecessor n) (n_predecessor_ip n)
             (n_predecessor_port n))]"

subsection \<open>Ring maintenance\<close>

definition join_with_help :: "dae_node \<Rightarrow> peer_pair \<Rightarrow> action list" where
  "join_with_help n joiner_node =
     [Call (JoinFindSuccessor (pp_ip joiner_node) (pp_relay_id joiner_node) (pp_port joiner_node)
             (n_ip n) (n_id n) (n_port n) 0 (n_id n)),
      FutureExecute (2, 0) JoinRetry]"

definition stabilize :: node_op where
  "stabilize n = do {
     f0 \<leftarrow> finger n 0;
     let ask = Call (FindPredecessor (fg_ip f0) (fg_port f0) (n_id n) (n_ip n) (n_port n)
                      (fg_successor f0));
     n1 \<leftarrow> (if is_in_range (n_m n) (n_id n) (fg_successor f0) (n_pos n)
            then update_finger n 0 (n_pos n) (n_pos_ip n) (n_pos_port n) else Some n);
     g0 \<leftarrow> finger n1 0;
     Some (n1, ask # (if fg_successor g0 \<noteq> n_id n1
       then [Call (NotifyPredecessorJoin (fg_ip g0) (fg_successor g0) (fg_port g0) (n_id n1))]
       else [])) }"

definition notify :: "dae_node \<Rightarrow> ring_id \<Rightarrow> ip_addr \<Rightarrow> int \<Rightarrow> dae_node option" where
  "notify n possible_predecessor ip port =
     (if n_predecessor n = - 1 \<or> is_in_range (n_m n) (n_predecessor n) (n_id n) possible_predecessor
      then do {
        n2 \<leftarrow> setpredecessor_ip (setpredecessor n possible_predecessor) ip;
        Some (setpredecessor_port n2 port) }
      else Some n)"

text \<open>The body of the loop of \<open>fix_fingers\<close> for one \<open>i\<close>, and the loop over a list of indices.\<close>

definition fix_finger :: "dae_node \<Rightarrow> nat \<Rightarrow> (dae_node \<times> action list) option" where
  "fix_finger n i = do {
     f \<leftarrow> finger n (int i);
     g \<leftarrow> finger n (int i + 1);
     if is_in_range (n_m n) (n_id n) (fg_successor f) (fg_start g)
     then do {
       n' \<leftarrow> update_finger n (int i + 1) (fg_successor f) (fg_ip f) (fg_port f);
       Some (n', []) }
     else do {
       (_, acts) \<leftarrow> find_successor n (n_ip n) (n_port n) (int i + 1) (fg_start g) False;
       Some (n, acts) } }"

fun fix_finger_loop :: "dae_node \<Rightarrow> nat list \<Rightarrow> (dae_node \<times> action list) option" where
  "fix_finger_loop n [] = Some (n, [])"
| "fix_finger_loop n (i # is) = do {
     (n', a) \<leftarrow> fix_finger n i;
     (n'', b) \<leftarrow> fix_finger_loop n' is;
     Some (n'', a @ b) }"

definition fix_fingers :: node_op where
  "fix_fingers n = do {
     f0 \<leftarrow> finger n 0;
     (_, a) \<leftarrow> find_successor n (n_ip n) (n_port n) 0 (fg_start f0) False;
     (n', b) \<leftarrow> fix_finger_loop n [0..<n_m n - 1];
     Some (n', a @ b) }"

definition fetch_successor_list :: "dae_node \<Rightarrow> action list option" where
  "fetch_successor_list n = do {
     f0 \<leftarrow> finger n 0;
     Some [Call (FetchBackupSuccessor (6 - 1) (fg_ip f0) (fg_port f0) (n_id n) (n_ip n)
                  (n_port n))] }"

definition handle_fetch_successor_list ::
  "dae_node \<Rightarrow> int \<Rightarrow> ip_addr \<Rightarrow> int \<Rightarrow> action list option" where
  "handle_fetch_successor_list n counter src_ip src_port = do {
     f0 \<leftarrow> finger n 0;
     Some (Call (ReplyBackupSuccessor counter src_ip src_port (fg_successor f0) (fg_ip f0)
                  (fg_port f0)) #
       (if counter > 0
        then [Call (FetchBackupSuccessor (counter - 1) (fg_ip f0) (fg_port f0) (- 1) src_ip
                     src_port)]
        else [])) }"

subsection \<open>Failure detection\<close>

text \<open>The probes are scheduled every 50 milliseconds; the microseconds are computed in an \<open>int\<close>.\<close>

fun probe_times :: "nat list \<Rightarrow> timer \<Rightarrow> action list option" where
  "probe_times [] t = Some []"
| "probe_times (i # is) t = do {
     us \<leftarrow> c_int (int i * 50 * 1000);
     as \<leftarrow> probe_times is t;
     Some (FutureExecute (0, us) t # as) }"

definition check_predecessor_failure :: node_op where
  "check_predecessor_failure n =
     (if \<not> n_predecessor_onchecking n \<and> n_predecessor n \<noteq> - 1
      then do {
        as \<leftarrow> probe_times [1..<Suc (nat (n_recheck n))] ProbePredecessor;
        Some (n\<lparr>n_predecessor_onchecking := True, n_predecessor_status := False\<rparr>,
              as @ [FutureExecute (n_checkwait n, 0) JudgePredecessor]) }
      else Some (n, []))"

definition check_successor_failure :: node_op where
  "check_successor_failure n = do {
     f0 \<leftarrow> finger n 0;
     if \<not> n_successor_onchecking n \<and> fg_successor f0 \<noteq> n_id n
     then do {
       as \<leftarrow> probe_times [1..<Suc (nat (n_recheck n))] ProbeSuccessor;
       Some (n\<lparr>n_successor_onchecking := True, n_successor_status := False\<rparr>,
             as @ [FutureExecute (n_checkwait n, 0) JudgeSuccessor]) }
     else Some (n, []) }"

definition handle_check_predecessor_failure :: "dae_node \<Rightarrow> ip_addr \<Rightarrow> int \<Rightarrow> action list" where
  "handle_check_predecessor_failure n src_ip src_port =
     [Call (ReplyPredecessorExistence (n_id n) src_ip src_port)]"

definition handle_check_successor_failure :: "dae_node \<Rightarrow> ip_addr \<Rightarrow> int \<Rightarrow> action list" where
  "handle_check_successor_failure n src_ip src_port =
     [Call (ReplySuccessorExistence (n_id n) src_ip src_port)]"

subsection \<open>Joining\<close>

definition join :: "dae_node \<Rightarrow> peer_pair \<Rightarrow> (dae_node \<times> action list) option" where
  "join n joiner_node = do {
     let n0 = n\<lparr>n_joiner := joiner_node\<rparr>;
     let a = (if n_ip n0 \<noteq> pp_ip joiner_node \<or> n_port n0 \<noteq> pp_port joiner_node
              then join_with_help n0 joiner_node else []);
     (n1, b) \<leftarrow> stabilize n0;
     (n2, c) \<leftarrow> fix_fingers n1;
     d \<leftarrow> fetch_successor_list n2;
     us \<leftarrow> c_int (1000 * n_d_p2p_time_before n2);
     Some (n2, a @ b @ c @ d @ [AddTimeTask (0, us) Maintain] @
       (if cf_check_failure (n_config n2) \<noteq> 0 then [AddTimeTask (10, 0) FetchList] else [])) }"

subsection \<open>Timer tasks\<close>

definition join_retry_task :: node_op where
  "join_retry_task n = do {
     f0 \<leftarrow> finger n 0;
     Some (n, if fg_successor f0 = n_id n then join_with_help n (n_joiner n) else []) }"

text \<open>\<open>secs\<close> is the whole number of seconds since \<open>join\<close> set \<open>start\<close>.\<close>

definition maintain_task :: "int \<Rightarrow> node_op" where
  "maintain_task secs n = do {
     let over = n_is_bootstrap n \<and> secs > n_bootstrap_time n;
     let n0 = (if over then n\<lparr>n_is_bootstrap := False\<rparr> else n);
     let a = (if over then [SetInterval (n_d_p2p_time_after n, 0)] else []);
     (n1, b) \<leftarrow> stabilize n0;
     (n2, c) \<leftarrow> fix_fingers n1;
     (n3, d) \<leftarrow> (if cf_check_failure (n_config n2) \<noteq> 0 then check_predecessor_failure n2
                 else Some (n2, []));
     (n4, e) \<leftarrow> (if cf_check_failure (n_config n2) \<noteq> 0 then check_successor_failure n3
                 else Some (n3, []));
     Some (n4, a @ b @ c @ d @ e) }"

definition fetch_list_task :: node_op where
  "fetch_list_task n = do { a \<leftarrow> fetch_successor_list n; Some (n, a) }"

definition probe_predecessor_task :: node_op where
  "probe_predecessor_task n =
     Some (n, [Call (CheckPredecessorExistence (n_predecessor_ip n) (n_predecessor_port n)
                      (n_ip n) (n_port n))])"

definition judge_predecessor_task :: node_op where
  "judge_predecessor_task n =
     Some ((if n_predecessor_status n then n else n\<lparr>n_predecessor := - 1\<rparr>)
             \<lparr>n_predecessor_onchecking := False\<rparr>, [])"

definition probe_successor_task :: node_op where
  "probe_successor_task n = do {
     f0 \<leftarrow> finger n 0;
     Some (n, [Call (CheckSuccessorExistence (fg_ip f0) (fg_port f0) (n_ip n) (n_port n))]) }"

definition judge_successor_task :: node_op where
  "judge_successor_task n =
     (if n_successor_status n then Some (n\<lparr>n_successor_onchecking := False\<rparr>, [])
      else case n_successor_list n of
        [] \<Rightarrow> Some (n\<lparr>n_successor_onchecking := False\<rparr>, [])
      | head # rest \<Rightarrow> do {
          f0 \<leftarrow> finger n 0;
          let l = (if pp_relay_id head = fg_successor f0 then rest else head # rest);
          let n1 = n\<lparr>n_successor_list := l\<rparr>;
          case l of
            [] \<Rightarrow> Some (n1\<lparr>n_successor_onchecking := False\<rparr>, [])
          | s # _ \<Rightarrow> do {
              n2 \<leftarrow> update_finger n1 0 (pp_relay_id s) (pp_ip s) (pp_port s);
              Some (n2\<lparr>n_successor_onchecking := False\<rparr>, []) } })"

text \<open>What the timer queue runs for each task.\<close>

fun run_timer :: "timer \<Rightarrow> int \<Rightarrow> node_op" where
  "run_timer JoinRetry secs n = join_retry_task n"
| "run_timer Maintain secs n = maintain_task secs n"
| "run_timer FetchList secs n = fetch_list_task n"
| "run_timer ProbePredecessor secs n = probe_predecessor_task n"
| "run_timer JudgePredecessor secs n = judge_predecessor_task n"
| "run_timer ProbeSuccessor secs n = probe_successor_task n"
| "run_timer JudgeSuccessor secs n = judge_successor_task n"

subsection \<open>Application messages\<close>

definition send_content_package ::
  "dae_node \<Rightarrow> bool \<Rightarrow> int \<Rightarrow> int \<Rightarrow> u64 \<Rightarrow> ring_id \<Rightarrow> ring_id \<Rightarrow> byte list \<Rightarrow> int \<Rightarrow>
   action list option" where
  "send_content_package n is_dd session sq msg_type connector_id client_key buf sz =
     handle_external_messaging n is_dd session sq msg_type connector_id client_key buf sz"

definition c_string :: "string \<Rightarrow> byte list" where
  "c_string s = map of_char s @ [0]"

definition connect_service :: "dae_node \<Rightarrow> u64 \<Rightarrow> ring_id \<Rightarrow> ring_id \<Rightarrow>
   (dae_node \<times> action list) option" where
  "connect_service n msg_type connector_id client_key = do {
     let n1 = set_client_service_list n msg_type False;
     a \<leftarrow> handle_external_messaging n1 False 0 0 msg_type connector_id client_key
            (c_string ''CONNECT'') 0;
     Some (n1, a) }"

text \<open>One round of the endless loop of \<open>pop_msg\<close>; the outer \<open>None\<close> of the result of
  \<open>cbq_pop_front\<close> is the thread waiting for a message.\<close>

definition pop_msg :: "dae_node \<Rightarrow> (dae_node \<times> action list) option option" where
  "pop_msg n =
     map_option (\<lambda>(d, q). do {
         let n1 = n\<lparr>n_MsgQueue := q\<rparr>;
         a \<leftarrow> send_content_package n1 (mi_is_deaddrop d) (mi_session_id d) (mi_seq_id d)
                (mi_msgtype d) (mi_to_id d) (mi_from_id d) (mi_msg d) (mi_size_of_payload d);
         Some (n1, a) })
       (cbq_pop_front (n_MsgQueue n))"

subsection \<open>Invariant\<close>

text \<open>
  What every operation needs and keeps: a finger table of \<open>m\<close> entries with \<open>0 < m < 32\<close>, an
  identifier on the ring, addresses that fit their buffers (the address of the successor's
  predecessor only once it is set), timer settings that fit an \<open>int\<close>, and stored packets that are
  well formed.
\<close>

definition wf_node :: "dae_node \<Rightarrow> bool" where
  "wf_node n \<longleftrightarrow> 0 < n_m n \<and> n_m n < 32 \<and> length (n_finger_table n) = n_m n \<and>
     on_ring (n_m n) (n_id n) \<and> ip_ok (n_ip n) \<and> ip_ok (n_predecessor_ip n) \<and>
     (n_pos n \<noteq> - 1 \<longrightarrow> ip_ok (n_pos_ip n)) \<and>
     list_all (\<lambda>f. ip_ok (fg_ip f)) (n_finger_table n) \<and>
     list_all (\<lambda>p. ip_ok (pp_ip p)) (n_successor_list n) \<and> ip_ok (pp_ip (n_joiner n)) \<and>
     n_recheck n * 50000 < 2 ^ 31 \<and> \<bar>n_d_p2p_time_before n\<bar> * 1000 < 2 ^ 31 \<and>
     (\<forall>k p. n_recv_list_deaddrop n k = Some p \<longrightarrow> wf_packet p) \<and>
     list_all wf_packet (n_recv_list_user n)"

text \<open>The node keeps its own identity and address.\<close>

definition same_self :: "dae_node \<Rightarrow> dae_node \<Rightarrow> bool" where
  "same_self n n' \<longleftrightarrow> n_m n' = n_m n \<and> n_id n' = n_id n \<and> n_ip n' = n_ip n \<and>
     n_port n' = n_port n"

text \<open>The ring messages a node may send on a ring of \<open>m\<close> bits: addresses fit, a finger index is one of
  the table and the counter of a backup request is at most five. Application messages have their
  own condition: the payload fits behind the header.\<close>

fun call_ok :: "nat \<Rightarrow> proto_call \<Rightarrow> bool" where
  "call_ok m (JoinFindSuccessor ip i p src si sp ix d) \<longleftrightarrow> ip_ok ip \<and> ip_ok src \<and>
     0 \<le> ix \<and> ix < int m"
| "call_ok m (ReplyFindSuccessor ip p d ix su kip kp) \<longleftrightarrow> ip_ok ip \<and> ip_ok kip \<and>
     0 \<le> ix \<and> ix < int m"
| "call_ok m (FindPredecessor ip p s sip sp i) \<longleftrightarrow> ip_ok ip \<and> ip_ok sip"
| "call_ok m (ReplyGetPredecessor ip p pr prip prp) \<longleftrightarrow> ip_ok ip \<and> ip_ok prip"
| "call_ok m (NotifyPredecessorJoin ip su p i) \<longleftrightarrow> ip_ok ip"
| "call_ok m (FetchBackupSuccessor c ip p si sip sp) \<longleftrightarrow> ip_ok ip \<and> ip_ok sip \<and>
     0 \<le> c \<and> c \<le> 5"
| "call_ok m (ReplyBackupSuccessor c ip p su suip suport) \<longleftrightarrow> ip_ok ip \<and> ip_ok suip \<and>
     0 \<le> c \<and> c \<le> 5"
| "call_ok m (CheckPredecessorExistence ip p sip sp) \<longleftrightarrow> ip_ok ip \<and> ip_ok sip"
| "call_ok m (ReplyPredecessorExistence i ip p) \<longleftrightarrow> ip_ok ip"
| "call_ok m (CheckSuccessorExistence ip p sip sp) \<longleftrightarrow> ip_ok ip \<and> ip_ok sip"
| "call_ok m (ReplySuccessorExistence i ip p) \<longleftrightarrow> ip_ok ip"
| "call_ok m (ExternalMessaging d s sq i ip p ty de ck ct sz) = False"

fun action_ok :: "nat \<Rightarrow> action \<Rightarrow> bool" where
  "action_ok m (Call c) = call_ok m c"
| "action_ok m (FutureExecute tv t) = True"
| "action_ok m (AddTimeTask tv t) = True"
| "action_ok m (SetInterval tv) = True"

fun ext_action_ok :: "action \<Rightarrow> bool" where
  "ext_action_ok (Call (ExternalMessaging d s sq i ip p ty de ck ct sz)) \<longleftrightarrow>
     ip_ok ip \<and> external_id ty \<and> 0 \<le> sz \<and> sz \<le> int body_cap \<and> sz \<le> int (length ct)"
| "ext_action_ok a = False"

definition op_ok :: "dae_node \<Rightarrow> (dae_node \<times> action list) option \<Rightarrow> bool" where
  "op_ok n r = returns r (\<lambda>(n', as). wf_node n' \<and> same_self n n' \<and> list_all (action_ok (n_m n)) as)"

subsection \<open>Every operation is safe and keeps the invariant\<close>

lemma same_self_refl [simp]: "same_self n n"
  by (simp add: same_self_def)

lemma same_self_trans [trans]: "same_self a b \<Longrightarrow> same_self b c \<Longrightarrow> same_self a c"
  by (simp add: same_self_def)

lemma op_okI [safe_intros]:
  "wf_node n' \<Longrightarrow> same_self n n' \<Longrightarrow> list_all (action_ok (n_m n)) as \<Longrightarrow> op_ok n (Some (n', as))"
  by (simp add: op_ok_def)

lemma op_ok_bind:
  assumes "op_ok n r"
    and "\<And>n' as. wf_node n' \<Longrightarrow> same_self n n' \<Longrightarrow> list_all (action_ok (n_m n)) as \<Longrightarrow> op_ok n (f (n', as))"
  shows "op_ok n (Option.bind r f)"
  using assms unfolding op_ok_def by (auto intro!: returns_bind)

lemma finger_returns:
  assumes "wf_node n" and "0 \<le> k" and "k < int (n_m n)"
  shows "returns (finger n k) (\<lambda>f. f \<in> set (n_finger_table n) \<and> ip_ok (fg_ip f))"
  using assms by (auto simp: finger_def arr_get_def wf_node_def returns_def list_all_iff)

lemma finger_0:
  assumes "wf_node n"
  obtains f where "finger n 0 = Some f" and "f \<in> set (n_finger_table n)" and "ip_ok (fg_ip f)"
  using finger_returns [OF assms, of 0] assms by (auto simp: returns_def wf_node_def)

lemma update_finger_eq:
  assumes "0 \<le> k" and "k < int (length (n_finger_table n))"
  shows "update_finger n k su ip port =
     (if ip_ok ip then Some (n\<lparr>n_finger_table := (n_finger_table n)[nat k :=
        (n_finger_table n ! nat k)\<lparr>fg_successor := su, fg_ip := ip, fg_port := port\<rparr>]\<rparr>) else None)"
  using assms
  by (simp add: update_finger_def updatesuccessor_def updatesuccessor_ip_def
      updatesuccessor_port_def arr_get_def arr_set_def bind_strncpy)

lemma update_finger_ok:
  assumes "wf_node n" and "0 \<le> k" and "k < int (n_m n)" and "ip_ok ip"
  shows "returns (update_finger n k su ip port) (\<lambda>n'. wf_node n' \<and> same_self n n')"
  using assms by (auto simp: update_finger_eq wf_node_def same_self_def)

lemma own_pos_unset:
  assumes "on_ring m i" and "m \<le> 52"
  shows "\<not> is_in_range m i d (- 1)"
proof (cases "i < d")
  case True
  then show ?thesis by (simp add: is_in_range_def id_none_max leD)
next
  case False
  have "(2::nat) ^ m \<le> 2 ^ 52"
    using assms(2) by (rule power_increasing) simp
  with False assms(1) have "unat d < 2 ^ 52"
    by (simp add: on_ring_def word_less_nat_alt)
  then show ?thesis using assms(2) by (rule id_none_not_in_range)
qed

lemma stabilize_ok:
  assumes "wf_node n"
  shows "op_ok n (stabilize n)"
proof -
  obtain f0 where f0: "finger n 0 = Some f0" "ip_ok (fg_ip f0)"
    using assms by (rule finger_0)
  let ?upd = "if is_in_range (n_m n) (n_id n) (fg_successor f0) (n_pos n)
    then update_finger n 0 (n_pos n) (n_pos_ip n) (n_pos_port n) else Some n"
  have "returns ?upd (\<lambda>n'. wf_node n' \<and> same_self n n')"
  proof (cases "is_in_range (n_m n) (n_id n) (fg_successor f0) (n_pos n)")
    case True
    with assms have "n_pos n \<noteq> - 1"
      using own_pos_unset [of "n_m n" "n_id n"] by (auto simp: wf_node_def)
    with assms have "ip_ok (n_pos_ip n)" and "0 < n_m n" by (auto simp: wf_node_def)
    with assms True show ?thesis by (auto intro: update_finger_ok)
  qed (use assms in simp)
  then obtain n1 where n1: "?upd = Some n1" "wf_node n1" "same_self n n1"
    by (auto simp only: returns_def)
  obtain g0 where g0: "finger n1 0 = Some g0" "ip_ok (fg_ip g0)"
    using n1(2) by (rule finger_0)
  from f0 g0 n1 assms show ?thesis
    unfolding stabilize_def f0(1) Let_def n1(1) bind.simps
    by (auto intro!: op_okI simp: wf_node_def)
qed

lemma notify_ok:
  assumes "wf_node n" and "ip_ok ip"
  shows "returns (notify n i ip port) (\<lambda>n'. wf_node n' \<and> same_self n n')"
  using assms
  by (auto simp: notify_def setpredecessor_def setpredecessor_ip_def setpredecessor_port_def
      bind_strncpy wf_node_def same_self_def)

text \<open>The scan from the last finger down is a search in the reversed table.\<close>

lemma closest_finger_find:
  "k \<le> length (n_finger_table n) \<Longrightarrow> closest_finger n d k =
     Some (find (\<lambda>f. is_in_range (n_m n) (n_id n) d (fg_successor f))
       (rev (take k (n_finger_table n))))"
  by (induction k) (simp_all add: finger_def take_Suc_conv_app_nth)

lemma find_SomeD: "find P xs = Some x \<Longrightarrow> x \<in> set xs \<and> P x"
  by (induction xs) (auto split: if_splits)

lemma closest_finger_ip:
  assumes "wf_node n"
  obtains r where "closest_finger n d (n_m n) = Some r"
    and "\<And>f. r = Some f \<Longrightarrow> f \<in> set (n_finger_table n) \<and> ip_ok (fg_ip f)"
proof (rule that)
  let ?P = "\<lambda>f. is_in_range (n_m n) (n_id n) d (fg_successor f)"
  from assms show "closest_finger n d (n_m n) = Some (find ?P (rev (n_finger_table n)))"
    by (simp add: closest_finger_find wf_node_def)
  fix f assume "find ?P (rev (n_finger_table n)) = Some f"
  from find_SomeD [OF this] assms show "f \<in> set (n_finger_table n) \<and> ip_ok (fg_ip f)"
    by (auto simp: wf_node_def list_all_iff)
qed

lemma handle_find_successor_ok:
  assumes "wf_node n" and "ip_ok src" and "0 \<le> ix" and "ix < int (n_m n)"
  shows "returns (handle_find_successor n src port ix d b) (\<lambda>(_, as). list_all (action_ok (n_m n)) as)"
proof -
  obtain f0 where f0: "finger n 0 = Some f0" "ip_ok (fg_ip f0)"
    using assms(1) by (rule finger_0)
  obtain r where r: "closest_finger n d (n_m n) = Some r" "\<And>f. r = Some f \<Longrightarrow> ip_ok (fg_ip f)"
    using closest_finger_ip [OF assms(1)] by metis
  from assms have "ip_ok (n_ip n)" by (simp add: wf_node_def)
  with f0 r assms show ?thesis
    by (auto simp: handle_find_successor_def find_closest_preceding_node_def
        find_closest_preceding_node_ip_def find_closest_preceding_node_port_def split: option.splits)
qed

lemma handle_external_messaging_ok:
  assumes "wf_node n" and "external_id ty" and "0 \<le> sz" and "sz \<le> int body_cap" and "sz \<le> int (length ct)"
  shows "returns (handle_external_messaging n dd session sq ty d ck ct sz)
     (\<lambda>as. \<exists>a. as = [a] \<and> ext_action_ok a)"
proof -
  obtain f0 where f0: "finger n 0 = Some f0" "ip_ok (fg_ip f0)"
    using assms(1) by (rule finger_0)
  obtain r where r: "closest_finger n d (n_m n) = Some r" "\<And>f. r = Some f \<Longrightarrow> ip_ok (fg_ip f)"
    using closest_finger_ip [OF assms(1)] by metis
  from assms have "ip_ok (n_ip n)" by (simp add: wf_node_def)
  with f0 r assms show ?thesis
    by (auto simp: handle_external_messaging_def find_closest_preceding_node_def
        find_closest_preceding_node_ip_def find_closest_preceding_node_port_def split: option.splits)
qed

lemma fix_finger_ok:
  assumes "wf_node n" and "Suc i < n_m n"
  shows "op_ok n (fix_finger n i)"
proof -
  obtain f where f: "finger n (int i) = Some f" "ip_ok (fg_ip f)"
    using finger_returns [OF assms(1), of "int i"] assms(2) by (auto simp: returns_def)
  obtain g where g: "finger n (int i + 1) = Some g"
    using finger_returns [OF assms(1), of "int i + 1"] assms(2) by (auto simp: returns_def)
  show ?thesis
  proof (cases "is_in_range (n_m n) (n_id n) (fg_successor f) (fg_start g)")
    case True
    have "returns (update_finger n (int i + 1) (fg_successor f) (fg_ip f) (fg_port f))
        (\<lambda>n'. wf_node n' \<and> same_self n n')"
      using assms f by (intro update_finger_ok) auto
    with True f g show ?thesis by (auto simp: fix_finger_def op_ok_def intro!: returns_bind)
  next
    case False
    from assms(1) have "ip_ok (n_ip n)" by (simp add: wf_node_def)
    from handle_find_successor_ok [OF assms(1) this, of "int i + 1"] False f g assms show ?thesis
      by (auto simp: fix_finger_def find_successor_def op_ok_def intro!: returns_bind)
  qed
qed

lemma op_ok_same: "same_self n n' \<Longrightarrow> op_ok n' r \<Longrightarrow> op_ok n r"
  by (auto simp: op_ok_def returns_def same_self_def)

lemma fix_finger_loop_ok:
  "wf_node n \<Longrightarrow> \<forall>i \<in> set is. Suc i < n_m n \<Longrightarrow> op_ok n (fix_finger_loop n is)"
proof (induction "is" arbitrary: n)
  case (Cons i "is")
  show ?case
    unfolding fix_finger_loop.simps
  proof (rule op_ok_bind [OF fix_finger_ok], unfold prod.case)
    fix n' as
    assume n': "wf_node n'" "same_self n n'" "list_all (action_ok (n_m n)) as"
    with Cons have "op_ok n' (fix_finger_loop n' is)" by (simp add: same_self_def)
    with n'(2) have "op_ok n (fix_finger_loop n' is)" by (rule op_ok_same)
    with n' show "op_ok n (do { (n'', b) \<leftarrow> fix_finger_loop n' is; Some (n'', as @ b) })"
      by (auto intro!: op_ok_bind op_okI)
  qed (use Cons.prems in auto)
qed (auto intro: op_okI)

lemma fix_fingers_ok:
  assumes "wf_node n"
  shows "op_ok n (fix_fingers n)"
proof -
  obtain f0 where f0: "finger n 0 = Some f0" using assms by (rule finger_0)
  from assms have "ip_ok (n_ip n)" "0 < int (n_m n)" by (simp_all add: wf_node_def)
  from handle_find_successor_ok [OF assms this(1) order.refl this(2)]
  obtain b as where find: "find_successor n (n_ip n) (n_port n) 0 (fg_start f0) False = Some (b, as)"
    and as: "list_all (action_ok (n_m n)) as"
    unfolding find_successor_def returns_def by fast
  have "op_ok n (fix_finger_loop n [0..<n_m n - 1])"
    using assms by (intro fix_finger_loop_ok) auto
  with as show ?thesis
    unfolding fix_fingers_def f0 find bind.simps prod.case by (auto intro!: op_ok_bind op_okI)
qed

lemma fetch_successor_list_ok:
  assumes "wf_node n"
  shows "returns (fetch_successor_list n) (list_all (action_ok (n_m n)))"
proof -
  obtain f0 where "finger n 0 = Some f0" "ip_ok (fg_ip f0)"
    using assms by (rule finger_0)
  with assms show ?thesis by (simp add: fetch_successor_list_def wf_node_def)
qed

lemma handle_fetch_successor_list_ok:
  assumes "wf_node n" and "ip_ok src" and "0 \<le> c" and "c \<le> 5"
  shows "returns (handle_fetch_successor_list n c src port) (list_all (action_ok (n_m n)))"
proof -
  obtain f0 where "finger n 0 = Some f0" "ip_ok (fg_ip f0)"
    using assms(1) by (rule finger_0)
  with assms show ?thesis by (simp add: handle_fetch_successor_list_def)
qed

lemma probe_times_ok:
  assumes "\<forall>i \<in> set is. int i * 50000 < 2 ^ 31"
  shows "returns (probe_times is t) (list_all (action_ok m))"
  using assms by (induction "is") (auto simp: c_int_def intro!: returns_bind)

lemma probes_ok:
  assumes "wf_node n"
  shows "returns (probe_times [1..<Suc (nat (n_recheck n))] t) (list_all (action_ok (n_m n)))"
  using assms by (intro probe_times_ok) (auto simp: wf_node_def)

lemma check_predecessor_failure_ok:
  assumes "wf_node n"
  shows "op_ok n (check_predecessor_failure n)"
proof (cases "\<not> n_predecessor_onchecking n \<and> n_predecessor n \<noteq> - 1")
  case True
  with probes_ok [OF assms, of ProbePredecessor] assms show ?thesis
    by (auto simp: check_predecessor_failure_def op_ok_def wf_node_def same_self_def
        intro!: returns_bind)
qed (use assms in \<open>auto simp: check_predecessor_failure_def intro: op_okI\<close>)

lemma check_successor_failure_ok:
  assumes "wf_node n"
  shows "op_ok n (check_successor_failure n)"
proof -
  obtain f0 where f0: "finger n 0 = Some f0" using assms by (rule finger_0)
  show ?thesis
  proof (cases "\<not> n_successor_onchecking n \<and> fg_successor f0 \<noteq> n_id n")
    case True
    with f0 probes_ok [OF assms, of ProbeSuccessor] assms show ?thesis
      by (auto simp: check_successor_failure_def op_ok_def wf_node_def same_self_def
          intro!: returns_bind)
  qed (use f0 assms in \<open>auto simp: check_successor_failure_def intro: op_okI\<close>)
qed

lemma join_with_help_ok: "wf_node n \<Longrightarrow> ip_ok (pp_ip j) \<Longrightarrow> list_all (action_ok (n_m n)) (join_with_help n j)"
  by (simp add: join_with_help_def wf_node_def)

text \<open>Maintenance after the interval logic: stabilize and fix_fingers, in this order.\<close>

lemma stabilize_fix_ok:
  assumes "wf_node n" and "same_self n0 n"
    and "\<And>n2 b c. wf_node n2 \<Longrightarrow> same_self n0 n2 \<Longrightarrow> list_all (action_ok (n_m n0)) b \<Longrightarrow>
      list_all (action_ok (n_m n0)) c \<Longrightarrow> op_ok n0 (f b (n2, c))"
  shows "op_ok n0 (do { (n1, b) \<leftarrow> stabilize n; r \<leftarrow> fix_fingers n1; f b r })"
proof (rule op_ok_bind [OF op_ok_same [OF assms(2) stabilize_ok [OF assms(1)]]], unfold prod.case)
  fix n1 b assume n1: "wf_node n1" "same_self n0 n1" "list_all (action_ok (n_m n0)) b"
  show "op_ok n0 (Option.bind (fix_fingers n1) (f b))"
    by (rule op_ok_bind [OF op_ok_same [OF n1(2) fix_fingers_ok [OF n1(1)]]])
      (use assms(3) n1(3) in blast)
qed

lemma join_ok:
  assumes "wf_node n" and "ip_ok (pp_ip j)"
  shows "op_ok n (join n j)"
proof -
  let ?n0 = "n\<lparr>n_joiner := j\<rparr>"
  from assms have n0: "wf_node ?n0" "same_self n ?n0" by (auto simp: wf_node_def same_self_def)
  let ?a = "if n_ip ?n0 \<noteq> pp_ip j \<or> n_port ?n0 \<noteq> pp_port j then join_with_help ?n0 j else []"
  have a: "list_all (action_ok (n_m n)) ?a" using join_with_help_ok [OF n0(1) assms(2)] by simp
  show ?thesis
    unfolding join_def Let_def
  proof (rule stabilize_fix_ok [OF n0], unfold prod.case)
    fix n2 b c
    assume n2: "wf_node n2" "same_self n n2" "list_all (action_ok (n_m n)) b" "list_all (action_ok (n_m n)) c"
    obtain d where d: "fetch_successor_list n2 = Some d" "list_all (action_ok (n_m n)) d"
      using fetch_successor_list_ok [OF n2(1)] n2(2) by (auto simp: returns_def same_self_def)
    have "c_int (1000 * n_d_p2p_time_before n2) = Some (1000 * n_d_p2p_time_before n2)"
      using n2(1) by (auto simp: c_int_def wf_node_def)
    with a d n2 show "op_ok n (do {
         d \<leftarrow> fetch_successor_list n2;
         us \<leftarrow> c_int (1000 * n_d_p2p_time_before n2);
         Some (n2, ?a @ b @ c @ d @ [AddTimeTask (0, us) Maintain] @
           (if cf_check_failure (n_config n2) \<noteq> 0 then [AddTimeTask (10, 0) FetchList] else [])) })"
      by (auto intro!: op_okI)
  qed
qed

lemma maintain_task_ok:
  assumes "wf_node n"
  shows "op_ok n (maintain_task secs n)"
proof -
  let ?over = "n_is_bootstrap n \<and> secs > n_bootstrap_time n"
  let ?n0 = "if ?over then n\<lparr>n_is_bootstrap := False\<rparr> else n"
  from assms have n0: "wf_node ?n0" "same_self n ?n0" by (auto simp: wf_node_def same_self_def)
  have guarded: "op_ok n (if c then r else Some (n2, []))"
    if "wf_node n2" "same_self n n2" "op_ok n2 r" for c r n2
    using that by (auto intro: op_okI op_ok_same)
  have interval: "list_all (action_ok (n_m n)) (if b then [SetInterval tv] else [])" for b tv by simp
  show ?thesis
    unfolding maintain_task_def Let_def
    by (rule stabilize_fix_ok [OF n0], unfold prod.case)
      (auto intro!: op_ok_bind guarded interval check_predecessor_failure_ok check_successor_failure_ok op_okI
        simp del: if_split_asm split del: if_split split: prod.splits)
qed

lemma judge_successor_task_ok:
  assumes "wf_node n"
  shows "op_ok n (judge_successor_task n)"
proof -
  obtain f0 where f0: "finger n 0 = Some f0" using assms by (rule finger_0)
  have upd: "op_ok n (do { n2 \<leftarrow> update_finger (n\<lparr>n_successor_list := l\<rparr>) 0 (pp_relay_id s) (pp_ip s)
      (pp_port s); Some (n2\<lparr>n_successor_onchecking := False\<rparr>, []) })"
    if "list_all (\<lambda>p. ip_ok (pp_ip p)) l" "ip_ok (pp_ip s)" for l and s :: peer_pair
    using assms that by (auto simp: update_finger_eq wf_node_def same_self_def op_ok_def)
  have clear: "op_ok n (Some (n\<lparr>n_successor_onchecking := False\<rparr>, []))"
      "op_ok n (Some (n\<lparr>n_successor_list := [], n_successor_onchecking := False\<rparr>, []))"
    using assms by (auto simp: wf_node_def same_self_def op_ok_def)
  have l: "list_all (\<lambda>p. ip_ok (pp_ip p)) (n_successor_list n)" using assms by (simp add: wf_node_def)
  show ?thesis
  proof (cases "n_successor_list n")
    case (Cons head rest)
    with l f0 clear upd [of rest] upd [of "head # rest"] show ?thesis
      by (cases rest) (simp_all add: judge_successor_task_def Let_def)
  qed (use clear in \<open>simp add: judge_successor_task_def\<close>)
qed

lemma run_timer_ok:
  assumes "wf_node n"
  shows "op_ok n (run_timer t secs n)"
proof (cases t)
  case JoinRetry
  obtain f0 where f0: "finger n 0 = Some f0" using assms by (rule finger_0)
  with JoinRetry assms join_with_help_ok [OF assms, of "n_joiner n"] show ?thesis
    by (auto simp: join_retry_task_def op_ok_def wf_node_def)
next
  case FetchList
  with fetch_successor_list_ok [OF assms] assms show ?thesis
    by (auto simp: fetch_list_task_def op_ok_def intro!: returns_bind)
next
  case ProbeSuccessor
  obtain f0 where "finger n 0 = Some f0" "ip_ok (fg_ip f0)"
    using assms by (rule finger_0)
  with ProbeSuccessor assms show ?thesis
    by (simp add: probe_successor_task_def op_ok_def wf_node_def)
qed (use assms in \<open>auto simp: maintain_task_ok judge_successor_task_ok probe_predecessor_task_def
   judge_predecessor_task_def wf_node_def same_self_def intro!: op_okI\<close>)

subsection \<open>Construction\<close>

lemma new_finger_eq:
  assumes "m < 32" and "k < m" and "ip_ok addr"
  shows "\<exists>st t. new_finger m i addr port k =
     Some \<lparr>fg_start = st, fg_to = t, fg_successor = i, fg_ip = addr, fg_port = port\<rparr>"
  using assms by (auto simp: new_finger_def shl_one_def)

lemma new_fingers_ok:
  assumes "m < 32" and "ip_ok addr" and "\<forall>k \<in> set ks. k < m"
  shows "returns (new_fingers m i addr port ks) (\<lambda>fs. length fs = length ks \<and>
     list_all (\<lambda>f. ip_ok (fg_ip f) \<and> fg_ip f = addr \<and> fg_port f = port \<and> fg_successor f = i) fs)"
  using assms(3)
proof (induction ks)
  case (Cons k ks)
  with new_finger_eq [OF assms(1) _ assms(2), of k i port] assms(2) show ?case
    by (auto simp: returns_def)
qed simp

lemma DAENode_ok:
  assumes "0 < m" and "m < 32" and "on_ring (nat m) i" and "ip_ok addr"
    and "cf_recheck config * 50000 < 2 ^ 31" and "\<bar>cf_d_p2p_time_before config\<bar> * 1000 < 2 ^ 31"
  shows "returns (DAENode mem m i port addr bt config) (\<lambda>n. wf_node n \<and> n_m n = nat m \<and> n_id n = i \<and>
     n_ip n = addr \<and> n_port n = port)"
proof -
  have "nat m < 32" using assms(1,2) by simp
  then obtain ft where ft: "new_fingers (nat m) i addr port [0..<nat m] = Some ft" "length ft = nat m"
    "list_all (\<lambda>f. ip_ok (fg_ip f)) ft"
    using new_fingers_ok [of "nat m" addr "[0..<nat m]" i port] assms
    by (auto simp: returns_def list_all_iff)
  from assms ft show ?thesis by (simp add: DAENode_def wf_node_def ip_ok_def ip_cap_def)
qed

subsection \<open>A concrete node\<close>

text \<open>A node of a ring of \<open>m\<close> bits with a given finger table, default settings and empty queues.\<close>

definition sample_node :: "nat \<Rightarrow> ring_id \<Rightarrow> ip_addr \<Rightarrow> int \<Rightarrow> chord_finger list \<Rightarrow> dae_node" where
  "sample_node m i ip port ft =
     \<lparr>n_m = m, n_bootstrap_time = 10, n_id = i, n_ip = ip, n_port = port,
       n_successor_status = False, n_successor_onchecking = False,
       n_predecessor = - 1, n_predecessor_ip = ip, n_predecessor_port = port,
       n_predecessor_status = False, n_predecessor_onchecking = False,
       n_pos = - 1, n_pos_ip = [], n_pos_port = 0,
       n_successor_list = [], n_client_service_list = Map.empty,
       n_server_client_to_service = Map.empty, n_package_queue = [], n_finger_table = ft,
       n_dummy_cnt = 0, n_app_cnt = 0, n_p2p_cnt = 0, n_cnt_interval = 1, n_recheck = 10,
       n_checkwait = 2, n_d_p2p_time_before = 10, n_d_p2p_time_after = 1, n_config = RelayConfig 0,
       n_recv_list_deaddrop = Map.empty, n_recv_list_user = [], n_MsgQueue = [],
       n_ServiceQueue = [],
       n_joiner = \<lparr>pp_ip = [], pp_port = 0, pp_relay_id = 0, pp_check_usage = True\<rparr>,
       n_is_bootstrap = True\<rparr>"

definition sample_finger :: "ring_id \<Rightarrow> ring_id \<Rightarrow> ip_addr \<Rightarrow> int \<Rightarrow> chord_finger" where
  "sample_finger st su ip port =
     \<lparr>fg_start = st, fg_to = st, fg_successor = su, fg_ip = ip, fg_port = port\<rparr>"

lemma wf_sample_node:
  assumes "0 < m" and "m < 32" and "on_ring m i" and "ip_ok ip" and "length ft = m"
    and "list_all (\<lambda>f. ip_ok (fg_ip f)) ft"
  shows "wf_node (sample_node m i ip port ft)"
  using assms by (simp add: wf_node_def sample_node_def ip_ok_def ip_cap_def)

end
