(* ===== verification/Socket.thy ===== *)
theory Socket
  imports Node "HOL-Library.Sublist"
begin

text \<open>
  The relay process: the socket of src/src/relay/RandomSocket.cpp with the packet pools of
  src/src/obfuscation (ShufflePool, DirectPool). One record holds the socket, its node and its
  pool, because each points to the others; the \<open>DAEService\<close> object keeps the same address,
  port and identifier as its socket. \<open>r_wire\<close> is the list of datagrams given to \<open>sendto\<close>, in
  order; \<open>r_timers\<close> are the pending tasks of the event loop; \<open>r_heap k\<close> is what the memory of
  the \<open>k\<close>-th packet allocation holds before the constructor runs, and \<open>r_allocs\<close> counts the
  allocations.
\<close>

subsection \<open>State\<close>

record datagram =
  dg_ip :: ip_addr
  dg_port :: int
  dg_packet :: anonymous_packet

record shuffle_pool =
  sp_package_pool :: "anonymous_packet random_queue list"
  sp_m :: nat
  sp_min_pool :: int
  sp_bound :: int
  sp_debug :: bool
  sp_total_msg :: int
  sp_real_forward_msg :: int
  sp_send_dummy :: int
  sp_time_prev :: int
  sp_msg_rate :: int

datatype pool = Shuffle shuffle_pool | Direct int

datatype relay_task = NodeTask timer | PoolStart | SendBatch

record timer_entry =
  te_interval :: timeval
  te_periodic :: bool
  te_task :: relay_task

record relay =
  r_host :: ip_addr
  r_port :: int
  r_relay_id :: ring_id
  r_node :: dae_node
  r_config :: relay_config
  r_pool :: "pool option"
  r_wire :: "datagram list"
  r_timers :: "timer_entry list"
  r_heap :: "nat \<Rightarrow> anonymous_packet"
  r_allocs :: nat

definition RandomSocket ::
  "ip_addr \<Rightarrow> int \<Rightarrow> ring_id \<Rightarrow> dae_node \<Rightarrow> relay_config \<Rightarrow> (nat \<Rightarrow> anonymous_packet) \<Rightarrow> relay" where
  "RandomSocket host port i node config heap =
     \<lparr>r_host = host, r_port = port, r_relay_id = i, r_node = node, r_config = config,
      r_pool = None, r_wire = [], r_timers = [], r_heap = heap, r_allocs = 0\<rparr>"

definition new_mem :: "relay \<Rightarrow> anonymous_packet \<times> relay" where
  "new_mem r = (r_heap r (r_allocs r), r\<lparr>r_allocs := r_allocs r + 1\<rparr>)"

subsection \<open>Sending a datagram\<close>

text \<open>
  \<open>DAE_direct_send\<close> overwrites both of its address arguments with the packet's own destination.
  The port is cut to 16 bits by \<open>htons\<close>; \<open>sendto\<close> reads \<open>total_size\<close> bytes of the packet, which
  must lie within it. A failing \<open>sendto\<close> is only logged: the datagram is lost, as on the network.
\<close>

definition DAE_direct_send :: "relay \<Rightarrow> anonymous_packet \<Rightarrow> ip_addr \<Rightarrow> int \<Rightarrow> relay option" where
  "DAE_direct_send r packet ip_addr dest_port =
     (let ip = h_relay_dest_ip packet; port = h_relay_dest_port packet
      in if 0 \<le> total_size packet \<and> total_size packet \<le> int MAX_MTU \<and> 0 \<le> payload_size packet
         then Some (r\<lparr>r_wire := r_wire r @
                [\<lparr>dg_ip = ip, dg_port = port mod 2 ^ 16, dg_packet = on_wire packet\<rparr>],
              r_node := (if is_internal_msg packet \<and> h_id packet \<noteq> dummy_message
                then (r_node r)\<lparr>n_p2p_cnt := n_p2p_cnt (r_node r) + 1\<rparr> else r_node r)\<rparr>)
         else None)"

subsection \<open>ShufflePool\<close>

text \<open>One random queue per finger; the pool reads the finger table of the node.\<close>

definition ShufflePool ::
  "nat \<Rightarrow> int \<Rightarrow> int \<Rightarrow> bool \<Rightarrow> int \<Rightarrow> int \<Rightarrow> int \<Rightarrow> shuffle_pool" where
  "ShufflePool m rate min_pool debug bound send_dummy now =
     \<lparr>sp_package_pool = replicate m (ConcurrentRandomQueue random_queue_default_cap),
      sp_m = m, sp_min_pool = min_pool, sp_bound = bound, sp_debug = debug,
      sp_total_msg = 0, sp_real_forward_msg = 0, sp_send_dummy = send_dummy,
      sp_time_prev = now, sp_msg_rate = rate\<rparr>"

definition ShufflePool_start :: "relay \<Rightarrow> shuffle_pool \<Rightarrow> relay" where
  "ShufflePool_start r sp = r\<lparr>r_timers := r_timers r @
     [\<lparr>te_interval = (0, sp_msg_rate sp), te_periodic = True, te_task = SendBatch\<rparr>]\<rparr>"

text \<open>The first finger with the address the packet goes to.\<close>

fun finger_for :: "dae_node \<Rightarrow> anonymous_packet \<Rightarrow> nat list \<Rightarrow> nat option option" where
  "finger_for n packet [] = Some None"
| "finger_for n packet (i # is) = do {
     f \<leftarrow> finger n (int i);
     if h_relay_dest_ip packet = fg_ip f \<and> h_relay_dest_port packet = fg_port f
     then Some (Some i) else finger_for n packet is }"

text \<open>A packet for no finger and not for this host is dropped with an error message. In the call
  for this host the source reads \<open>packet\<close> in an argument list that also moves from it; the model
  evaluates the read first, as GCC does on x86-64.\<close>

definition ShufflePool_send :: "relay \<Rightarrow> shuffle_pool \<Rightarrow> anonymous_packet \<Rightarrow> relay option" where
  "ShufflePool_send r sp packet = do {
     hit \<leftarrow> finger_for (r_node r) packet [0..<sp_m sp];
     case hit of
       Some i \<Rightarrow> do {
         q \<leftarrow> arr_get (sp_package_pool sp) (int i);
         q' \<leftarrow> crq_push q packet;
         qs \<leftarrow> arr_set (sp_package_pool sp) (int i) q';
         Some (r\<lparr>r_pool := Some (Shuffle (sp\<lparr>sp_package_pool := qs\<rparr>))\<rparr>) }
     | None \<Rightarrow>
         if h_relay_dest_ip packet = r_host r \<and> h_relay_dest_port packet = r_port r
         then DAE_direct_send r packet (h_relay_dest_ip packet) (h_relay_dest_port packet)
         else Some r }"

text \<open>The dummy packet for a finger: default-constructed, so its other fields and its 132 bytes of
  payload are what the memory held before.\<close>

definition dummy_packet :: "anonymous_packet \<Rightarrow> chord_finger \<Rightarrow> anonymous_packet option" where
  "dummy_packet mem f = do {
     ip \<leftarrow> strncpy_into ip_cap (fg_ip f);
     Some ((AnonymousPacket0 mem)\<lparr>h_id := dummy_message, h_msg_type := True, h_size := 132,
            h_relay_dest_id := fg_successor f, h_relay_dest_ip := ip,
            h_relay_dest_port := fg_port f\<rparr>) }"

text \<open>
  One round of the loop of \<open>send_batch\<close> for the queue \<open>cur\<close>: \<open>rnd\<close> is the value of \<open>rand()\<close> and
  \<open>idx_s\<close> the value of \<open>randombytes_random()\<close> that \<open>pop_with_P\<close> may use. The two counters are \<open>int\<close>s.
\<close>

definition send_batch_one ::
  "relay \<Rightarrow> shuffle_pool \<Rightarrow> nat \<Rightarrow> int \<times> u32 \<Rightarrow> (relay \<times> shuffle_pool) option" where
  "send_batch_one r sp cur = (\<lambda>(rnd, idx_s). do {
     q \<leftarrow> arr_get (sp_package_pool sp) (int cur);
     (pkg, q') \<leftarrow> crq_pop_with_P q (sp_bound sp) rnd idx_s;
     qs \<leftarrow> arr_set (sp_package_pool sp) (int cur) q';
     total \<leftarrow> c_int (sp_total_msg sp + 1);
     let sp1 = sp\<lparr>sp_package_pool := qs, sp_total_msg := total\<rparr>;
     case pkg of
       None \<Rightarrow>
         if sp_send_dummy sp \<noteq> 0
         then do {
           let (mem, r1) = new_mem r;
           f \<leftarrow> finger (r_node r1) (int cur);
           d \<leftarrow> dummy_packet mem f;
           let r2 = r1\<lparr>r_node := (r_node r1)\<lparr>n_dummy_cnt := n_dummy_cnt (r_node r1) + 1\<rparr>\<rparr>;
           r3 \<leftarrow> DAE_direct_send r2 d (h_relay_dest_ip d) (h_relay_dest_port d);
           Some (r3, sp1) }
         else Some (r, sp1)
     | Some p \<Rightarrow> do {
         real \<leftarrow> c_int (sp_real_forward_msg sp1 + 1);
         ip \<leftarrow> strncpy_into ip_cap (h_relay_dest_ip p);
         let r1 = r\<lparr>r_node := (r_node r)\<lparr>n_app_cnt := n_app_cnt (r_node r) + 1\<rparr>\<rparr>;
         r2 \<leftarrow> DAE_direct_send r1 p ip (h_relay_dest_port p);
         Some (r2, sp1\<lparr>sp_real_forward_msg := real\<rparr>) } })"

fun send_batch_loop ::
  "relay \<Rightarrow> shuffle_pool \<Rightarrow> (nat \<Rightarrow> int \<times> u32) \<Rightarrow> nat list \<Rightarrow> (relay \<times> shuffle_pool) option" where
  "send_batch_loop r sp draws [] = Some (r, sp)"
| "send_batch_loop r sp draws (cur # curs) = do {
     (r', sp') \<leftarrow> send_batch_one r sp cur (draws cur);
     send_batch_loop r' sp' draws curs }"

text \<open>The counters are reset when the interval is over; times are in nanoseconds. \<open>draws\<close> gives the
  random values for each queue.\<close>

definition send_batch_report :: "relay \<Rightarrow> shuffle_pool \<Rightarrow> int \<Rightarrow> relay \<times> shuffle_pool" where
  "send_batch_report r sp now =
     (if now - sp_time_prev sp \<ge> n_cnt_interval (r_node r) * 10 ^ 9
      then (r\<lparr>r_node := (r_node r)\<lparr>n_dummy_cnt := 0, n_app_cnt := 0, n_p2p_cnt := 0\<rparr>\<rparr>,
            sp\<lparr>sp_time_prev := now, sp_real_forward_msg := 0, sp_total_msg := 0\<rparr>)
      else (r, sp))"

definition send_batch :: "relay \<Rightarrow> shuffle_pool \<Rightarrow> (nat \<Rightarrow> int \<times> u32) \<Rightarrow> int \<Rightarrow> relay option" where
  "send_batch r sp draws now = do {
     (r1, sp1) \<leftarrow> send_batch_loop r sp draws [0..<length (sp_package_pool sp)];
     let (r2, sp2) = send_batch_report r1 sp1 now;
     Some (r2\<lparr>r_pool := Some (Shuffle sp2)\<rparr>) }"

subsection \<open>DirectPool and the pool interface\<close>

definition DirectPool_send :: "relay \<Rightarrow> anonymous_packet \<Rightarrow> relay option" where
  "DirectPool_send r packet = DAE_direct_send r packet [] 0"

text \<open>\<open>DirectPool::start\<close> only sleeps. Before \<open>init_DAEService\<close> has set it, the pool pointer is
  uninitialised.\<close>

definition pool_start :: "relay \<Rightarrow> relay option" where
  "pool_start r = (case r_pool r of
       None \<Rightarrow> None
     | Some (Shuffle sp) \<Rightarrow> Some (ShufflePool_start r sp)
     | Some (Direct rate) \<Rightarrow> Some r)"

definition safe_send :: "relay \<Rightarrow> anonymous_packet \<Rightarrow> ip_addr \<Rightarrow> int \<Rightarrow> relay option" where
  "safe_send r packet addr dest_port = (case r_pool r of
       None \<Rightarrow> None
     | Some (Shuffle sp) \<Rightarrow> ShufflePool_send r sp packet
     | Some (Direct rate) \<Rightarrow> DirectPool_send r packet)"

subsection \<open>Starting the socket\<close>

text \<open>
  \<open>init_DAEService\<close> once \<open>socket\<close> and \<open>bind\<close> have succeeded (otherwise the process exits). The
  receiving thread it starts is the definition \<open>receive\<close> of the theory on dispatching.
\<close>

definition init_DAEService :: "relay \<Rightarrow> int \<Rightarrow> relay" where
  "init_DAEService r now =
     (let config = r_config r; node = r_node r;
          pool = (if cf_shuffle config = ''shuffle''
            then Shuffle (ShufflePool (n_m node) (cf_msg_rate config) (cf_min_pool config)
              (cf_debug_shuffle config) (cf_shuffle_bound config) (cf_send_dummy config) now)
            else Direct (cf_msg_rate config))
      in r\<lparr>r_pool := Some pool, r_timers := r_timers r @
           [\<lparr>te_interval = (n_bootstrap_time node, 0), te_periodic = False, te_task = PoolStart\<rparr>]\<rparr>)"

subsection \<open>Invariant\<close>

text \<open>The finger indices and counters that the ring messages carry, for a ring of \<open>m\<close> bits.\<close>

definition index_ok :: "nat \<Rightarrow> anonymous_packet \<Rightarrow> bool" where
  "index_ok m p \<longleftrightarrow>
     (h_id p = internal_join_find_successor \<or> h_id p = internal_reply_find_successor \<longrightarrow>
        0 \<le> h_index p \<and> h_index p < int m) \<and>
     (h_id p = internal_fetch_successor_list \<or> h_id p = internal_reply_successor_list \<longrightarrow>
        0 \<le> h_index p \<and> h_index p \<le> 5)"

definition app_packet :: "anonymous_packet \<Rightarrow> bool" where
  "app_packet p \<longleftrightarrow> wf_packet p \<and> \<not> is_internal_msg p \<and> external_id (h_id p)"

fun pool_ok :: "nat \<Rightarrow> pool \<Rightarrow> bool" where
  "pool_ok m (Direct rate) = True"
| "pool_ok m (Shuffle sp) \<longleftrightarrow> sp_m sp = m \<and> length (sp_package_pool sp) = m \<and>
     0 \<le> sp_real_forward_msg sp \<and> sp_real_forward_msg sp \<le> sp_total_msg sp \<and>
     (\<forall>q \<in> set (sp_package_pool sp). crq_wf q \<and> (\<forall>p \<in># crq_items q. app_packet p))"

definition wf_relay :: "relay \<Rightarrow> bool" where
  "wf_relay r \<longleftrightarrow> wf_node (r_node r) \<and> r_host r = n_ip (r_node r) \<and> r_port r = n_port (r_node r) \<and>
     r_relay_id r = n_id (r_node r) \<and> (\<forall>k. wf_mem (r_heap r k)) \<and>
     (\<exists>pool. r_pool r = Some pool \<and> pool_ok (n_m (r_node r)) pool) \<and>
     (\<forall>e \<in> set (r_timers r). te_task e = SendBatch \<longrightarrow> (\<exists>sp. r_pool r = Some (Shuffle sp)))"

text \<open>What the relay has put on the wire.\<close>

definition wire_ok :: "nat \<Rightarrow> datagram \<Rightarrow> bool" where
  "wire_ok m d \<longleftrightarrow> wire_packet (dg_packet d) \<and> index_ok m (dg_packet d) \<and>
     (is_internal_msg (dg_packet d) \<longleftrightarrow> \<not> external_id (h_id (dg_packet d)))"

text \<open>Free slots left in every queue of the pool.\<close>

fun pool_room :: "nat \<Rightarrow> pool \<Rightarrow> bool" where
  "pool_room k (Direct rate) = True"
| "pool_room k (Shuffle sp) \<longleftrightarrow>
     (\<forall>q \<in> set (sp_package_pool sp). rq_n q + k \<le> length (rq_arr q))"

definition room :: "nat \<Rightarrow> relay \<Rightarrow> bool" where
  "room k r \<longleftrightarrow> (case r_pool r of None \<Rightarrow> False | Some pool \<Rightarrow> pool_room k pool)"

text \<open>A node without its traffic counters: everything that routing reads.\<close>

definition no_cnt :: "dae_node \<Rightarrow> dae_node" where
  "no_cnt n = n\<lparr>n_dummy_cnt := 0, n_app_cnt := 0, n_p2p_cnt := 0\<rparr>"

text \<open>
  The effect of sending, with at most \<open>k\<close> packets put into the pool: the relay stays well formed,
  the node changes in its counters only, and correct datagrams are appended to the wire.
\<close>

definition sent_ok :: "nat \<Rightarrow> relay \<Rightarrow> relay \<Rightarrow> bool" where
  "sent_ok k r r' \<longleftrightarrow> wf_relay r' \<and> no_cnt (r_node r') = no_cnt (r_node r) \<and>
     r_host r' = r_host r \<and> r_port r' = r_port r \<and> r_relay_id r' = r_relay_id r \<and>
     r_config r' = r_config r \<and>
     (\<exists>ds. r_wire r' = r_wire r @ ds \<and> list_all (wire_ok (n_m (r_node r))) ds) \<and>
     (\<forall>j. room (k + j) r \<longrightarrow> room j r')"

subsection \<open>Frame lemmas\<close>

lemma no_cnt_eqD:
  assumes "no_cnt a = no_cnt b"
  shows "n_m a = n_m b" "n_id a = n_id b" "n_ip a = n_ip b" "n_port a = n_port b"
    "n_finger_table a = n_finger_table b" "n_predecessor a = n_predecessor b"
    "n_predecessor_ip a = n_predecessor_ip b" "n_predecessor_port a = n_predecessor_port b"
    "n_pos a = n_pos b" "n_pos_ip a = n_pos_ip b" "n_pos_port a = n_pos_port b"
    "n_successor_list a = n_successor_list b" "n_recv_list_deaddrop a = n_recv_list_deaddrop b"
    "n_recv_list_user a = n_recv_list_user b" "n_joiner a = n_joiner b"
    "n_recheck a = n_recheck b" "n_d_p2p_time_before a = n_d_p2p_time_before b"
  using assms by (cases a; cases b; simp add: no_cnt_def)+

lemma wf_node_no_cnt: "wf_node (no_cnt n) = wf_node n"
  by (simp add: wf_node_def no_cnt_def)

lemma wf_node_cong: "no_cnt a = no_cnt b \<Longrightarrow> wf_node a = wf_node b"
  using wf_node_no_cnt by metis

lemma no_cnt_idem [simp]: "no_cnt (no_cnt n) = no_cnt n"
  by (simp add: no_cnt_def)

lemma no_cnt_counters [simp]:
  "no_cnt (n\<lparr>n_p2p_cnt := x\<rparr>) = no_cnt n" "no_cnt (n\<lparr>n_app_cnt := x\<rparr>) = no_cnt n"
  "no_cnt (n\<lparr>n_dummy_cnt := x\<rparr>) = no_cnt n"
  by (simp_all add: no_cnt_def)

lemma wf_relay_cong:
  assumes "wf_relay r" and "no_cnt (r_node r') = no_cnt (r_node r)"
    and "r_host r' = r_host r" and "r_port r' = r_port r" and "r_relay_id r' = r_relay_id r"
    and "r_heap r' = r_heap r" and "r_pool r' = r_pool r"
    and "\<And>e. e \<in> set (r_timers r') \<Longrightarrow> te_task e = SendBatch \<Longrightarrow>
      \<exists>e' \<in> set (r_timers r). te_task e' = SendBatch"
  shows "wf_relay r'"
  using assms(1,3-) no_cnt_eqD [OF assms(2)] wf_node_cong [OF assms(2)]
  unfolding wf_relay_def by metis

lemma sent_ok_trans:
  assumes "sent_ok i a b" and "sent_ok j b c"
  shows "sent_ok (i + j) a c"
proof -
  from assms obtain ds es where "r_wire b = r_wire a @ ds" "list_all (wire_ok (n_m (r_node a))) ds"
    and "r_wire c = r_wire b @ es" "list_all (wire_ok (n_m (r_node b))) es"
    and m: "n_m (r_node b) = n_m (r_node a)"
    unfolding sent_ok_def using no_cnt_eqD(1) by metis
  then have "\<exists>fs. r_wire c = r_wire a @ fs \<and> list_all (wire_ok (n_m (r_node a))) fs"
    by (intro exI [of _ "ds @ es"]) simp
  with assms show ?thesis unfolding sent_ok_def by (simp add: add.assoc)
qed

lemma sent_okD:
  assumes "sent_ok k r r'"
  shows "wf_relay r'" and "no_cnt (r_node r') = no_cnt (r_node r)" and "n_m (r_node r') = n_m (r_node r)"
    and "room (k + j) r \<Longrightarrow> room j r'"
proof -
  show nc: "no_cnt (r_node r') = no_cnt (r_node r)" using assms by (simp add: sent_ok_def)
  from no_cnt_eqD(1) [OF nc] show "n_m (r_node r') = n_m (r_node r)" .
qed (use assms in \<open>simp_all add: sent_ok_def\<close>)

lemma sent_ok_refl: "wf_relay r \<Longrightarrow> sent_ok 0 r r"
  by (auto simp: sent_ok_def intro: exI [of _ "[]"])

subsection \<open>Sending\<close>

lemma DAE_direct_send_ok:
  assumes "wf_relay r" and "wire_packet (on_wire p)" and "index_ok (n_m (r_node r)) p"
    and "is_internal_msg p \<longleftrightarrow> \<not> external_id (h_id p)"
  shows "returns (DAE_direct_send r p ip port) (sent_ok 0 r)"
proof -
  from assms(2) have sz: "0 \<le> h_size p" "h_size p \<le> int body_cap"
    by (auto simp: wire_packet_def on_wire_def)
  then have "0 \<le> total_size p" "total_size p \<le> int MAX_MTU"
    by (auto simp: total_size_def payload_size_def packet_cap_defs)
  with sz obtain r' where r': "DAE_direct_send r p ip port = Some r'"
    and node: "no_cnt (r_node r') = no_cnt (r_node r)"
    and wire: "r_wire r' = r_wire r @
      [\<lparr>dg_ip = h_relay_dest_ip p, dg_port = h_relay_dest_port p mod 2 ^ 16, dg_packet = on_wire p\<rparr>]"
    and same: "r_host r' = r_host r" "r_port r' = r_port r" "r_relay_id r' = r_relay_id r"
      "r_config r' = r_config r" "r_heap r' = r_heap r" "r_pool r' = r_pool r"
      "r_timers r' = r_timers r"
    by (simp add: DAE_direct_send_def payload_size_def)
  from assms(1) node same have "wf_relay r'" by (intro wf_relay_cong [of r r']) auto
  moreover have "wire_ok (n_m (r_node r))
      \<lparr>dg_ip = h_relay_dest_ip p, dg_port = h_relay_dest_port p mod 2 ^ 16, dg_packet = on_wire p\<rparr>"
    using assms(2-) by (simp add: wire_ok_def index_ok_def on_wire_def is_internal_msg_def)
  ultimately show ?thesis
    using r' node wire same by (auto simp: sent_ok_def room_def)
qed

lemma app_packet_sendable:
  assumes "app_packet p"
  shows "wire_packet (on_wire p)" and "index_ok m p" and "is_internal_msg p \<longleftrightarrow> \<not> external_id (h_id p)"
  using assms
  by (auto simp: app_packet_def index_ok_def external_id_def message_defs intro: wire_packet_on_wire)

lemma room_mono: "room (Suc j) r \<Longrightarrow> room j r"
  by (cases "r_pool r"; cases "the (r_pool r)") (auto simp: room_def)

lemma room_mono_add: "room (j + k) r \<Longrightarrow> room j r"
  by (induction k) (auto intro: room_mono)

lemma app_packet_direct:
  assumes "wf_relay r" and "app_packet p"
  shows "returns (DAE_direct_send r p ip port) (sent_ok 0 r)"
  using assms app_packet_sendable by (blast intro: DAE_direct_send_ok)

lemma sent_ok_Suc: "sent_ok 0 r r' \<Longrightarrow> sent_ok 1 r r'"
  by (auto simp: sent_ok_def room_mono)

text \<open>The address test of the pool, and the search for the first finger that passes it.\<close>

definition goes_to :: "anonymous_packet \<Rightarrow> chord_finger \<Rightarrow> bool" where
  "goes_to p f \<longleftrightarrow> h_relay_dest_ip p = fg_ip f \<and> h_relay_dest_port p = fg_port f"

lemma finger_for_find:
  "\<forall>i \<in> set is. i < length (n_finger_table n) \<Longrightarrow>
     finger_for n p is = Some (find (\<lambda>i. goes_to p (n_finger_table n ! i)) is)"
  by (induction "is") (auto simp: finger_def goes_to_def)

lemma queue_of_pool:
  assumes "pool_ok m (Shuffle sp)" and "i < m"
  shows "arr_get (sp_package_pool sp) (int i) = Some (sp_package_pool sp ! i)"
    and "crq_wf (sp_package_pool sp ! i)" and "\<forall>p \<in># crq_items (sp_package_pool sp ! i). app_packet p"
  using assms by auto

lemma pool_ok_update:
  assumes "pool_ok m (Shuffle sp)" and "crq_wf q" and "\<forall>p \<in># crq_items q. app_packet p"
  shows "pool_ok m (Shuffle (sp\<lparr>sp_package_pool := (sp_package_pool sp)[i := q]\<rparr>))"
  using assms set_update_subset_insert [of "sp_package_pool sp" i q] by auto

lemma crq_push_length:
  "crq_push q t = Some q' \<Longrightarrow> rq_n q' = rq_n q + 1 \<and> length (rq_arr q') = length (rq_arr q)"
  by (auto simp: crq_push_def split: if_splits)

lemma wf_relay_pool:
  assumes "wf_relay r" and "r_pool r = Some (Shuffle sp)" and "pool_ok (n_m (r_node r)) (Shuffle sp')"
  shows "wf_relay (r\<lparr>r_pool := Some (Shuffle sp')\<rparr>)"
  using assms by (auto simp: wf_relay_def)

lemma ShufflePool_send_ok:
  assumes wf: "wf_relay r" and sp: "r_pool r = Some (Shuffle sp)" and p: "app_packet p"
    and rm: "room 1 r"
  shows "returns (ShufflePool_send r sp p) (sent_ok 1 r)"
proof -
  let ?m = "n_m (r_node r)" and ?ft = "n_finger_table (r_node r)"
  from wf sp have pool: "pool_ok ?m (Shuffle sp)" and len: "length ?ft = ?m"
    by (auto simp: wf_relay_def wf_node_def)
  then have m: "sp_m sp = ?m" by simp
  have hit: "finger_for (r_node r) p [0..<sp_m sp] = Some (find (\<lambda>i. goes_to p (?ft ! i)) [0..<?m])"
    using m len by (simp add: finger_for_find)
  show ?thesis
  proof (cases "find (\<lambda>i. goes_to p (?ft ! i)) [0..<?m]")
    case (Some i)
    from find_SomeD [OF this] have i: "i < ?m" by simp
    let ?q = "sp_package_pool sp ! i"
    from i pool have q: "?q \<in> set (sp_package_pool sp)" by simp
    with rm sp have "rq_n ?q < length (rq_arr ?q)" by (fastforce simp: room_def)
    then have "\<exists>q'. crq_push ?q p = Some q'" by (rule iffD2 [OF crq_push_room])
    then obtain q' where q': "crq_push ?q p = Some q'" ..
    from crq_push_ok [OF queue_of_pool(2) [OF pool i] q'] queue_of_pool(3) [OF pool i] p
    have "crq_wf q'" "\<forall>p \<in># crq_items q'. app_packet p" by auto
    note pool' = pool_ok_update [OF pool this, of i]
    let ?sp = "sp\<lparr>sp_package_pool := (sp_package_pool sp)[i := q']\<rparr>"
    let ?r = "r\<lparr>r_pool := Some (Shuffle ?sp)\<rparr>"
    have "ShufflePool_send r sp p = Some ?r"
      using hit Some i pool q' by (simp add: ShufflePool_send_def)
    moreover have "wf_relay ?r" using wf_relay_pool [OF wf sp pool'] .
    moreover have "room j ?r" if rj: "room (Suc j) r" for j
    proof -
      from rj sp have all: "\<forall>q \<in> set (sp_package_pool sp). rq_n q + Suc j \<le> length (rq_arr q)"
        by (simp add: room_def)
      with q crq_push_length [OF q'] have "rq_n q' + j \<le> length (rq_arr q')" by fastforce
      with all show ?thesis
        using set_update_subset_insert [of "sp_package_pool sp" i q'] by (fastforce simp: room_def)
    qed
    ultimately show ?thesis by (auto simp: sent_ok_def)
  next
    case None
    have "returns (DAE_direct_send r p a b) (sent_ok 0 r)" for a b
      using wf p by (rule app_packet_direct)
    then have "returns (ShufflePool_send r sp p) (sent_ok 0 r)"
      using hit None sent_ok_refl [OF wf] by (simp add: ShufflePool_send_def)
    then show ?thesis by (rule returns_mono) (rule sent_ok_Suc)
  qed
qed

lemma safe_send_ok:
  assumes wf: "wf_relay r" and p: "app_packet p" and rm: "room 1 r"
  shows "returns (safe_send r p a b) (sent_ok 1 r)"
proof -
  from wf obtain pool where pool: "r_pool r = Some pool" by (auto simp: wf_relay_def)
  show ?thesis
  proof (cases pool)
    case (Shuffle sp)
    with pool ShufflePool_send_ok [OF wf _ p rm] show ?thesis by (simp add: safe_send_def)
  next
    case (Direct rate)
    have "returns (DAE_direct_send r p [] 0) (sent_ok 1 r)"
      using app_packet_direct [OF wf p] by (rule returns_mono) (rule sent_ok_Suc)
    with Direct pool show ?thesis by (simp add: safe_send_def DirectPool_send_def)
  qed
qed

subsection \<open>Sending a batch\<close>

text \<open>The packets a pool holds, as they will appear on the wire, and the packets other than dummies
  among datagrams.\<close>

definition pool_items :: "shuffle_pool \<Rightarrow> anonymous_packet multiset" where
  "pool_items sp = image_mset on_wire (sum_list (map crq_items (sp_package_pool sp)))"

definition real_packets :: "datagram list \<Rightarrow> anonymous_packet multiset" where
  "real_packets ds = mset (filter (\<lambda>p. h_id p \<noteq> dummy_message) (map dg_packet ds))"

text \<open>The datagram of queue \<open>i\<close>: a dummy for finger \<open>i\<close>, or a packet of the queue, to its own destination.\<close>

definition for_queue :: "relay \<Rightarrow> shuffle_pool \<Rightarrow> nat \<Rightarrow> datagram \<Rightarrow> bool" where
  "for_queue r sp i d \<longleftrightarrow>
     (let f = n_finger_table (r_node r) ! i
      in h_id (dg_packet d) = dummy_message \<and> h_relay_dest_id (dg_packet d) = fg_successor f \<and>
         dg_ip d = fg_ip f \<and> dg_port d = fg_port f mod 2 ^ 16) \<or>
     (\<exists>p \<in># crq_items (sp_package_pool sp ! i).
        d = \<lparr>dg_ip = h_relay_dest_ip p, dg_port = h_relay_dest_port p mod 2 ^ 16, dg_packet = on_wire p\<rparr>)"

text \<open>What the part of a batch for the queues \<open>curs\<close> does: at most one datagram for each of them, exactly one when
  dummies are on; no packet of the pool is lost or duplicated, and the other queues stay as they are.\<close>

definition batch_ok :: "nat list \<Rightarrow> relay \<Rightarrow> shuffle_pool \<Rightarrow> relay \<times> shuffle_pool \<Rightarrow> bool" where
  "batch_ok curs r sp = (\<lambda>(r', sp'). sent_ok 0 r r' \<and> r_pool r' = r_pool r \<and>
     pool_ok (n_m (r_node r)) (Shuffle sp') \<and> sp_send_dummy sp' = sp_send_dummy sp \<and>
     (\<forall>j. pool_room j (Shuffle sp) \<longrightarrow> pool_room j (Shuffle sp')) \<and>
     sp_total_msg sp' \<le> sp_total_msg sp + int (length curs) \<and>
     (\<forall>i. i \<notin> set curs \<longrightarrow> sp_package_pool sp' ! i = sp_package_pool sp ! i) \<and>
     (\<exists>ds is. r_wire r' = r_wire r @ ds \<and> subseq is curs \<and> (sp_send_dummy sp \<noteq> 0 \<longrightarrow> is = curs) \<and>
        list_all2 (for_queue r sp) is ds \<and> pool_items sp = pool_items sp' + real_packets ds))"

lemma sum_list_update_mset:
  fixes f :: "'a \<Rightarrow> 'b multiset"
  assumes "i < length xs" and "f (xs ! i) = f y + d"
  shows "sum_list (map f xs) = sum_list (map f (xs[i := y])) + d"
  using assms
proof (induction xs arbitrary: i)
  case (Cons x xs)
  then show ?case by (cases i) (auto simp: ac_simps)
qed simp

lemma crq_pop_with_P_shrinks:
  assumes "crq_wf q" and "crq_pop_with_P q b r i = Some (t, q')"
  shows "rq_n q' \<le> rq_n q"
proof -
  have "crq_pop_random q 0 i = Some (t, q') \<or> q' = q"
    using assms(2) by (auto simp: crq_pop_with_P_def split: if_splits)
  then show ?thesis
  proof
    assume "crq_pop_random q 0 i = Some (t, q')"
    from crq_pop_random_cases [OF this] show ?thesis
    proof (elim disjE exE conjE)
      fix idx assume "idx < rq_n q" and "crq_take q idx = Some (t, q')"
      with crq_take_eq [OF assms(1)] show ?thesis by force
    qed simp
  qed simp
qed

lemma dummy_packet_ok:
  assumes "wf_mem mem" and "ip_ok (fg_ip f)"
  obtains d where "dummy_packet mem f = Some d" and "wire_packet (on_wire d)" and "index_ok m d"
    and "is_internal_msg d" and "h_id d = dummy_message" and "h_relay_dest_ip d = fg_ip f"
    and "h_relay_dest_port d = fg_port f" and "content d = take 132 (p_body mem)"
proof (rule that)
  let ?d = "(AnonymousPacket0 mem)\<lparr>h_id := dummy_message, h_msg_type := True, h_size := 132,
    h_relay_dest_id := fg_successor f, h_relay_dest_ip := fg_ip f, h_relay_dest_port := fg_port f\<rparr>"
  show "dummy_packet mem f = Some ?d" using assms(2) by (simp add: dummy_packet_def)
  show "wire_packet (on_wire ?d)"
    using assms(1) by (simp add: wire_packet_def on_wire_def content_def payload_def payload_size_def
        wf_mem_def AnonymousPacket0_def AnonymousPacket3_def packet_cap_defs)
  show "index_ok m ?d" by (simp add: index_ok_def message_defs)
  show "content ?d = take 132 (p_body mem)"
    by (simp add: content_def payload_def payload_size_def AnonymousPacket0_def AnonymousPacket3_def)
qed (simp_all add: is_internal_msg_def)

text \<open>What \<open>DAE_direct_send\<close> appends.\<close>

lemma DAE_direct_send_wire:
  "DAE_direct_send r p ip port = Some r' \<Longrightarrow> r_pool r' = r_pool r \<and> r_wire r' = r_wire r @
     [\<lparr>dg_ip = h_relay_dest_ip p, dg_port = h_relay_dest_port p mod 2 ^ 16, dg_packet = on_wire p\<rparr>]"
  by (auto simp: DAE_direct_send_def Let_def split: if_splits)

lemma wf_relay_new_mem:
  assumes "wf_relay r"
  shows "sent_ok 0 r (snd (new_mem r))" and "wf_mem (fst (new_mem r))"
proof -
  from assms have "wf_relay (snd (new_mem r))"
    by (intro wf_relay_cong [OF assms]) (auto simp: new_mem_def)
  then show "sent_ok 0 r (snd (new_mem r))" by (simp add: sent_ok_def new_mem_def room_def)
  from assms show "wf_mem (fst (new_mem r))" by (simp add: wf_relay_def new_mem_def)
qed

lemma sent_ok_counters:
  assumes "wf_relay r" and "no_cnt n = no_cnt (r_node r)"
  shows "sent_ok 0 r (r\<lparr>r_node := n\<rparr>)"
proof -
  have "wf_relay (r\<lparr>r_node := n\<rparr>)"
    by (rule wf_relay_cong [OF assms(1)]) (auto simp: assms(2))
  with assms show ?thesis by (simp add: sent_ok_def room_def)
qed

text \<open>Popping from queue \<open>cur\<close> and counting the round.\<close>

lemma pool_pop:
  assumes pool: "pool_ok m (Shuffle sp)" and cur: "cur < m"
    and pop: "crq_pop_with_P (sp_package_pool sp ! cur) b rnd i = Some (t, q')"
    and len: "length (rq_arr q') = length (rq_arr (sp_package_pool sp ! cur))"
    and sp1: "sp1 = sp\<lparr>sp_package_pool := (sp_package_pool sp)[cur := q'], sp_total_msg := tm\<rparr>" and tm: "sp_total_msg sp \<le> tm"
  shows "pool_ok m (Shuffle sp1)" and "pool_room j (Shuffle sp) \<Longrightarrow> pool_room j (Shuffle sp1)"
    and "pool_items sp = pool_items sp1 + mset (case t of None \<Rightarrow> [] | Some p \<Rightarrow> [on_wire p])"
    and "t = Some p \<Longrightarrow> app_packet p \<and> p \<in># crq_items (sp_package_pool sp ! cur)"
proof -
  let ?q = "sp_package_pool sp ! cur"
  note q = queue_of_pool [OF pool cur]
  from crq_pop_with_P_ok [OF q(2) pop] have wf: "crq_wf q'"
    and items: "crq_items ?q = crq_items q' + mset (case t of None \<Rightarrow> [] | Some x \<Rightarrow> [x])"
    by auto
  from q(3) items have app: "\<forall>p \<in># crq_items q'. app_packet p" by auto
  from pool_ok_update [OF pool wf app, of cur] tm show "pool_ok m (Shuffle sp1)" by (simp add: sp1)
  from q(3) items show "t = Some p \<Longrightarrow> app_packet p \<and> p \<in># crq_items ?q" by auto
  have "sum_list (map crq_items (sp_package_pool sp)) =
      sum_list (map crq_items ((sp_package_pool sp)[cur := q'])) +
      mset (case t of None \<Rightarrow> [] | Some x \<Rightarrow> [x])"
    using pool cur items by (intro sum_list_update_mset) auto
  then show "pool_items sp = pool_items sp1 + mset (case t of None \<Rightarrow> [] | Some p \<Rightarrow> [on_wire p])"
    by (simp add: pool_items_def sp1 split: option.splits)
  assume "pool_room j (Shuffle sp)"
  then have all: "\<forall>q \<in> set (sp_package_pool sp). rq_n q + j \<le> length (rq_arr q)" by simp
  from pool cur have "?q \<in> set (sp_package_pool sp)" by simp
  with all crq_pop_with_P_shrinks [OF q(2) pop] len have "rq_n q' + j \<le> length (rq_arr q')"
    by fastforce
  with all show "pool_room j (Shuffle sp1)"
    using set_update_subset_insert [of "sp_package_pool sp" cur q'] by (auto simp: sp1)
qed

text \<open>The dummy for a queue that gave no packet is built, counted and sent.\<close>

lemma dummy_packet_fields:
  "dummy_packet mem f = Some d \<Longrightarrow> h_id d = dummy_message \<and> h_relay_dest_id d = fg_successor f \<and>
     h_relay_dest_ip d = fg_ip f \<and> h_relay_dest_port d = fg_port f"
  by (auto simp: dummy_packet_def strncpy_into_def split: if_splits elim!: bind_SomeE)

lemma dummy_sent:
  assumes wf: "wf_relay r" and cur: "cur < n_m (r_node r)" and nm: "new_mem r = (mem, r1)"
  obtains dm r3 where "finger (r_node r1) (int cur) = Some (n_finger_table (r_node r) ! cur)"
    "dummy_packet mem (n_finger_table (r_node r) ! cur) = Some dm"
    "DAE_direct_send (r1\<lparr>r_node := (r_node r1)\<lparr>n_dummy_cnt := n_dummy_cnt (r_node r1) + 1\<rparr>\<rparr>) dm (h_relay_dest_ip dm) (h_relay_dest_port dm) = Some r3"
    "sent_ok 0 r r3"
proof -
  from wf_relay_new_mem [OF wf] nm have r1: "sent_ok 0 r r1" and mem: "wf_mem mem" by auto
  have node: "r_node r1 = r_node r" using nm by (auto simp: new_mem_def)
  note wf1 = sent_okD(1) [OF r1] and m1 = sent_okD(3) [OF r1]
  from wf1 have "wf_node (r_node r1)" by (simp add: wf_relay_def)
  from finger_returns [OF this, of "int cur"] cur m1
  obtain f where f: "finger (r_node r1) (int cur) = Some f" "ip_ok (fg_ip f)"
    by (auto simp: returns_def)
  then have fe: "f = n_finger_table (r_node r) ! cur" by (auto simp: node finger_def arr_get_def split: if_splits)
  obtain dm where dm: "dummy_packet mem f = Some dm" "wire_packet (on_wire dm)"
    "index_ok (n_m (r_node r1)) dm" "is_internal_msg dm" "h_id dm = dummy_message"
    by (rule dummy_packet_ok [OF mem f(2)])
  let ?r2 = "r1\<lparr>r_node := (r_node r1)\<lparr>n_dummy_cnt := n_dummy_cnt (r_node r1) + 1\<rparr>\<rparr>"
  have r2: "sent_ok 0 r1 ?r2" by (rule sent_ok_counters [OF wf1]) simp
  then have "wf_relay ?r2" by (simp add: sent_ok_def)
  then obtain r3 where
    r3: "DAE_direct_send ?r2 dm (h_relay_dest_ip dm) (h_relay_dest_port dm) = Some r3" and s3: "sent_ok 0 ?r2 r3"
    using DAE_direct_send_ok [of ?r2 dm] dm by (auto simp: returns_def external_id_def message_defs)
  have "sent_ok 0 r r3" using sent_ok_trans [OF sent_ok_trans [OF r1 r2] s3] by simp
  from that [OF f(1) [unfolded fe] dm(1) [unfolded fe] r3 this] show thesis .
qed

text \<open>The datagram of a round, from its packet.\<close>

lemma batch_ok_one:
  assumes "sent_ok 0 r r'" "r_pool r' = r_pool r" "pool_ok (n_m (r_node r)) (Shuffle sp')"
    "sp_send_dummy sp' = sp_send_dummy sp" "\<And>j. pool_room j (Shuffle sp) \<Longrightarrow> pool_room j (Shuffle sp')"
    "sp_total_msg sp' \<le> sp_total_msg sp + 1" "\<And>i. i \<noteq> cur \<Longrightarrow> sp_package_pool sp' ! i = sp_package_pool sp ! i"
    and "r_wire r' = r_wire r @ [d]" "for_queue r sp cur d" "pool_items sp = pool_items sp' + real_packets [d]"
  shows "batch_ok [cur] r sp (r', sp')"
  unfolding batch_ok_def prod.case
  using assms by (intro conjI exI [of _ "[d]"] exI [of _ "[cur]"]) auto

lemma send_batch_one_ok:
  assumes wf: "wf_relay r" and pool: "pool_ok (n_m (r_node r)) (Shuffle sp)" and cur: "cur < n_m (r_node r)"
  shows "returns_unless (send_batch_one r sp cur d) (batch_ok [cur] r sp) (2 ^ 31 \<le> sp_total_msg sp + 1)"
proof (cases "2 ^ 31 \<le> sp_total_msg sp + 1")
  case False
  obtain rnd i where d: "d = (rnd, i)" by (cases d)
  let ?q = "sp_package_pool sp ! cur"
  obtain t q' where pop: "crq_pop_with_P ?q (sp_bound sp) rnd i = Some (t, q')"
    and len: "length (rq_arr q') = length (rq_arr ?q)"
    using crq_pop_with_P_total [OF queue_of_pool(2) [OF pool cur]] by blast
  define sp1 where "sp1 = sp\<lparr>sp_package_pool := (sp_package_pool sp)[cur := q'],
    sp_total_msg := sp_total_msg sp + 1\<rparr>"
  have "sp_total_msg sp \<le> sp_total_msg sp + 1" by simp
  note pp = pool_pop [OF pool cur pop len sp1_def this]
  have sd: "sp_send_dummy sp1 = sp_send_dummy sp" "sp_total_msg sp1 = sp_total_msg sp + 1"
    "\<And>i. i \<noteq> cur \<Longrightarrow> sp_package_pool sp1 ! i = sp_package_pool sp ! i" "sp_real_forward_msg sp1 = sp_real_forward_msg sp"
    by (simp_all add: sp1_def)
  from pool cur have set: "arr_set (sp_package_pool sp) (int cur) q' = Some ((sp_package_pool sp)[cur := q'])"
    by simp
  have cnt: "0 \<le> sp_real_forward_msg sp" "sp_real_forward_msg sp \<le> sp_total_msg sp" using pool by auto
  then have total: "c_int (sp_total_msg sp + 1) = Some (sp_total_msg sp + 1)" using False by (simp add: c_int_def)
  have real: "c_int (sp_real_forward_msg sp1 + 1) = Some (sp_real_forward_msg sp + 1)" using False cnt sd by (simp add: c_int_def)
  note unf = send_batch_one_def d prod.case queue_of_pool(1) [OF pool cur] bind.simps pop set total Let_def
    sp1_def [symmetric]
  show ?thesis
  proof (cases t)
    case (Some p)
    from pp(4) [OF Some] have p: "app_packet p" "p \<in># crq_items ?q" by auto
    then have ip: "strncpy_into ip_cap (h_relay_dest_ip p) = Some (h_relay_dest_ip p)"
      and nd: "h_id (on_wire p) \<noteq> dummy_message"
      by (auto simp: app_packet_def wf_packet_def on_wire_def external_id_def message_defs)
    let ?r1 = "r\<lparr>r_node := (r_node r)\<lparr>n_app_cnt := n_app_cnt (r_node r) + 1\<rparr>\<rparr>"
    have r1: "sent_ok 0 r ?r1" by (rule sent_ok_counters [OF wf]) simp
    then have "wf_relay ?r1" by (simp add: sent_ok_def)
    then obtain r2 where r2: "DAE_direct_send ?r1 p (h_relay_dest_ip p) (h_relay_dest_port p) = Some r2"
      and s2: "sent_ok 0 ?r1 r2"
      using app_packet_direct [OF _ p(1)] unfolding returns_def by blast
    let ?sp2 = "sp1\<lparr>sp_real_forward_msg := sp_real_forward_msg sp + 1\<rparr>"
    let ?d = "\<lparr>dg_ip = h_relay_dest_ip p, dg_port = h_relay_dest_port p mod 2 ^ 16, dg_packet = on_wire p\<rparr>"
    have "batch_ok [cur] r sp (r2, ?sp2)"
    proof (rule batch_ok_one [where d = ?d])
      show "sent_ok 0 r r2" using sent_ok_trans [OF r1 s2] by simp
      show "r_pool r2 = r_pool r" "r_wire r2 = r_wire r @ [?d]" using DAE_direct_send_wire [OF r2] by simp_all
      show "pool_ok (n_m (r_node r)) (Shuffle ?sp2)" using pp(1) cnt sd by simp
      show "for_queue r sp cur ?d" using p(2) by (auto simp: for_queue_def)
      show "pool_items sp = pool_items ?sp2 + real_packets [?d]"
        using pp(3) Some nd by (simp add: pool_items_def real_packets_def)
    qed (use pp(2) sd in auto)
    then show ?thesis unfolding unf Some option.case by (simp add: real ip r2)
  next
    case None
    show ?thesis
    proof (cases "sp_send_dummy sp = 0")
      case True
      have "batch_ok [cur] r sp (r, sp1)"
        unfolding batch_ok_def prod.case
        using True None pp(1,3) sd sent_ok_refl [OF wf]
        by (intro conjI exI [of _ "[]"] allI impI pp(2)) (simp_all add: real_packets_def del: pool_ok.simps)
      then show ?thesis using None True unfolding unf by simp
    next
      case False
      obtain mem r1 where nm: "new_mem r = (mem, r1)" by (cases "new_mem r")
      obtain dm r3 where dm: "finger (r_node r1) (int cur) = Some (n_finger_table (r_node r) ! cur)"
          "dummy_packet mem (n_finger_table (r_node r) ! cur) = Some dm"
          "DAE_direct_send (r1\<lparr>r_node := (r_node r1)\<lparr>n_dummy_cnt := n_dummy_cnt (r_node r1) + 1\<rparr>\<rparr>) dm (h_relay_dest_ip dm) (h_relay_dest_port dm) = Some r3"
          "sent_ok 0 r r3"
        by (rule dummy_sent [OF wf cur nm])
      note f = dummy_packet_fields [OF dm(2)]
      let ?d = "\<lparr>dg_ip = h_relay_dest_ip dm, dg_port = h_relay_dest_port dm mod 2 ^ 16, dg_packet = on_wire dm\<rparr>"
      have w: "r_pool r1 = r_pool r" "r_wire r1 = r_wire r" using nm by (auto simp: new_mem_def)
      have "batch_ok [cur] r sp (r3, sp1)"
      proof (rule batch_ok_one [where d = ?d])
        show "r_pool r3 = r_pool r" "r_wire r3 = r_wire r @ [?d]" using DAE_direct_send_wire [OF dm(3)] w by simp_all
        show "for_queue r sp cur ?d" using f by (simp add: for_queue_def on_wire_def)
        show "pool_items sp = pool_items sp1 + real_packets [?d]"
          using pp(3) None f by (simp add: real_packets_def on_wire_def)
      qed (use pp(1,2) sd dm(4) in auto)
      then show ?thesis using None False unfolding unf by (simp add: nm dm)
    qed
  qed
qed (auto simp: returns_unless_def send_batch_one_def c_int_def split: option.splits prod.splits bind_splits)

lemma real_packets_append [simp]: "real_packets (a @ b) = real_packets a + real_packets b"
  by (simp add: real_packets_def)

lemma for_queue_cong:
  assumes "no_cnt (r_node r') = no_cnt (r_node r)" "sp_package_pool sp' ! i = sp_package_pool sp ! i"
  shows "for_queue r' sp' i d = for_queue r sp i d"
  using no_cnt_eqD(5) [OF assms(1)] assms(2) by (simp add: for_queue_def)

lemma batch_ok_trans:
  assumes "batch_ok xs r sp (r1, sp1)" and "batch_ok ys r1 sp1 (r2, sp2)" and "set xs \<inter> set ys = {}"
  shows "batch_ok (xs @ ys) r sp (r2, sp2)"
proof -
  from assms(1) obtain ds "is" where ds: "r_wire r1 = r_wire r @ ds" "subseq is xs" "sp_send_dummy sp \<noteq> 0 \<longrightarrow> is = xs"
    "list_all2 (for_queue r sp) is ds" "pool_items sp = pool_items sp1 + real_packets ds"
    and s1: "sent_ok 0 r r1" and q1: "\<forall>i. i \<notin> set xs \<longrightarrow> sp_package_pool sp1 ! i = sp_package_pool sp ! i"
    by (auto simp: batch_ok_def)
  from assms(2) obtain es js where es: "r_wire r2 = r_wire r1 @ es" "subseq js ys" "sp_send_dummy sp1 \<noteq> 0 \<longrightarrow> js = ys"
    "list_all2 (for_queue r1 sp1) js es" "pool_items sp1 = pool_items sp2 + real_packets es"
    and s2: "sent_ok 0 r1 r2" and q2: "\<forall>i. i \<notin> set ys \<longrightarrow> sp_package_pool sp2 ! i = sp_package_pool sp1 ! i"
    by (auto simp: batch_ok_def)
  have d: "sp_send_dummy sp1 = sp_send_dummy sp" using assms(1) by (simp add: batch_ok_def)
  have "list_all2 (for_queue r sp) js es"
    using es(4)
  proof (rule list.rel_mono_strong)
    fix j d assume "j \<in> set js" "for_queue r1 sp1 j d"
    moreover have "j \<notin> set xs" using list_emb_set [OF es(2) calculation(1)] assms(3) by auto
    ultimately show "for_queue r sp j d" using for_queue_cong [OF sent_okD(2) [OF s1]] q1 by blast
  qed
  then have "\<exists>fs ks. r_wire r2 = r_wire r @ fs \<and> subseq ks (xs @ ys) \<and> (sp_send_dummy sp \<noteq> 0 \<longrightarrow> ks = xs @ ys) \<and>
      list_all2 (for_queue r sp) ks fs \<and> pool_items sp = pool_items sp2 + real_packets fs"
    using ds es d
    by (intro exI [of _ "ds @ es"] exI [of _ "is @ js"]) (auto intro: list_all2_appendI list_emb_append_mono)
  moreover have "r_pool r2 = r_pool r" "pool_ok (n_m (r_node r)) (Shuffle sp2)"
    "sp_send_dummy sp2 = sp_send_dummy sp" "sp_total_msg sp2 \<le> sp_total_msg sp + int (length (xs @ ys))"
    using assms(1,2) sent_okD(3) [OF s1] by (simp_all add: batch_ok_def)
  moreover have "\<forall>k. pool_room k (Shuffle sp) \<longrightarrow> pool_room k (Shuffle sp2)"
    using assms(1,2) unfolding batch_ok_def prod.case by blast
  moreover have "\<forall>i. i \<notin> set (xs @ ys) \<longrightarrow> sp_package_pool sp2 ! i = sp_package_pool sp ! i" using q1 q2 by simp
  ultimately show ?thesis
    using sent_ok_trans [OF s1 s2] unfolding batch_ok_def prod.case by simp
qed

lemma batch_ok_refl:
  "wf_relay r \<Longrightarrow> pool_ok (n_m (r_node r)) (Shuffle sp) \<Longrightarrow> batch_ok [] r sp (r, sp)"
  by (auto simp: batch_ok_def real_packets_def sent_ok_refl intro: exI [of _ "[]"])

lemma send_batch_loop_ok:
  assumes "wf_relay r" and "pool_ok (n_m (r_node r)) (Shuffle sp)"
    and "\<forall>cur \<in> set curs. cur < n_m (r_node r)" and "distinct curs"
  shows "returns_unless (send_batch_loop r sp draws curs) (batch_ok curs r sp) (2 ^ 31 \<le> sp_total_msg sp + int (length curs))"
  using assms
proof (induction curs arbitrary: r sp)
  case Nil
  then show ?case by (simp add: batch_ok_refl)
next
  case (Cons cur curs)
  have one: "returns_unless (send_batch_one r sp cur (draws cur)) (batch_ok [cur] r sp)
      (2 ^ 31 \<le> sp_total_msg sp + int (length (cur # curs)))"
    using send_batch_one_ok [OF Cons.prems(1,2), of cur "draws cur"] Cons.prems(3)
    by (auto elim: returns_unless_mono)
  show ?case
    unfolding send_batch_loop.simps
  proof (rule returns_unless_bind [OF one], clarify)
    fix r1 sp1 assume b: "batch_ok [cur] r sp (r1, sp1)"
    then have s: "sent_ok 0 r r1" and p: "pool_ok (n_m (r_node r)) (Shuffle sp1)" and t: "sp_total_msg sp1 \<le> sp_total_msg sp + 1"
      by (auto simp: batch_ok_def)
    have "returns_unless (send_batch_loop r1 sp1 draws curs) (batch_ok curs r1 sp1) (2 ^ 31 \<le> sp_total_msg sp1 + int (length curs))"
      using Cons.prems(3,4) p sent_okD [OF s] by (intro Cons.IH) auto
    then show "returns_unless (send_batch_loop r1 sp1 draws curs) (batch_ok (cur # curs) r sp)
        (2 ^ 31 \<le> sp_total_msg sp + int (length (cur # curs)))"
      by (rule returns_unless_mono) (use batch_ok_trans [OF b] Cons.prems(4) t in auto)
  qed
qed

lemma send_batch_report_ok:
  assumes "wf_relay r" and "pool_ok (n_m (r_node r)) (Shuffle sp)"
  shows "batch_ok [] r sp (send_batch_report r sp now)"
proof (cases "now - sp_time_prev sp \<ge> n_cnt_interval (r_node r) * 10 ^ 9")
  case True
  let ?n = "(r_node r)\<lparr>n_dummy_cnt := 0, n_app_cnt := 0, n_p2p_cnt := 0\<rparr>"
  have "sent_ok 0 r (r\<lparr>r_node := ?n\<rparr>)"
    by (rule sent_ok_counters [OF assms(1)]) (simp add: no_cnt_def)
  with True assms(2) show ?thesis
    by (simp add: send_batch_report_def batch_ok_def pool_items_def real_packets_def)
next
  case False
  then show ?thesis using batch_ok_refl [OF assms] by (simp add: send_batch_report_def)
qed

lemma send_batch_ok:
  assumes wf: "wf_relay r" and sp: "r_pool r = Some (Shuffle sp)"
  shows "returns_unless (send_batch r sp draws now) (\<lambda>r'. sent_ok 0 r r' \<and> (\<exists>sp' ds is.
     r_pool r' = Some (Shuffle sp') \<and> r_wire r' = r_wire r @ ds \<and> subseq is [0..<n_m (r_node r)] \<and>
     (sp_send_dummy sp \<noteq> 0 \<longrightarrow> is = [0..<n_m (r_node r)]) \<and> list_all2 (for_queue r sp) is ds \<and>
     pool_items sp = pool_items sp' + real_packets ds)) (2 ^ 31 \<le> sp_total_msg sp + int (n_m (r_node r)))"
proof -
  let ?m = "n_m (r_node r)"
  from wf sp have pool: "pool_ok ?m (Shuffle sp)" by (auto simp: wf_relay_def)
  then have len: "length (sp_package_pool sp) = ?m" by simp
  have all: "\<forall>cur \<in> set [0..<?m]. cur < ?m" by simp
  note loop = send_batch_loop_ok [OF wf pool all distinct_upt, of draws]
  show ?thesis
    unfolding send_batch_def len
  proof (rule returns_unless_bind)
    show "returns_unless (send_batch_loop r sp draws [0..<?m]) (batch_ok [0..<?m] r sp) (2 ^ 31 \<le> sp_total_msg sp + int ?m)"
      using loop by simp
  next
    fix x assume x: "batch_ok [0..<?m] r sp x"
    obtain r1 sp1 where x': "x = (r1, sp1)" by (cases x)
    with x have b: "batch_ok [0..<?m] r sp (r1, sp1)" by simp
    then have s1: "sent_ok 0 r r1" and p1: "pool_ok ?m (Shuffle sp1)" by (auto simp: batch_ok_def)
    obtain r2 sp2 where rep: "send_batch_report r1 sp1 now = (r2, sp2)" by fastforce
    with send_batch_report_ok [OF sent_okD(1) [OF s1], of sp1 now] p1 sent_okD(3) [OF s1]
    have "batch_ok [] r1 sp1 (r2, sp2)" by (simp del: pool_ok.simps)
    from batch_ok_trans [OF b this] have b2: "batch_ok [0..<?m] r sp (r2, sp2)" by simp
    let ?r = "r2\<lparr>r_pool := Some (Shuffle sp2)\<rparr>"
    from b2 have s2: "sent_ok 0 r r2" and q2: "r_pool r2 = Some (Shuffle sp)"
      and p2: "pool_ok ?m (Shuffle sp2)"
      and rm: "\<forall>j. pool_room j (Shuffle sp) \<longrightarrow> pool_room j (Shuffle sp2)"
      using sp by (auto simp: batch_ok_def)
    have "wf_relay ?r"
      using wf_relay_pool [OF sent_okD(1) [OF s2] q2] p2 sent_okD(3) [OF s2] by simp
    with s2 rm sp have "sent_ok 0 r ?r" by (simp add: sent_ok_def room_def)
    moreover obtain ds "is" where "r_wire ?r = r_wire r @ ds" "subseq is [0..<?m]" "sp_send_dummy sp \<noteq> 0 \<longrightarrow> is = [0..<?m]"
      "list_all2 (for_queue r sp) is ds" "pool_items sp = pool_items sp2 + real_packets ds"
      using b2 by (auto simp: batch_ok_def)
    ultimately have "sent_ok 0 r ?r \<and> (\<exists>sp' ds is. r_pool ?r = Some (Shuffle sp') \<and> r_wire ?r = r_wire r @ ds \<and>
        subseq is [0..<?m] \<and> (sp_send_dummy sp \<noteq> 0 \<longrightarrow> is = [0..<?m]) \<and> list_all2 (for_queue r sp) is ds \<and>
        pool_items sp = pool_items sp' + real_packets ds)"
      by (intro conjI exI [of _ sp2] exI [of _ ds] exI [of _ "is"]) simp_all
    then show "returns_unless (case x of (r1, sp1) \<Rightarrow> let (r2, sp2) = send_batch_report r1 sp1 now in Some (r2\<lparr>r_pool := Some (Shuffle sp2)\<rparr>))
        (\<lambda>r'. sent_ok 0 r r' \<and> (\<exists>sp' ds is. r_pool r' = Some (Shuffle sp') \<and> r_wire r' = r_wire r @ ds \<and>
          subseq is [0..<?m] \<and> (sp_send_dummy sp \<noteq> 0 \<longrightarrow> is = [0..<?m]) \<and> list_all2 (for_queue r sp) is ds \<and>
          pool_items sp = pool_items sp' + real_packets ds)) (2 ^ 31 \<le> sp_total_msg sp + int ?m)"
      by (simp add: x' rep)
  qed
qed

end
