(* ===== verification/Service.thy ===== *)
theory Service
  imports Socket
begin

text \<open>
  \<open>DAEService\<close> (src/src/p2p/DAEService.hpp), the implementation of \<open>DAEProtocol\<close>: every call builds
  a packet and sends it, the ring messages directly and the application messages through the
  pool. \<open>perform\<close> is the whole interface, \<open>perform_actions\<close> runs the calls of a node operation.
\<close>

subsection \<open>The protocol methods\<close>

definition service_send :: "relay \<Rightarrow> anonymous_packet \<Rightarrow> ip_addr \<Rightarrow> int \<Rightarrow> relay option" where
  "service_send r pkg ip dest_port = DAE_direct_send r (pkg\<lparr>h_size := 0\<rparr>) ip dest_port"

definition join_find_successor ::
  "relay \<Rightarrow> ip_addr \<Rightarrow> ring_id \<Rightarrow> int \<Rightarrow> ip_addr \<Rightarrow> ring_id \<Rightarrow> int \<Rightarrow> int \<Rightarrow> ring_id \<Rightarrow> relay option" where
  "join_find_successor r addr finder finder_port src_ip source_id source_port index dest_id = do {
     let (mem, r1) = new_mem r;
     packet \<leftarrow> AnonymousPacket14 mem internal_join_find_successor
       src_ip source_id addr finder finder_port src_ip source_id source_port
       src_ip dest_id source_port index True;
     service_send r1 packet addr finder_port }"

definition reply_find_successor ::
  "relay \<Rightarrow> ip_addr \<Rightarrow> int \<Rightarrow> ring_id \<Rightarrow> int \<Rightarrow> ring_id \<Rightarrow> ip_addr \<Rightarrow> int \<Rightarrow> relay option" where
  "reply_find_successor r addr src_port dest_id index su key_ip key_port = do {
     let (mem, r1) = new_mem r;
     packet \<leftarrow> AnonymousPacket14 mem internal_reply_find_successor
       (r_host r) (r_relay_id r) addr dest_id src_port addr (- 1) key_port
       key_ip su key_port index True;
     service_send r1 packet addr src_port }"

definition find_predecessor ::
  "relay \<Rightarrow> ip_addr \<Rightarrow> int \<Rightarrow> ring_id \<Rightarrow> ip_addr \<Rightarrow> int \<Rightarrow> ring_id \<Rightarrow> relay option" where
  "find_predecessor r addr su_port source src_addr src_port i = do {
     let (mem, r1) = new_mem r;
     packet \<leftarrow> AnonymousPacket14 mem internal_find_predecessor
       src_addr source addr i su_port src_addr source src_port
       addr (- 1) src_port (- 1) True;
     service_send r1 packet addr su_port }"

definition reply_get_predecessor ::
  "relay \<Rightarrow> ip_addr \<Rightarrow> int \<Rightarrow> ring_id \<Rightarrow> ip_addr \<Rightarrow> int \<Rightarrow> relay option" where
  "reply_get_predecessor r src_addr src_port predecessor predecessor_ip predecessor_port = do {
     let (mem, r1) = new_mem r;
     packet \<leftarrow> AnonymousPacket14 mem internal_reply_get_predecessor
       (r_host r) (r_relay_id r) src_addr (- 1) src_port src_addr (- 1) src_port
       predecessor_ip predecessor predecessor_port (- 1) True;
     service_send r1 packet src_addr src_port }"

definition notify_predecessor_join ::
  "relay \<Rightarrow> ip_addr \<Rightarrow> ring_id \<Rightarrow> int \<Rightarrow> ring_id \<Rightarrow> relay option" where
  "notify_predecessor_join r addr su su_port i = do {
     let (mem, r1) = new_mem r;
     packet \<leftarrow> AnonymousPacket14 mem internal_notify_predecessor_join
       (r_host r) (r_relay_id r) addr su su_port addr (- 1) su_port
       addr i (r_port r) (- 1) True;
     service_send r1 packet addr su_port }"

definition fetch_backup_successor ::
  "relay \<Rightarrow> int \<Rightarrow> ip_addr \<Rightarrow> int \<Rightarrow> ring_id \<Rightarrow> ip_addr \<Rightarrow> int \<Rightarrow> relay option" where
  "fetch_backup_successor r total_num su_addr su_port src_id src_addr src_port = do {
     let (mem, r1) = new_mem r;
     packet \<leftarrow> AnonymousPacket14 mem internal_fetch_successor_list
       (r_host r) (r_relay_id r) su_addr (- 1) su_port src_addr src_id src_port
       src_addr src_id src_port total_num True;
     service_send r1 packet su_addr su_port }"

definition reply_backup_successor ::
  "relay \<Rightarrow> int \<Rightarrow> ip_addr \<Rightarrow> int \<Rightarrow> ring_id \<Rightarrow> ip_addr \<Rightarrow> int \<Rightarrow> relay option" where
  "reply_backup_successor r counter src_addr src_port su_id su_ip su_port = do {
     let (mem, r1) = new_mem r;
     packet \<leftarrow> AnonymousPacket14 mem internal_reply_successor_list
       (r_host r) (r_relay_id r) src_addr (- 1) src_port src_addr (- 1) src_port
       su_ip su_id su_port counter True;
     service_send r1 packet src_addr src_port }"

definition check_predecessor_existence ::
  "relay \<Rightarrow> ip_addr \<Rightarrow> int \<Rightarrow> ip_addr \<Rightarrow> int \<Rightarrow> relay option" where
  "check_predecessor_existence r pre_addr pre_port src_addr src_port = do {
     let (mem, r1) = new_mem r;
     packet \<leftarrow> AnonymousPacket14 mem internal_check_predecessor_existence
       (r_host r) (r_relay_id r) pre_addr (- 1) pre_port src_addr (- 1) src_port
       src_addr (- 1) src_port (- 1) True;
     service_send r1 packet pre_addr pre_port }"

definition reply_predecessor_existence ::
  "relay \<Rightarrow> ring_id \<Rightarrow> ip_addr \<Rightarrow> int \<Rightarrow> relay option" where
  "reply_predecessor_existence r my_id src_addr src_port = do {
     let (mem, r1) = new_mem r;
     packet \<leftarrow> AnonymousPacket14 mem internal_reply_predecessor_existence
       (r_host r) (r_relay_id r) src_addr (- 1) src_port src_addr (- 1) src_port
       src_addr my_id src_port (- 1) True;
     service_send r1 packet src_addr src_port }"

definition check_successor_existence ::
  "relay \<Rightarrow> ip_addr \<Rightarrow> int \<Rightarrow> ip_addr \<Rightarrow> int \<Rightarrow> relay option" where
  "check_successor_existence r su_addr su_port src_addr src_port = do {
     let (mem, r1) = new_mem r;
     packet \<leftarrow> AnonymousPacket14 mem internal_check_successor_existence
       (r_host r) (r_relay_id r) su_addr (- 1) su_port src_addr (- 1) src_port
       src_addr (- 1) src_port (- 1) True;
     service_send r1 packet su_addr su_port }"

definition reply_successor_existence ::
  "relay \<Rightarrow> ring_id \<Rightarrow> ip_addr \<Rightarrow> int \<Rightarrow> relay option" where
  "reply_successor_existence r my_id src_addr src_port = do {
     let (mem, r1) = new_mem r;
     packet \<leftarrow> AnonymousPacket14 mem internal_reply_successor_existence
       (r_host r) (r_relay_id r) src_addr (- 1) src_port src_addr (- 1) src_port
       src_addr my_id src_port (- 1) True;
     service_send r1 packet src_addr src_port }"

definition external_messaging ::
  "relay \<Rightarrow> bool \<Rightarrow> int \<Rightarrow> int \<Rightarrow> ring_id \<Rightarrow> ip_addr \<Rightarrow> int \<Rightarrow> u64 \<Rightarrow> ring_id \<Rightarrow> ring_id \<Rightarrow> byte list \<Rightarrow>
   int \<Rightarrow> relay option" where
  "external_messaging r is_dest session sq next_id next_ip next_port ty dest_id client_key ct sz =
   do {
     let (mem, r1) = new_mem r;
     packet \<leftarrow> AnonymousPacket18 mem ty
       (r_host r) (r_relay_id r) next_ip next_id next_port next_ip client_key next_port
       next_ip dest_id next_port sq False ct sz is_dest session;
     safe_send r1 packet next_ip next_port }"

fun perform :: "relay \<Rightarrow> proto_call \<Rightarrow> relay option" where
  "perform r (JoinFindSuccessor a f fp s si sp ix d) = join_find_successor r a f fp s si sp ix d"
| "perform r (ReplyFindSuccessor a sp d ix su kip kp) = reply_find_successor r a sp d ix su kip kp"
| "perform r (FindPredecessor a sp s sa srcp i) = find_predecessor r a sp s sa srcp i"
| "perform r (ReplyGetPredecessor a p pr prip prp) = reply_get_predecessor r a p pr prip prp"
| "perform r (NotifyPredecessorJoin a su p i) = notify_predecessor_join r a su p i"
| "perform r (FetchBackupSuccessor c a p si sa sp) = fetch_backup_successor r c a p si sa sp"
| "perform r (ReplyBackupSuccessor c a p su sip sp) = reply_backup_successor r c a p su sip sp"
| "perform r (CheckPredecessorExistence a p sa sp) = check_predecessor_existence r a p sa sp"
| "perform r (ReplyPredecessorExistence i a p) = reply_predecessor_existence r i a p"
| "perform r (CheckSuccessorExistence a p sa sp) = check_successor_existence r a p sa sp"
| "perform r (ReplySuccessorExistence i a p) = reply_successor_existence r i a p"
| "perform r (ExternalMessaging de s sq ni nip np ty d ck ct sz) =
     external_messaging r de s sq ni nip np ty d ck ct sz"

subsection \<open>Running a node operation\<close>

text \<open>
  The event loop keeps what a node schedules; \<open>cur\<close> is the position of the periodic task that is
  running, whose interval \<open>SetInterval\<close> changes.
\<close>

fun perform_action :: "nat option \<Rightarrow> relay \<Rightarrow> action \<Rightarrow> relay option" where
  "perform_action cur r (Call c) = perform r c"
| "perform_action cur r (FutureExecute tv t) = Some (r\<lparr>r_timers := r_timers r @
     [\<lparr>te_interval = tv, te_periodic = False, te_task = NodeTask t\<rparr>]\<rparr>)"
| "perform_action cur r (AddTimeTask tv t) = Some (r\<lparr>r_timers := r_timers r @
     [\<lparr>te_interval = tv, te_periodic = True, te_task = NodeTask t\<rparr>]\<rparr>)"
| "perform_action cur r (SetInterval tv) = (case cur of
       None \<Rightarrow> Some r
     | Some k \<Rightarrow> Some (r\<lparr>r_timers := (r_timers r)[k := (r_timers r ! k)\<lparr>te_interval := tv\<rparr>]\<rparr>))"

fun perform_actions :: "nat option \<Rightarrow> relay \<Rightarrow> action list \<Rightarrow> relay option" where
  "perform_actions cur r [] = Some r"
| "perform_actions cur r (a # as) = do {
     r' \<leftarrow> perform_action cur r a;
     perform_actions cur r' as }"

text \<open>A node operation that returns the node and its calls, run inside the relay.\<close>

definition run_node :: "nat option \<Rightarrow> relay \<Rightarrow> node_op \<Rightarrow> relay option" where
  "run_node cur r f = do {
     (n, as) \<leftarrow> f (r_node r);
     perform_actions cur (r\<lparr>r_node := n\<rparr>) as }"

subsection \<open>Construction, start and the event loop\<close>

definition DAEService ::
  "dae_node \<Rightarrow> (nat \<Rightarrow> anonymous_packet) \<Rightarrow> u32 \<Rightarrow> relay_config \<Rightarrow> relay option" where
  "DAEService mem heap rnd config = do {
     node_id \<leftarrow> get_dae_node_id config rnd;
     node \<leftarrow> DAENode mem (cf_ring_bits config) node_id (cf_relay_port config)
               (cf_relay_ip config) (cf_bt_time config) config;
     Some (RandomSocket (cf_relay_ip config) (cf_relay_port config) node_id node config heap) }"

definition start_service :: "relay \<Rightarrow> int \<Rightarrow> relay option" where
  "start_service r now = do {
     let r1 = init_DAEService r now;
     run_node None r1 (\<lambda>n. join n (cf_init_peers (r_config r1))) }"

text \<open>
  The event loop runs the pending task at position \<open>k\<close>: a periodic task stays, a one-shot task is
  removed. \<open>secs\<close>, \<open>draws\<close> and \<open>now\<close> are what the task reads from the clock and the random
  generators. After a one-shot task the source frees its argument array and what it points to with operators that do not
  match their allocation (\<open>delete\<close> through \<open>char*\<close>, \<open>free\<close> of memory from \<open>new[]\<close>); this deallocation is not part of the
  model.
\<close>

definition run_task :: "relay \<Rightarrow> nat \<Rightarrow> int \<Rightarrow> (nat \<Rightarrow> int \<times> u32) \<Rightarrow> int \<Rightarrow> relay option" where
  "run_task r k secs draws now =
     (if k < length (r_timers r)
      then let e = r_timers r ! k;
               r0 = (if te_periodic e then r
                     else r\<lparr>r_timers := take k (r_timers r) @ drop (Suc k) (r_timers r)\<rparr>)
           in case te_task e of
                NodeTask t \<Rightarrow> run_node (if te_periodic e then Some k else None) r0 (run_timer t secs)
              | PoolStart \<Rightarrow> pool_start r0
              | SendBatch \<Rightarrow> (case r_pool r0 of
                    Some (Shuffle sp) \<Rightarrow> send_batch r0 sp draws now
                  | _ \<Rightarrow> None)
      else Some r)"

subsection \<open>Every call is safe\<close>

text \<open>The common shape of the eleven ring messages: allocate, construct, send directly.\<close>

lemma ring_send_ok:
  assumes wf: "wf_relay r" and ips: "ip_ok s_ip" "ip_ok r_ip" "ip_ok reply_ip" "ip_ok k_ip"
    and i: "i \<noteq> dummy_message" "\<not> external_id i"
    and ix: "i = internal_join_find_successor \<or> i = internal_reply_find_successor \<Longrightarrow>
      0 \<le> ix \<and> ix < int (n_m (r_node r))"
      "i = internal_fetch_successor_list \<or> i = internal_reply_successor_list \<Longrightarrow> 0 \<le> ix \<and> ix \<le> 5"
  shows "returns (do {
     let (mem, r1) = new_mem r;
     packet \<leftarrow> AnonymousPacket14 mem i s_ip s_id r_ip r_id rp reply_ip reply_id reply_port
       k_ip k_id k_port ix True;
     service_send r1 packet a b }) (sent_ok 0 r)"
proof -
  obtain mem r1 where nm: "new_mem r = (mem, r1)" by (cases "new_mem r")
  from wf_relay_new_mem [OF wf] nm have r1: "sent_ok 0 r r1" and mem: "wf_mem mem" by auto
  from ips obtain p where p: "AnonymousPacket14 mem i s_ip s_id r_ip r_id rp reply_ip reply_id
      reply_port k_ip k_id k_port ix True = Some p"
    by (simp add: AnonymousPacket14_def)
  from wf_packet_14 [OF p mem] have "wf_packet (p\<lparr>h_size := 0\<rparr>)"
    by (simp add: wf_packet_def wf_mem_def)
  then have wp: "wire_packet (on_wire (p\<lparr>h_size := 0\<rparr>))" by (rule wire_packet_on_wire)
  from p have "h_id p = i" "h_index p = ix" "h_msg_type p"
    by (auto simp: AnonymousPacket14_def bind_strncpy split: if_splits)
  with i ix sent_okD(3) [OF r1] have "index_ok (n_m (r_node r1)) (p\<lparr>h_size := 0\<rparr>)"
    and "is_internal_msg (p\<lparr>h_size := 0\<rparr>) \<longleftrightarrow> \<not> external_id (h_id (p\<lparr>h_size := 0\<rparr>))"
    by (simp_all add: index_ok_def is_internal_msg_def)
  with sent_okD(1) [OF r1] wp
  have "returns (DAE_direct_send r1 (p\<lparr>h_size := 0\<rparr>) a b) (sent_ok 0 r1)"
    by (rule DAE_direct_send_ok)
  then have "returns (DAE_direct_send r1 (p\<lparr>h_size := 0\<rparr>) a b) (sent_ok 0 r)"
    by (rule returns_mono) (use sent_ok_trans [OF r1] in simp)
  then show ?thesis by (simp add: nm p service_send_def)
qed

lemma external_messaging_ok:
  assumes wf: "wf_relay r" and ip: "ip_ok ip" and ty: "external_id ty"
    and sz: "0 \<le> sz" "sz \<le> int body_cap" "sz \<le> int (length ct)" and rm: "room 1 r"
  shows "returns (external_messaging r de s sq ni ip np ty d ck ct sz) (sent_ok 1 r)"
proof -
  obtain mem r1 where nm: "new_mem r = (mem, r1)" by (cases "new_mem r")
  from wf_relay_new_mem [OF wf] nm have r1: "sent_ok 0 r r1" and mem: "wf_mem mem" by auto
  from wf have host: "ip_ok (r_host r)" by (simp add: wf_relay_def wf_node_def)
  from mem sz obtain body where "memcpy_into (p_body mem) ct sz = Some body"
    by (simp add: memcpy_into_def wf_mem_def nat_le_iff)
  with ip host obtain p where p: "AnonymousPacket18 mem ty (r_host r) (r_relay_id r) ip ni np
      ip ck np ip d np sq False ct sz de s = Some p"
    by (simp add: AnonymousPacket18_def)
  then have "h_id p = ty" "\<not> h_msg_type p"
    by (auto simp: AnonymousPacket18_def bind_strncpy split: if_splits elim!: bind_SomeE)
  with wf_packet_18 [OF p mem] ty have "app_packet p" by (simp add: app_packet_def is_internal_msg_def)
  from safe_send_ok [OF sent_okD(1) [OF r1] this] sent_okD(4) [OF r1, of 1] rm
  have "returns (safe_send r1 p ip np) (sent_ok 1 r1)" by simp
  then have "returns (safe_send r1 p ip np) (sent_ok 1 r)"
    by (rule returns_mono) (use sent_ok_trans [OF r1] in simp)
  then show ?thesis by (simp add: external_messaging_def nm p)
qed

fun is_external :: "action \<Rightarrow> bool" where
  "is_external (Call (ExternalMessaging de s sq ni ip np ty d ck ct sz)) = True"
| "is_external a = False"

lemma ring_not_external: "list_all (action_ok m) as \<Longrightarrow> filter is_external as = []"
proof (induction as)
  case (Cons a as)
  then show ?case by (cases a rule: is_external.cases) auto
qed simp

lemma ext_is_external: "ext_action_ok a \<Longrightarrow> is_external a"
  by (cases a rule: is_external.cases) auto

lemmas ring_methods = join_find_successor_def reply_find_successor_def find_predecessor_def
  reply_get_predecessor_def notify_predecessor_join_def fetch_backup_successor_def
  reply_backup_successor_def check_predecessor_existence_def reply_predecessor_existence_def
  check_successor_existence_def reply_successor_existence_def

lemma perform_ring_ok:
  assumes wf: "wf_relay r" and c: "call_ok (n_m (r_node r)) c"
  shows "returns (perform r c) (sent_ok 0 r)"
proof -
  from wf have host: "ip_ok (r_host r)" by (simp add: wf_relay_def wf_node_def)
  with c show ?thesis
    by (cases c; simp only: perform.simps ring_methods call_ok.simps; (intro ring_send_ok [OF wf])?)
      (simp_all add: message_defs external_id_def)
qed

lemma perform_action_ok:
  assumes wf: "wf_relay r" and a: "action_ok (n_m (r_node r)) a \<or> ext_action_ok a"
    and rm: "is_external a \<Longrightarrow> room 1 r"
  shows "returns (perform_action cur r a) (sent_ok (if is_external a then 1 else 0) r)"
proof (cases a)
  case (Call c)
  show ?thesis
  proof (cases "is_external a")
    case True
    with Call obtain de s sq ni ip np ty d ck ct sz where
      c: "c = ExternalMessaging de s sq ni ip np ty d ck ct sz"
      by (auto elim: is_external.elims)
    with a Call True rm external_messaging_ok [OF wf, of ip ty sz ct] show ?thesis by simp
  next
    case False
    with Call a perform_ring_ok [OF wf, of c] show ?thesis by (auto dest: ext_is_external)
  qed
next
  case (FutureExecute tv t)
  have "wf_relay (r\<lparr>r_timers := r_timers r @
      [\<lparr>te_interval = tv, te_periodic = False, te_task = NodeTask t\<rparr>]\<rparr>)"
    by (rule wf_relay_cong [OF wf]) auto
  with FutureExecute show ?thesis by (simp add: sent_ok_def room_def)
next
  case (AddTimeTask tv t)
  have "wf_relay (r\<lparr>r_timers := r_timers r @
      [\<lparr>te_interval = tv, te_periodic = True, te_task = NodeTask t\<rparr>]\<rparr>)"
    by (rule wf_relay_cong [OF wf]) auto
  with AddTimeTask show ?thesis by (simp add: sent_ok_def room_def)
next
  case (SetInterval tv)
  have "wf_relay (r\<lparr>r_timers := (r_timers r)[k := (r_timers r ! k)\<lparr>te_interval := tv\<rparr>]\<rparr>)" for k
  proof (rule wf_relay_cong [OF wf], simp_all)
    fix e assume e: "e \<in> set ((r_timers r)[k := (r_timers r ! k)\<lparr>te_interval := tv\<rparr>])"
      and t: "te_task e = SendBatch"
    show "\<exists>e' \<in> set (r_timers r). te_task e' = SendBatch"
    proof (cases "k < length (r_timers r)")
      case True
      with e t show ?thesis
        by (auto dest!: set_update_subset_insert [THEN subsetD] intro: bexI [of _ "r_timers r ! k"])
    qed (use e t in \<open>auto simp: list_update_beyond\<close>)
  qed
  with SetInterval sent_ok_refl [OF wf] show ?thesis
    by (simp add: sent_ok_def room_def split: option.splits)
qed

lemma perform_actions_ok:
  assumes "wf_relay r" and "list_all (\<lambda>a. action_ok (n_m (r_node r)) a \<or> ext_action_ok a) as"
    and "room (length (filter is_external as)) r"
  shows "returns (perform_actions cur r as) (sent_ok (length (filter is_external as)) r)"
  using assms
proof (induction as arbitrary: r)
  case Nil
  then show ?case by (simp add: sent_ok_refl)
next
  case (Cons a as)
  let ?k = "if is_external a then 1 else 0 :: nat" and ?l = "length (filter is_external as)"
  have kl: "length (filter is_external (a # as)) = ?k + ?l" by simp
  with Cons.prems(3) have rm: "room (?k + ?l) r" by simp
  then have "room 1 r" if "is_external a"
    using that room_mono_add [of 1 ?l r] by simp
  with Cons.prems have one: "returns (perform_action cur r a) (sent_ok ?k r)"
    by (intro perform_action_ok) auto
  show ?case
    unfolding perform_actions.simps
  proof (rule returns_bind [OF one])
    fix r1 assume s: "sent_ok ?k r r1"
    have "returns (perform_actions cur r1 as) (sent_ok ?l r1)"
      using Cons.prems(2) sent_okD [OF s] rm by (intro Cons.IH) auto
    then show "returns (perform_actions cur r1 as) (sent_ok (length (filter is_external (a # as))) r)"
      unfolding kl by (rule returns_mono) (rule sent_ok_trans [OF s])
  qed
qed

lemma room_0:
  assumes "wf_relay r"
  shows "room 0 r"
proof -
  from assms obtain pool where p: "r_pool r = Some pool" "pool_ok (n_m (r_node r)) pool"
    by (auto simp: wf_relay_def)
  then show ?thesis by (cases pool) (auto simp: room_def crq_wf_def)
qed

text \<open>Ring operations put nothing into the pool.\<close>

lemma perform_ring_actions_ok:
  assumes "wf_relay r" and "list_all (action_ok (n_m (r_node r))) as"
  shows "returns (perform_actions cur r as) (sent_ok 0 r)"
proof -
  from assms(2) have "list_all (\<lambda>a. action_ok (n_m (r_node r)) a \<or> ext_action_ok a) as"
    by (simp add: list_all_iff)
  then show ?thesis
    using perform_actions_ok [OF assms(1), of as cur] ring_not_external [OF assms(2)]
      room_0 [OF assms(1)] by simp
qed

text \<open>The ring messages go past the pool.\<close>

lemma ring_call_pool:
  assumes "perform r c = Some r'" "action_ok m (Call c)"
  shows "r_pool r' = r_pool r"
proof -
  have send: "r_pool r2 = r_pool r1" if "service_send r1 p a b = Some r2" for r1 p a b r2
    using that DAE_direct_send_wire by (auto simp: service_send_def)
  have new: "r_pool r1 = r_pool r" if "new_mem r = (mem, r1)" for mem r1
    using that by (auto simp: new_mem_def)
  show ?thesis
    using assms
    by (cases c) (auto simp: join_find_successor_def reply_find_successor_def find_predecessor_def reply_get_predecessor_def
        notify_predecessor_join_def fetch_backup_successor_def reply_backup_successor_def check_predecessor_existence_def
        reply_predecessor_existence_def check_successor_existence_def reply_successor_existence_def
        split: prod.splits elim!: bind_SomeE dest!: send dest: new)
qed

lemma ring_actions_pool:
  "perform_actions cur r as = Some r' \<Longrightarrow> list_all (action_ok m) as \<Longrightarrow> r_pool r' = r_pool r"
proof (induction as arbitrary: r)
  case (Cons a as)
  then obtain r1 where r1: "perform_action cur r a = Some r1" "perform_actions cur r1 as = Some r'" by (auto elim!: bind_SomeE)
  have "r_pool r1 = r_pool r"
    using r1(1) Cons.prems(2) ring_call_pool by (cases a) (auto split: option.splits)
  then show ?case using Cons.IH [OF r1(2)] Cons.prems(2) by simp
qed simp

subsection \<open>Whole steps of the event loop\<close>

text \<open>One step of a relay: it stays well formed, keeps its identity and appends correct datagrams.\<close>

definition step_ok :: "relay \<Rightarrow> relay \<Rightarrow> bool" where
  "step_ok r r' \<longleftrightarrow> wf_relay r' \<and> same_self (r_node r) (r_node r') \<and>
     (\<exists>ds. r_wire r' = r_wire r @ ds \<and> list_all (wire_ok (n_m (r_node r))) ds)"

lemma sent_step_ok:
  assumes "sent_ok k r r'"
  shows "step_ok r r'"
  using assms no_cnt_eqD [OF sent_okD(2) [OF assms]] by (simp add: sent_ok_def step_ok_def same_self_def)

lemma step_ok_trans: "step_ok a b \<Longrightarrow> step_ok b c \<Longrightarrow> step_ok a c"
  unfolding step_ok_def same_self_def
  by (elim conjE exE, intro conjI exI) (assumption | simp)+

lemma wf_relay_node:
  "wf_relay r \<Longrightarrow> wf_node n \<Longrightarrow> same_self (r_node r) n \<Longrightarrow> wf_relay (r\<lparr>r_node := n\<rparr>)"
  by (simp add: wf_relay_def same_self_def)

lemma step_ok_node:
  "wf_relay r \<Longrightarrow> wf_node n \<Longrightarrow> same_self (r_node r) n \<Longrightarrow> step_ok r (r\<lparr>r_node := n\<rparr>)"
  by (simp add: step_ok_def wf_relay_node)

lemma run_node_ok:
  assumes "wf_relay r" and "op_ok (r_node r) (f (r_node r))"
  shows "returns (run_node cur r f) (step_ok r)"
proof -
  from assms(2) obtain n as where f: "f (r_node r) = Some (n, as)" and n: "wf_node n"
    "same_self (r_node r) n" and as: "list_all (action_ok (n_m (r_node r))) as"
    by (auto simp: op_ok_def returns_def)
  note s = step_ok_node [OF assms(1) n]
  have "returns (perform_actions cur (r\<lparr>r_node := n\<rparr>) as) (sent_ok 0 (r\<lparr>r_node := n\<rparr>))"
    using wf_relay_node [OF assms(1) n] as n(2)
    by (intro perform_ring_actions_ok) (simp_all add: same_self_def)
  then have "returns (perform_actions cur (r\<lparr>r_node := n\<rparr>) as) (step_ok r)"
    by (rule returns_mono) (rule step_ok_trans [OF s sent_step_ok])
  then show ?thesis by (simp add: run_node_def f)
qed

lemma step_ok_refl: "wf_relay r \<Longrightarrow> step_ok r r"
  by (simp add: step_ok_def)

lemma wf_relay_take_timer:
  assumes "wf_relay r"
  shows "wf_relay (r\<lparr>r_timers := take k (r_timers r) @ drop (Suc k) (r_timers r)\<rparr>)"
  by (rule wf_relay_cong [OF assms]) (auto dest: in_set_takeD in_set_dropD)

lemma pool_start_ok:
  assumes "wf_relay r"
  shows "returns (pool_start r) (step_ok r)"
proof -
  from assms obtain pool where p: "r_pool r = Some pool" by (auto simp: wf_relay_def)
  show ?thesis
  proof (cases pool)
    case (Shuffle sp)
    with p assms have "wf_relay (ShufflePool_start r sp)"
      by (auto simp: wf_relay_def ShufflePool_start_def)
    with Shuffle p show ?thesis by (simp add: pool_start_def step_ok_def ShufflePool_start_def)
  next
    case (Direct rate)
    with p step_ok_refl [OF assms] show ?thesis by (simp add: pool_start_def)
  qed
qed

text \<open>The counter of a shuffle pool leaves no room for another batch.\<close>

definition counters_full :: "relay \<Rightarrow> bool" where
  "counters_full r \<longleftrightarrow> (case r_pool r of
     Some (Shuffle sp) \<Rightarrow> 2 ^ 31 \<le> sp_total_msg sp + int (n_m (r_node r)) | _ \<Rightarrow> False)"

lemma run_task_ok:
  assumes "wf_relay r"
  shows "returns_unless (run_task r k secs draws now) (step_ok r) (counters_full r)"
proof (cases "k < length (r_timers r)")
  case True
  define e where "e = r_timers r ! k"
  define r0 where "r0 = (if te_periodic e then r
    else r\<lparr>r_timers := take k (r_timers r) @ drop (Suc k) (r_timers r)\<rparr>)"
  have eq: "run_task r k secs draws now = (case te_task e of
       NodeTask t \<Rightarrow> run_node (if te_periodic e then Some k else None) r0 (run_timer t secs)
     | PoolStart \<Rightarrow> pool_start r0
     | SendBatch \<Rightarrow> (case r_pool r0 of Some (Shuffle sp) \<Rightarrow> send_batch r0 sp draws now | _ \<Rightarrow> None))"
    using True unfolding run_task_def Let_def e_def [symmetric] r0_def [symmetric] by simp
  have wf0: "wf_relay r0" using assms wf_relay_take_timer by (simp add: r0_def)
  have s0: "step_ok r r0" using assms wf0 by (auto simp: step_ok_def r0_def)
  have pool: "r_pool r0 = r_pool r" by (simp add: r0_def)
  have full: "counters_full r0 = counters_full r" by (auto simp: r0_def counters_full_def split: option.splits pool.splits)
  have "returns_unless (run_task r k secs draws now) (step_ok r0) (counters_full r)"
  proof (cases "te_task e")
    case (NodeTask t)
    from wf0 have "op_ok (r_node r0) (run_timer t secs (r_node r0))"
      by (intro run_timer_ok) (simp add: wf_relay_def)
    from run_node_ok [where f = "run_timer t secs", OF wf0 this] NodeTask show ?thesis by (simp add: eq returns_imp_unless)
  next
    case PoolStart
    with pool_start_ok [OF wf0] show ?thesis by (simp add: eq returns_imp_unless)
  next
    case SendBatch
    have "e \<in> set (r_timers r)" using True by (simp add: e_def)
    with SendBatch assms obtain sp where sp: "r_pool r0 = Some (Shuffle sp)"
      unfolding wf_relay_def pool by blast
    have "returns_unless (send_batch r0 sp draws now) (step_ok r0) (counters_full r0)"
      by (rule returns_unless_mono [OF send_batch_ok [OF wf0 sp]])
        (auto simp: counters_full_def sp intro: sent_step_ok)
    with SendBatch sp show ?thesis by (simp add: eq full)
  qed
  then show ?thesis by (rule returns_unless_mono) (rule step_ok_trans [OF s0])
qed (simp add: run_task_def step_ok_refl assms)

subsection \<open>Starting a relay\<close>

definition config_ok :: "relay_config \<Rightarrow> bool" where
  "config_ok c \<longleftrightarrow> 0 < cf_ring_bits c \<and> cf_ring_bits c < 31 \<and> ip_ok (cf_relay_ip c) \<and>
     ip_ok (pp_ip (cf_init_peers c)) \<and> cf_max_relay_id c = word_of_int (2 ^ nat (cf_ring_bits c)) \<and>
     (cf_debug c \<noteq> 0 \<longrightarrow> on_ring (nat (cf_ring_bits c)) (cf_relay_id c)) \<and>
     cf_recheck c * 50000 < 2 ^ 31 \<and> \<bar>cf_d_p2p_time_before c\<bar> * 1000 < 2 ^ 31"

lemma get_dae_node_id_ok:
  assumes "config_ok c"
  shows "returns (get_dae_node_id c rnd) (on_ring (nat (cf_ring_bits c)))"
proof (cases "cf_debug c = 0")
  case True
  define m where "m = nat (cf_ring_bits c)"
  have m: "m < 31" and mx: "cf_max_relay_id c = word_of_int (2 ^ m)"
    using assms by (auto simp: config_ok_def m_def)
  have p31: "(2::nat) ^ m < 2 ^ 31" using m by (intro power_strict_increasing) auto
  have un: "unat (cf_max_relay_id c) = 2 ^ m" using m unat_power_64 [of m] by (simp add: mx)
  then have nz: "cf_max_relay_id c \<noteq> 0" by auto
  let ?x = "(ucast rnd :: u64) mod cf_max_relay_id c"
  have x: "unat ?x < 2 ^ m" by (simp add: unat_mod un)
  with p31 have "unat ?x < 2 ^ 31" by linarith
  then have "unat (scast (ucast ?x :: u32) :: u64) = unat ?x" by (rule unat_narrow_widen)
  with True nz x show ?thesis by (simp add: get_dae_node_id_def on_ring_def m_def)
qed (use assms in \<open>simp add: get_dae_node_id_def config_ok_def\<close>)

lemma init_DAEService_ok:
  assumes "wf_node n" and "n_ip n = host" and "n_port n = port" and "n_id n = i"
    and "\<forall>k. wf_mem (heap k)"
  shows "wf_relay (init_DAEService (RandomSocket host port i n config heap) now)"
  using assms
  by (auto simp: wf_relay_def init_DAEService_def RandomSocket_def ShufflePool_def crq_wf_new Let_def)

lemma service_starts:
  assumes c: "config_ok c" and heap: "\<forall>k. wf_mem (heap k)"
  shows "returns (do { r \<leftarrow> DAEService mem heap rnd c; start_service r now }) (\<lambda>r.
     wf_relay r \<and> n_m (r_node r) = nat (cf_ring_bits c) \<and> n_ip (r_node r) = cf_relay_ip c \<and>
     n_port (r_node r) = cf_relay_port c \<and>
     get_dae_node_id c rnd = Some (n_id (r_node r)) \<and>
     list_all (wire_ok (nat (cf_ring_bits c))) (r_wire r))"
proof -
  obtain i where i: "get_dae_node_id c rnd = Some i" "on_ring (nat (cf_ring_bits c)) i"
    using get_dae_node_id_ok [OF c] by (auto simp: returns_def)
  from c obtain n where n: "DAENode mem (cf_ring_bits c) i (cf_relay_port c) (cf_relay_ip c)
      (cf_bt_time c) c = Some n" "wf_node n" "n_m n = nat (cf_ring_bits c)" "n_id n = i"
      "n_ip n = cf_relay_ip c" "n_port n = cf_relay_port c"
    using DAENode_ok [of "cf_ring_bits c" i "cf_relay_ip c" c mem "cf_relay_port c" "cf_bt_time c"] i(2)
    by (auto simp: returns_def config_ok_def)
  define r0 where "r0 = RandomSocket (cf_relay_ip c) (cf_relay_port c) i n c heap"
  let ?r1 = "init_DAEService r0 now"
  have wf: "wf_relay ?r1"
    unfolding r0_def using n heap by (intro init_DAEService_ok) auto
  have r1: "r_node ?r1 = n" "r_wire ?r1 = []" "r_config ?r1 = c"
    by (simp_all add: r0_def init_DAEService_def RandomSocket_def Let_def)
  from c n(2) have "op_ok n (join n (cf_init_peers c))" by (intro join_ok) (simp_all add: config_ok_def)
  then have "returns (run_node None ?r1 (\<lambda>n. join n (cf_init_peers c))) (step_ok ?r1)"
    using run_node_ok [OF wf, of "\<lambda>n. join n (cf_init_peers c)"] by (simp add: r1)
  then have "returns (start_service r0 now) (step_ok ?r1)"
    by (simp add: start_service_def r1)
  then have "returns (start_service r0 now) (\<lambda>r.
      wf_relay r \<and> n_m (r_node r) = nat (cf_ring_bits c) \<and> n_ip (r_node r) = cf_relay_ip c \<and>
      n_port (r_node r) = cf_relay_port c \<and> get_dae_node_id c rnd = Some (n_id (r_node r)) \<and>
      list_all (wire_ok (nat (cf_ring_bits c))) (r_wire r))"
    by (rule returns_mono) (auto simp: step_ok_def r1 n(3-) i(1) same_self_def)
  then show ?thesis by (simp add: DAEService_def i n r0_def)
qed

end
