(* ===== verification/Dispatch.thy ===== *)
theory Dispatch
  imports Service
begin

text \<open>
  Receiving: the body of the receiving thread and \<open>DAE_process_internal_message\<close>
  (src/src/relay/RandomSocket.cpp), one definition per message type, and the chain from a datagram
  to the calls it causes. Each handler runs on the relay and returns the relay after it.
\<close>

subsection \<open>Ring messages\<close>

definition on_join_find_successor :: "relay \<Rightarrow> anonymous_packet \<Rightarrow> relay option" where
  "on_join_find_successor r packet = do {
     (_, as) \<leftarrow> handle_find_successor (r_node r) (h_relay_reply_ip packet)
       (h_relay_reply_port packet) (h_index packet) (h_key_id packet) False;
     perform_actions None r as }"

definition on_reply_find_successor :: "relay \<Rightarrow> anonymous_packet \<Rightarrow> relay option" where
  "on_reply_find_successor r packet = do {
     n1 \<leftarrow> updatesuccessor (r_node r) (h_index packet) (h_key_id packet);
     n2 \<leftarrow> updatesuccessor_ip n1 (h_index packet) (h_key_ip packet);
     n3 \<leftarrow> updatesuccessor_port n2 (h_index packet) (h_key_port packet);
     Some (r\<lparr>r_node := n3\<rparr>) }"

definition on_find_predecessor :: "relay \<Rightarrow> anonymous_packet \<Rightarrow> relay option" where
  "on_find_predecessor r packet =
     perform_actions None r
       (handle_get_predecessor (r_node r) (h_relay_reply_ip packet) (h_relay_reply_port packet))"

definition on_reply_get_predecessor :: "relay \<Rightarrow> anonymous_packet \<Rightarrow> relay option" where
  "on_reply_get_predecessor r packet = do {
     let n1 = set_predecessor_of_successor (r_node r) (h_key_id packet);
     n2 \<leftarrow> set_predecessor_of_successor_ip n1 (h_key_ip packet);
     Some (r\<lparr>r_node := set_predecessor_of_successor_port n2 (h_key_port packet)\<rparr>) }"

definition on_notify_predecessor_join :: "relay \<Rightarrow> anonymous_packet \<Rightarrow> relay option" where
  "on_notify_predecessor_join r packet = do {
     n \<leftarrow> notify (r_node r) (h_key_id packet) (h_relay_ip packet) (h_key_port packet);
     Some (r\<lparr>r_node := n\<rparr>) }"

definition on_fetch_successor_list :: "relay \<Rightarrow> anonymous_packet \<Rightarrow> relay option" where
  "on_fetch_successor_list r packet = do {
     as \<leftarrow> handle_fetch_successor_list (r_node r) (h_index packet) (h_relay_reply_ip packet)
             (h_relay_reply_port packet);
     perform_actions None r as }"

text \<open>\<open>while (successor_list.size() > 6 - counter) pop_front();\<close> the \<open>int\<close> on the right is converted
  to \<open>size_t\<close> for the comparison.\<close>

fun trim_successor_list :: "u64 \<Rightarrow> 'a list \<Rightarrow> 'a list" where
  "trim_successor_list bound [] = []"
| "trim_successor_list bound (x # xs) =
     (if of_nat (length (x # xs)) > bound then trim_successor_list bound xs else x # xs)"

definition on_reply_successor_list :: "relay \<Rightarrow> anonymous_packet \<Rightarrow> relay option" where
  "on_reply_successor_list r packet =
     (let su_id = h_key_id packet; counter = h_index packet
      in if su_id \<noteq> n_id (r_node r)
         then do {
           let n1 = add_to_successor_list (r_node r)
             \<lparr>pp_ip = h_key_ip packet, pp_port = h_key_port packet, pp_relay_id = su_id,
              pp_check_usage = True\<rparr>;
           bound \<leftarrow> c_int (6 - counter);
           Some (r\<lparr>r_node := n1\<lparr>n_successor_list :=
             trim_successor_list (word_of_int bound) (n_successor_list n1)\<rparr>\<rparr>) }
         else Some r)"

definition on_check_predecessor_existence :: "relay \<Rightarrow> anonymous_packet \<Rightarrow> relay option" where
  "on_check_predecessor_existence r packet =
     perform_actions None r (handle_check_predecessor_failure (r_node r)
       (h_relay_reply_ip packet) (h_relay_reply_port packet))"

definition on_reply_predecessor_existence :: "relay \<Rightarrow> anonymous_packet \<Rightarrow> relay option" where
  "on_reply_predecessor_existence r packet =
     Some (if h_key_id packet = n_predecessor (r_node r)
           then r\<lparr>r_node := reverse_predecessor_status (r_node r)\<rparr> else r)"

definition on_check_successor_existence :: "relay \<Rightarrow> anonymous_packet \<Rightarrow> relay option" where
  "on_check_successor_existence r packet =
     perform_actions None r (handle_check_successor_failure (r_node r)
       (h_relay_reply_ip packet) (h_relay_reply_port packet))"

definition on_reply_successor_existence :: "relay \<Rightarrow> anonymous_packet \<Rightarrow> relay option" where
  "on_reply_successor_existence r packet = do {
     su \<leftarrow> successor (r_node r);
     Some (if h_key_id packet = su \<and> h_key_id packet \<noteq> n_id (r_node r)
           then r\<lparr>r_node := reverse_successor_status (r_node r)\<rparr> else r) }"

subsection \<open>Application messages\<close>

text \<open>Passing a packet on towards the node responsible for \<open>dest_id\<close>.\<close>

definition forward_external ::
  "relay \<Rightarrow> anonymous_packet \<Rightarrow> u64 \<Rightarrow> ring_id \<Rightarrow> ring_id \<Rightarrow> anonymous_packet \<Rightarrow> relay option" where
  "forward_external r packet ty dest_id client_key body = do {
     as \<leftarrow> handle_external_messaging (r_node r) False (h_session_id packet) (h_index packet) ty
             dest_id client_key (payload body) (payload_size body);
     perform_actions None r as }"

definition on_pingpong :: "relay \<Rightarrow> anonymous_packet \<Rightarrow> relay option" where
  "on_pingpong r packet =
     forward_external r packet (h_id packet) (h_key_id packet) (h_relay_reply_id packet) packet"

definition on_reply_pingpong :: "relay \<Rightarrow> anonymous_packet \<Rightarrow> relay option" where
  "on_reply_pingpong r packet =
     forward_external r packet (h_id packet) (h_key_id packet) (h_relay_reply_id packet) packet"

text \<open>
  The dead drop. The first packet of a session and sequence number is kept; the second one takes
  it out and both are answered, each sender with the payload of the other.
\<close>

definition on_deaddrop :: "relay \<Rightarrow> anonymous_packet \<Rightarrow> relay option" where
  "on_deaddrop r packet =
     (let msg = (h_session_id packet, h_index packet); dest_id = h_key_id packet;
          client_key = h_relay_reply_id packet; n = r_node r
      in if h_is_dest packet
         then (case n_recv_list_deaddrop n msg of
             Some pre_packet \<Rightarrow> do {
               let r1 = r\<lparr>r_node := n\<lparr>n_recv_list_deaddrop := (n_recv_list_deaddrop n)(msg := None)\<rparr>\<rparr>;
               let pre_client_key = h_relay_reply_id pre_packet;
               r2 \<leftarrow> forward_external r1 packet external_reply_deaddrop_messaging client_key dest_id
                       pre_packet;
               forward_external r2 packet external_reply_deaddrop_messaging pre_client_key dest_id
                 packet }
           | None \<Rightarrow>
               Some (r\<lparr>r_node := n\<lparr>n_recv_list_deaddrop :=
                 (n_recv_list_deaddrop n)(msg \<mapsto> packet)\<rparr>\<rparr>))
         else forward_external r packet (h_id packet) dest_id client_key packet)"

definition on_reply_deaddrop :: "relay \<Rightarrow> anonymous_packet \<Rightarrow> relay option" where
  "on_reply_deaddrop r packet =
     (if h_is_dest packet
      then Some (r\<lparr>r_node := (r_node r)\<lparr>n_recv_list_user :=
             cbq_push (n_recv_list_user (r_node r)) packet\<rparr>\<rparr>)
      else forward_external r packet (h_id packet) (h_key_id packet) (h_relay_reply_id packet) packet)"

subsection \<open>Dispatch\<close>

definition DAE_process_internal_message :: "relay \<Rightarrow> u64 \<Rightarrow> anonymous_packet \<Rightarrow> relay option" where
  "DAE_process_internal_message r i packet =
     (if i = internal_join_find_successor then on_join_find_successor r packet
      else if i = internal_reply_find_successor then on_reply_find_successor r packet
      else if i = internal_find_predecessor then on_find_predecessor r packet
      else if i = internal_reply_get_predecessor then on_reply_get_predecessor r packet
      else if i = internal_notify_predecessor_join then on_notify_predecessor_join r packet
      else if i = internal_fetch_successor_list then on_fetch_successor_list r packet
      else if i = internal_reply_successor_list then on_reply_successor_list r packet
      else if i = internal_check_predecessor_existence then on_check_predecessor_existence r packet
      else if i = internal_reply_predecessor_existence then on_reply_predecessor_existence r packet
      else if i = internal_check_successor_existence then on_check_successor_existence r packet
      else if i = internal_reply_successor_existence then on_reply_successor_existence r packet
      else if i = external_pingpong_service then on_pingpong r packet
      else if i = external_reply_pingpong_service then on_reply_pingpong r packet
      else if i = external_deaddrop_messaging then on_deaddrop r packet
      else if i = external_reply_deaddrop_messaging then on_reply_deaddrop r packet
      else Some r)"

text \<open>The identifiers the receiving thread passes on for internal and for external messages; any
  other one is only logged.\<close>

definition internal_cases :: "u64 list" where
  "internal_cases = [internal_join_find_successor, internal_reply_find_successor,
     internal_find_predecessor, internal_reply_get_predecessor, internal_notify_predecessor_join,
     internal_fetch_successor_list, internal_reply_successor_list,
     internal_check_predecessor_existence, internal_reply_predecessor_existence,
     internal_check_successor_existence, internal_reply_successor_existence, dummy_message]"

definition external_cases :: "u64 list" where
  "external_cases = [external_pingpong_service, external_reply_pingpong_service,
     external_deaddrop_messaging, external_reply_deaddrop_messaging]"

definition dispatch :: "relay \<Rightarrow> anonymous_packet \<Rightarrow> relay option" where
  "dispatch r packet =
     (if h_id packet \<in> set (if is_internal_msg packet then internal_cases else external_cases)
      then DAE_process_internal_message r (h_id packet) packet
      else Some r)"

text \<open>One round of the receiving thread: a fresh packet, filled by \<open>recvfrom\<close> from a datagram of
  the network.\<close>

definition receive :: "relay \<Rightarrow> anonymous_packet \<Rightarrow> relay option" where
  "receive r d = do {
     let (mem, r1) = new_mem r;
     dispatch r1 (recvfrom_into (AnonymousPacket0 mem) d) }"

subsection \<open>Every correct datagram is handled safely\<close>

lemma step_ok_ring:
  assumes "wf_relay r" and "list_all (action_ok (n_m (r_node r))) as"
  shows "returns (perform_actions None r as) (step_ok r)"
  using perform_ring_actions_ok [OF assms] by (rule returns_mono) (rule sent_step_ok)

lemma on_join_find_successor_ok:
  assumes wf: "wf_relay r" and p: "wf_packet p" and ix: "0 \<le> h_index p" "h_index p < int (n_m (r_node r))"
  shows "returns (on_join_find_successor r p) (step_ok r)"
proof -
  from wf p have n: "wf_node (r_node r)" and ip: "ip_ok (h_relay_reply_ip p)"
    by (auto simp: wf_relay_def wf_packet_def)
  show ?thesis
    unfolding on_join_find_successor_def
    by (rule returns_bind [OF handle_find_successor_ok [OF n ip ix]])
      (auto intro: step_ok_ring [OF wf])
qed

lemma on_reply_find_successor_eq:
  "on_reply_find_successor r p =
     map_option (\<lambda>n. r\<lparr>r_node := n\<rparr>)
       (update_finger (r_node r) (h_index p) (h_key_id p) (h_key_ip p) (h_key_port p))"
  by (cases "updatesuccessor (r_node r) (h_index p) (h_key_id p)")
    (auto simp: on_reply_find_successor_def update_finger_def map_conv_bind_option comp_def)

lemma on_reply_find_successor_ok:
  assumes wf: "wf_relay r" and p: "wf_packet p" and ix: "0 \<le> h_index p" "h_index p < int (n_m (r_node r))"
  shows "returns (on_reply_find_successor r p) (step_ok r)"
proof -
  from wf p have n: "wf_node (r_node r)" and ip: "ip_ok (h_key_ip p)"
    by (auto simp: wf_relay_def wf_packet_def)
  from update_finger_ok [OF n ix ip, of "h_key_id p" "h_key_port p"] step_ok_node [OF wf] show ?thesis
    unfolding on_reply_find_successor_eq by (auto simp: returns_def)
qed

lemma on_reply_get_predecessor_ok:
  assumes wf: "wf_relay r" and p: "wf_packet p"
  shows "returns (on_reply_get_predecessor r p) (step_ok r)"
proof -
  let ?n = "(r_node r)\<lparr>n_pos := h_key_id p, n_pos_ip := h_key_ip p, n_pos_port := h_key_port p\<rparr>"
  from p have ip: "ip_ok (h_key_ip p)" by (simp add: wf_packet_def)
  from wf ip have "wf_node ?n" "same_self (r_node r) ?n"
    by (simp_all add: wf_relay_def wf_node_def same_self_def)
  from step_ok_node [OF wf this] ip show ?thesis
    by (simp add: on_reply_get_predecessor_def set_predecessor_of_successor_def
        set_predecessor_of_successor_ip_def set_predecessor_of_successor_port_def)
qed

lemma on_notify_ok:
  assumes wf: "wf_relay r" and p: "wf_packet p"
  shows "returns (on_notify_predecessor_join r p) (step_ok r)"
proof -
  from wf p have n: "wf_node (r_node r)" and ip: "ip_ok (h_relay_ip p)"
    by (auto simp: wf_relay_def wf_packet_def)
  show ?thesis
    unfolding on_notify_predecessor_join_def
    by (rule returns_bind [OF notify_ok [OF n ip]]) (simp add: step_ok_node [OF wf])
qed

lemma on_fetch_ok:
  assumes wf: "wf_relay r" and p: "wf_packet p" and ix: "0 \<le> h_index p" "h_index p \<le> 5"
  shows "returns (on_fetch_successor_list r p) (step_ok r)"
proof -
  from wf p have n: "wf_node (r_node r)" and ip: "ip_ok (h_relay_reply_ip p)"
    by (auto simp: wf_relay_def wf_packet_def)
  show ?thesis
    unfolding on_fetch_successor_list_def
    by (rule returns_bind [OF handle_fetch_successor_list_ok [OF n ip ix]]) (rule step_ok_ring [OF wf])
qed

lemma list_all_trim: "list_all P xs \<Longrightarrow> list_all P (trim_successor_list b xs)"
  by (induction xs) auto

lemma on_reply_list_ok:
  assumes wf: "wf_relay r" and p: "wf_packet p" and ix: "0 \<le> h_index p" "h_index p \<le> 5"
  shows "returns (on_reply_successor_list r p) (step_ok r)"
proof (cases "h_key_id p = n_id (r_node r)")
  case False
  define l where "l = trim_successor_list (word_of_int (6 - h_index p)) (n_successor_list (r_node r) @
    [\<lparr>pp_ip = h_key_ip p, pp_port = h_key_port p, pp_relay_id = h_key_id p, pp_check_usage = True\<rparr>])"
  let ?n = "(r_node r)\<lparr>n_successor_list := l\<rparr>"
  from wf p have "list_all (\<lambda>p. ip_ok (pp_ip p)) l"
    unfolding l_def by (intro list_all_trim) (simp add: wf_relay_def wf_node_def wf_packet_def)
  with wf have "wf_node ?n" "same_self (r_node r) ?n"
    by (simp_all add: wf_relay_def wf_node_def same_self_def)
  from step_ok_node [OF wf this] False ix show ?thesis
    by (simp add: on_reply_successor_list_def add_to_successor_list_def c_int_def l_def)
qed (simp add: on_reply_successor_list_def step_ok_refl [OF wf])

lemma forward_external_ok:
  assumes wf: "wf_relay r" and b: "wf_packet body" and ty: "external_id ty" and rm: "room 1 r"
  shows "returns (forward_external r p ty d ck body) (sent_ok 1 r)"
proof -
  from wf b have n: "wf_node (r_node r)" and sz: "0 \<le> payload_size body"
    "payload_size body \<le> int body_cap" "payload_size body \<le> int (length (payload body))"
    by (auto simp: wf_relay_def wf_packet_def wf_mem_def payload_size_def payload_def)
  show ?thesis
    unfolding forward_external_def
  proof (rule returns_bind [OF handle_external_messaging_ok [OF n ty sz]], elim exE conjE)
    fix as a assume as: "as = [a]" and a: "ext_action_ok a"
    from perform_actions_ok [OF wf, of "[a]" None] a ext_is_external [OF a] rm
    show "returns (perform_actions None r as) (sent_ok 1 r)" unfolding as by simp
  qed
qed

lemma forward_step_ok:
  assumes "wf_relay r" and "wf_packet body" and "external_id ty" and "room 1 r"
  shows "returns (forward_external r p ty d ck body) (step_ok r)"
  using forward_external_ok [OF assms] by (rule returns_mono) (rule sent_step_ok)

lemma external_reply_id [simp]: "external_id external_reply_deaddrop_messaging"
  by (simp add: external_id_def)

lemma on_deaddrop_ok:
  assumes wf: "wf_relay r" and p: "wf_packet p" "h_id p = external_deaddrop_messaging" and rm: "room 2 r"
  shows "returns (on_deaddrop r p) (step_ok r)"
proof -
  let ?n = "r_node r" and ?msg = "(h_session_id p, h_index p)"
  from rm have rm1: "room 1 r" using room_mono [of 1 r] by (simp add: numeral_2_eq_2)
  from wf have n: "wf_node ?n" by (simp add: wf_relay_def)
  have ty: "external_id (h_id p)" using p(2) by (simp add: external_id_def)
  show ?thesis
  proof (cases "h_is_dest p")
    case False
    with forward_step_ok [OF wf p(1) ty rm1] show ?thesis by (simp add: on_deaddrop_def Let_def)
  next
    case dest: True
    show ?thesis
    proof (cases "n_recv_list_deaddrop ?n ?msg")
      case None
      let ?n' = "?n\<lparr>n_recv_list_deaddrop := (n_recv_list_deaddrop ?n)(?msg \<mapsto> p)\<rparr>"
      from n p have "wf_node ?n'" "same_self ?n ?n'" by (auto simp: wf_node_def same_self_def)
      from step_ok_node [OF wf this] dest None show ?thesis by (simp add: on_deaddrop_def Let_def)
    next
      case (Some pre)
      let ?n' = "?n\<lparr>n_recv_list_deaddrop := (n_recv_list_deaddrop ?n)(?msg := None)\<rparr>"
      from n Some have pre: "wf_packet pre" by (simp add: wf_node_def)
      from n have n': "wf_node ?n'" "same_self ?n ?n'" by (auto simp: wf_node_def same_self_def)
      let ?r1 = "r\<lparr>r_node := ?n'\<rparr>"
      note s1 = step_ok_node [OF wf n'] and wf1 = wf_relay_node [OF wf n']
      from rm rm1 have rm2: "room 2 ?r1" "room 1 ?r1" by (simp_all add: room_def)
      have "returns (do {
          r2 \<leftarrow> forward_external ?r1 p external_reply_deaddrop_messaging (h_relay_reply_id p)
            (h_key_id p) pre;
          forward_external r2 p external_reply_deaddrop_messaging (h_relay_reply_id pre)
            (h_key_id p) p }) (step_ok r)"
      proof (rule returns_bind [OF forward_external_ok [OF wf1 pre external_reply_id rm2(2)]])
        fix r2 assume s: "sent_ok 1 ?r1 r2"
        with rm2 have "room 1 r2" using sent_okD(4) [OF s, of 1] by (simp add: numeral_2_eq_2)
        from forward_step_ok [OF sent_okD(1) [OF s] p(1) external_reply_id this]
        show "returns (forward_external r2 p external_reply_deaddrop_messaging (h_relay_reply_id pre)
            (h_key_id p) p) (step_ok r)"
          by (rule returns_mono) (rule step_ok_trans [OF step_ok_trans [OF s1 sent_step_ok [OF s]]])
      qed
      with dest Some show ?thesis by (simp add: on_deaddrop_def Let_def)
    qed
  qed
qed

lemma on_reply_deaddrop_ok:
  assumes wf: "wf_relay r" and p: "wf_packet p" "external_id (h_id p)" and rm: "room 1 r"
  shows "returns (on_reply_deaddrop r p) (step_ok r)"
proof (cases "h_is_dest p")
  case True
  let ?n = "(r_node r)\<lparr>n_recv_list_user := cbq_push (n_recv_list_user (r_node r)) p\<rparr>"
  from wf p have "wf_node ?n" "same_self (r_node r) ?n"
    by (auto simp: wf_relay_def wf_node_def same_self_def cbq_push_def)
  from step_ok_node [OF wf this] True show ?thesis by (simp add: on_reply_deaddrop_def)
next
  case False
  with forward_step_ok [OF wf p rm] show ?thesis by (simp add: on_reply_deaddrop_def)
qed

lemma on_status_ok:
  assumes wf: "wf_relay r"
  shows "returns (on_reply_predecessor_existence r p) (step_ok r)"
    and "returns (on_reply_successor_existence r p) (step_ok r)"
proof -
  let ?a = "reverse_predecessor_status (r_node r)" and ?b = "reverse_successor_status (r_node r)"
  from wf have "wf_node ?a" "same_self (r_node r) ?a" and b: "wf_node ?b" "same_self (r_node r) ?b"
    and n: "wf_node (r_node r)"
    by (auto simp: wf_relay_def wf_node_def same_self_def reverse_predecessor_status_def
        reverse_successor_status_def)
  from step_ok_node [OF wf this(1,2)] step_ok_refl [OF wf]
  show "returns (on_reply_predecessor_existence r p) (step_ok r)"
    by (simp add: on_reply_predecessor_existence_def)
  obtain f0 where "finger (r_node r) 0 = Some f0" using n by (rule finger_0)
  with step_ok_node [OF wf b] step_ok_refl [OF wf]
  show "returns (on_reply_successor_existence r p) (step_ok r)"
    by (simp add: on_reply_successor_existence_def successor_def)
qed

lemma on_query_ok:
  assumes wf: "wf_relay r" and p: "wf_packet p"
  shows "returns (on_find_predecessor r p) (step_ok r)"
    and "returns (on_check_predecessor_existence r p) (step_ok r)"
    and "returns (on_check_successor_existence r p) (step_ok r)"
proof -
  from wf p have ips: "ip_ok (h_relay_reply_ip p)" "ip_ok (n_predecessor_ip (r_node r))"
    by (auto simp: wf_relay_def wf_node_def wf_packet_def)
  show "returns (on_find_predecessor r p) (step_ok r)"
    and "returns (on_check_predecessor_existence r p) (step_ok r)"
    and "returns (on_check_successor_existence r p) (step_ok r)"
    unfolding on_find_predecessor_def on_check_predecessor_existence_def
      on_check_successor_existence_def handle_get_predecessor_def
      handle_check_predecessor_failure_def handle_check_successor_failure_def
    by (rule step_ok_ring [OF wf], simp add: ips)+
qed

text \<open>Dispatching a correct packet.\<close>

lemma process_ok:
  assumes wf: "wf_relay r" and p: "wf_packet p" and ix: "index_ok (n_m (r_node r)) p" and rm: "room 2 r"
  shows "returns (DAE_process_internal_message r (h_id p) p) (step_ok r)"
proof -
  have rm1: "room 1 r" using rm room_mono [of 1 r] by (simp add: numeral_2_eq_2)
  have ext: "returns (on_pingpong r p) (step_ok r)" "returns (on_reply_pingpong r p) (step_ok r)"
    if "external_id (h_id p)"
    using forward_step_ok [OF wf p that rm1] by (simp_all add: on_pingpong_def on_reply_pingpong_def)
  show ?thesis
    unfolding DAE_process_internal_message_def
    using ix on_join_find_successor_ok [OF wf p] on_reply_find_successor_ok [OF wf p]
      on_query_ok [OF wf p] on_reply_get_predecessor_ok [OF wf p] on_notify_ok [OF wf p]
      on_fetch_ok [OF wf p] on_reply_list_ok [OF wf p] on_status_ok [OF wf] ext
      on_deaddrop_ok [OF wf p _ rm] on_reply_deaddrop_ok [OF wf p _ rm1] step_ok_refl [OF wf]
    by (simp add: index_ok_def external_id_def split: if_split)
qed

lemma receive_ok:
  assumes wf: "wf_relay r" and w: "wire_packet p" and ix: "index_ok (n_m (r_node r)) p" and rm: "room 2 r"
  shows "returns (receive r p) (step_ok r)"
proof -
  obtain mem r1 where nm: "new_mem r = (mem, r1)" by (cases "new_mem r")
  from wf_relay_new_mem [OF wf] nm have r1: "sent_ok 0 r r1" and mem: "wf_mem mem" by auto
  let ?q = "recvfrom_into (AnonymousPacket0 mem) p"
  have id: "h_id ?q = h_id p" and ix': "h_index ?q = h_index p" by (simp_all add: recvfrom_into_def)
  have "returns (dispatch r1 ?q) (step_ok r1)"
  proof (cases "h_id p = dummy_message")
    case True
    with step_ok_refl [OF sent_okD(1) [OF r1]] show ?thesis
      by (simp add: dispatch_def id DAE_process_internal_message_def message_defs)
  next
    case False
    have "wf_mem (AnonymousPacket0 mem)"
      using mem by (simp add: wf_mem_def AnonymousPacket0_def AnonymousPacket3_def)
    from recv_wire_packet [OF w this False] have "wf_packet ?q" .
    moreover have "index_ok (n_m (r_node r1)) ?q"
      using ix sent_okD(3) [OF r1] by (simp add: index_ok_def id ix')
    moreover have "room 2 r1" using sent_okD(4) [OF r1, of 2] rm by (simp only: add_0)
    ultimately show ?thesis
      using process_ok [OF sent_okD(1) [OF r1]] step_ok_refl [OF sent_okD(1) [OF r1]]
      by (simp add: dispatch_def)
  qed
  then have "returns (dispatch r1 ?q) (step_ok r)"
    by (rule returns_mono) (rule step_ok_trans [OF sent_step_ok [OF r1]])
  then show ?thesis by (simp add: receive_def nm)
qed

end
