(* ===== verification/Addresses.thy ===== *)
theory Addresses
  imports Dispatch
begin

text \<open>
  Consistency of addresses: whatever a node stores about another node, an identifier together with an
  IP address and a port, is the identifier and the address of one and the same participant. \<open>M\<close> is
  the set of participants. The lemmas follow the theories on the node, the service and the
  dispatcher, operation by operation.
\<close>

type_synonym participants = "(ring_id \<times> ip_addr \<times> int) set"

subsection \<open>Nodes, calls and packets that name participants only\<close>

definition node_at :: "participants \<Rightarrow> dae_node \<Rightarrow> bool" where
  "node_at M n \<longleftrightarrow> (n_id n, n_ip n, n_port n) \<in> M \<and>
     (\<forall>f \<in> set (n_finger_table n). (fg_successor f, fg_ip f, fg_port f) \<in> M) \<and>
     (n_predecessor n = - 1 \<or> (n_predecessor n, n_predecessor_ip n, n_predecessor_port n) \<in> M) \<and>
     (n_pos n = - 1 \<or> (n_pos n, n_pos_ip n, n_pos_port n) \<in> M) \<and>
     (\<forall>p \<in> set (n_successor_list n). (pp_relay_id p, pp_ip p, pp_port p) \<in> M)"

fun call_at :: "participants \<Rightarrow> dae_node \<Rightarrow> proto_call \<Rightarrow> bool" where
  "call_at M n (ReplyFindSuccessor ip p d ix su kip kp) \<longleftrightarrow> (su, kip, kp) \<in> M"
| "call_at M n (ReplyGetPredecessor ip p pr prip prp) \<longleftrightarrow> pr = - 1 \<or> (pr, prip, prp) \<in> M"
| "call_at M n (NotifyPredecessorJoin ip su p i) \<longleftrightarrow> i = n_id n"
| "call_at M n (ReplyBackupSuccessor c ip p su suip suport) \<longleftrightarrow> (su, suip, suport) \<in> M"
| "call_at M n c = True"

fun action_at :: "participants \<Rightarrow> dae_node \<Rightarrow> action \<Rightarrow> bool" where
  "action_at M n (Call c) = call_at M n c"
| "action_at M n a = True"

definition packet_at :: "participants \<Rightarrow> anonymous_packet \<Rightarrow> bool" where
  "packet_at M p \<longleftrightarrow>
     (h_id p = internal_reply_find_successor \<or> h_id p = internal_reply_successor_list \<longrightarrow>
        (h_key_id p, h_key_ip p, h_key_port p) \<in> M) \<and>
     (h_id p = internal_reply_get_predecessor \<longrightarrow>
        h_key_id p = - 1 \<or> (h_key_id p, h_key_ip p, h_key_port p) \<in> M) \<and>
     (h_id p = internal_notify_predecessor_join \<longrightarrow> (h_key_id p, h_relay_ip p, h_key_port p) \<in> M)"

definition op_at :: "participants \<Rightarrow> dae_node \<Rightarrow> (dae_node \<times> action list) option \<Rightarrow> bool" where
  "op_at M n r \<longleftrightarrow> (\<forall>n' as. r = Some (n', as) \<longrightarrow>
     node_at M n' \<and> same_self n n' \<and> list_all (action_at M n) as)"

subsection \<open>Node operations\<close>

lemma op_atI: "node_at M n' \<Longrightarrow> same_self n n' \<Longrightarrow> list_all (action_at M n) as \<Longrightarrow> op_at M n (Some (n', as))"
  by (simp add: op_at_def)

lemma op_at_None [simp]: "op_at M n None"
  by (simp add: op_at_def)

lemma call_at_same: "same_self n n' \<Longrightarrow> call_at M n' c = call_at M n c"
  by (cases c) (simp_all add: same_self_def)

lemma action_at_same: "same_self n n' \<Longrightarrow> action_at M n' a = action_at M n a"
  by (cases a) (simp_all add: call_at_same)

lemma op_at_bind:
  assumes "op_at M n r"
    and "\<And>n' as. r = Some (n', as) \<Longrightarrow> node_at M n' \<Longrightarrow> same_self n n' \<Longrightarrow> list_all (action_at M n) as \<Longrightarrow>
      op_at M n (f (n', as))"
  shows "op_at M n (Option.bind r f)"
  using assms by (cases r) (auto simp: op_at_def)

lemma op_at_same: "same_self n n' \<Longrightarrow> op_at M n' r \<Longrightarrow> op_at M n r"
  by (auto simp: op_at_def list_all_iff action_at_same dest: same_self_trans)

lemma finger_at: "node_at M n \<Longrightarrow> finger n k = Some f \<Longrightarrow> (fg_successor f, fg_ip f, fg_port f) \<in> M"
  by (auto simp: node_at_def finger_def arr_get_eq_Some)

lemma update_finger_at:
  assumes "node_at M n" and "update_finger n k su ip port = Some n'" and "(su, ip, port) \<in> M"
  shows "node_at M n' \<and> same_self n n'"
proof -
  from assms(2) have k: "0 \<le> k" "k < int (length (n_finger_table n))"
    by (auto simp: update_finger_def updatesuccessor_def arr_get_eq_Some elim!: bind_SomeE)
  with assms(2) have n': "n' = n\<lparr>n_finger_table := (n_finger_table n)[nat k :=
      (n_finger_table n ! nat k)\<lparr>fg_successor := su, fg_ip := ip, fg_port := port\<rparr>]\<rparr>"
    by (auto simp: update_finger_eq split: if_splits)
  with assms(1,3) show ?thesis
    by (auto simp: node_at_def same_self_def dest!: set_update_subset_insert [THEN subsetD])
qed

lemma stabilize_at:
  assumes "wf_node n" and "node_at M n"
  shows "op_at M n (stabilize n)"
proof -
  obtain f0 where f0: "finger n 0 = Some f0" using assms(1) by (rule finger_0)
  let ?c = "is_in_range (n_m n) (n_id n) (fg_successor f0) (n_pos n)"
  have "node_at M n1 \<and> same_self n n1"
    if "(if ?c then update_finger n 0 (n_pos n) (n_pos_ip n) (n_pos_port n) else Some n) = Some n1" for n1
  proof (cases ?c)
    case True
    with assms(1) have "n_pos n \<noteq> - 1"
      using own_pos_unset [of "n_m n" "n_id n"] by (auto simp: wf_node_def)
    with assms(2) have "(n_pos n, n_pos_ip n, n_pos_port n) \<in> M" by (simp add: node_at_def)
    with True that update_finger_at [OF assms(2)] show ?thesis by simp
  qed (use that assms(2) in simp)
  note upd = this
  show ?thesis
    unfolding op_at_def
  proof (intro allI impI)
    fix n' as assume "stabilize n = Some (n', as)"
    then obtain g0 :: chord_finger where
      "(if ?c then update_finger n 0 (n_pos n) (n_pos_ip n) (n_pos_port n) else Some n) = Some n'"
      and as: "as = Call (FindPredecessor (fg_ip f0) (fg_port f0) (n_id n) (n_ip n) (n_port n)
          (fg_successor f0)) # (if fg_successor g0 \<noteq> n_id n'
        then [Call (NotifyPredecessorJoin (fg_ip g0) (fg_successor g0) (fg_port g0) (n_id n'))] else [])"
      unfolding stabilize_def f0 Let_def bind.simps by (elim bind_SomeE) blast
    from upd [OF this(1)] show "node_at M n' \<and> same_self n n' \<and> list_all (action_at M n) as"
      by (simp add: as same_self_def)
  qed
qed

lemma notify_at:
  assumes "node_at M n" and "notify n i ip port = Some n'" and "(i, ip, port) \<in> M"
  shows "node_at M n' \<and> same_self n n'"
  using assms
  by (auto simp: notify_def setpredecessor_def setpredecessor_ip_def setpredecessor_port_def
      bind_strncpy node_at_def same_self_def split: if_splits)

lemma handle_find_successor_at:
  assumes "node_at M n" and "handle_find_successor n src p ix d b = Some (b', as)"
  shows "list_all (action_at M n) as"
  using assms finger_at [OF assms(1)]
  by (auto simp: handle_find_successor_def split: if_splits elim!: bind_SomeE)
    (simp add: node_at_def)

lemma fix_finger_at:
  assumes "node_at M n"
  shows "op_at M n (fix_finger n i)"
  unfolding fix_finger_def op_at_def find_successor_def
  using assms finger_at [OF assms] update_finger_at [OF assms] handle_find_successor_at [OF assms]
  by (auto split: if_splits elim!: bind_SomeE)

lemma fix_finger_loop_at: "node_at M n \<Longrightarrow> op_at M n (fix_finger_loop n is)"
proof (induction "is" arbitrary: n)
  case (Cons i "is")
  show ?case
    unfolding fix_finger_loop.simps
  proof (rule op_at_bind [OF fix_finger_at [OF Cons.prems]], unfold prod.case)
    fix n' as assume n': "node_at M n'" "same_self n n'" "list_all (action_at M n) as"
    from op_at_same [OF n'(2) Cons.IH [OF n'(1)]] n'(3)
    show "op_at M n (do { (n'', b) \<leftarrow> fix_finger_loop n' is; Some (n'', as @ b) })"
      by (auto intro!: op_at_bind op_atI)
  qed
qed (simp add: op_atI)

lemma fix_fingers_at:
  assumes "node_at M n"
  shows "op_at M n (fix_fingers n)"
  unfolding op_at_def
proof (intro allI impI)
  fix n' as assume "fix_fingers n = Some (n', as)"
  then obtain f0 :: chord_finger and b a c where find: "handle_find_successor n (n_ip n) (n_port n) 0 (fg_start f0) False = Some (b, a)"
    and loop: "fix_finger_loop n [0..<n_m n - 1] = Some (n', c)" and as: "as = a @ c"
    by (auto simp: fix_fingers_def find_successor_def elim!: bind_SomeE)
  from handle_find_successor_at [OF assms find] fix_finger_loop_at [OF assms, of "[0..<n_m n - 1]"] loop
  show "node_at M n' \<and> same_self n n' \<and> list_all (action_at M n) as"
    by (auto simp: as op_at_def)
qed

lemma check_failure_at:
  assumes "node_at M n"
  shows "op_at M n (check_predecessor_failure n)" and "op_at M n (check_successor_failure n)"
proof -
  have probe: "list_all (action_at M n) as" if "probe_times is t = Some as" for "is" t as
    using that by (induction "is" arbitrary: as) (auto elim!: bind_SomeE)
  with assms show "op_at M n (check_predecessor_failure n)" "op_at M n (check_successor_failure n)"
    by (auto simp: check_predecessor_failure_def check_successor_failure_def op_at_def node_at_def
        same_self_def split: if_splits elim!: bind_SomeE)
qed

lemma judge_successor_at:
  assumes "node_at M n"
  shows "op_at M n (judge_successor_task n)"
proof -
  have upd: "op_at M n (do { n2 \<leftarrow> update_finger (n\<lparr>n_successor_list := l\<rparr>) 0 (pp_relay_id s) (pp_ip s)
      (pp_port s); Some (n2\<lparr>n_successor_onchecking := False\<rparr>, []) })"
    if l: "set l \<subseteq> set (n_successor_list n)" and s: "s \<in> set l" for l and s :: peer_pair
    unfolding op_at_def
  proof (intro allI impI)
    fix n' and as :: "action list"
    assume "do { n2 \<leftarrow> update_finger (n\<lparr>n_successor_list := l\<rparr>) 0 (pp_relay_id s) (pp_ip s)
      (pp_port s); Some (n2\<lparr>n_successor_onchecking := False\<rparr>, []) } = Some (n', as)"
    then obtain n2 where n2: "update_finger (n\<lparr>n_successor_list := l\<rparr>) 0 (pp_relay_id s) (pp_ip s)
        (pp_port s) = Some n2" and n': "n' = n2\<lparr>n_successor_onchecking := False\<rparr>" "as = []"
      by (auto elim!: bind_SomeE)
    from assms l have "node_at M (n\<lparr>n_successor_list := l\<rparr>)" by (auto simp: node_at_def)
    from update_finger_at [OF this n2] assms l s
    have "node_at M n2 \<and> same_self (n\<lparr>n_successor_list := l\<rparr>) n2" by (auto simp: node_at_def)
    then show "node_at M n' \<and> same_self n n' \<and> list_all (action_at M n) as"
      by (auto simp: n' node_at_def same_self_def)
  qed
  have clear: "op_at M n (Some (n\<lparr>n_successor_onchecking := False\<rparr>, []))"
      "op_at M n (Some (n\<lparr>n_successor_list := [], n_successor_onchecking := False\<rparr>, []))"
    using assms by (auto simp: node_at_def same_self_def op_at_def)
  show ?thesis
  proof (cases "n_successor_list n")
    case (Cons head rest)
    with clear upd [of rest] upd [of "head # rest"] show ?thesis
      by (cases "finger n 0"; cases rest) (auto simp: judge_successor_task_def Let_def)
  qed (use clear in \<open>simp add: judge_successor_task_def\<close>)
qed

lemma fetch_successor_list_at:
  "fetch_successor_list n' = Some as \<Longrightarrow> list_all (action_at M n) as"
  by (auto simp: fetch_successor_list_def elim!: bind_SomeE)

lemma stabilize_fix_at:
  assumes "wf_node n" and "node_at M n" and "same_self n0 n"
    and "\<And>n2 b c. node_at M n2 \<Longrightarrow> same_self n0 n2 \<Longrightarrow> list_all (action_at M n0) b \<Longrightarrow>
      list_all (action_at M n0) c \<Longrightarrow> op_at M n0 (f b (n2, c))"
  shows "op_at M n0 (do { (n1, b) \<leftarrow> stabilize n; r \<leftarrow> fix_fingers n1; f b r })"
proof (rule op_at_bind [OF op_at_same [OF assms(3) stabilize_at [OF assms(1,2)]]], unfold prod.case)
  fix n1 b assume n1: "node_at M n1" "same_self n0 n1" "list_all (action_at M n0) b"
  show "op_at M n0 (Option.bind (fix_fingers n1) (f b))"
    by (rule op_at_bind [OF op_at_same [OF n1(2) fix_fingers_at [OF n1(1)]]])
      (use assms(4) n1(3) in blast)
qed

lemma join_at:
  assumes "wf_node n" and "node_at M n" and "ip_ok (pp_ip j)"
  shows "op_at M n (join n j)"
proof -
  let ?n0 = "n\<lparr>n_joiner := j\<rparr>"
  from assms have n0: "wf_node ?n0" "node_at M ?n0" "same_self n ?n0"
    by (auto simp: wf_node_def node_at_def same_self_def)
  show ?thesis
    unfolding join_def Let_def
    by (rule stabilize_fix_at [OF n0], unfold prod.case)
      (auto simp: op_at_def join_with_help_def dest: fetch_successor_list_at
        split: if_splits elim!: bind_SomeE)
qed

lemma maintain_task_at:
  assumes "wf_node n" and "node_at M n"
  shows "op_at M n (maintain_task secs n)"
proof -
  let ?n0 = "if n_is_bootstrap n \<and> secs > n_bootstrap_time n then n\<lparr>n_is_bootstrap := False\<rparr> else n"
  from assms have n0: "wf_node ?n0" "node_at M ?n0" "same_self n ?n0"
    by (auto simp: wf_node_def node_at_def same_self_def)
  have guarded: "op_at M n (if c then r else Some (n2, []))"
    if "node_at M n2" "same_self n n2" "op_at M n2 r" for c r n2
    using that by (auto intro: op_atI op_at_same)
  have interval: "list_all (action_at M n) (if b then [SetInterval tv] else [])" for b tv by simp
  show ?thesis
    unfolding maintain_task_def Let_def
    by (rule stabilize_fix_at [OF n0], unfold prod.case)
      (auto intro!: op_at_bind guarded interval check_failure_at op_atI
        simp del: if_split_asm split del: if_split split: prod.splits)
qed

lemma run_timer_at:
  assumes "wf_node n" and "node_at M n"
  shows "op_at M n (run_timer t secs n)"
proof -
  have keep: "op_at M n (Some (n, as))" if "list_all (action_at M n) as" for as
    using assms(2) that by (simp add: op_at_def)
  show ?thesis
  proof (cases t)
    case JoinRetry
    then show ?thesis
      by (cases "finger n 0") (auto simp: join_retry_task_def join_with_help_def intro: keep)
  next
    case FetchList
    then show ?thesis
      by (cases "fetch_successor_list n") (auto simp: fetch_list_task_def intro: keep fetch_successor_list_at)
  next
    case ProbeSuccessor
    then show ?thesis by (cases "finger n 0") (auto simp: probe_successor_task_def intro: keep)
  next
    case JudgePredecessor
    with assms(2) show ?thesis by (auto simp: judge_predecessor_task_def op_at_def node_at_def same_self_def)
  qed (use assms in \<open>auto simp: maintain_task_at judge_successor_at probe_predecessor_task_def intro: keep\<close>)
qed

subsection \<open>Calls and steps of a relay\<close>

definition wire_at :: "participants \<Rightarrow> relay \<Rightarrow> relay \<Rightarrow> bool" where
  "wire_at M r r' \<longleftrightarrow> (\<exists>ds. r_wire r' = r_wire r @ ds \<and> (\<forall>d \<in> set ds. packet_at M (dg_packet d)))"

definition step_at :: "participants \<Rightarrow> relay \<Rightarrow> relay \<Rightarrow> bool" where
  "step_at M r r' \<longleftrightarrow> node_at M (r_node r') \<and> wire_at M r r'"

lemma wire_at_refl [simp]: "wire_at M r r"
  by (simp add: wire_at_def)

lemma wire_at_same: "r_wire r' = r_wire r \<Longrightarrow> wire_at M r r'"
  by (simp add: wire_at_def)

lemma wire_at_trans:
  assumes "wire_at M a b" and "wire_at M b c"
  shows "wire_at M a c"
proof -
  from assms obtain ds es where "r_wire b = r_wire a @ ds" "\<forall>d \<in> set ds. packet_at M (dg_packet d)"
    "r_wire c = r_wire b @ es" "\<forall>d \<in> set es. packet_at M (dg_packet d)"
    unfolding wire_at_def by blast
  then show ?thesis unfolding wire_at_def by (intro exI [of _ "ds @ es"]) auto
qed

lemma node_at_no_cnt: "no_cnt a = no_cnt b \<Longrightarrow> node_at M a = node_at M b"
  using no_cnt_eqD [of a b] unfolding node_at_def by presburger

lemma packet_at_external: "external_id (h_id p) \<or> h_id p = dummy_message \<Longrightarrow> packet_at M p"
  by (auto simp: packet_at_def external_id_def message_defs)

lemma DAE_direct_send_at:
  "DAE_direct_send r p a b = Some r' \<Longrightarrow> packet_at M p \<Longrightarrow> wire_at M r r'"
  by (drule DAE_direct_send_wire) (auto simp: wire_at_def packet_at_def on_wire_def)

lemma ring_send_at:
  assumes "do {
     let (mem, r1) = new_mem r;
     packet \<leftarrow> AnonymousPacket14 mem i s_ip s_id r_ip r_id rp reply_ip reply_id reply_port
       k_ip k_id k_port ix True;
     service_send r1 packet a b } = Some r'"
    and "i = internal_reply_find_successor \<or> i = internal_reply_successor_list \<longrightarrow> (k_id, k_ip, k_port) \<in> M"
    and "i = internal_reply_get_predecessor \<longrightarrow> k_id = - 1 \<or> (k_id, k_ip, k_port) \<in> M"
    and "i = internal_notify_predecessor_join \<longrightarrow> (k_id, s_ip, k_port) \<in> M"
  shows "wire_at M r r'"
proof -
  obtain mem r1 where nm: "new_mem r = (mem, r1)" by (cases "new_mem r")
  with assms(1) obtain p where p: "AnonymousPacket14 mem i s_ip s_id r_ip r_id rp reply_ip reply_id
      reply_port k_ip k_id k_port ix True = Some p"
    and r': "DAE_direct_send r1 (p\<lparr>h_size := 0\<rparr>) a b = Some r'"
    by (auto simp: service_send_def elim!: bind_SomeE)
  from p assms(2-) have "packet_at M (p\<lparr>h_size := 0\<rparr>)"
    by (auto simp: AnonymousPacket14_def bind_strncpy packet_at_def split: if_splits)
  from DAE_direct_send_at [OF r' this] nm show ?thesis
    by (auto simp: new_mem_def wire_at_def)
qed

lemma safe_send_at:
  assumes "safe_send r p a b = Some r'" and "external_id (h_id p)"
  shows "wire_at M r r'"
proof -
  have "packet_at M p" using assms(2) by (rule packet_at_external [OF disjI1])
  then show ?thesis
    using assms(1) DAE_direct_send_at
    by (auto simp: safe_send_def ShufflePool_send_def DirectPool_send_def wire_at_same
        split: option.splits pool.splits if_splits elim!: bind_SomeE)
qed

lemma external_messaging_at:
  assumes "external_messaging r de s sq ni ip np ty d ck ct sz = Some r'" and "external_id ty"
  shows "wire_at M r r'"
proof -
  obtain mem r1 where nm: "new_mem r = (mem, r1)" by (cases "new_mem r")
  with assms(1) obtain p where p: "AnonymousPacket18 mem ty (r_host r) (r_relay_id r) ip ni np
      ip ck np ip d np sq False ct sz de s = Some p" and r': "safe_send r1 p ip np = Some r'"
    by (auto simp: external_messaging_def elim!: bind_SomeE)
  from p have "h_id p = ty" by (auto simp: AnonymousPacket18_def bind_strncpy split: if_splits elim!: bind_SomeE)
  with assms(2) safe_send_at [OF r'] nm show ?thesis by (auto simp: new_mem_def wire_at_def)
qed

lemma perform_at:
  assumes wf: "wf_relay r" and n: "node_at M (r_node r)" and c: "call_at M (r_node r) c"
    and ext: "is_external (Call c) \<longrightarrow> ext_action_ok (Call c)" and p: "perform r c = Some r'"
  shows "wire_at M r r'"
proof (cases "is_external (Call c)")
  case True
  then obtain de s sq ni ip np ty d ck ct sz where
    "c = ExternalMessaging de s sq ni ip np ty d ck ct sz"
    by (auto elim: is_external.elims)
  with ext p show ?thesis by (auto intro: external_messaging_at)
next
  case False
  from wf n have "(n_id (r_node r), r_host r, r_port r) \<in> M" by (auto simp: wf_relay_def node_at_def)
  with c p False show ?thesis
    by (cases c, simp_all only: perform.simps ring_methods call_at.simps is_external.simps)
      (erule ring_send_at; simp add: message_defs)+
qed

lemma perform_actions_at:
  assumes "wf_relay r" and "node_at M (r_node r)"
    and "list_all (action_at M (r_node r)) as"
    and "list_all (\<lambda>a. action_ok (n_m (r_node r)) a \<or> ext_action_ok a) as"
    and "room (length (filter is_external as)) r" and "perform_actions cur r as = Some r'"
  shows "wire_at M r r'"
  using assms
proof (induction as arbitrary: r)
  case (Cons a as)
  from Cons.prems(6) obtain r1 where r1: "perform_action cur r a = Some r1"
    and rest: "perform_actions cur r1 as = Some r'" by (auto elim: bind_SomeE)
  let ?k = "if is_external a then 1 else 0 :: nat"
  have rm: "room (?k + length (filter is_external as)) r"
    using Cons.prems(5) by (cases "is_external a") simp_all
  then have "room 1 r" if "is_external a" using that room_mono_add [of 1 _ r] by simp
  with Cons.prems perform_action_ok [of r a cur] r1 have s: "sent_ok ?k r r1"
    by (auto simp: returns_def)
  note nc = sent_okD(2) [OF s]
  have "wire_at M r r1"
  proof (cases a)
    case (Call c)
    have "is_external a \<longrightarrow> ext_action_ok a"
      using Cons.prems(4) ring_not_external [of "n_m (r_node r)" "[a]"] by auto
    with Call Cons.prems(1-3) r1 show ?thesis by (auto intro!: perform_at [of r M c r1])
  qed (use r1 in \<open>auto simp: wire_at_same split: option.splits\<close>)
  moreover have "wire_at M r1 r'"
  proof (rule Cons.IH [OF sent_okD(1) [OF s] _ _ _ _ rest])
    show "node_at M (r_node r1)" using node_at_no_cnt [OF nc] Cons.prems(2) by simp
    have "same_self (r_node r) (r_node r1)" using no_cnt_eqD [OF nc] by (simp add: same_self_def)
    then show "list_all (action_at M (r_node r1)) as"
      using Cons.prems(3) by (simp add: list_all_iff action_at_same)
  qed (use Cons.prems(4) sent_okD(3) [OF s] sent_okD(4) [OF s] rm in auto)
  ultimately show ?case by (rule wire_at_trans)
qed simp

lemma ring_actions_at:
  assumes wf: "wf_relay r" and n: "node_at M (r_node r)" and at: "list_all (action_at M (r_node r)) as"
    and ok: "list_all (action_ok (n_m (r_node r))) as" and p: "perform_actions cur r as = Some r'"
  shows "step_at M r r'"
proof -
  from perform_ring_actions_ok [OF wf ok, of cur] p have s: "sent_ok 0 r r'" by (simp add: returns_def)
  have "node_at M (r_node r')" using node_at_no_cnt [OF sent_okD(2) [OF s]] n by simp
  moreover have "wire_at M r r'"
  proof (rule perform_actions_at [OF wf n at _ _ p])
    show "list_all (\<lambda>a. action_ok (n_m (r_node r)) a \<or> ext_action_ok a) as"
      using ok by (simp add: list_all_iff)
    show "room (length (filter is_external as)) r"
      using ring_not_external [OF ok] room_0 [OF wf] by simp
  qed
  ultimately show ?thesis by (simp add: step_at_def)
qed

lemma run_node_at:
  assumes wf: "wf_relay r" and ok: "op_ok (r_node r) (f (r_node r))" and at: "op_at M (r_node r) (f (r_node r))"
    and run: "run_node cur r f = Some r'"
  shows "step_at M r r'"
proof -
  from run obtain n as where f: "f (r_node r) = Some (n, as)"
    and p: "perform_actions cur (r\<lparr>r_node := n\<rparr>) as = Some r'"
    by (auto simp: run_node_def elim!: bind_SomeE)
  from ok f have n: "wf_node n" "same_self (r_node r) n" "list_all (action_ok (n_m (r_node r))) as"
    by (auto simp: op_ok_def returns_def)
  from at f have at': "node_at M n" "list_all (action_at M (r_node r)) as" by (auto simp: op_at_def)
  have "step_at M (r\<lparr>r_node := n\<rparr>) r'"
    using wf_relay_node [OF wf n(1,2)] at' n(2,3)
    by (intro ring_actions_at [OF _ _ _ _ p])
      (auto simp: list_all_iff action_at_same [OF n(2)] same_self_def)
  then show ?thesis by (simp add: step_at_def wire_at_def)
qed

lemma send_batch_at:
  assumes wf: "wf_relay r" and n: "node_at M (r_node r)" and sp: "r_pool r = Some (Shuffle sp)"
    and b: "send_batch r sp draws now = Some r'"
  shows "step_at M r r'"
proof -
  from returns_unless_SomeD [OF send_batch_ok [OF wf sp] b] obtain sp' ds where s: "sent_ok 0 r r'"
    and ds: "r_wire r' = r_wire r @ ds" "pool_items sp = pool_items sp' + real_packets ds"
    by blast
  have ext: "external_id (h_id p)" if p: "p \<in># pool_items sp" for p
  proof -
    from wf sp have pool: "\<forall>q \<in> set (sp_package_pool sp). \<forall>p \<in># crq_items q. app_packet p"
      by (auto simp: wf_relay_def)
    from p obtain q p0 where "q \<in> set (sp_package_pool sp)" "p0 \<in># crq_items q" "p = on_wire p0"
      by (auto simp: pool_items_def set_mset_sum_list)
    with pool show ?thesis by (auto simp: app_packet_def on_wire_def)
  qed
  have "packet_at M (dg_packet d)" if d: "d \<in> set ds" for d
  proof (cases "h_id (dg_packet d) = dummy_message")
    case False
    with d have "dg_packet d \<in># real_packets ds" by (auto simp: real_packets_def)
    with ds(2) have "dg_packet d \<in># pool_items sp" by simp
    from ext [OF this] show ?thesis by (simp add: packet_at_external)
  qed (simp add: packet_at_external)
  with ds(1) have "wire_at M r r'" by (auto simp: wire_at_def)
  with node_at_no_cnt [OF sent_okD(2) [OF s]] n show ?thesis by (simp add: step_at_def)
qed

lemma run_task_at:
  assumes wf: "wf_relay r" and n: "node_at M (r_node r)" and run: "run_task r k secs draws now = Some r'"
  shows "step_at M r r'"
proof (cases "k < length (r_timers r)")
  case True
  define e where "e = r_timers r ! k"
  define r0 where "r0 = (if te_periodic e then r
    else r\<lparr>r_timers := take k (r_timers r) @ drop (Suc k) (r_timers r)\<rparr>)"
  have eq: "run_task r k secs draws now = (case te_task e of
       NodeTask t \<Rightarrow> run_node (if te_periodic e then Some k else None) r0 (run_timer t secs)
     | PoolStart \<Rightarrow> pool_start r0
     | SendBatch \<Rightarrow> (case r_pool r0 of Some (Shuffle sp) \<Rightarrow> send_batch r0 sp draws now | _ \<Rightarrow> None))"
    using True unfolding run_task_def Let_def e_def [symmetric] r0_def [symmetric] by simp
  have wf0: "wf_relay r0" using wf wf_relay_take_timer by (simp add: r0_def)
  have n0: "node_at M (r_node r0)" and w0: "r_wire r0 = r_wire r" using n by (simp_all add: r0_def)
  have "step_at M r0 r'"
  proof (cases "te_task e")
    case (NodeTask t)
    from wf0 have wn: "wf_node (r_node r0)" by (simp add: wf_relay_def)
    from NodeTask run have "run_node (if te_periodic e then Some k else None) r0 (run_timer t secs) = Some r'"
      by (simp add: eq)
    from run_node_at [where f = "run_timer t secs", OF wf0 run_timer_ok [OF wn] run_timer_at [OF wn n0] this]
    show ?thesis .
  next
    case PoolStart
    with run n0 show ?thesis
      by (auto simp: eq pool_start_def ShufflePool_start_def step_at_def wire_at_def
          split: option.splits pool.splits)
  next
    case SendBatch
    with run send_batch_at [OF wf0 n0] show ?thesis by (auto simp: eq split: option.splits pool.splits)
  qed
  with w0 show ?thesis by (simp add: step_at_def wire_at_def)
qed (use run n in \<open>simp add: run_task_def step_at_def\<close>)

subsection \<open>Receiving\<close>

lemma step_at_node: "node_at M n \<Longrightarrow> step_at M r (r\<lparr>r_node := n\<rparr>)"
  by (simp add: step_at_def wire_at_def)

lemma on_join_find_successor_at:
  assumes wf: "wf_relay r" and n: "node_at M (r_node r)" and p: "wf_packet p"
    and ix: "0 \<le> h_index p" "h_index p < int (n_m (r_node r))" and run: "on_join_find_successor r p = Some r'"
  shows "step_at M r r'"
proof -
  from run obtain b as where h: "handle_find_successor (r_node r) (h_relay_reply_ip p)
       (h_relay_reply_port p) (h_index p) (h_key_id p) False = Some (b, as)"
    and a: "perform_actions None r as = Some r'"
    by (auto simp: on_join_find_successor_def elim!: bind_SomeE)
  have wn: "wf_node (r_node r)" and ip: "ip_ok (h_relay_reply_ip p)"
    using wf p by (auto simp: wf_relay_def wf_packet_def)
  from handle_find_successor_ok [OF wn ip ix, of "h_relay_reply_port p" "h_key_id p" False] h
  have "list_all (action_ok (n_m (r_node r))) as" by (simp add: returns_def)
  from ring_actions_at [OF wf n handle_find_successor_at [OF n h] this a] show ?thesis .
qed

lemma on_fetch_at:
  assumes wf: "wf_relay r" and n: "node_at M (r_node r)" and p: "wf_packet p"
    and ix: "0 \<le> h_index p" "h_index p \<le> 5" and run: "on_fetch_successor_list r p = Some r'"
  shows "step_at M r r'"
proof -
  from run obtain as where h: "handle_fetch_successor_list (r_node r) (h_index p) (h_relay_reply_ip p)
      (h_relay_reply_port p) = Some as" and a: "perform_actions None r as = Some r'"
    by (auto simp: on_fetch_successor_list_def elim!: bind_SomeE)
  have wn: "wf_node (r_node r)" and ip: "ip_ok (h_relay_reply_ip p)"
    using wf p by (auto simp: wf_relay_def wf_packet_def)
  from handle_fetch_successor_list_ok [OF wn ip ix, of "h_relay_reply_port p"] h
  have "list_all (action_ok (n_m (r_node r))) as" by (simp add: returns_def)
  moreover have "list_all (action_at M (r_node r)) as"
    using h finger_at [OF n] by (auto simp: handle_fetch_successor_list_def elim!: bind_SomeE)
  ultimately show ?thesis using ring_actions_at [OF wf n _ _ a] by blast
qed

lemma on_query_at:
  assumes wf: "wf_relay r" and n: "node_at M (r_node r)" and p: "wf_packet p"
  shows "on_find_predecessor r p = Some r' \<Longrightarrow> step_at M r r'"
    and "on_check_predecessor_existence r p = Some r' \<Longrightarrow> step_at M r r'"
    and "on_check_successor_existence r p = Some r' \<Longrightarrow> step_at M r r'"
proof -
  from wf p have ips: "ip_ok (h_relay_reply_ip p)" "ip_ok (n_predecessor_ip (r_node r))"
    by (auto simp: wf_relay_def wf_node_def wf_packet_def)
  have pr: "n_predecessor (r_node r) = - 1 \<or>
      (n_predecessor (r_node r), n_predecessor_ip (r_node r), n_predecessor_port (r_node r)) \<in> M"
    using n by (simp add: node_at_def)
  note unf = on_find_predecessor_def on_check_predecessor_existence_def
    on_check_successor_existence_def handle_get_predecessor_def
    handle_check_predecessor_failure_def handle_check_successor_failure_def
  show "on_find_predecessor r p = Some r' \<Longrightarrow> step_at M r r'"
    and "on_check_predecessor_existence r p = Some r' \<Longrightarrow> step_at M r r'"
    and "on_check_successor_existence r p = Some r' \<Longrightarrow> step_at M r r'"
    unfolding unf by (erule ring_actions_at [OF wf n, rotated 2]; simp add: ips pr)+
qed

lemma forward_external_at:
  assumes wf: "wf_relay r" and n: "node_at M (r_node r)" and b: "wf_packet body" and ty: "external_id ty"
    and rm: "room 1 r" and run: "forward_external r p ty d ck body = Some r'"
  shows "step_at M r r'"
proof -
  from forward_external_ok [OF wf b ty rm, of p d ck] run have s: "sent_ok 1 r r'"
    by (simp add: returns_def)
  from run obtain as where h: "handle_external_messaging (r_node r) False (h_session_id p) (h_index p) ty
      d ck (payload body) (payload_size body) = Some as" and a: "perform_actions None r as = Some r'"
    by (auto simp: forward_external_def elim!: bind_SomeE)
  have wn: "wf_node (r_node r)" and sz: "0 \<le> payload_size body"
    "payload_size body \<le> int body_cap" "payload_size body \<le> int (length (payload body))"
    using wf b by (auto simp: wf_relay_def wf_packet_def wf_mem_def payload_size_def payload_def)
  from handle_external_messaging_ok [OF wn ty sz, of False "h_session_id p" "h_index p" d ck] h
  obtain x where x: "as = [x]" "ext_action_ok x" by (auto simp: returns_def)
  then have "action_at M (r_node r) x" by (cases x rule: ext_action_ok.cases) auto
  with x rm ext_is_external [OF x(2)] have "wire_at M r r'"
    by (intro perform_actions_at [OF wf n _ _ _ a]) auto
  with node_at_no_cnt [OF sent_okD(2) [OF s]] n show ?thesis by (simp add: step_at_def)
qed

lemma on_deaddrop_at:
  assumes wf: "wf_relay r" and n: "node_at M (r_node r)" and p: "wf_packet p" "external_id (h_id p)"
    and rm: "room 2 r" and run: "on_deaddrop r p = Some r'"
  shows "step_at M r r'"
proof -
  let ?n = "r_node r" and ?msg = "(h_session_id p, h_index p)"
  have rm1: "room 1 r" using rm room_mono [of 1 r] by (simp add: numeral_2_eq_2)
  show ?thesis
  proof (cases "h_is_dest p")
    case False
    with run show ?thesis
      by (intro forward_external_at [OF wf n p rm1]) (simp add: on_deaddrop_def Let_def)
  next
    case dest: True
    show ?thesis
    proof (cases "n_recv_list_deaddrop ?n ?msg")
      case None
      with run dest have "r' = r\<lparr>r_node := ?n\<lparr>n_recv_list_deaddrop := (n_recv_list_deaddrop ?n)(?msg \<mapsto> p)\<rparr>\<rparr>"
        by (simp add: on_deaddrop_def Let_def)
      with n show ?thesis by (simp add: step_at_def wire_at_def node_at_def)
    next
      case (Some pre)
      let ?n' = "?n\<lparr>n_recv_list_deaddrop := (n_recv_list_deaddrop ?n)(?msg := None)\<rparr>"
      let ?r1 = "r\<lparr>r_node := ?n'\<rparr>"
      from wf Some have pre: "wf_packet pre" and n': "wf_node ?n'" "same_self ?n ?n'"
        by (auto simp: wf_relay_def wf_node_def same_self_def)
      note wf1 = wf_relay_node [OF wf n']
      have n1: "node_at M (r_node ?r1)" using n by (simp add: node_at_def)
      have rm2: "room 2 ?r1" "room 1 ?r1" using rm rm1 by (simp_all add: room_def)
      from run dest Some obtain r2 where
        f1: "forward_external ?r1 p external_reply_deaddrop_messaging (h_relay_reply_id p) (h_key_id p) pre = Some r2"
        and f2: "forward_external r2 p external_reply_deaddrop_messaging (h_relay_reply_id pre) (h_key_id p) p = Some r'"
        by (auto simp: on_deaddrop_def Let_def elim!: bind_SomeE)
      from forward_external_ok [OF wf1 pre external_reply_id rm2(2), of p "h_relay_reply_id p" "h_key_id p"] f1
      have s: "sent_ok 1 ?r1 r2" by (simp add: returns_def)
      have s1: "step_at M ?r1 r2" by (rule forward_external_at [OF wf1 n1 pre external_reply_id rm2(2) f1])
      have "room 1 r2" using sent_okD(4) [OF s, of 1] rm2 by (simp add: numeral_2_eq_2)
      from forward_external_at [OF sent_okD(1) [OF s] _ p(1) external_reply_id this f2] s1
      have s2: "step_at M r2 r'" by (simp add: step_at_def)
      have "wire_at M r ?r1" by (simp add: wire_at_same)
      with s1 s2 show ?thesis unfolding step_at_def by (blast intro: wire_at_trans)
    qed
  qed
qed

lemma on_reply_get_predecessor_at:
  assumes n: "node_at M (r_node r)" and p: "wf_packet p" "packet_at M p" and id: "h_id p = internal_reply_get_predecessor"
    and get: "on_reply_get_predecessor r p = Some r'"
  shows "step_at M r r'"
proof -
  let ?n = "(r_node r)\<lparr>n_pos := h_key_id p, n_pos_ip := h_key_ip p, n_pos_port := h_key_port p\<rparr>"
  from p(1) get have "r' = r\<lparr>r_node := ?n\<rparr>"
    by (simp add: wf_packet_def on_reply_get_predecessor_def set_predecessor_of_successor_def
        set_predecessor_of_successor_ip_def set_predecessor_of_successor_port_def)
  moreover have "node_at M ?n" using n p(2) id by (simp add: node_at_def packet_at_def message_defs)
  ultimately show ?thesis by (simp add: step_at_node)
qed

lemma trim_successor_list_subset: "set (trim_successor_list b xs) \<subseteq> set xs" for xs :: "peer_pair list"
  by (induction xs) auto

lemma on_reply_successor_list_at:
  assumes n: "node_at M (r_node r)" and p: "packet_at M p" and id: "h_id p = internal_reply_successor_list"
    and get: "on_reply_successor_list r p = Some r'"
  shows "step_at M r r'"
proof (cases "h_key_id p = n_id (r_node r)")
  case True
  with get n show ?thesis by (simp add: on_reply_successor_list_def step_at_def)
next
  case False
  let ?l = "n_successor_list (r_node r) @ [\<lparr>pp_ip = h_key_ip p, pp_port = h_key_port p,
    pp_relay_id = h_key_id p, pp_check_usage = True\<rparr>]"
  from get False obtain b where
    r': "r' = r\<lparr>r_node := (r_node r)\<lparr>n_successor_list := trim_successor_list (word_of_int b) ?l\<rparr>\<rparr>"
    by (auto simp: on_reply_successor_list_def add_to_successor_list_def Let_def elim!: bind_SomeE)
  have "\<forall>q \<in> set ?l. (pp_relay_id q, pp_ip q, pp_port q) \<in> M"
    using n p id by (auto simp: node_at_def packet_at_def message_defs)
  with n trim_successor_list_subset [of "word_of_int b" ?l] show ?thesis
    unfolding r' by (intro step_at_node) (auto simp: node_at_def)
qed

lemma process_at:
  assumes wf: "wf_relay r" and n: "node_at M (r_node r)" and p: "wf_packet p" "packet_at M p"
    and ix: "index_ok (n_m (r_node r)) p" and rm: "room 2 r"
    and run: "DAE_process_internal_message r (h_id p) p = Some r'"
  shows "step_at M r r'"
proof -
  have rm1: "room 1 r" using rm room_mono [of 1 r] by (simp add: numeral_2_eq_2)
  have refl: "step_at M r r" using n by (simp add: step_at_def)
  have fwd: "step_at M r r'" if "external_id (h_id p)"
    "forward_external r p (h_id p) (h_key_id p) (h_relay_reply_id p) p = Some r'"
    using that by (intro forward_external_at [OF wf n p(1) _ rm1])
  have upd: "step_at M r r'" if "on_reply_find_successor r p = Some r'"
    "h_id p = internal_reply_find_successor"
    using that p(2) update_finger_at [OF n]
    by (auto simp: on_reply_find_successor_eq packet_at_def intro!: step_at_node)
  have ntf: "step_at M r r'" if "on_notify_predecessor_join r p = Some r'"
    "h_id p = internal_notify_predecessor_join"
    using that p(2) notify_at [OF n]
    by (auto simp: on_notify_predecessor_join_def packet_at_def intro!: step_at_node elim!: bind_SomeE)
  have sts: "step_at M r r'" if "on_reply_predecessor_existence r p = Some r' \<or>
      on_reply_successor_existence r p = Some r'"
    using that n by (auto simp: on_reply_predecessor_existence_def on_reply_successor_existence_def
        reverse_predecessor_status_def reverse_successor_status_def node_at_def step_at_def wire_at_def
        split: if_splits elim!: bind_SomeE)
  have usr: "step_at M r r'" if "on_reply_deaddrop r p = Some r'" "external_id (h_id p)"
    using that fwd n by (auto simp: on_reply_deaddrop_def node_at_def step_at_def wire_at_def split: if_splits)
  have same: "r = r' \<longrightarrow> step_at M r' r'" using refl by blast
  have "DAE_process_internal_message r (h_id p) p = Some r' \<longrightarrow> step_at M r r'"
    unfolding DAE_process_internal_message_def on_pingpong_def on_reply_pingpong_def
    using ix on_join_find_successor_at [OF wf n p(1), of r'] upd on_query_at [OF wf n p(1), of r'] on_reply_get_predecessor_at [OF n p, of r']
      ntf on_fetch_at [OF wf n p(1), of r'] on_reply_successor_list_at [OF n p(2), of r'] sts fwd on_deaddrop_at [OF wf n p(1) _ rm, of r'] usr same
    by (simp add: index_ok_def external_id_def split: if_split)
  with run show ?thesis by blast
qed

lemma receive_at:
  assumes wf: "wf_relay r" and n: "node_at M (r_node r)" and w: "wire_packet p" "packet_at M p"
    and ix: "index_ok (n_m (r_node r)) p" and rm: "room 2 r" and run: "receive r p = Some r'"
  shows "step_at M r r'"
proof -
  obtain mem r1 where nm: "new_mem r = (mem, r1)" by (cases "new_mem r")
  from wf_relay_new_mem [OF wf] nm have r1: "sent_ok 0 r r1" and mem: "wf_mem mem" by auto
  have same: "r_wire r1 = r_wire r" "r_node r1 = r_node r" using nm by (auto simp: new_mem_def)
  let ?q = "recvfrom_into (AnonymousPacket0 mem) p"
  have d: "dispatch r1 ?q = Some r'" using run nm by (simp add: receive_def)
  have id: "h_id ?q = h_id p" "h_index ?q = h_index p" "packet_at M ?q"
    using w(2) by (simp_all add: recvfrom_into_def packet_at_def)
  have "step_at M r1 r'"
  proof (cases "DAE_process_internal_message r1 (h_id p) ?q = Some r' \<and> h_id p \<noteq> dummy_message")
    case True
    have "wf_mem (AnonymousPacket0 mem)"
      using mem by (simp add: wf_mem_def AnonymousPacket0_def AnonymousPacket3_def)
    with True w(1) have "wf_packet ?q" by (intro recv_wire_packet) auto
    moreover have "room 2 r1" using sent_okD(4) [OF r1, of 2] rm by (simp only: add_0)
    ultimately show ?thesis
      using process_at [OF sent_okD(1) [OF r1], of M ?q] True id ix n by (simp add: index_ok_def same)
  next
    case False
    with d have "r' = r1"
      by (auto simp: dispatch_def id DAE_process_internal_message_def message_defs split: if_splits)
    with n show ?thesis by (simp add: step_at_def same)
  qed
  then show ?thesis by (simp add: step_at_def wire_at_def same)
qed

end
