(* ===== verification/Network.thy ===== *)
theory Network
  imports Addresses
begin

text \<open>
  The whole system: relays that exchange datagrams. The network keeps every datagram ever sent and
  may deliver any of them at any time to the relay bound to its address, which covers loss,
  duplication, delay and reordering; pending timers fire in any order; the applications send and
  receive at any time. The locale \<open>invariant\<close> is the induction over reachable states, interpreted
  for the two invariants of the network.
\<close>

subsection \<open>Reachable states\<close>

inductive reachable :: "('s \<Rightarrow> bool) \<Rightarrow> ('s \<Rightarrow> 's \<Rightarrow> bool) \<Rightarrow> 's \<Rightarrow> bool"
  for init :: "'s \<Rightarrow> bool" and step :: "'s \<Rightarrow> 's \<Rightarrow> bool" where
  reach_init: "init s \<Longrightarrow> reachable init step s"
| reach_step: "reachable init step s \<Longrightarrow> step s t \<Longrightarrow> reachable init step t"

locale invariant =
  fixes init :: "'s \<Rightarrow> bool" and step :: "'s \<Rightarrow> 's \<Rightarrow> bool" and inv :: "'s \<Rightarrow> bool"
  assumes inv_init: "init s \<Longrightarrow> inv s"
    and inv_step: "inv s \<Longrightarrow> step s t \<Longrightarrow> inv t"
begin

lemma reachable_inv: "reachable init step s \<Longrightarrow> inv s"
  by (induction rule: reachable.induct) (auto intro: inv_init inv_step)

end

subsection \<open>Networks of relays\<close>

record network =
  nw_relays :: "ip_addr \<times> int \<Rightarrow> relay option"
  nw_sent :: "datagram set"

definition no_network :: "network \<Rightarrow> bool" where
  "no_network net \<longleftrightarrow> nw_relays net = Map.empty \<and> nw_sent net = {}"

text \<open>The network after the relay at \<open>a\<close> has become \<open>r\<close>: what it sent is on its way.\<close>

definition put_relay :: "network \<Rightarrow> ip_addr \<times> int \<Rightarrow> relay \<Rightarrow> network" where
  "put_relay net a r = \<lparr>nw_relays = (nw_relays net)(a \<mapsto> r), nw_sent = nw_sent net \<union> set (r_wire r)\<rparr>"

text \<open>
  One step of a network with a ring of \<open>m\<close> bits. A delivery or a send is only taken by a relay whose
  pool has room for the packets it may queue. The handlers of a relay run one at a time: the receiving thread of
  RandomSocket.cpp and the event loop that runs the timers are not synchronised in the source, and their interleaving
  inside a handler is not part of the model.
\<close>

inductive net_step :: "nat \<Rightarrow> network \<Rightarrow> network \<Rightarrow> bool" for m :: nat where
  start: "config_ok c \<Longrightarrow> nat (cf_ring_bits c) = m \<Longrightarrow> \<forall>k. wf_mem (heap k) \<Longrightarrow>
    a = (cf_relay_ip c, cf_relay_port c mod 2 ^ 16) \<Longrightarrow> nw_relays net a = None \<Longrightarrow>
    DAEService mem heap rnd c = Some r0 \<Longrightarrow> start_service r0 now = Some r \<Longrightarrow>
    net_step m net (put_relay net a r)"
| deliver: "nw_relays net (dg_ip d, dg_port d) = Some r \<Longrightarrow> d \<in> nw_sent net \<Longrightarrow> room 2 r \<Longrightarrow>
    receive r (dg_packet d) = Some r' \<Longrightarrow> net_step m net (put_relay net (dg_ip d, dg_port d) r')"
| task: "nw_relays net a = Some r \<Longrightarrow> run_task r k secs draws now = Some r' \<Longrightarrow>
    net_step m net (put_relay net a r')"
| app_send: "nw_relays net a = Some r \<Longrightarrow> room 1 r \<Longrightarrow> external_id ty \<Longrightarrow>
    0 \<le> sz \<Longrightarrow> sz \<le> int body_cap \<Longrightarrow> sz \<le> int (length buf) \<Longrightarrow>
    send_content_package (r_node r) False session sq ty dest_id (n_id (r_node r)) buf sz = Some as \<Longrightarrow>
    perform_actions None r as = Some r' \<Longrightarrow> net_step m net (put_relay net a r')"
| app_recv: "nw_relays net a = Some r \<Longrightarrow> cbq_pop_front (n_recv_list_user (r_node r)) = Some (p, q) \<Longrightarrow>
    net_step m net (put_relay net a (r\<lparr>r_node := (r_node r)\<lparr>n_recv_list_user := q\<rparr>\<rparr>))"

definition members :: "network \<Rightarrow> participants" where
  "members net = {(n_id (r_node r), n_ip (r_node r), n_port (r_node r)) | a r. nw_relays net a = Some r}"

subsection \<open>Invariants\<close>

definition net_ok :: "nat \<Rightarrow> network \<Rightarrow> bool" where
  "net_ok m net \<longleftrightarrow> (\<forall>a r. nw_relays net a = Some r \<longrightarrow> wf_relay r \<and> n_m (r_node r) = m \<and>
       set (r_wire r) \<subseteq> nw_sent net) \<and>
     (\<forall>d \<in> nw_sent net. wire_ok m d)"

definition addresses_ok :: "network \<Rightarrow> bool" where
  "addresses_ok net \<longleftrightarrow> (\<forall>a r. nw_relays net a = Some r \<longrightarrow> node_at (members net) (r_node r)) \<and>
     (\<forall>d \<in> nw_sent net. packet_at (members net) (dg_packet d))"

subsection \<open>The relays stay well formed\<close>

lemma net_okD:
  assumes "net_ok m net"
  shows "nw_relays net a = Some r \<Longrightarrow> wf_relay r"
    and "nw_relays net a = Some r \<Longrightarrow> n_m (r_node r) = m"
    and "nw_relays net a = Some r \<Longrightarrow> set (r_wire r) \<subseteq> nw_sent net"
    and "d \<in> nw_sent net \<Longrightarrow> wire_ok m d"
  using assms unfolding net_ok_def by blast+

text \<open>A relay that becomes \<open>r\<close> keeps the network correct if \<open>r\<close> and what it has sent are.\<close>

lemma net_ok_put_relay:
  assumes "net_ok m net" and "wf_relay r" and "n_m (r_node r) = m"
    and "\<forall>d \<in> set (r_wire r) - nw_sent net. wire_ok m d"
  shows "net_ok m (put_relay net a r)"
proof -
  have "wf_relay r1 \<and> n_m (r_node r1) = m \<and> set (r_wire r1) \<subseteq> nw_sent net \<union> set (r_wire r)"
    if "((nw_relays net)(a \<mapsto> r)) b = Some r1" for b r1
    using that assms(2,3) net_okD(1-3) [OF assms(1), of b r1] by (auto simp only: fun_upd_apply split: if_splits)
  moreover have "\<forall>d \<in> nw_sent net \<union> set (r_wire r). wire_ok m d"
    using assms(4) net_okD(4) [OF assms(1)] by blast
  ultimately show ?thesis
    unfolding net_ok_def put_relay_def network.simps by blast
qed

lemma net_ok_put:
  assumes ok: "net_ok m net" and r: "nw_relays net a = Some r" and s: "step_ok r r'"
  shows "net_ok m (put_relay net a r')"
proof (rule net_ok_put_relay [OF ok])
  note m = net_okD(1-3) [OF ok r]
  from s show "wf_relay r'" by (simp add: step_ok_def)
  from s m(2) show "n_m (r_node r') = m" by (simp add: step_ok_def same_self_def)
  from s m show "\<forall>d \<in> set (r_wire r') - nw_sent net. wire_ok m d"
    by (auto simp: step_ok_def list_all_iff)
qed

lemma app_send_ok:
  assumes wf: "wf_relay r" and rm: "room 1 r" and ty: "external_id ty"
    and sz: "0 \<le> sz" "sz \<le> int body_cap" "sz \<le> int (length buf)"
    and s: "send_content_package (r_node r) False session sq ty d ck buf sz = Some as"
  shows "returns (perform_actions None r as) (sent_ok 1 r)"
    and "\<exists>a. as = [a] \<and> ext_action_ok a"
proof -
  have wn: "wf_node (r_node r)" using wf by (simp add: wf_relay_def)
  from handle_external_messaging_ok [OF wn ty sz, of False session sq d ck] s
  obtain a where a: "as = [a]" "ext_action_ok a" by (auto simp: send_content_package_def returns_def)
  then show "\<exists>a. as = [a] \<and> ext_action_ok a" by blast
  from perform_actions_ok [OF wf, of as None] a ext_is_external [OF a(2)] rm
  show "returns (perform_actions None r as) (sent_ok 1 r)" by simp
qed

lemma app_recv_ok:
  assumes "wf_relay r" and "cbq_pop_front (n_recv_list_user (r_node r)) = Some (p, q)"
  shows "step_ok r (r\<lparr>r_node := (r_node r)\<lparr>n_recv_list_user := q\<rparr>\<rparr>)"
proof (rule step_ok_node [OF assms(1)])
  from assms show "wf_node ((r_node r)\<lparr>n_recv_list_user := q\<rparr>)"
    by (auto simp: wf_relay_def wf_node_def cbq_pop_front_def split: list.splits)
qed (simp add: same_self_def)

lemma net_ok_step:
  assumes ok: "net_ok m net" and step: "net_step m net net'"
  shows "net_ok m net'"
  using step
proof (cases rule: net_step.cases)
  case (start c heap a mem rnd r0 now r)
  from service_starts [OF start(2,4), of mem rnd now] start(7,8) start(3)
  have "wf_relay r" "n_m (r_node r) = m" "list_all (wire_ok m) (r_wire r)"
    by (auto simp: returns_def)
  with net_ok_put_relay [OF ok this(1,2)] start(1) show ?thesis by (simp add: list_all_iff)
next
  case (deliver d r r')
  with ok have "wf_relay r" "wire_packet (dg_packet d)" "index_ok (n_m (r_node r)) (dg_packet d)"
    using net_okD [OF ok] by (auto simp: wire_ok_def)
  from receive_ok [OF this deliver(4)] deliver(5) have "step_ok r r'" by (simp add: returns_def)
  with net_ok_put [OF ok deliver(2)] deliver(1) show ?thesis by simp
next
  case (task a r k secs draws now r')
  with ok have "wf_relay r" by (blast dest: net_okD)
  from returns_unless_SomeD [OF run_task_ok [OF this] task(3)] have "step_ok r r'" .
  with net_ok_put [OF ok task(2)] task(1) show ?thesis by simp
next
  case (app_send a r ty sz buf session sq dest_id as r')
  with ok have "wf_relay r" by (blast dest: net_okD)
  from app_send_ok(1) [OF this app_send(3-8)] app_send(9) have "step_ok r r'"
    by (auto simp: returns_def intro: sent_step_ok)
  with net_ok_put [OF ok app_send(2)] app_send(1) show ?thesis by simp
next
  case (app_recv a r p q)
  with ok have "wf_relay r" by (blast dest: net_okD)
  from net_ok_put [OF ok app_recv(2) app_recv_ok [OF this app_recv(3)]] app_recv(1) show ?thesis by simp
qed

interpretation relays: invariant no_network "net_step m" "net_ok m" for m
  by unfold_locales (simp add: no_network_def net_ok_def, rule net_ok_step)

subsection \<open>Addresses stay consistent\<close>

lemma node_at_mono:
  assumes "node_at M n" and "M \<subseteq> M'"
  shows "node_at M' n"
  using assms unfolding node_at_def by blast

lemma packet_at_mono: "packet_at M p \<Longrightarrow> M \<subseteq> M' \<Longrightarrow> packet_at M' p"
  unfolding packet_at_def by blast

lemma members_put:
  assumes "nw_relays net a = Some r" and "same_self (r_node r) (r_node r')"
  shows "members (put_relay net a r') = members net"
proof -
  define self where "self r = (n_id (r_node r), n_ip (r_node r), n_port (r_node r))" for r :: relay
  have m: "members n = self ` ran (nw_relays n)" for n
    by (auto simp: members_def self_def ran_def image_def)
  have s: "self r' = self r" using assms(2) by (simp add: self_def same_self_def)
  have "self ` ran ((nw_relays net)(a \<mapsto> r')) = self ` ran (nw_relays net)"
  proof (intro equalityI subsetI)
    fix x assume "x \<in> self ` ran ((nw_relays net)(a \<mapsto> r'))"
    then obtain b q where "((nw_relays net)(a \<mapsto> r')) b = Some q" "x = self q" unfolding ran_def by blast
    then show "x \<in> self ` ran (nw_relays net)"
      using assms(1) s unfolding ran_def by (cases "b = a") (auto simp del: split_paired_Ex)
  next
    fix x assume "x \<in> self ` ran (nw_relays net)"
    then obtain b q where q: "nw_relays net b = Some q" "x = self q" unfolding ran_def by blast
    show "x \<in> self ` ran ((nw_relays net)(a \<mapsto> r'))"
    proof (cases "b = a")
      case True
      with q assms(1) s have "x = self r'" by simp
      moreover have "r' \<in> ran ((nw_relays net)(a \<mapsto> r'))" by (rule ranI [of _ a]) simp
      ultimately show ?thesis by blast
    next
      case False
      with q(1) have "q \<in> ran ((nw_relays net)(a \<mapsto> r'))" by (intro ranI [of _ b]) simp
      with q(2) show ?thesis by blast
    qed
  qed
  then show ?thesis by (simp add: m put_relay_def)
qed

lemma addresses_put:
  assumes ok: "addresses_ok net" and r: "nw_relays net a = Some r" and s: "step_ok r r'"
    and w: "set (r_wire r) \<subseteq> nw_sent net" and at: "step_at (members net) r r'"
  shows "addresses_ok (put_relay net a r')"
proof -
  have M: "members (put_relay net a r') = members net"
    using members_put [OF r] s by (simp add: step_ok_def)
  from at obtain ds where ds: "r_wire r' = r_wire r @ ds"
    "\<forall>d \<in> set ds. packet_at (members net) (dg_packet d)" and n: "node_at (members net) (r_node r')"
    by (auto simp: step_at_def wire_at_def)
  show ?thesis
    unfolding addresses_ok_def M
    using ok ds n w unfolding put_relay_def network.simps addresses_ok_def
    by (auto simp only: fun_upd_apply set_append split: if_splits)
qed

text \<open>The relay that \<open>start_service\<close> builds: a new node, well formed, that runs \<open>join\<close>.\<close>

lemma started:
  assumes c: "config_ok c" and heap: "\<forall>k. wf_mem (heap k)"
    and d: "DAEService mem heap rnd c = Some r0" and st: "start_service r0 now = Some r"
  obtains i n where "DAENode mem (cf_ring_bits c) i (cf_relay_port c) (cf_relay_ip c) (cf_bt_time c) c = Some n"
    and "wf_node n" and "n_id n = i" and "n_ip n = cf_relay_ip c" and "n_port n = cf_relay_port c"
    and "wf_relay (init_DAEService r0 now)" and "r_node (init_DAEService r0 now) = n"
    and "r_wire (init_DAEService r0 now) = []"
    and "run_node None (init_DAEService r0 now) (\<lambda>n. join n (cf_init_peers c)) = Some r"
proof -
  from d obtain i n where i: "get_dae_node_id c rnd = Some i"
    and n: "DAENode mem (cf_ring_bits c) i (cf_relay_port c) (cf_relay_ip c) (cf_bt_time c) c = Some n"
    and r0: "r0 = RandomSocket (cf_relay_ip c) (cf_relay_port c) i n c heap"
    by (auto simp: DAEService_def elim!: bind_SomeE)
  have ri: "on_ring (nat (cf_ring_bits c)) i" using get_dae_node_id_ok [OF c, of rnd] i by (simp add: returns_def)
  from c have mb: "0 < cf_ring_bits c" "cf_ring_bits c < 32" "ip_ok (cf_relay_ip c)"
    by (auto simp: config_ok_def)
  from DAENode_ok [OF mb(1,2) ri mb(3), of c mem "cf_relay_port c" "cf_bt_time c"] n c
  have wn: "wf_node n" and nid: "n_id n = i" "n_ip n = cf_relay_ip c" "n_port n = cf_relay_port c"
    by (auto simp: returns_def config_ok_def)
  have wf1: "wf_relay (init_DAEService r0 now)" unfolding r0 using wn nid heap by (intro init_DAEService_ok) auto
  have r1: "r_node (init_DAEService r0 now) = n" "r_config (init_DAEService r0 now) = c"
    "r_wire (init_DAEService r0 now) = []"
    by (simp_all add: r0 init_DAEService_def RandomSocket_def Let_def)
  from st have "run_node None (init_DAEService r0 now) (\<lambda>n. join n (cf_init_peers c)) = Some r"
    by (simp add: start_service_def r1)
  with n wn nid wf1 r1 show thesis by (intro that)
qed

text \<open>Its pool is empty and its counters are zero.\<close>

lemma started_pool:
  assumes c: "config_ok c" and heap: "\<forall>k. wf_mem (heap k)"
    and d: "DAEService mem heap rnd c = Some r0" and st: "start_service r0 now = Some r"
  shows "room 2 r" and "\<not> counters_full r"
proof -
  let ?r1 = "init_DAEService r0 now"
  obtain n where n: "wf_node n" "r_node ?r1 = n" and run: "run_node None ?r1 (\<lambda>n. join n (cf_init_peers c)) = Some r"
    by (rule started [OF c heap d st])
  have ip: "ip_ok (pp_ip (cf_init_peers c))" using c by (simp add: config_ok_def)
  from run n obtain n' as where j: "join n (cf_init_peers c) = Some (n', as)" "perform_actions None (?r1\<lparr>r_node := n'\<rparr>) as = Some r"
    by (auto simp: run_node_def elim!: bind_SomeE)
  have "list_all (action_ok (n_m n)) as" using join_ok [OF n(1) ip] j(1) by (auto simp: op_ok_def returns_def)
  from ring_actions_pool [OF j(2) this] have p: "r_pool r = r_pool ?r1" by simp
  have "wf_relay r" using service_starts [OF c heap, of mem rnd now] d st by (simp add: returns_def)
  then have m: "n_m (r_node r) < 32" by (simp add: wf_relay_def wf_node_def)
  show "room 2 r" "\<not> counters_full r"
    using p m by (auto simp: room_def counters_full_def init_DAEService_def Let_def ShufflePool_def ConcurrentRandomQueue_def
        random_queue_default_cap_def)
qed

lemma started_at:
  assumes c: "config_ok c" and heap: "\<forall>k. wf_mem (heap k)"
    and d: "DAEService mem heap rnd c = Some r0" and st: "start_service r0 now = Some r"
    and self: "(n_id (r_node r), n_ip (r_node r), n_port (r_node r)) \<in> M"
  shows "node_at M (r_node r)" and "\<forall>d \<in> set (r_wire r). packet_at M (dg_packet d)"
proof -
  let ?r1 = "init_DAEService r0 now"
  obtain i n where n: "DAENode mem (cf_ring_bits c) i (cf_relay_port c) (cf_relay_ip c) (cf_bt_time c) c = Some n"
    "wf_node n" and nid: "n_id n = i" "n_ip n = cf_relay_ip c" "n_port n = cf_relay_port c"
    and r1: "wf_relay ?r1" "r_node ?r1 = n" "r_wire ?r1 = []"
    and run: "run_node None ?r1 (\<lambda>n. join n (cf_init_peers c)) = Some r"
    by (rule started [OF c heap d st])
  from c have mb: "nat (cf_ring_bits c) < 32" "ip_ok (cf_relay_ip c)" "ip_ok (pp_ip (cf_init_peers c))"
    by (auto simp: config_ok_def)
  have fg: "\<forall>f \<in> set (n_finger_table n). fg_successor f = i \<and> fg_ip f = cf_relay_ip c \<and> fg_port f = cf_relay_port c"
    using new_fingers_ok [OF mb(1,2), of "[0..<nat (cf_ring_bits c)]" i "cf_relay_port c"] n(1)
    by (auto simp: DAENode_def returns_def list_all_iff split: if_splits elim!: bind_SomeE)
  have new: "n_predecessor n = - 1" "n_pos n = - 1" "n_successor_list n = []"
    using n(1) by (auto simp: DAENode_def split: if_splits elim!: bind_SomeE)
  note jo = join_ok [OF n(2) mb(3)]
  from run_node_ok [where f = "\<lambda>n. join n (cf_init_peers c)" and cur = None, OF r1(1)] jo run r1
  have "step_ok ?r1 r" by (simp add: returns_def)
  then have "same_self n (r_node r)" by (simp add: step_ok_def r1)
  with self nid have "(i, cf_relay_ip c, cf_relay_port c) \<in> M" by (simp add: same_self_def)
  with fg new nid have "node_at M n" by (auto simp: node_at_def)
  from run_node_at [where f = "\<lambda>n. join n (cf_init_peers c)", OF r1(1) _ _ run, of M] jo
    join_at [OF n(2) this mb(3)] r1
  have "step_at M ?r1 r" by simp
  then show "node_at M (r_node r)" "\<forall>d \<in> set (r_wire r). packet_at M (dg_packet d)"
    by (auto simp: step_at_def wire_at_def r1)
qed

text \<open>Starting a relay only adds a participant; every other step keeps them.\<close>

lemma members_start:
  assumes "nw_relays net a = None"
  shows "members (put_relay net a r) =
    insert (n_id (r_node r), n_ip (r_node r), n_port (r_node r)) (members net)"
proof -
  define self where "self r = (n_id (r_node r), n_ip (r_node r), n_port (r_node r))" for r :: relay
  have m: "members n = self ` ran (nw_relays n)" for n
    by (auto simp: members_def self_def ran_def image_def)
  show ?thesis using assms unfolding m put_relay_def by (simp add: self_def)
qed

lemma addresses_start:
  assumes ok: "addresses_ok net" and a: "nw_relays net a = None"
    and n: "node_at (members (put_relay net a r)) (r_node r)"
    and w: "\<forall>d \<in> set (r_wire r). packet_at (members (put_relay net a r)) (dg_packet d)"
  shows "addresses_ok (put_relay net a r)"
proof -
  have M: "members net \<subseteq> members (put_relay net a r)" by (auto simp: members_start [OF a])
  have "node_at (members (put_relay net a r)) (r_node r1)"
    if "((nw_relays net)(a \<mapsto> r)) b = Some r1" for b r1
  proof (cases "b = a")
    case True
    with that n show ?thesis by simp
  next
    case False
    with that ok have "node_at (members net) (r_node r1)" unfolding addresses_ok_def by (metis fun_upd_apply)
    then show ?thesis using M by (rule node_at_mono)
  qed
  moreover have "\<forall>d \<in> nw_sent net \<union> set (r_wire r). packet_at (members (put_relay net a r)) (dg_packet d)"
    using ok w packet_at_mono [OF _ M] unfolding addresses_ok_def by blast
  ultimately show ?thesis unfolding addresses_ok_def put_relay_def network.simps by blast
qed

lemma app_send_at:
  assumes wf: "wf_relay r" and n: "node_at M (r_node r)" and rm: "room 1 r" and ty: "external_id ty"
    and sz: "0 \<le> sz" "sz \<le> int body_cap" "sz \<le> int (length buf)"
    and s: "send_content_package (r_node r) False session sq ty d ck buf sz = Some as"
    and run: "perform_actions None r as = Some r'"
  shows "step_at M r r'"
proof -
  obtain a where a: "as = [a]" "ext_action_ok a" using app_send_ok(2) [OF wf rm ty sz s] by blast
  from a have "list_all (action_at M (r_node r)) as" by (cases a rule: ext_action_ok.cases) auto
  from perform_actions_at [OF wf n this _ _ run] a ext_is_external [OF a(2)] rm
  have w: "wire_at M r r'" by simp
  from app_send_ok(1) [OF wf rm ty sz s] run have "sent_ok 1 r r'" by (simp add: returns_def)
  then have "no_cnt (r_node r') = no_cnt (r_node r)" by (simp add: sent_ok_def)
  from node_at_no_cnt [OF this] n w show ?thesis by (simp add: step_at_def)
qed

lemma addresses_step:
  assumes net: "net_ok m net" and ok: "addresses_ok net" and step: "net_step m net net'"
  shows "addresses_ok net'"
  using step
proof (cases rule: net_step.cases)
  case (start c heap a mem rnd r0 now r)
  let ?M = "members (put_relay net a r)"
  have "(n_id (r_node r), n_ip (r_node r), n_port (r_node r)) \<in> ?M" by (simp add: members_start [OF start(6)])
  from started_at [OF start(2,4,7,8) this] addresses_start [OF ok start(6)] start(1) show ?thesis by simp
next
  case (deliver d r r')
  note r = net_okD(1-3) [OF net deliver(2)]
  from net_okD(4) [OF net deliver(3)] have w: "wire_packet (dg_packet d)" "index_ok (n_m (r_node r)) (dg_packet d)"
    using r(2) by (auto simp: wire_ok_def)
  from receive_ok [OF r(1) w deliver(4)] deliver(5) have s: "step_ok r r'" by (simp add: returns_def)
  from ok deliver(2,3) have "node_at (members net) (r_node r)" "packet_at (members net) (dg_packet d)"
    unfolding addresses_ok_def by blast+
  from receive_at [OF r(1) this(1) w(1) this(2) w(2) deliver(4,5)] addresses_put [OF ok deliver(2) s r(3)]
    deliver(1) show ?thesis by simp
next
  case (task a r k secs draws now r')
  note r = net_okD(1-3) [OF net task(2)]
  from returns_unless_SomeD [OF run_task_ok [OF r(1)] task(3)] have s: "step_ok r r'" .
  from ok task(2) have "node_at (members net) (r_node r)" unfolding addresses_ok_def by blast
  from run_task_at [OF r(1) this task(3)] addresses_put [OF ok task(2) s r(3)] task(1) show ?thesis by simp
next
  case (app_send a r ty sz buf session sq dest_id as r')
  note r = net_okD(1-3) [OF net app_send(2)]
  from app_send_ok(1) [OF r(1) app_send(3-8)] app_send(9) have s: "step_ok r r'"
    by (auto simp: returns_def intro: sent_step_ok)
  from ok app_send(2) have "node_at (members net) (r_node r)" unfolding addresses_ok_def by blast
  from app_send_at [OF r(1) this app_send(3-9)] addresses_put [OF ok app_send(2) s r(3)] app_send(1)
  show ?thesis by simp
next
  case (app_recv a r p q)
  note r = net_okD(1-3) [OF net app_recv(2)]
  let ?r = "r\<lparr>r_node := (r_node r)\<lparr>n_recv_list_user := q\<rparr>\<rparr>"
  from ok app_recv(2) have "node_at (members net) (r_node r)" unfolding addresses_ok_def by blast
  then have "step_at (members net) r ?r" by (intro step_at_node) (simp add: node_at_def)
  with addresses_put [OF ok app_recv(2) app_recv_ok [OF r(1) app_recv(3)] r(3)] app_recv(1)
  show ?thesis by simp
qed

interpretation addresses: invariant no_network "net_step m" "\<lambda>net. net_ok m net \<and> addresses_ok net" for m
  by unfold_locales
    (simp add: no_network_def net_ok_def addresses_ok_def, blast intro: net_ok_step addresses_step)

subsection \<open>A relay starts\<close>

text \<open>What a relay sends first: the join request to the configured peer.\<close>

lemma perform_join_first:
  assumes wf: "wf_relay r" and as: "list_all (action_ok (n_m (r_node r))) as"
    and run: "perform_actions cur r (Call (JoinFindSuccessor a f fp s si sp ix d) # as) = Some r'"
    and ok: "action_ok (n_m (r_node r)) (Call (JoinFindSuccessor a f fp s si sp ix d))"
  shows "\<exists>p ds. r_wire r' = r_wire r @ \<lparr>dg_ip = a, dg_port = fp mod 2 ^ 16, dg_packet = p\<rparr> # ds \<and>
    h_id p = internal_join_find_successor \<and> h_key_id p = d \<and> h_index p = ix"
proof -
  from run obtain r1 where r1: "join_find_successor r a f fp s si sp ix d = Some r1"
    and rest: "perform_actions cur r1 as = Some r'" by (auto elim!: bind_SomeE)
  from perform_ring_actions_ok [OF wf, of "[Call (JoinFindSuccessor a f fp s si sp ix d)]" None] ok r1
  have s: "sent_ok 0 r r1" by (simp add: returns_def)
  from perform_ring_actions_ok [OF sent_okD(1) [OF s], of as cur] as rest sent_okD(3) [OF s]
  obtain ds where ds: "r_wire r' = r_wire r1 @ ds" by (auto simp: returns_def sent_ok_def)
  obtain mem r2 where nm: "new_mem r = (mem, r2)" by (cases "new_mem r")
  then have w: "r_wire r2 = r_wire r" by (auto simp: new_mem_def)
  from r1 nm obtain p where p: "AnonymousPacket14 mem internal_join_find_successor
       s si a f fp s si sp s d sp ix True = Some p"
    and snd: "DAE_direct_send r2 (p\<lparr>h_size := 0\<rparr>) a fp = Some r1"
    by (auto simp: join_find_successor_def service_send_def elim!: bind_SomeE)
  from p have "h_id p = internal_join_find_successor" "h_key_id p = d" "h_index p = ix"
    "h_relay_dest_ip p = a" "h_relay_dest_port p = fp"
    by (auto simp: AnonymousPacket14_def bind_strncpy split: if_splits)
  with ds w DAE_direct_send_wire [OF snd] show ?thesis by (auto simp: on_wire_def)
qed

lemma join_first:
  assumes "join n j = Some (n', as)" and "n_ip n \<noteq> pp_ip j \<or> n_port n \<noteq> pp_port j"
  obtains bs where "as = Call (JoinFindSuccessor (pp_ip j) (pp_relay_id j) (pp_port j)
    (n_ip n) (n_id n) (n_port n) 0 (n_id n)) # bs"
  using assms by (auto simp: join_def join_with_help_def Let_def elim!: bind_SomeE)

lemma start_joins:
  assumes c: "config_ok c" and heap: "\<forall>k. wf_mem (heap k)"
    and d: "DAEService mem heap rnd c = Some r0" and st: "start_service r0 now = Some r"
    and other: "cf_relay_ip c \<noteq> pp_ip (cf_init_peers c) \<or> cf_relay_port c \<noteq> pp_port (cf_init_peers c)"
  shows "\<exists>p ds. r_wire r = \<lparr>dg_ip = pp_ip (cf_init_peers c), dg_port = pp_port (cf_init_peers c) mod 2 ^ 16,
      dg_packet = p\<rparr> # ds \<and> h_id p = internal_join_find_successor \<and> h_key_id p = n_id (r_node r) \<and> h_index p = 0"
proof -
  let ?r1 = "init_DAEService r0 now" and ?j = "cf_init_peers c"
  obtain n where wn: "wf_node n" and nid: "n_ip n = cf_relay_ip c" "n_port n = cf_relay_port c"
    and r1: "wf_relay ?r1" "r_node ?r1 = n" "r_wire ?r1 = []"
    and run: "run_node None ?r1 (\<lambda>n. join n ?j) = Some r"
    by (rule started [OF c heap d st])
  from c have "ip_ok (pp_ip ?j)" by (simp add: config_ok_def)
  note jo = join_ok [OF wn this]
  from run_node_ok [where f = "\<lambda>n. join n (cf_init_peers c)" and cur = None, OF r1(1)] jo run r1
  have "step_ok ?r1 r" by (simp add: returns_def)
  then have self: "n_id (r_node r) = n_id n" by (simp add: step_ok_def same_self_def r1)
  from run r1 obtain n' as where j: "join n ?j = Some (n', as)"
    and pa: "perform_actions None (?r1\<lparr>r_node := n'\<rparr>) as = Some r"
    by (auto simp: run_node_def elim!: bind_SomeE)
  from jo j have n': "wf_node n'" "same_self n n'" and ok: "list_all (action_ok (n_m n)) as"
    by (auto simp: op_ok_def returns_def)
  obtain bs where bs: "as = Call (JoinFindSuccessor (pp_ip ?j) (pp_relay_id ?j) (pp_port ?j)
      (n_ip n) (n_id n) (n_port n) 0 (n_id n)) # bs"
    by (rule join_first [OF j]) (use other nid in auto)
  have "wf_relay (?r1\<lparr>r_node := n'\<rparr>)" using wf_relay_node [OF r1(1)] n' r1(2) by simp
  from perform_join_first [OF this _ pa [unfolded bs]] ok n'(2) show ?thesis
    unfolding bs self by (simp add: r1(3) same_self_def)
qed

subsection \<open>A network with one relay\<close>

definition sample_config :: relay_config where
  "sample_config = (RelayConfig 0)\<lparr>cf_relay_ip := ''10.0.0.1'', cf_max_relay_id := 2 ^ 10\<rparr>"

lemma sample_config_ok: "config_ok sample_config"
  by (simp add: config_ok_def sample_config_def RelayConfig_def ip_ok_def ip_cap_def)

lemma sample_network:
  obtains net r where "reachable no_network (net_step 10) net"
    and "nw_relays net (''10.0.0.1'', 3010) = Some r" and "nw_sent net \<noteq> {}" and "room 2 r" and "\<not> counters_full r"
proof -
  define net0 where "net0 = \<lparr>nw_relays = Map.empty, nw_sent = {}\<rparr>"
  have heap: "\<forall>k. wf_mem (sample_mem)" by simp
  have "reachable no_network (net_step 10) net0"
    by (rule reach_init) (simp add: no_network_def net0_def)
  moreover obtain r0 r where r: "DAEService undefined (\<lambda>k. sample_mem) 0 sample_config = Some r0"
    "start_service r0 0 = Some r"
    using service_starts [OF sample_config_ok, of "\<lambda>k. sample_mem" undefined 0 0] unfolding returns_def
    by (auto elim!: bind_SomeE)
  then have "net_step 10 net0 (put_relay net0 (''10.0.0.1'', 3010) r)"
    by (intro start [OF sample_config_ok _ heap])
      (simp_all add: sample_config_def RelayConfig_def net0_def)
  ultimately have reach: "reachable no_network (net_step 10) (put_relay net0 (''10.0.0.1'', 3010) r)"
    by (rule reach_step)
  have "r_wire r \<noteq> []"
    using start_joins [OF sample_config_ok heap r] by (auto simp: sample_config_def RelayConfig_def)
  with reach started_pool [OF sample_config_ok heap r] show thesis
    by (intro that [of "put_relay net0 (''10.0.0.1'', 3010) r"]) (simp_all add: put_relay_def)
qed

subsection \<open>Properties of every reachable network\<close>

text \<open>
  C4. Bounds in the whole system: in every network that relays with sane configurations can reach, whatever is lost,
  duplicated, delayed or reordered, every relay handles every datagram ever sent for which its pool has room for two
  packets (the number a dead drop may queue), and every timer that is due while the counter of its shuffle pool has room
  for a batch, without an index outside an array, a copy longer than its buffer, a shift or a signed sum out of
  range or a missing container element, and stays well formed. The handlers and timers of a relay run one at a time.
  What the model does not check is named in the root theory: the missing \<open>return\<close> of \<open>find_successor\<close>, the
  deallocation after a one-shot timer, and the races of the receiving thread with the event loop.
\<close>

theorem network_relays_in_bounds:
  assumes "reachable no_network (net_step m) net" and "nw_relays net a = Some r"
  shows "(\<forall>k secs draws now. \<not> counters_full r \<longrightarrow> returns (run_task r k secs draws now) wf_relay) \<and>
    (\<forall>d \<in> nw_sent net. room 2 r \<longrightarrow> returns (receive r (dg_packet d)) wf_relay)"
proof (intro conjI allI ballI impI)
  note ok = relays.reachable_inv [OF assms(1)]
  note r = net_okD(1-3) [OF ok assms(2)]
  fix k secs draws now assume "\<not> counters_full r"
  from returns_unlessD [OF run_task_ok [OF r(1)] this] show "returns (run_task r k secs draws now) wf_relay"
    by (rule returns_mono) (simp add: step_ok_def)
next
  note ok = relays.reachable_inv [OF assms(1)]
  note r = net_okD(1-3) [OF ok assms(2)]
  fix d assume "d \<in> nw_sent net" and rm: "room 2 r"
  with net_okD(4) [OF ok] r(2) have "wire_packet (dg_packet d)" "index_ok (n_m (r_node r)) (dg_packet d)"
    by (auto simp: wire_ok_def)
  from receive_ok [OF r(1) this rm] show "returns (receive r (dg_packet d)) wf_relay"
    by (rule returns_mono) (simp add: step_ok_def)
qed

theorem network_relays_in_bounds_witness:
  "\<exists>(net :: network) r. nw_relays net (''10.0.0.1'', 3010) = Some r \<and> nw_sent net \<noteq> {} \<and> room 2 r \<and> \<not> counters_full r \<and>
     (\<forall>k secs draws now. returns (run_task r k secs draws now) wf_relay) \<and>
     (\<forall>d \<in> nw_sent net. returns (receive r (dg_packet d)) wf_relay)"
proof -
  obtain net r where n: "reachable no_network (net_step 10) net" "nw_relays net (''10.0.0.1'', 3010) = Some r"
    "nw_sent net \<noteq> {}" "room 2 r" "\<not> counters_full r"
    by (rule sample_network)
  note safe = network_relays_in_bounds [OF n(1,2)]
  show ?thesis by (rule exI [of _ net], rule exI [of _ r]) (use n safe in simp)
qed

text \<open>
  Routing tables stay truthful while the handlers of a relay run one at a time: in every reachable network each finger,
  predecessor, successor candidate and backup successor a relay holds is the identifier of a participant together with
  the address of that same participant.
\<close>

lemma network_tables_truthful:
  assumes "reachable no_network (net_step m) net" and "nw_relays net a = Some r"
  shows "node_at (members net) (r_node r)"
  using addresses.reachable_inv [OF assms(1)] assms(2) unfolding addresses_ok_def by blast

text \<open>
  C14. What relays put on the network fits what relays read from it: every datagram of a reachable
  network has a size that fits the 1024-byte packet, addresses that fit their 20-byte
  fields, and, for the messages whose index the receiver uses as an array position, an index within
  the finger table or the backup list. (The handlers of a relay run one at a time.)
\<close>

theorem network_datagrams_ok:
  assumes "reachable no_network (net_step m) net" and "d \<in> nw_sent net"
  shows "wire_packet (dg_packet d) \<and> index_ok m (dg_packet d)"
  using net_okD(4) [OF relays.reachable_inv [OF assms(1)] assms(2)] by (simp add: wire_ok_def)

theorem network_datagrams_ok_witness:
  "\<exists>d :: datagram. wire_packet (dg_packet d) \<and> index_ok 10 (dg_packet d)"
proof -
  obtain net d where n: "reachable no_network (net_step 10) net" "d \<in> nw_sent net"
    by (rule sample_network) blast
  from network_datagrams_ok [OF n] show ?thesis by blast
qed

text \<open>
  A configured relay starts: \<open>DAEService\<close> and \<open>start_service\<close> succeed on every sane configuration and
  any fresh memory, give a well-formed relay at the configured address whose identifier is on the
  ring, and, unless the relay is itself the initial peer, its first datagram is the join request for
  its own identifier, sent to that peer.
\<close>

lemma relay_starts_and_joins:
  assumes c: "config_ok c" and heap: "\<forall>k. wf_mem (heap k)"
  shows "returns (do { r \<leftarrow> DAEService mem heap rnd c; start_service r now }) (\<lambda>r.
    wf_relay r \<and> n_ip (r_node r) = cf_relay_ip c \<and> n_port (r_node r) = cf_relay_port c \<and>
    on_ring (nat (cf_ring_bits c)) (n_id (r_node r)) \<and>
    ((cf_relay_ip c, cf_relay_port c) \<noteq> (pp_ip (cf_init_peers c), pp_port (cf_init_peers c)) \<longrightarrow>
      (\<exists>p ds. r_wire r = \<lparr>dg_ip = pp_ip (cf_init_peers c), dg_port = pp_port (cf_init_peers c) mod 2 ^ 16,
         dg_packet = p\<rparr> # ds \<and> h_id p = internal_join_find_successor \<and> h_key_id p = n_id (r_node r))))"
proof -
  from service_starts [OF assms, of mem rnd now] obtain r0 r where
    r: "DAEService mem heap rnd c = Some r0" "start_service r0 now = Some r"
    and w: "wf_relay r" "n_ip (r_node r) = cf_relay_ip c" "n_port (r_node r) = cf_relay_port c"
      "get_dae_node_id c rnd = Some (n_id (r_node r))"
    by (auto simp: returns_def elim!: bind_SomeE)
  from get_dae_node_id_ok [OF c, of rnd] w(4) have "on_ring (nat (cf_ring_bits c)) (n_id (r_node r))"
    by (simp add: returns_def)
  moreover have "\<exists>p ds. r_wire r = \<lparr>dg_ip = pp_ip (cf_init_peers c),
      dg_port = pp_port (cf_init_peers c) mod 2 ^ 16, dg_packet = p\<rparr> # ds \<and>
      h_id p = internal_join_find_successor \<and> h_key_id p = n_id (r_node r)"
    if "(cf_relay_ip c, cf_relay_port c) \<noteq> (pp_ip (cf_init_peers c), pp_port (cf_init_peers c))"
    using start_joins [OF c heap r] that by auto
  ultimately show ?thesis using r w by simp
qed

lemma sample_relay_starts:
  "config_ok sample_config \<and> (\<forall>mem rnd now.
     returns (do { r \<leftarrow> DAEService mem (\<lambda>k. sample_mem) rnd sample_config; start_service r now })
       (\<lambda>r. wf_relay r \<and> (\<exists>p ds. r_wire r = \<lparr>dg_ip = ''10.22.1.16'', dg_port = 3010, dg_packet = p\<rparr> # ds \<and>
          h_id p = internal_join_find_successor)))"
proof (intro conjI allI sample_config_ok)
  fix mem rnd now
  have "\<forall>k::nat. wf_mem sample_mem" by simp
  from relay_starts_and_joins [OF sample_config_ok this, of mem rnd now]
  show "returns (do { r \<leftarrow> DAEService mem (\<lambda>k. sample_mem) rnd sample_config; start_service r now })
       (\<lambda>r. wf_relay r \<and> (\<exists>p ds. r_wire r = \<lparr>dg_ip = ''10.22.1.16'', dg_port = 3010, dg_packet = p\<rparr> # ds \<and>
          h_id p = internal_join_find_successor))"
    by (rule returns_mono) (auto simp: sample_config_def RelayConfig_def)
qed

end
