(* ===== verification/Startup.thy ===== *)
theory Startup
  imports AnyLine Network
begin

text \<open>
  The process of a relay from its command line to its first datagram: turning into a daemon
  (src/src/utils/Daemon.cpp) and \<open>main\<close> (src/src/main.cpp). What \<open>fork\<close>, \<open>setsid\<close> and \<open>fcntl\<close> return is an argument;
  a process is what the system keeps for it as far as the code changes it.
\<close>

subsection \<open>The daemon\<close>

datatype std_stream = StdIn | StdOut | StdErr

datatype signal = SIGCHLD | SIGHUP

record process =
  ps_leader :: bool
  ps_ignored :: "signal list"
  ps_umask :: nat
  ps_open :: "std_stream list"

record daemon_calls =
  dc_fork1 :: int
  dc_setsid :: int
  dc_fork2 :: int

definition EXIT_SUCCESS :: int where
  "EXIT_SUCCESS = 0"

definition EXIT_FAILURE :: int where
  "EXIT_FAILURE = 1"

text \<open>The status the process exits with, or the process that goes on. A child of the second fork leads no session.\<close>

definition run_as_daemon :: "daemon_calls \<Rightarrow> process \<Rightarrow> int + process" where
  "run_as_daemon calls p =
     (if dc_fork1 calls < 0 then Inl EXIT_FAILURE
      else if dc_fork1 calls > 0 then Inl EXIT_SUCCESS
      else if dc_setsid calls < 0 then Inl EXIT_FAILURE
      else let p1 = p\<lparr>ps_leader := True, ps_ignored := ps_ignored p @ [SIGCHLD, SIGHUP]\<rparr>
           in if dc_fork2 calls < 0 then Inl EXIT_FAILURE
              else if dc_fork2 calls > 0 then Inl EXIT_SUCCESS
              else Inr (p1\<lparr>ps_leader := False, ps_umask := 0,
                           ps_open := filter (\<lambda>s. s \<notin> {StdIn, StdOut, StdErr}) (ps_open p1)\<rparr>))"

subsection \<open>The main function\<close>

datatype log_level = INFO | ERROR | FATAL

definition log_destinations :: "relay_config \<Rightarrow> (log_level \<times> string) list" where
  "log_destinations config =
     (let filename = cf_relay_ip config @ ''-'' @ int_string (cf_relay_port config) @ ''.log''
      in [(INFO, filename @ ''.INFO''), (ERROR, filename @ ''.ERROR''), (FATAL, filename @ ''.FATAL'')])"

text \<open>How \<open>main\<close> ends or is left sleeping: an exception that nothing catches or undefined behaviour, an exit of a
  parent process, or a relay that runs.\<close>

datatype main_end =
    Aborted
  | Exited int
  | Running "(log_level \<times> string) list" process relay

record environment =
  en_key0 :: int
  en_seed0 :: int
  en_stold :: "string \<Rightarrow> int option"
  en_calls :: daemon_calls
  en_process :: process
  en_mem :: dae_node
  en_heap :: "nat \<Rightarrow> anonymous_packet"
  en_random :: u32
  en_now :: int

definition main_relay :: "environment \<Rightarrow> string list \<Rightarrow> main_end" where
  "main_relay env argv =
     (case config_from_argv (en_key0 env) (en_seed0 env) (en_stold env) argv of
        None \<Rightarrow> Aborted
      | Some config \<Rightarrow>
          (case if cf_daemon config \<noteq> 0 then run_as_daemon (en_calls env) (en_process env) else Inr (en_process env) of
             Inl status \<Rightarrow> Exited status
           | Inr p \<Rightarrow>
               (case do { r \<leftarrow> DAEService (en_mem env) (en_heap env) (en_random env) config; start_service r (en_now env) } of
                  None \<Rightarrow> Aborted
                | Some r \<Rightarrow> Running (log_destinations config) p r)))"

subsection \<open>Sockets in the event loop\<close>

definition O_NONBLOCK :: int where
  "O_NONBLOCK = 0x800"

text \<open>\<open>getfl\<close> is what \<open>fcntl\<close> returns for the flags, \<open>setfl\<close> what it returns when they are set.\<close>

definition setnonblock :: "int \<Rightarrow> (int \<Rightarrow> int) \<Rightarrow> int" where
  "setnonblock getfl setfl =
     (if getfl < 0 then getfl else if setfl (or getfl O_NONBLOCK) < 0 then - 1 else 0)"

definition add_socket_task :: "int \<Rightarrow> (int \<Rightarrow> int) \<Rightarrow> int \<Rightarrow> 'f \<Rightarrow> (int \<times> 'f) list \<Rightarrow> bool \<times> (int \<times> 'f) list" where
  "add_socket_task getfl setfl sock f events =
     (if setnonblock getfl setfl < 0 then (False, events) else (True, events @ [(sock, f)]))"

lemma nonblock_task:
  "add_socket_task getfl setfl sock f events = (True, events') \<Longrightarrow>
     0 \<le> getfl \<and> 0 \<le> setfl (or getfl O_NONBLOCK) \<and> bit (or getfl O_NONBLOCK) 11 \<and> events' = events @ [(sock, f)]"
  by (auto simp: add_socket_task_def setnonblock_def O_NONBLOCK_def bit_or_iff split: if_splits)

subsection \<open>From the command line to the first datagram\<close>

text \<open>Of the processes the two forks leave, only the last goes on; it has no terminal and no standard streams.\<close>

lemma run_as_daemon_iff:
  "run_as_daemon calls p = Inr p' \<longleftrightarrow> dc_fork1 calls = 0 \<and> 0 \<le> dc_setsid calls \<and> dc_fork2 calls = 0 \<and>
     p' = p\<lparr>ps_leader := False, ps_ignored := ps_ignored p @ [SIGCHLD, SIGHUP], ps_umask := 0, ps_open := []\<rparr>"
proof -
  have "filter (\<lambda>s. s \<notin> {StdIn, StdOut, StdErr}) ss = []" for ss
    by (auto simp: filter_empty_conv) (metis std_stream.exhaust)
  then show ?thesis by (auto simp: run_as_daemon_def Let_def simp del: insert_iff)
qed

text \<open>
  C13. From a command line to the first datagram: a line of options in any order and spelling whose configuration is
  sane starts a well-formed relay at the configured address, as a daemon when it is asked for and the system calls
  succeed; its identifier is on the ring and, unless it is itself the initial peer, its first datagram is the join
  request for that identifier, sent to that peer.
\<close>

theorem main_starts:
  assumes "distinct (map fst args)" "list_all relay_arg_ok args" "map (relay_value (en_stold env)) args = map Some opts"
    and config: "init_from_cmd (en_key0 env) (en_seed0 env) (Some opts) = Some c" "config_ok c"
    and heap: "\<forall>k. wf_mem (en_heap env k)"
    and daemon: "cf_daemon c \<noteq> 0 \<longrightarrow> dc_fork1 (en_calls env) = 0 \<and> 0 \<le> dc_setsid (en_calls env) \<and> dc_fork2 (en_calls env) = 0"
  shows "\<exists>p r. main_relay env (prog # render_line (map relay_item args)) = Running (log_destinations c) p r \<and>
    wf_relay r \<and> n_ip (r_node r) = cf_relay_ip c \<and> n_port (r_node r) = cf_relay_port c \<and>
    on_ring (nat (cf_ring_bits c)) (n_id (r_node r)) \<and> (cf_daemon c \<noteq> 0 \<longrightarrow> ps_open p = []) \<and>
    ((cf_relay_ip c, cf_relay_port c) \<noteq> (pp_ip (cf_init_peers c), pp_port (cf_init_peers c)) \<longrightarrow>
      (\<exists>pk ds. r_wire r = \<lparr>dg_ip = pp_ip (cf_init_peers c), dg_port = pp_port (cf_init_peers c) mod 2 ^ 16,
         dg_packet = pk\<rparr> # ds \<and> h_id pk = internal_join_find_successor \<and> h_key_id pk = n_id (r_node r)))"
proof -
  have c: "config_from_argv (en_key0 env) (en_seed0 env) (en_stold env) (prog # render_line (map relay_item args)) = Some c"
    using relay_command_line [OF assms(1-3)] config(1) by simp
  have "\<exists>p. (if cf_daemon c \<noteq> 0 then run_as_daemon (en_calls env) (en_process env) else Inr (en_process env)) = Inr p \<and>
      (cf_daemon c \<noteq> 0 \<longrightarrow> ps_open p = [])"
    using daemon by (auto simp: run_as_daemon_iff)
  then obtain p where p: "(if cf_daemon c \<noteq> 0 then run_as_daemon (en_calls env) (en_process env) else Inr (en_process env)) = Inr p"
    "cf_daemon c \<noteq> 0 \<longrightarrow> ps_open p = []" by blast
  note started = relay_starts_and_joins [OF config(2) heap, of "en_mem env" "en_random env" "en_now env"]
  then obtain r where r: "do { r \<leftarrow> DAEService (en_mem env) (en_heap env) (en_random env) c; start_service r (en_now env) } = Some r"
    unfolding returns_def by blast
  show ?thesis
    using started p(2) by (intro exI [of _ p] exI [of _ r]) (simp add: main_relay_def c p(1) r)
qed

theorem main_starts_witness:
  "\<forall>mem rnd now. \<exists>p r.
     main_relay \<lparr>en_key0 = 0, en_seed0 = 0, en_stold = (\<lambda>_. None), en_calls = \<lparr>dc_fork1 = 12, dc_setsid = 0, dc_fork2 = 0\<rparr>,
       en_process = \<lparr>ps_leader = False, ps_ignored = [], ps_umask = 18, ps_open = [StdIn]\<rparr>, en_mem = mem,
       en_heap = (\<lambda>k. sample_mem), en_random = rnd, en_now = now\<rparr> [''relay'', ''--ip=10.0.0.1''] =
     Running (log_destinations sample_config) p r \<and> wf_relay r \<and>
     (\<exists>pk ds. r_wire r = \<lparr>dg_ip = ''10.22.1.16'', dg_port = 3010, dg_packet = pk\<rparr> # ds \<and> h_id pk = internal_join_find_successor)"
proof (intro allI)
  fix mem :: dae_node and rnd :: u32 and now :: int
  let ?env = "\<lparr>en_key0 = 0, en_seed0 = 0, en_stold = (\<lambda>_. None), en_calls = \<lparr>dc_fork1 = 12, dc_setsid = 0, dc_fork2 = 0\<rparr>,
       en_process = \<lparr>ps_leader = False, ps_ignored = [], ps_umask = 18, ps_open = [StdIn]\<rparr>, en_mem = mem,
       en_heap = (\<lambda>k. sample_mem), en_random = rnd, en_now = now\<rparr>"
  let ?args = "[(0, LongEq, ''10.0.0.1'')] :: relay_arg list"
  have "map (relay_value (\<lambda>_. None)) ?args = map Some [OptIp ''10.0.0.1'']" by code_simp
  then have v: "map (relay_value (en_stold ?env)) ?args = map Some [OptIp ''10.0.0.1'']" by simp
  have l: "render_line (map relay_item ?args) = [''--ip=10.0.0.1'']" by code_simp
  have c: "init_from_cmd (en_key0 ?env) (en_seed0 ?env) (Some [OptIp ''10.0.0.1'']) = Some sample_config"
    by (simp add: init_from_cmd_def shl_one_def RelayConfig_def sample_config_def)
  have "\<forall>k. wf_mem (en_heap ?env k)" by simp
  from main_starts [OF _ _ v c sample_config_ok this, of "''relay''"] obtain p r where
    "main_relay ?env (''relay'' # render_line (map relay_item ?args)) = Running (log_destinations sample_config) p r"
    "wf_relay r" "\<exists>pk ds. r_wire r = \<lparr>dg_ip = ''10.22.1.16'', dg_port = 3010, dg_packet = pk\<rparr> # ds \<and> h_id pk = internal_join_find_successor"
    by (auto simp: spelling_ok_def sample_config_def RelayConfig_def)
  then show "\<exists>p r. main_relay ?env [''relay'', ''--ip=10.0.0.1''] = Running (log_destinations sample_config) p r \<and> wf_relay r \<and>
     (\<exists>pk ds. r_wire r = \<lparr>dg_ip = ''10.22.1.16'', dg_port = 3010, dg_packet = pk\<rparr> # ds \<and> h_id pk = internal_join_find_successor)"
    unfolding l by blast
qed

text \<open>Nothing catches the call for help: \<open>--help\<close> aborts the process.\<close>

lemma help_aborts: "main_relay env [prog, ''--help''] = Aborted"
proof -
  let ?app = "relay_cli (en_stold env)" and ?items = "[LongFlag 0 ''help'']"
  have "valid_name_string ''help''" by code_simp
  then have "list_all (item_ok ?app) ?items"
    by (simp add: long_ok_def relay_find) (simp add: relay_cli_def help_option_def Option0_def get_items_expected_def)
  moreover have "line_outcome ?app ?items = Inl CallForHelp"
  proof -
    have "option_outcome (ca_options ?app ! j) (results_of ?items j) = Inr []" for j
      by (auto simp: option_outcome_def relay_cli_def help_option_def Option0_def)
    then show ?thesis
      using first_error_Inr [where g = "\<lambda>_. []" and f = "\<lambda>j. option_outcome (ca_options ?app ! j) (results_of ?items j)"]
      by (simp add: line_outcome_def) (simp add: help_asked_def relay_cli_def)
  qed
  ultimately have "relay_parse (en_stold env) [prog, ''--help''] = Inl CallForHelp"
    using parse_plain_line [OF relay_plain relay_fresh, of "en_stold env" ?items prog]
    by (simp add: relay_parse_def relay_app_eq render_line_def)
  then show ?thesis by (simp add: main_relay_def config_from_argv_def init_from_cmd_def)
qed

end
