(* ===== verification/Delivery.thy ===== *)
theory Delivery
  imports Dispatch
begin

text \<open>
  No application message is lost inside a relay. \<open>held\<close> is everything other than dummies that a relay
  has taken over: what waits in its pool and what it has put on the wire. The locale
  \<open>fuzzing_pool\<close> is the contract of the classes behind the \<open>FuzzingPool\<close> interface
  (src/src/obfuscation); ShufflePool, DirectPool and the dispatch between them interpret it. The
  properties follow the messages through routing, batches and the dead-drop exchange.
\<close>

subsection \<open>What a relay holds\<close>

definition pooled :: "relay \<Rightarrow> anonymous_packet multiset" where
  "pooled r = (case r_pool r of Some (Shuffle sp) \<Rightarrow> pool_items sp | _ \<Rightarrow> {#})"

definition held :: "relay \<Rightarrow> anonymous_packet multiset" where
  "held r = real_packets (r_wire r) + pooled r"

text \<open>The packets a pool can place: for the address of a finger or of the host itself.\<close>

definition accepts :: "relay \<Rightarrow> anonymous_packet \<Rightarrow> bool" where
  "accepts r p \<longleftrightarrow> (\<exists>f \<in> set (n_finger_table (r_node r)). goes_to p f) \<or>
     (h_relay_dest_ip p = r_host r \<and> h_relay_dest_port p = r_port r)"

text \<open>A packet taken over by a relay.\<close>

definition takes :: "anonymous_packet \<Rightarrow> relay \<Rightarrow> relay \<Rightarrow> bool" where
  "takes p r r' \<longleftrightarrow> sent_ok 1 r r' \<and> held r' = add_mset (on_wire p) (held r)"

lemma held_node [simp]: "held (r\<lparr>r_node := n\<rparr>) = held r"
  by (simp add: held_def pooled_def)

lemma accepts_cong:
  "no_cnt (r_node r') = no_cnt (r_node r) \<Longrightarrow> r_host r' = r_host r \<Longrightarrow> r_port r' = r_port r \<Longrightarrow>
     accepts r' p = accepts r p"
  using no_cnt_eqD(5) [of "r_node r'" "r_node r"] by (simp add: accepts_def)

lemma accepts_sent: "sent_ok k r r' \<Longrightarrow> accepts r' p = accepts r p"
  by (rule accepts_cong) (simp_all add: sent_ok_def)

subsection \<open>The contract of a pool\<close>

fun send_all :: "(relay \<Rightarrow> anonymous_packet \<Rightarrow> relay option) \<Rightarrow> relay \<Rightarrow> anonymous_packet list \<Rightarrow> relay option" where
  "send_all send r [] = Some r"
| "send_all send r (p # ps) = do { r' \<leftarrow> send r p; send_all send r' ps }"

locale fuzzing_pool =
  fixes send :: "relay \<Rightarrow> anonymous_packet \<Rightarrow> relay option"
    and serves :: "relay \<Rightarrow> bool"
  assumes send_takes: "serves r \<Longrightarrow> wf_relay r \<Longrightarrow> app_packet p \<Longrightarrow> accepts r p \<Longrightarrow> room 1 r \<Longrightarrow>
      returns (send r p) (\<lambda>r'. serves r' \<and> takes p r r')"
begin

lemma send_all_takes:
  "serves r \<Longrightarrow> wf_relay r \<Longrightarrow> \<forall>p \<in> set ps. app_packet p \<and> accepts r p \<Longrightarrow> room (length ps) r \<Longrightarrow>
     returns (send_all send r ps) (\<lambda>r'. wf_relay r' \<and> held r' = held r + mset (map on_wire ps))"
proof (induction ps arbitrary: r)
  case (Cons p ps)
  have "room 1 r" using Cons.prems(4) room_mono_add [of 1 "length ps" r] by simp
  then have one: "returns (send r p) (\<lambda>r'. serves r' \<and> takes p r r')"
    using Cons.prems by (intro send_takes) auto
  show ?case
    unfolding send_all.simps
  proof (rule returns_bind [OF one])
    fix r1 assume r1: "serves r1 \<and> takes p r r1"
    then have s: "sent_ok 1 r r1" and h: "held r1 = add_mset (on_wire p) (held r)"
      by (auto simp: takes_def)
    have "returns (send_all send r1 ps) (\<lambda>r'. wf_relay r' \<and> held r' = held r1 + mset (map on_wire ps))"
    proof (rule Cons.IH)
      show "\<forall>q \<in> set ps. app_packet q \<and> accepts r1 q" using Cons.prems(3) by (simp add: accepts_sent [OF s])
      show "room (length ps) r1" using sent_okD(4) [OF s, of "length ps"] Cons.prems(4) by simp
    qed (use r1 sent_okD(1) [OF s] in auto)
    then show "returns (send_all send r1 ps) (\<lambda>r'. wf_relay r' \<and> held r' = held r + mset (map on_wire (p # ps)))"
      by (rule returns_mono) (simp add: h)
  qed
qed simp

end

subsection \<open>The pools keep the contract\<close>

lemma app_not_dummy: "app_packet p \<Longrightarrow> h_id p \<noteq> dummy_message"
  by (auto simp: app_packet_def external_id_def message_defs)

lemma real_packets_one:
  "h_id p \<noteq> dummy_message \<Longrightarrow> real_packets [\<lparr>dg_ip = a, dg_port = b, dg_packet = on_wire p\<rparr>] = {#on_wire p#}"
  by (simp add: real_packets_def on_wire_def)

lemma direct_send_takes:
  assumes "wf_relay r" and "app_packet p"
  shows "returns (DAE_direct_send r p a b) (\<lambda>r'. r_pool r' = r_pool r \<and> takes p r r')"
proof -
  from app_packet_direct [OF assms, of a b] obtain r' where
    r': "DAE_direct_send r p a b = Some r'" and s: "sent_ok 0 r r'" by (auto simp: returns_def)
  note w = DAE_direct_send_wire [OF r']
  have "held r' = add_mset (on_wire p) (held r)"
    using w real_packets_one [OF app_not_dummy [OF assms(2)]] by (simp add: held_def pooled_def)
  with r' w sent_ok_Suc [OF s] show ?thesis by (simp add: takes_def)
qed

lemma pool_items_push:
  assumes "pool_ok m (Shuffle sp)" and "i < m" and "crq_push (sp_package_pool sp ! i) p = Some q'"
  shows "pool_items (sp\<lparr>sp_package_pool := (sp_package_pool sp)[i := q']\<rparr>) = add_mset (on_wire p) (pool_items sp)"
proof -
  let ?qs = "sp_package_pool sp"
  from crq_push_ok [OF queue_of_pool(2) [OF assms(1,2)] assms(3)]
  have "crq_items q' = crq_items (?qs ! i) + {#p#}" by simp
  from assms(1,2) this have "sum_list (map crq_items (?qs[i := q'])) =
      sum_list (map crq_items (?qs[i := q', i := ?qs ! i])) + {#p#}"
    by (intro sum_list_update_mset) auto
  then show ?thesis using assms(1,2) by (simp add: pool_items_def)
qed

lemma ShufflePool_send_takes:
  assumes wf: "wf_relay r" and sp: "r_pool r = Some (Shuffle sp)" and p: "app_packet p"
    and acc: "accepts r p" and rm: "room 1 r"
  shows "returns (ShufflePool_send r sp p) (\<lambda>r'. (\<exists>sp'. r_pool r' = Some (Shuffle sp')) \<and> takes p r r')"
proof -
  let ?m = "n_m (r_node r)" and ?ft = "n_finger_table (r_node r)"
  from wf sp have pool: "pool_ok ?m (Shuffle sp)" and len: "length ?ft = ?m"
    by (auto simp: wf_relay_def wf_node_def)
  then have m: "sp_m sp = ?m" by simp
  have hit: "finger_for (r_node r) p [0..<sp_m sp] = Some (find (\<lambda>i. goes_to p (?ft ! i)) [0..<?m])"
    using m len by (simp add: finger_for_find)
  from ShufflePool_send_ok [OF wf sp p rm] obtain r' where
    r': "ShufflePool_send r sp p = Some r'" and s: "sent_ok 1 r r'" by (auto simp: returns_def)
  show ?thesis
  proof (cases "find (\<lambda>i. goes_to p (?ft ! i)) [0..<?m]")
    case (Some i)
    from find_SomeD [OF this] have i: "i < ?m" by simp
    from r' hit Some queue_of_pool(1) [OF pool i] obtain q' where
      q': "crq_push (sp_package_pool sp ! i) p = Some q'"
      and eq: "r' = r\<lparr>r_pool := Some (Shuffle (sp\<lparr>sp_package_pool := (sp_package_pool sp)[i := q']\<rparr>))\<rparr>"
      by (auto simp: ShufflePool_send_def split: if_splits elim!: bind_SomeE)
    have "held r' = add_mset (on_wire p) (held r)"
      unfolding eq using pool_items_push [OF pool i q'] sp by (simp add: held_def pooled_def)
    with r' s eq show ?thesis by (simp add: takes_def)
  next
    case None
    then have "\<not> (\<exists>f \<in> set ?ft. goes_to p f)" using len by (auto simp: find_None_iff in_set_conv_nth)
    with acc have self: "h_relay_dest_ip p = r_host r" "h_relay_dest_port p = r_port r"
      by (auto simp: accepts_def)
    have "returns (DAE_direct_send r p (r_host r) (r_port r)) (\<lambda>r'. (\<exists>sp'. r_pool r' = Some (Shuffle sp')) \<and> takes p r r')"
      using direct_send_takes [OF wf p] by (rule returns_mono) (simp add: sp)
    with hit None self show ?thesis by (simp add: ShufflePool_send_def)
  qed
qed

interpretation shuffle: fuzzing_pool
  "\<lambda>r p. case r_pool r of Some (Shuffle sp) \<Rightarrow> ShufflePool_send r sp p | _ \<Rightarrow> None"
  "\<lambda>r. \<exists>sp. r_pool r = Some (Shuffle sp)"
proof unfold_locales
  fix r p
  assume "\<exists>sp. r_pool r = Some (Shuffle sp)" and p: "wf_relay r" "app_packet p" "accepts r p" "room 1 r"
  then obtain sp where sp: "r_pool r = Some (Shuffle sp)" by blast
  from ShufflePool_send_takes [OF p(1) sp p(2-)]
  show "returns (case r_pool r of Some (Shuffle sp) \<Rightarrow> ShufflePool_send r sp p | _ \<Rightarrow> None)
      (\<lambda>r'. (\<exists>sp. r_pool r' = Some (Shuffle sp)) \<and> takes p r r')" by (simp add: sp)
qed

interpretation direct: fuzzing_pool DirectPool_send "\<lambda>r. \<exists>rate. r_pool r = Some (Direct rate)"
proof unfold_locales
  fix r p
  assume d: "\<exists>rate. r_pool r = Some (Direct rate)" and "wf_relay r" "app_packet p"
  from direct_send_takes [OF this(2,3), of "[]" 0]
  show "returns (DirectPool_send r p) (\<lambda>r'. (\<exists>rate. r_pool r' = Some (Direct rate)) \<and> takes p r r')"
    unfolding DirectPool_send_def by (rule returns_mono) (use d in auto)
qed

interpretation pool: fuzzing_pool "\<lambda>r p. safe_send r p a b" "\<lambda>r. True" for a b
proof unfold_locales
  fix r p
  assume p: "wf_relay r" "app_packet p" "accepts r p" "room 1 r"
  then obtain pl where pl: "r_pool r = Some pl" by (auto simp: wf_relay_def)
  show "returns (safe_send r p a b) (\<lambda>r'. True \<and> takes p r r')"
  proof (cases pl)
    case (Shuffle sp)
    with pl shuffle.send_takes [OF _ p] show ?thesis
      by (auto simp: safe_send_def elim: returns_mono)
  next
    case (Direct rate)
    with pl direct.send_takes [OF _ p] show ?thesis
      by (auto simp: safe_send_def elim: returns_mono)
  qed
qed

subsection \<open>Application messages\<close>

text \<open>The packet that carries an application message: what its header says and what is in it.\<close>

definition carries ::
  "anonymous_packet \<Rightarrow> u64 \<Rightarrow> ring_id \<Rightarrow> ring_id \<Rightarrow> int \<Rightarrow> int \<Rightarrow> byte list \<Rightarrow> bool" where
  "carries p ty dest_id client_key session sq ct \<longleftrightarrow> h_id p = ty \<and> h_key_id p = dest_id \<and>
     h_relay_reply_id p = client_key \<and> h_session_id p = session \<and> h_index p = sq \<and> content p = ct"

lemma content_on_wire [simp]: "content (on_wire p) = content p"
  by (simp add: content_def on_wire_def payload_def payload_size_def)

lemma carries_on_wire [simp]: "carries (on_wire p) ty d ck s sq ct = carries p ty d ck s sq ct"
  unfolding carries_def content_on_wire by (simp add: on_wire_def)

text \<open>Every route leads to a finger or to the host itself, so the pool accepts the packet.\<close>

lemma external_messaging_takes:
  assumes wf: "wf_relay r" and ip: "ip_ok ip" and ty: "external_id ty"
    and sz: "0 \<le> sz" "sz \<le> int body_cap" "sz \<le> int (length ct)" and rm: "room 1 r"
    and hop: "(\<exists>f \<in> set (n_finger_table (r_node r)). ip = fg_ip f \<and> np = fg_port f) \<or>
      (ip = n_ip (r_node r) \<and> np = n_port (r_node r))"
  shows "returns (external_messaging r de s sq ni ip np ty d ck ct sz)
    (\<lambda>r'. \<exists>p. takes p r r' \<and> carries p ty d ck s sq (take (nat sz) ct))"
proof -
  obtain mem r1 where nm: "new_mem r = (mem, r1)" by (cases "new_mem r")
  from wf_relay_new_mem [OF wf] nm have r1: "sent_ok 0 r r1" and mem: "wf_mem mem" by auto
  have h1: "held r1 = held r" using nm by (auto simp: new_mem_def held_def pooled_def)
  from wf have host: "ip_ok (r_host r)" by (simp add: wf_relay_def wf_node_def)
  from mem sz obtain body where body: "memcpy_into (p_body mem) ct sz = Some body"
    by (simp add: memcpy_into_def wf_mem_def nat_le_iff)
  with ip host obtain p where p: "AnonymousPacket18 mem ty (r_host r) (r_relay_id r) ip ni np
      ip ck np ip d np sq False ct sz de s = Some p"
    by (simp add: AnonymousPacket18_def)
  with ip host body have f: "h_id p = ty" "\<not> h_msg_type p" "h_relay_dest_ip p = ip" "h_relay_dest_port p = np"
    and c: "carries p ty d ck s sq (take (nat sz) ct)"
    using memcpy_into_take [OF body]
    by (auto simp: AnonymousPacket18_def carries_def content_def payload_def payload_size_def)
  from wf_packet_18 [OF p mem] ty f have app: "app_packet p" by (simp add: app_packet_def is_internal_msg_def)
  from hop wf have "accepts r p" by (auto simp: accepts_def goes_to_def f wf_relay_def)
  then have acc: "accepts r1 p" by (simp add: accepts_sent [OF r1])
  have "room 1 r1" using sent_okD(4) [OF r1, of 1] rm by simp
  from pool.send_takes [OF _ sent_okD(1) [OF r1] app acc this, of ip np]
  have "returns (safe_send r1 p ip np) (takes p r1)" by simp
  then have "returns (safe_send r1 p ip np) (takes p r)"
    by (rule returns_mono) (use sent_ok_trans [OF r1] h1 in \<open>auto simp: takes_def\<close>)
  then have "returns (safe_send r1 p ip np) (\<lambda>r'. \<exists>p. takes p r r' \<and> carries p ty d ck s sq (take (nat sz) ct))"
    by (rule returns_mono) (use c in blast)
  then show ?thesis by (simp add: external_messaging_def nm p)
qed

lemma route_external_takes:
  assumes wf: "wf_relay r" and ty: "external_id ty"
    and sz: "0 \<le> sz" "sz \<le> int body_cap" "sz \<le> int (length ct)" and rm: "room 1 r"
  shows "returns (do {
       as \<leftarrow> handle_external_messaging (r_node r) dd s sq ty d ck ct sz;
       perform_actions None r as })
    (\<lambda>r'. \<exists>p. takes p r r' \<and> carries p ty d ck s sq (take (nat sz) ct))"
proof -
  let ?n = "r_node r" and ?P = "\<lambda>r'. \<exists>p. takes p r r' \<and> carries p ty d ck s sq (take (nat sz) ct)"
  from wf have wn: "wf_node ?n" by (simp add: wf_relay_def)
  obtain f0 where f0: "finger ?n 0 = Some f0" "f0 \<in> set (n_finger_table ?n)" "ip_ok (fg_ip f0)"
    using wn by (rule finger_0)
  obtain c where c: "closest_finger ?n d (n_m ?n) = Some c"
    "\<And>f. c = Some f \<Longrightarrow> f \<in> set (n_finger_table ?n) \<and> ip_ok (fg_ip f)"
    using closest_finger_ip [OF wn] by metis
  from wn have self: "ip_ok (n_ip ?n)" by (simp add: wf_node_def)
  note sent = external_messaging_takes [OF wf _ ty sz rm]
  from sent [OF f0(3), of "fg_port f0" _ s sq _ d ck] f0(2)
  have a: "returns (external_messaging r de s sq ni (fg_ip f0) (fg_port f0) ty d ck ct sz) ?P" for de ni
    by blast
  from sent [OF self, of "n_port ?n" _ s sq _ d ck]
  have b: "returns (external_messaging r de s sq ni (n_ip ?n) (n_port ?n) ty d ck ct sz) ?P" for de ni
    by blast
  have e: "returns (external_messaging r de s sq ni (fg_ip f) (fg_port f) ty d ck ct sz) ?P"
    if "c = Some f" for de ni f
    using sent [of "fg_ip f" "fg_port f" de s sq ni d ck] c(2) [OF that] by blast
  show ?thesis
    using a b e by (cases c) (simp_all add: handle_external_messaging_def f0(1) find_closest_preceding_node_def
        find_closest_preceding_node_ip_def find_closest_preceding_node_port_def c(1))
qed

lemma forward_external_takes:
  assumes wf: "wf_relay r" and b: "wf_packet body" and ty: "external_id ty" and rm: "room 1 r"
  shows "returns (forward_external r p ty d ck body)
    (\<lambda>r'. \<exists>q. takes q r r' \<and> carries q ty d ck (h_session_id p) (h_index p) (content body))"
proof -
  from b have sz: "0 \<le> payload_size body" "payload_size body \<le> int body_cap"
    "payload_size body \<le> int (length (payload body))"
    by (auto simp: wf_packet_def wf_mem_def payload_size_def payload_def)
  from route_external_takes [OF wf ty sz rm] show ?thesis
    by (simp add: forward_external_def content_def)
qed

lemma deaddrop_first:
  assumes "h_is_dest p" and "n_recv_list_deaddrop (r_node r) (h_session_id p, h_index p) = None"
  shows "on_deaddrop r p = Some (r\<lparr>r_node := (r_node r)\<lparr>n_recv_list_deaddrop :=
    (n_recv_list_deaddrop (r_node r))((h_session_id p, h_index p) \<mapsto> p)\<rparr>\<rparr>)"
  using assms by (simp add: on_deaddrop_def Let_def)

lemma deaddrop_second:
  assumes wf: "wf_relay r" and p: "wf_packet p" "h_is_dest p" and rm: "room 2 r"
    and pre: "n_recv_list_deaddrop (r_node r) (h_session_id p, h_index p) = Some pre"
  shows "returns (on_deaddrop r p) (\<lambda>r'. \<exists>a b. held r' = held r + {#a, b#} \<and>
    carries a external_reply_deaddrop_messaging (h_relay_reply_id p) (h_key_id p) (h_session_id p)
      (h_index p) (content pre) \<and>
    carries b external_reply_deaddrop_messaging (h_relay_reply_id pre) (h_key_id p) (h_session_id p)
      (h_index p) (content p) \<and>
    n_recv_list_deaddrop (r_node r') =
      (n_recv_list_deaddrop (r_node r))((h_session_id p, h_index p) := None))"
proof -
  let ?msg = "(h_session_id p, h_index p)" and ?d = "n_recv_list_deaddrop (r_node r)"
  let ?n' = "(r_node r)\<lparr>n_recv_list_deaddrop := ?d(?msg := None)\<rparr>"
  let ?r1 = "r\<lparr>r_node := ?n'\<rparr>"
  from wf have n: "wf_node (r_node r)" by (simp add: wf_relay_def)
  with pre have wpre: "wf_packet pre" by (simp add: wf_node_def)
  from n have n': "wf_node ?n'" "same_self (r_node r) ?n'" by (auto simp: wf_node_def same_self_def)
  note wf1 = wf_relay_node [OF wf n']
  have rm1: "room 2 ?r1" using rm by (simp add: room_def)
  then have rm11: "room 1 ?r1" using room_mono [of 1 ?r1] by (simp add: numeral_2_eq_2)
  obtain r2 a where r2: "forward_external ?r1 p external_reply_deaddrop_messaging (h_relay_reply_id p)
      (h_key_id p) pre = Some r2" and a: "takes a ?r1 r2"
    "carries a external_reply_deaddrop_messaging (h_relay_reply_id p) (h_key_id p) (h_session_id p)
      (h_index p) (content pre)"
    using forward_external_takes [OF wf1 wpre external_reply_id rm11] unfolding returns_def by blast
  from a(1) have s: "sent_ok 1 ?r1 r2" by (simp add: takes_def)
  have "room 1 r2" using sent_okD(4) [OF s, of 1] rm1 by (simp add: numeral_2_eq_2)
  from forward_external_takes [OF sent_okD(1) [OF s] p(1) external_reply_id this]
  obtain r3 b where r3: "forward_external r2 p external_reply_deaddrop_messaging (h_relay_reply_id pre)
      (h_key_id p) p = Some r3" and b: "takes b r2 r3"
    "carries b external_reply_deaddrop_messaging (h_relay_reply_id pre) (h_key_id p) (h_session_id p)
      (h_index p) (content p)"
    unfolding returns_def by blast
  from b(1) have s3: "sent_ok 1 r2 r3" by (simp add: takes_def)
  have "on_deaddrop r p = Some r3" using p(2) pre r2 r3 by (simp add: on_deaddrop_def Let_def)
  moreover have "held r3 = held r + {#on_wire a, on_wire b#}"
    using a(1) b(1) by (simp add: takes_def add_mset_commute)
  moreover have "n_recv_list_deaddrop (r_node r3) = ?d(?msg := None)"
    using no_cnt_eqD(13) [OF sent_okD(2) [OF s3]] no_cnt_eqD(13) [OF sent_okD(2) [OF s]] by simp
  ultimately show ?thesis using a(2) b(2) carries_on_wire unfolding returns_def by blast
qed

subsection \<open>A sample relay\<close>

definition sample_relay :: relay where
  "sample_relay = init_DAEService (RandomSocket ''10.0.0.1'' 3010 1
     (sample_node 3 1 ''10.0.0.1'' 3010 (replicate 3 (sample_finger 2 4 ''10.0.0.2'' 3010)))
     ((RelayConfig 0)\<lparr>cf_send_dummy := 1\<rparr>) (\<lambda>k. sample_mem)) 0"

lemma wf_sample_relay: "wf_relay sample_relay"
  unfolding sample_relay_def
proof (rule init_DAEService_ok)
  show "wf_node (sample_node 3 1 ''10.0.0.1'' 3010 (replicate 3 (sample_finger 2 4 ''10.0.0.2'' 3010)))"
    by (rule wf_sample_node) (auto simp: on_ring_def ip_ok_def ip_cap_def sample_finger_def list_all_iff)
qed (auto simp: sample_node_def)

lemma sample_relay_pool:
  "r_pool sample_relay = Some (Shuffle (ShufflePool 3 10 10 False 1717986917 1 0))"
  by (simp add: sample_relay_def init_DAEService_def RandomSocket_def RelayConfig_def Let_def sample_node_def)

lemma sample_relay_room: "room 2 sample_relay" "room 1 sample_relay"
  by (simp_all add: room_def sample_relay_pool ShufflePool_def ConcurrentRandomQueue_def
      random_queue_default_cap_def)

definition sample_drop :: "ring_id \<Rightarrow> byte list \<Rightarrow> anonymous_packet" where
  "sample_drop sender msg = sample_mem\<lparr>h_id := external_deaddrop_messaging, h_is_dest := True,
     h_session_id := 7, h_index := 2, h_key_id := 1, h_relay_reply_id := sender,
     h_size := int (length msg), p_body := msg @ replicate (body_cap - length msg) 0\<rparr>"

lemma wf_sample_drop: "length msg \<le> body_cap \<Longrightarrow> wf_packet (sample_drop sender msg)"
  by (simp add: sample_drop_def wf_packet_def wf_mem_def ip_ok_def ip_cap_def sample_mem_def)

subsection \<open>Properties\<close>

text \<open>
  C8. No application message is dropped on its way into the network: routing an application message
  of at most 864 bytes at a well-formed relay whose pool has a free place in every queue (\<open>push\<close> does not check for it)
  succeeds, whatever the destination, and leaves the relay holding exactly one packet more, in its pool or on the wire,
  which carries the message's bytes, type, destination, sender key, session and sequence number.
\<close>

theorem external_message_not_lost:
  assumes "wf_relay r" and "external_id ty" and "0 \<le> sz" and "sz \<le> int body_cap"
    and "sz \<le> int (length ct)" and "room 1 r"
  shows "returns (do {
       as \<leftarrow> handle_external_messaging (r_node r) dd session sq ty dest_id client_key ct sz;
       perform_actions None r as })
    (\<lambda>r'. \<exists>p. wf_relay r' \<and> held r' = add_mset p (held r) \<and>
       carries p ty dest_id client_key session sq (take (nat sz) ct))"
  by (rule returns_mono [OF route_external_takes [OF assms]])
    (auto simp: takes_def sent_ok_def intro: exI [of _ "on_wire p" for p])

theorem external_message_not_lost_witness:
  "wf_relay sample_relay \<and> returns (do {
       as \<leftarrow> handle_external_messaging (r_node sample_relay) False 7 0 external_deaddrop_messaging 6 1 [1, 2, 3] 2;
       perform_actions None sample_relay as })
    (\<lambda>r'. \<exists>p. held r' = add_mset p (held sample_relay) \<and>
       carries p external_deaddrop_messaging 6 1 7 0 [1, 2])"
proof -
  have "external_id external_deaddrop_messaging" by (simp add: external_id_def)
  from external_message_not_lost [OF wf_sample_relay this _ _ _ sample_relay_room(2), of 2 "[1, 2, 3]" False 7 0 6 1]
  show ?thesis
    by (simp add: wf_sample_relay packet_cap_defs) (erule returns_mono, blast)
qed

text \<open>
  C6. The dead-drop rendezvous: when two packets with the same session and sequence number reach
  their dead drop, one after the other, the drop ends empty again and the relay holds exactly two
  packets more. Each is a reply to one of the two senders and carries the bytes the other one
  deposited.
\<close>

theorem deaddrop_rendezvous:
  assumes wf: "wf_relay r" and rm: "room 2 r" and p: "wf_packet p" "h_is_dest p" and q: "wf_packet q" "h_is_dest q"
    and same: "h_session_id q = h_session_id p" "h_index q = h_index p"
    and free: "n_recv_list_deaddrop (r_node r) (h_session_id p, h_index p) = None"
  shows "returns (do { r' \<leftarrow> on_deaddrop r p; on_deaddrop r' q }) (\<lambda>r'. \<exists>a b.
    held r' = held r + {#a, b#} \<and>
    carries a external_reply_deaddrop_messaging (h_relay_reply_id q) (h_key_id q) (h_session_id p)
      (h_index p) (content p) \<and>
    carries b external_reply_deaddrop_messaging (h_relay_reply_id p) (h_key_id q) (h_session_id p)
      (h_index p) (content q) \<and>
    n_recv_list_deaddrop (r_node r') = n_recv_list_deaddrop (r_node r))"
proof -
  let ?d = "n_recv_list_deaddrop (r_node r)" and ?msg = "(h_session_id p, h_index p)"
  let ?n1 = "(r_node r)\<lparr>n_recv_list_deaddrop := ?d(?msg \<mapsto> p)\<rparr>"
  let ?r1 = "r\<lparr>r_node := ?n1\<rparr>"
  from wf p have n1: "wf_node ?n1" "same_self (r_node r) ?n1"
    by (auto simp: wf_relay_def wf_node_def same_self_def)
  have rm1: "room 2 ?r1" using rm by (simp add: room_def)
  have "?d(?msg := None) = ?d" using free by auto
  with deaddrop_second [OF wf_relay_node [OF wf n1] q rm1, of p] same
  have "returns (on_deaddrop ?r1 q) (\<lambda>r'. \<exists>a b. held r' = held r + {#a, b#} \<and>
    carries a external_reply_deaddrop_messaging (h_relay_reply_id q) (h_key_id q) (h_session_id p)
      (h_index p) (content p) \<and>
    carries b external_reply_deaddrop_messaging (h_relay_reply_id p) (h_key_id q) (h_session_id p)
      (h_index p) (content q) \<and> n_recv_list_deaddrop (r_node r') = ?d)"
    by simp
  with deaddrop_first [OF p(2) free] show ?thesis by simp
qed

theorem deaddrop_rendezvous_witness:
  "returns (do { r' \<leftarrow> on_deaddrop sample_relay (sample_drop 2 [1, 1]); on_deaddrop r' (sample_drop 5 [9]) })
    (\<lambda>r'. \<exists>a b. held r' = held sample_relay + {#a, b#} \<and>
      carries a external_reply_deaddrop_messaging 5 1 7 2 [1, 1] \<and>
      carries b external_reply_deaddrop_messaging 2 1 7 2 [9])"
proof -
  have "h_is_dest (sample_drop i msg)" "h_session_id (sample_drop i msg) = 7" "h_index (sample_drop i msg) = 2"
    "h_key_id (sample_drop i msg) = 1" "h_relay_reply_id (sample_drop i msg) = i"
    "content (sample_drop i msg) = msg" for i msg
    by (simp_all add: sample_drop_def content_def payload_def payload_size_def)
  note f = this
  have w: "wf_packet (sample_drop 2 [1, 1])" "wf_packet (sample_drop 5 [9])"
    by (intro wf_sample_drop, simp add: packet_cap_defs)+
  have "n_recv_list_deaddrop (r_node sample_relay) (h_session_id (sample_drop 2 [1, 1]), h_index (sample_drop 2 [1, 1])) = None"
    by (simp add: sample_relay_def init_DAEService_def RandomSocket_def sample_node_def Let_def)
  from deaddrop_rendezvous [OF wf_sample_relay sample_relay_room(1) w(1) f(1) w(2) f(1) _ _ this]
  show ?thesis by (simp add: f) (erule returns_mono, blast)
qed

text \<open>
  C10. A batch of the shuffle pool keeps the traffic pattern and loses nothing, while its \<open>int\<close> counter of rounds does not
  overflow: with dummies enabled it sends exactly one datagram for each of the \<open>m\<close> fingers, in their order, whatever is
  queued and whatever the random numbers are; without dummies at most one for each. The datagram for a finger is a dummy to
  the address of that very finger, or a packet of the queue of that finger, to the packet's own destination. The packets
  other than dummies that the relay holds are the same before and after.
\<close>

theorem send_batch_cover_traffic:
  assumes "wf_relay r" and "r_pool r = Some (Shuffle sp)" and "sp_total_msg sp + int (n_m (r_node r)) < 2 ^ 31"
  shows "returns (send_batch r sp draws now) (\<lambda>r'. wf_relay r' \<and> held r' = held r \<and>
    (\<exists>ds is. r_wire r' = r_wire r @ ds \<and> subseq is [0..<n_m (r_node r)] \<and>
      (sp_send_dummy sp \<noteq> 0 \<longrightarrow> is = [0..<n_m (r_node r)]) \<and> list_all2 (for_queue r sp) is ds))"
proof (rule returns_mono [OF returns_unlessD [OF send_batch_ok [OF assms(1,2)]]])
  fix r'
  assume "sent_ok 0 r r' \<and> (\<exists>sp' ds is. r_pool r' = Some (Shuffle sp') \<and> r_wire r' = r_wire r @ ds \<and>
    subseq is [0..<n_m (r_node r)] \<and> (sp_send_dummy sp \<noteq> 0 \<longrightarrow> is = [0..<n_m (r_node r)]) \<and>
    list_all2 (for_queue r sp) is ds \<and> pool_items sp = pool_items sp' + real_packets ds)"
  then show "wf_relay r' \<and> held r' = held r \<and> (\<exists>ds is. r_wire r' = r_wire r @ ds \<and> subseq is [0..<n_m (r_node r)] \<and>
      (sp_send_dummy sp \<noteq> 0 \<longrightarrow> is = [0..<n_m (r_node r)]) \<and> list_all2 (for_queue r sp) is ds)"
    using assms(2) by (auto simp: held_def pooled_def dest: sent_okD)
qed (use assms(3) in simp)

theorem send_batch_cover_traffic_witness:
  "returns (send_batch sample_relay (ShufflePool 3 10 10 False 1717986917 1 0) (\<lambda>k. (0, 5)) 0) (\<lambda>r'.
     held r' = held sample_relay \<and> (\<exists>ds. r_wire r' = r_wire sample_relay @ ds \<and>
       list_all2 (for_queue sample_relay (ShufflePool 3 10 10 False 1717986917 1 0)) [0, 1, 2] ds))"
proof -
  let ?sp = "ShufflePool 3 10 10 False 1717986917 1 0"
  have m: "n_m (r_node sample_relay) = 3"
    by (simp add: sample_relay_def init_DAEService_def RandomSocket_def sample_node_def Let_def)
  have sp: "sp_send_dummy ?sp \<noteq> 0" "sp_total_msg ?sp + int (n_m (r_node sample_relay)) < 2 ^ 31"
    by (simp_all add: ShufflePool_def m)
  have u: "[0..<3] = [0, 1, 2]" by (simp add: upt_rec)
  show ?thesis
    by (rule returns_mono [OF send_batch_cover_traffic [OF wf_sample_relay sample_relay_pool sp(2), of "\<lambda>k. (0, 5)" 0]])
      (use sp(1) in \<open>auto simp: m u\<close>)
qed

end
