(* ===== verification/Maintenance.thy ===== *)
theory Maintenance
  imports Delivery
begin

text \<open>
  What ring maintenance and hostile datagrams do: \<open>stabilize\<close> and \<open>notify\<close> only ever move the successor
  and the predecessor closer, the backup list stays bounded and ordered, failure detection acts on
  silent neighbours only, and the handlers that trust the network are undefined exactly on the
  inputs stated.
\<close>

subsection \<open>Closer on the ring\<close>

text \<open>The length of the arc from \<open>a\<close> to \<open>b\<close>: the whole ring when they are equal.\<close>

definition arc :: "nat \<Rightarrow> ring_id \<Rightarrow> ring_id \<Rightarrow> nat" where
  "arc m a b = (if a = b then 2 ^ m else cw m a b)"

lemma ring_open_arc_right: "on_ring m a \<Longrightarrow> on_ring m x \<Longrightarrow> ring_open m a b x \<Longrightarrow> arc m a x < arc m a b"
  using cw_less [of m a x] by (auto simp: ring_open_def arc_def)

lemma ring_open_arc_left:
  assumes "on_ring m a" and "on_ring m b" and "on_ring m x" and "ring_open m a b x"
  shows "arc m x b < arc m a b"
proof (cases "a = b")
  case True
  with assms cw_less [of m x b] show ?thesis by (auto simp: arc_def ring_open_def)
next
  case False
  with assms have lt: "0 < cw m a x" "cw m a x < cw m a b" by (auto simp: ring_open_def)
  then have "x \<noteq> b" by auto
  with lt False cw_split [OF assms(1,3,2)] show ?thesis by (simp add: arc_def)
qed

lemma finger_update_0:
  assumes "update_finger n 0 su ip port = Some n'" and "finger n 0 = Some f"
  shows "finger n' 0 = Some (f\<lparr>fg_successor := su, fg_ip := ip, fg_port := port\<rparr>)"
  using assms by (auto simp: update_finger_eq finger_def arr_get_def split: if_splits)

lemma update_finger_node:
  "update_finger n k su ip port = Some n' \<Longrightarrow> n_id n' = n_id n \<and> n_m n' = n_m n"
  by (auto simp: update_finger_def updatesuccessor_def updatesuccessor_ip_def updatesuccessor_port_def
      elim!: bind_SomeE)

text \<open>
  C12. \<open>stabilize\<close> moves the successor closer or keeps it: it returns on every well-formed node; the
  successor becomes the successor's reported predecessor, address included, exactly when that
  one lies strictly between the node and its successor, which shortens the clockwise arc to the
  successor, and stays otherwise. The successor is always asked for its predecessor, and the
  successor after the step is notified unless it is the node itself.
\<close>

theorem stabilize_moves_closer:
  assumes wf: "wf_node n" and f0: "finger n 0 = Some f0" and su: "on_ring (n_m n) (fg_successor f0)"
    and pos: "n_pos n = - 1 \<or> on_ring (n_m n) (n_pos n)"
  shows "returns (stabilize n) (\<lambda>(n', as). \<exists>g0. finger n' 0 = Some g0 \<and>
    (if n_pos n \<noteq> - 1 \<and> ring_open (n_m n) (n_id n) (fg_successor f0) (n_pos n)
     then fg_successor g0 = n_pos n \<and> fg_ip g0 = n_pos_ip n \<and> fg_port g0 = n_pos_port n \<and>
       arc (n_m n) (n_id n) (fg_successor g0) < arc (n_m n) (n_id n) (fg_successor f0)
     else g0 = f0) \<and>
    Call (FindPredecessor (fg_ip f0) (fg_port f0) (n_id n) (n_ip n) (n_port n) (fg_successor f0)) \<in> set as \<and>
    (fg_successor g0 \<noteq> n_id n \<longrightarrow>
      Call (NotifyPredecessorJoin (fg_ip g0) (fg_successor g0) (fg_port g0) (n_id n)) \<in> set as))"
proof -
  let ?m = "n_m n"
  from wf have m: "?m \<le> 52" and i: "on_ring ?m (n_id n)" by (auto simp: wf_node_def)
  have in_range: "is_in_range ?m (n_id n) (fg_successor f0) (n_pos n) \<longleftrightarrow>
      n_pos n \<noteq> - 1 \<and> ring_open ?m (n_id n) (fg_successor f0) (n_pos n)"
    using pos own_pos_unset [OF i m, of "fg_successor f0"] is_in_range_ring_open [OF m i su, of "n_pos n"]
    by (cases "n_pos n = - 1") auto
  show ?thesis
  proof (cases "is_in_range ?m (n_id n) (fg_successor f0) (n_pos n)")
    case True
    then have p: "n_pos n \<noteq> - 1" and ro: "ring_open ?m (n_id n) (fg_successor f0) (n_pos n)"
      by (auto simp: in_range)
    from wf p have "ip_ok (n_pos_ip n)" "0 < int ?m" by (auto simp: wf_node_def)
    from update_finger_ok [OF wf order.refl this(2,1)] obtain n1 where
      n1: "update_finger n 0 (n_pos n) (n_pos_ip n) (n_pos_port n) = Some n1"
      unfolding returns_def by blast
    have "arc ?m (n_id n) (n_pos n) < arc ?m (n_id n) (fg_successor f0)"
      using pos p ro i by (intro ring_open_arc_right) auto
    with True p ro f0 n1 finger_update_0 [OF n1 f0] update_finger_node [OF n1] show ?thesis
      by (simp add: stabilize_def)
  next
    case False
    with in_range f0 show ?thesis by (auto simp: stabilize_def)
  qed
qed

theorem stabilize_moves_closer_witness:
  "returns (stabilize ((sample_node 3 1 ''10.0.0.1'' 3010 (replicate 3 (sample_finger 2 6 ''10.0.0.6'' 3010)))
      \<lparr>n_pos := 4, n_pos_ip := ''10.0.0.4'', n_pos_port := 3010\<rparr>))
    (\<lambda>(n', as). \<exists>g0. finger n' 0 = Some g0 \<and> fg_successor g0 = 4 \<and> fg_ip g0 = ''10.0.0.4'')"
proof -
  let ?f = "sample_finger 2 6 ''10.0.0.6'' 3010"
  let ?n0 = "sample_node 3 1 ''10.0.0.1'' 3010 (replicate 3 ?f)"
  let ?n = "?n0\<lparr>n_pos := 4, n_pos_ip := ''10.0.0.4'', n_pos_port := 3010\<rparr>"
  have wf: "wf_node ?n"
    by (simp add: wf_node_def sample_node_def sample_finger_def ip_ok_def ip_cap_def on_ring_def list_all_iff)
  have f: "finger ?n 0 = Some ?f" by (simp add: finger_def sample_node_def arr_get_def)
  have m: "n_m ?n = 3" "n_id ?n = 1" "n_pos ?n = 4" "n_pos_ip ?n = ''10.0.0.4''" "fg_successor ?f = 6"
    by (simp_all add: sample_node_def sample_finger_def)
  have "ring_open 3 1 6 4" by (simp add: ring_open_def cw_def)
  with stabilize_moves_closer [OF wf f] m show ?thesis
    by (auto simp: on_ring_def elim!: returns_mono)
qed

text \<open>
  \<open>notify\<close> moves the predecessor closer or keeps it: a node adopts the node that announces itself,
  with its address, exactly when it knows no predecessor or the candidate lies strictly between
  the predecessor and itself, and in that case the arc from the predecessor gets shorter.
\<close>

theorem notify_moves_closer:
  assumes wf: "wf_node n" and c: "on_ring (n_m n) c" and ip: "ip_ok ip"
    and p: "n_predecessor n = - 1 \<or> on_ring (n_m n) (n_predecessor n)"
  shows "returns (notify n c ip port) (\<lambda>n'.
    if n_predecessor n = - 1 \<or> ring_open (n_m n) (n_predecessor n) (n_id n) c
    then n_predecessor n' = c \<and> n_predecessor_ip n' = ip \<and> n_predecessor_port n' = port \<and>
      (n_predecessor n \<noteq> - 1 \<longrightarrow> arc (n_m n) c (n_id n) < arc (n_m n) (n_predecessor n) (n_id n))
    else n' = n)"
proof -
  from wf have m: "n_m n \<le> 52" and i: "on_ring (n_m n) (n_id n)" by (auto simp: wf_node_def)
  show ?thesis
  proof (cases "n_predecessor n = - 1")
    case True
    with ip show ?thesis
      by (simp add: notify_def setpredecessor_def setpredecessor_ip_def setpredecessor_port_def)
  next
    case False
    with p have pr: "on_ring (n_m n) (n_predecessor n)" by blast
    note r = is_in_range_ring_open [OF m pr i c] and a = ring_open_arc_left [OF pr i c]
    from False r a ip show ?thesis
      by (simp add: notify_def setpredecessor_def setpredecessor_ip_def setpredecessor_port_def)
  qed
qed

theorem notify_moves_closer_witness:
  "returns (notify ((sample_node 3 1 ''10.0.0.1'' 3010 (replicate 3 (sample_finger 2 6 ''10.0.0.6'' 3010)))
      \<lparr>n_predecessor := 4\<rparr>) 7 ''10.0.0.7'' 3010) (\<lambda>n'. n_predecessor n' = 7 \<and> arc 3 7 1 < arc 3 4 1)"
proof -
  let ?n0 = "sample_node 3 1 ''10.0.0.1'' 3010 (replicate 3 (sample_finger 2 6 ''10.0.0.6'' 3010))"
  let ?n = "?n0\<lparr>n_predecessor := 4\<rparr>"
  have wf: "wf_node ?n"
    by (simp add: wf_node_def sample_node_def sample_finger_def ip_ok_def ip_cap_def on_ring_def list_all_iff)
  have m: "n_m ?n = 3" "n_id ?n = 1" by (simp_all add: sample_node_def)
  have ro: "ring_open 3 4 1 7" by (simp add: ring_open_def cw_def)
  have "on_ring (n_m ?n) 7" "ip_ok ''10.0.0.7''" "on_ring (n_m ?n) 4"
    by (simp_all add: m on_ring_def ip_ok_def ip_cap_def)
  from notify_moves_closer [OF wf this(1,2), of 3010] this(3) ro m show ?thesis
    by (auto elim!: returns_mono)
qed

subsection \<open>Backup successors\<close>

lemma trim_suffix: "\<exists>ys. xs = ys @ trim_successor_list b xs"
  by (induction xs) (auto, metis append_Cons)

lemma trim_length:
  "length xs < 2 ^ 64 \<Longrightarrow> length (trim_successor_list b xs) = min (length xs) (unat b)"
proof (induction xs)
  case (Cons x xs)
  then have "unat (of_nat (Suc (length xs)) :: u64) = Suc (length xs)"
    by (simp add: unsigned_of_nat take_bit_nat_eq_self del: of_nat_Suc)
  with Cons show ?case by (auto simp: word_less_nat_alt min_def simp del: of_nat_Suc)
qed simp

lemma reply_successor_list_eq:
  assumes "h_key_id p \<noteq> n_id (r_node r)" and "- (2 ^ 31) \<le> 6 - h_index p" and "6 - h_index p < 2 ^ 31"
  shows "on_reply_successor_list r p = Some (r\<lparr>r_node := (r_node r)\<lparr>n_successor_list :=
    trim_successor_list (word_of_int (6 - h_index p)) (n_successor_list (r_node r) @
      [\<lparr>pp_ip = h_key_ip p, pp_port = h_key_port p, pp_relay_id = h_key_id p, pp_check_usage = True\<rparr>])\<rparr>\<rparr>)"
  using assms by (simp add: on_reply_successor_list_def add_to_successor_list_def c_int_def Let_def)

text \<open>
  The backup list stays short and in order: a reply with counter \<open>c\<close>, which is between 0 and 5 in
  every reply of a correct relay, appends the reported successor and then drops from the front
  until at most \<open>6 - c\<close> entries are left. So the list never exceeds six entries, the reported
  node is its last one and the entries kept are the most recent ones in their order.
\<close>

theorem backup_list_bounded:
  assumes "h_key_id p \<noteq> n_id (r_node r)" and ix: "0 \<le> h_index p" "h_index p \<le> 5"
    and len: "length (n_successor_list (r_node r)) \<le> 6"
  shows "returns (on_reply_successor_list r p) (\<lambda>r'.
    let old = n_successor_list (r_node r); new = n_successor_list (r_node r');
        peer = \<lparr>pp_ip = h_key_ip p, pp_port = h_key_port p, pp_relay_id = h_key_id p, pp_check_usage = True\<rparr>
    in length new = min (length old + 1) (nat (6 - h_index p)) \<and> new \<noteq> [] \<and> last new = peer \<and>
       (\<exists>dropped. old @ [peer] = dropped @ new))"
proof -
  let ?old = "n_successor_list (r_node r)"
  let ?peer = "\<lparr>pp_ip = h_key_ip p, pp_port = h_key_port p, pp_relay_id = h_key_id p, pp_check_usage = True\<rparr>"
  let ?b = "word_of_int (6 - h_index p) :: u64"
  let ?new = "trim_successor_list ?b (?old @ [?peer])"
  have b: "unat ?b = nat (6 - h_index p)"
    using ix by (simp add: unsigned_of_int take_bit_int_eq_self del: of_int_diff)
  have "length ?new = min (length ?old + 1) (nat (6 - h_index p))"
    using trim_length [of "?old @ [?peer]" ?b] len by (simp add: b del: of_int_diff)
  moreover from this ix have ne: "?new \<noteq> []" by auto
  moreover obtain ys where ys: "?old @ [?peer] = ys @ ?new" using trim_suffix by blast
  moreover from ys ne have "last ?new = ?peer" by (metis last_appendR last_snoc)
  ultimately show ?thesis
    using reply_successor_list_eq [OF assms(1)] ix unfolding Let_def by simp blast
qed

theorem backup_list_bounded_witness:
  "returns (on_reply_successor_list sample_relay (sample_mem\<lparr>h_key_id := 4, h_index := 3\<rparr>))
    (\<lambda>r'. length (n_successor_list (r_node r')) = 1)"
proof -
  have n: "n_successor_list (r_node sample_relay) = []" "n_id (r_node sample_relay) = 1"
    by (simp_all add: sample_relay_def init_DAEService_def RandomSocket_def sample_node_def Let_def)
  show ?thesis
    by (rule returns_mono [OF backup_list_bounded]) (simp_all add: n Let_def)
qed

text \<open>
  A backup reply with a counter above 6 is never trimmed: the source compares the unsigned list
  size with \<open>6 - counter\<close>, so a negative difference becomes a huge bound and the list grows by one
  entry with every such datagram.
\<close>

theorem backup_list_untrimmed:
  assumes "h_key_id p \<noteq> n_id (r_node r)" and ix: "6 < h_index p" "h_index p < 2 ^ 31"
    and len: "length (n_successor_list (r_node r)) < 2 ^ 63"
  shows "returns (on_reply_successor_list r p) (\<lambda>r'.
    length (n_successor_list (r_node r')) = length (n_successor_list (r_node r)) + 1)"
proof -
  let ?b = "word_of_int (6 - h_index p) :: u64"
  have "int (unat ?b) = (6 - h_index p) mod 2 ^ 64"
    using uint_word_of_int [where ?'a = 64 and k = "6 - h_index p"] by (simp add: take_bit_eq_mod del: of_int_diff)
  also have "\<dots> = (6 - h_index p + 2 ^ 64) mod 2 ^ 64" by (metis mod_add_self2)
  also have "\<dots> = 6 - h_index p + 2 ^ 64" using ix by (intro mod_pos_pos_trivial) auto
  finally have "int (2 ^ 63) \<le> int (unat ?b)" using ix by simp
  then have "2 ^ 63 \<le> unat ?b" by (simp only: of_nat_le_iff)
  with len show ?thesis
    using reply_successor_list_eq [OF assms(1)] ix trim_length [of "n_successor_list (r_node r) @ [x]" ?b for x]
    by (simp del: of_int_diff)
qed

theorem backup_list_untrimmed_witness:
  "returns (on_reply_successor_list sample_relay (sample_mem\<lparr>h_key_id := 4, h_index := 9\<rparr>))
    (\<lambda>r'. length (n_successor_list (r_node r')) = 1)"
proof -
  have n: "n_successor_list (r_node sample_relay) = []" "n_id (r_node sample_relay) = 1"
    by (simp_all add: sample_relay_def init_DAEService_def RandomSocket_def sample_node_def Let_def)
  show ?thesis
    by (rule returns_mono [OF backup_list_untrimmed]) (simp_all add: n)
qed

subsection \<open>Failure detection\<close>

text \<open>
  C17. A silent successor is replaced and a live one is kept: when the verdict on the successor is due,
  a node that has had an answer keeps its whole table; a node without one takes the first backup
  whose identifier differs from the failed successor's, if it is among the first two entries,
  as its new successor with its address, and otherwise keeps the table. The check is over in
  every case.
\<close>

theorem judge_successor_outcome:
  assumes wf: "wf_node n" and f0: "finger n 0 = Some f0"
  shows "returns (judge_successor_task n) (\<lambda>(n', as). as = [] \<and> \<not> n_successor_onchecking n' \<and>
    (let backups = (case n_successor_list n of [] \<Rightarrow> []
           | b # bs \<Rightarrow> if pp_relay_id b = fg_successor f0 then bs else b # bs)
     in if n_successor_status n \<or> backups = [] then n_finger_table n' = n_finger_table n
        else finger n' 0 = Some (f0\<lparr>fg_successor := pp_relay_id (hd backups), fg_ip := pp_ip (hd backups),
               fg_port := pp_port (hd backups)\<rparr>)))"
proof -
  have adopt: "returns (do { n2 \<leftarrow> update_finger (n\<lparr>n_successor_list := l\<rparr>) 0 (pp_relay_id s) (pp_ip s) (pp_port s);
       Some (n2\<lparr>n_successor_onchecking := False\<rparr>, [] :: action list) }) (\<lambda>(n', as). as = [] \<and>
       \<not> n_successor_onchecking n' \<and> finger n' 0 = Some (f0\<lparr>fg_successor := pp_relay_id s, fg_ip := pp_ip s,
          fg_port := pp_port s\<rparr>))" if "s \<in> set (n_successor_list n)" for s :: peer_pair and l
  proof -
    let ?n = "n\<lparr>n_successor_list := l\<rparr>"
    from wf that have "ip_ok (pp_ip s)" and ft: "0 < length (n_finger_table n)"
      by (auto simp: wf_node_def list_all_iff)
    with update_finger_eq [of 0 ?n] obtain n2 where
      n2: "update_finger ?n 0 (pp_relay_id s) (pp_ip s) (pp_port s) = Some n2" by auto
    from finger_update_0 [OF n2, of f0] f0 n2 show ?thesis by (simp add: finger_def)
  qed
  show ?thesis
  proof (cases "n_successor_status n")
    case False
    then show ?thesis
      using adopt f0 by (cases "n_successor_list n"; cases "tl (n_successor_list n)")
        (auto simp: judge_successor_task_def Let_def)
  qed (simp add: judge_successor_task_def)
qed

theorem judge_successor_outcome_witness:
  "returns (judge_successor_task ((sample_node 3 1 ''10.0.0.1'' 3010 (replicate 3 (sample_finger 2 4 ''10.0.0.4'' 3010)))
      \<lparr>n_successor_list := [\<lparr>pp_ip = ''10.0.0.4'', pp_port = 3010, pp_relay_id = 4, pp_check_usage = True\<rparr>,
         \<lparr>pp_ip = ''10.0.0.6'', pp_port = 3010, pp_relay_id = 6, pp_check_usage = True\<rparr>]\<rparr>))
    (\<lambda>(n', as). \<exists>f. finger n' 0 = Some f \<and> fg_successor f = 6 \<and> fg_ip f = ''10.0.0.6'')"
proof -
  let ?f = "sample_finger 2 4 ''10.0.0.4'' 3010"
  let ?n = "(sample_node 3 1 ''10.0.0.1'' 3010 (replicate 3 ?f))
      \<lparr>n_successor_list := [\<lparr>pp_ip = ''10.0.0.4'', pp_port = 3010, pp_relay_id = 4, pp_check_usage = True\<rparr>,
         \<lparr>pp_ip = ''10.0.0.6'', pp_port = 3010, pp_relay_id = 6, pp_check_usage = True\<rparr>]\<rparr>"
  have wf: "wf_node ?n"
    by (simp add: wf_node_def sample_node_def sample_finger_def ip_ok_def ip_cap_def on_ring_def list_all_iff)
  have f: "finger ?n 0 = Some ?f" by (simp add: finger_def sample_node_def arr_get_def)
  show ?thesis
    by (rule returns_mono [OF judge_successor_outcome [OF wf f]])
      (auto simp: sample_node_def sample_finger_def Let_def)
qed

subsection \<open>Hostile datagrams\<close>

text \<open>
  C29. A reply to a successor lookup is trusted: whatever its sender, a well-formed relay handles it
  within its finger table if and only if the index of the header is a finger and the address has fewer
  than 20 characters. Nothing in the code checks either, so any other datagram writes outside the
  table or the address buffer.
\<close>

theorem lookup_reply_unchecked:
  assumes wf: "wf_relay r" and d: "h_id d = internal_reply_find_successor" "h_msg_type d"
  shows "receive r d \<noteq> None \<longleftrightarrow>
    0 \<le> h_index d \<and> h_index d < int (n_m (r_node r)) \<and> length (h_key_ip d) < 20"
proof -
  obtain mem r1 where nm: "new_mem r = (mem, r1)" by (cases "new_mem r")
  then have r1: "r_node r1 = r_node r" by (auto simp: new_mem_def)
  let ?q = "recvfrom_into (AnonymousPacket0 mem) d"
  have q: "h_id ?q = internal_reply_find_successor" "is_internal_msg ?q" "h_index ?q = h_index d"
    "h_key_ip ?q = h_key_ip d"
    using d by (simp_all add: recvfrom_into_def is_internal_msg_def)
  have "receive r d = on_reply_find_successor r1 ?q"
    by (simp add: receive_def nm dispatch_def q internal_cases_def DAE_process_internal_message_def message_defs)
  moreover have "on_reply_find_successor r1 ?q \<noteq> None \<longleftrightarrow>
      0 \<le> h_index d \<and> h_index d < int (n_m (r_node r)) \<and> length (h_key_ip d) < 20"
  proof (cases "0 \<le> h_index d \<and> h_index d < int (n_m (r_node r))")
    case True
    with wf update_finger_eq [of "h_index d" "r_node r"] show ?thesis
      by (simp add: on_reply_find_successor_eq r1 q wf_relay_def wf_node_def ip_ok_def ip_cap_def)
  next
    case False
    with wf show ?thesis
      by (auto simp: on_reply_find_successor_def r1 q updatesuccessor_def arr_get_def wf_relay_def wf_node_def)
  qed
  ultimately show ?thesis by simp
qed

theorem lookup_reply_unchecked_witness:
  "receive sample_relay (sample_mem\<lparr>h_id := internal_reply_find_successor, h_msg_type := True, h_index := 3\<rparr>) = None"
proof (rule ccontr)
  let ?d = "sample_mem\<lparr>h_id := internal_reply_find_successor, h_msg_type := True, h_index := 3\<rparr>"
  assume "\<not> ?thesis"
  moreover have "n_m (r_node sample_relay) = 3"
    by (simp add: sample_relay_def init_DAEService_def RandomSocket_def sample_node_def Let_def)
  ultimately show False using lookup_reply_unchecked [OF wf_sample_relay, of ?d] by simp
qed

text \<open>
  The payload size of an application message is trusted: a relay that has to forward a dead-drop
  message whose header claims more than 864 bytes of payload copies past the end of a packet,
  whatever the rest of the datagram is.
\<close>

theorem forwarded_size_unchecked:
  assumes wf: "wf_relay r" and d: "h_id d = external_deaddrop_messaging" "\<not> h_msg_type d" "\<not> h_is_dest d"
    and sz: "864 < h_size d"
  shows "receive r d = None"
proof -
  obtain mem r1 where nm: "new_mem r = (mem, r1)" by (cases "new_mem r")
  then have r1: "r_node r1 = r_node r" "\<forall>k. r_heap r1 k = r_heap r k" by (auto simp: new_mem_def)
  let ?q = "recvfrom_into (AnonymousPacket0 mem) d"
  have q: "h_id ?q = external_deaddrop_messaging" "\<not> is_internal_msg ?q" "\<not> h_is_dest ?q" "payload_size ?q = h_size d"
    using d by (simp_all add: recvfrom_into_def is_internal_msg_def payload_size_def)
  have "wf_mem (fst (new_mem r1))" using wf r1(2) by (simp add: new_mem_def wf_relay_def)
  then have none: "external_messaging r1 de s sq ni ip np ty dd ck ct (h_size d) = None" for de s sq ni ip np ty dd ck ct
    using sz by (cases "new_mem r1")
      (auto simp: external_messaging_def AnonymousPacket18_def memcpy_into_def wf_mem_def packet_cap_defs
        strncpy_into_def)
  have "perform_actions None r1 [Call (ExternalMessaging de s sq ni ip np ty dd ck ct (h_size d))] = None"
    for de s sq ni ip np ty dd ck ct by (simp add: none)
  moreover have "\<exists>de s sq ni ip np ty dd ck ct. as = [Call (ExternalMessaging de s sq ni ip np ty dd ck ct sz')]"
    if "handle_external_messaging n x s sq ty dd ck ct sz' = Some as" for n x s sq ty dd ck ct sz' as
    using that by (auto simp: handle_external_messaging_def split: if_splits elim!: bind_SomeE) blast+
  ultimately have pa: "perform_actions None r1 as = None"
    if "handle_external_messaging n x s sq ty dd ck ct (h_size d) = Some as" for n x s sq ty dd ck ct as
    using that by metis
  have "forward_external r1 p ty dd ck ?q = None" for p ty dd ck
    unfolding forward_external_def q(4)
    by (cases "handle_external_messaging (r_node r1) False (h_session_id p) (h_index p) ty dd ck (payload ?q) (h_size d)")
      (simp_all add: pa)
  then show ?thesis
    using q by (simp add: receive_def nm dispatch_def external_cases_def DAE_process_internal_message_def
        on_deaddrop_def message_defs Let_def)
qed

theorem forwarded_size_unchecked_witness:
  "receive sample_relay (sample_mem\<lparr>h_id := external_deaddrop_messaging, h_size := 100000\<rparr>) = None"
  by (rule forwarded_size_unchecked [OF wf_sample_relay]) (simp_all add: sample_mem_def)

subsection \<open>Ping-pong\<close>

text \<open>
  A ping-pong message is never consumed: every relay that receives one, its destination included,
  sends it on with the same content and nothing reaches the application, because the handlers
  do not look at the destination flag.
\<close>

theorem pingpong_never_consumed:
  assumes wf: "wf_relay r" and p: "wf_packet p" and rm: "room 1 r" and ty: "external_id (h_id p)"
  shows "returns (on_pingpong r p) (\<lambda>r'. (\<exists>q. held r' = add_mset q (held r) \<and>
      carries q (h_id p) (h_key_id p) (h_relay_reply_id p) (h_session_id p) (h_index p) (content p)) \<and>
    n_recv_list_user (r_node r') = n_recv_list_user (r_node r))"
proof -
  have "n_recv_list_user (r_node r') = n_recv_list_user (r_node r)" if "sent_ok 1 r r'" for r'
    using no_cnt_eqD(14) [OF sent_okD(2) [OF that]] .
  then show ?thesis
    unfolding on_pingpong_def
    by (intro returns_mono [OF forward_external_takes [OF wf p ty rm]])
      (auto simp: takes_def intro: exI [of _ "on_wire q" for q])
qed

theorem pingpong_never_consumed_witness:
  "returns (on_pingpong sample_relay ((sample_drop 2 [1])\<lparr>h_id := external_pingpong_service\<rparr>))
    (\<lambda>r'. \<exists>q. held r' = add_mset q (held sample_relay) \<and> h_key_id q = 1 \<and> n_recv_list_user (r_node r') = [])"
proof -
  let ?p = "(sample_drop 2 [1])\<lparr>h_id := external_pingpong_service\<rparr>"
  have "wf_packet (sample_drop 2 [1])" by (rule wf_sample_drop) (simp add: packet_cap_defs)
  then have w: "wf_packet ?p" by (simp add: wf_packet_def wf_mem_def)
  have e: "external_id (h_id ?p)" by (simp add: external_id_def)
  have "n_recv_list_user (r_node sample_relay) = []" "h_key_id ?p = 1"
    by (simp_all add: sample_relay_def init_DAEService_def RandomSocket_def sample_node_def Let_def sample_drop_def)
  then show ?thesis
    by (intro returns_mono [OF pingpong_never_consumed [OF wf_sample_relay w sample_relay_room(2) e]])
      (auto simp: carries_def)
qed

end
