(* ===== verification/Routing.thy ===== *)
theory Routing
  imports Node
begin

text \<open>
  Routing on a stable ring: when every node's fingers point to the nodes responsible for their
  starting points, the forwarding of application messages and the successor lookup of
  src/src/p2p/DAENode.cpp reach the node responsible for any identifier, in at most \<open>m + 1\<close> hops. A
  hop is one call of \<open>handle_external_messaging\<close> or \<open>handle_find_successor\<close> at the node that the
  previous call named.
\<close>

subsection \<open>Responsibility and stability\<close>

text \<open>The node responsible for \<open>x\<close>: the first one clockwise from \<open>x\<close>.\<close>

definition owner :: "nat \<Rightarrow> ring_id list \<Rightarrow> ring_id \<Rightarrow> ring_id" where
  "owner m ids x = arg_min_list (cw m x) ids"

text \<open>The starting point of finger \<open>k\<close>, as the constructor of the node computes it.\<close>

definition finger_start :: "nat \<Rightarrow> ring_id \<Rightarrow> nat \<Rightarrow> ring_id" where
  "finger_start m a k = (a + word_of_int (2 ^ k)) mod word_of_int (2 ^ m)"

definition stable_node :: "nat \<Rightarrow> ring_id list \<Rightarrow> dae_node \<Rightarrow> bool" where
  "stable_node m ids n \<longleftrightarrow> n_m n = m \<and> length (n_finger_table n) = m \<and>
     (\<forall>k < m. fg_successor (n_finger_table n ! k) = owner m ids (finger_start m (n_id n) k))"

definition stable :: "nat \<Rightarrow> ring_id list \<Rightarrow> (ring_id \<Rightarrow> dae_node) \<Rightarrow> bool" where
  "stable m ids nodes \<longleftrightarrow> 0 < m \<and> m < 32 \<and> ids \<noteq> [] \<and>
     (\<forall>a \<in> set ids. on_ring m a \<and> n_id (nodes a) = a \<and> stable_node m ids (nodes a))"

subsection \<open>Hops\<close>

text \<open>The identifiers an application message visits from node \<open>a\<close> on, until a node sends it with
  \<open>is_dest\<close> set; \<open>None\<close> when the fuel is used up or a call is not of the expected form.\<close>

fun route :: "(ring_id \<Rightarrow> dae_node) \<Rightarrow> nat \<Rightarrow> ring_id \<Rightarrow> int \<Rightarrow> int \<Rightarrow> u64 \<Rightarrow> ring_id \<Rightarrow> ring_id \<Rightarrow>
    byte list \<Rightarrow> int \<Rightarrow> ring_id list option" where
  "route nodes 0 a session sq ty dest_id client_key ct sz = None"
| "route nodes (Suc fuel) a session sq ty dest_id client_key ct sz =
     (case handle_external_messaging (nodes a) False session sq ty dest_id client_key ct sz of
        Some [Call (ExternalMessaging is_dest s q next_id ip port t d c body size_of_body)] \<Rightarrow>
          if is_dest then Some [next_id]
          else map_option (Cons next_id) (route nodes fuel next_id s q t d c body size_of_body)
      | _ \<Rightarrow> None)"

text \<open>The nodes a successor lookup visits from node \<open>a\<close> on, and the answer sent in the end.\<close>

fun lookup :: "(ring_id \<Rightarrow> dae_node) \<Rightarrow> nat \<Rightarrow> ring_id \<Rightarrow> ip_addr \<Rightarrow> int \<Rightarrow> int \<Rightarrow> ring_id \<Rightarrow>
    (ring_id list \<times> proto_call) option" where
  "lookup nodes 0 a src_ip src_port index dest_id = None"
| "lookup nodes (Suc fuel) a src_ip src_port index dest_id =
     (case handle_find_successor (nodes a) src_ip src_port index dest_id False of
        Some (_, [Call (ReplyFindSuccessor ip port d i su su_ip su_port)]) \<Rightarrow>
          Some ([a], ReplyFindSuccessor ip port d i su su_ip su_port)
      | Some (_, [Call (JoinFindSuccessor ip next_id port s si sp i d)]) \<Rightarrow>
          map_option (\<lambda>(path, c). (a # path, c)) (lookup nodes fuel next_id s sp i d)
      | _ \<Rightarrow> None)"

subsection \<open>Facts on distances\<close>

lemma cw_wrap:
  assumes "on_ring m a" and "on_ring m b" and "on_ring m c" and "cw m a c < cw m a b"
  shows "cw m b c = cw m a c + 2 ^ m - cw m a b"
  using assms by (auto simp: cw_nat on_ring_def split: if_splits)

lemma cw_triangle:
  assumes "on_ring m a" and "on_ring m b" and "on_ring m c" and "cw m a b + cw m b c < 2 ^ m"
  shows "cw m a c = cw m a b + cw m b c"
  using assms by (auto simp: cw_nat on_ring_def split: if_splits)

lemma unat_finger_start:
  assumes "on_ring m a" and "k < m" and "m < 32"
  shows "unat (finger_start m a k) = (unat a + 2 ^ k) mod 2 ^ m"
proof -
  have pk: "(2::nat) ^ k < 2 ^ 32" using assms by (intro power_strict_increasing) auto
  have pm: "(2::nat) ^ m < 2 ^ 32" using assms by (intro power_strict_increasing) auto
  have k: "unat (word_of_int (2 ^ k) :: u64) = 2 ^ k" and m: "unat (word_of_int (2 ^ m) :: u64) = 2 ^ m"
    using unat_power_64 [of k] unat_power_64 [of m] assms by auto
  have "unat a + 2 ^ k < 2 ^ 64" using assms(1) pk pm by (simp add: on_ring_def)
  then have "unat (a + word_of_int (2 ^ k)) = unat a + 2 ^ k"
    by (simp add: unat_word_ariths(1) k [simplified])
  then show ?thesis by (simp add: finger_start_def unat_mod m [simplified])
qed

lemma finger_start_ring: "on_ring m a \<Longrightarrow> k < m \<Longrightarrow> m < 32 \<Longrightarrow> on_ring m (finger_start m a k)"
  by (simp add: on_ring_def unat_finger_start)

lemma cw_finger_start:
  assumes "on_ring m a" and "k < m" and "m < 32"
  shows "cw m a (finger_start m a k) = 2 ^ k"
proof -
  have pk: "(2::nat) ^ k < 2 ^ m" using assms by (intro power_strict_increasing) auto
  have ra: "unat a < 2 ^ m" using assms(1) by (simp add: on_ring_def)
  show ?thesis
  proof (cases "unat a + 2 ^ k < 2 ^ m")
    case True
    then have "unat (finger_start m a k) = unat a + 2 ^ k" by (simp add: unat_finger_start [OF assms])
    then show ?thesis by (simp add: cw_nat [OF assms(1) finger_start_ring [OF assms]])
  next
    case False
    have "unat a + 2 ^ k - 2 ^ m < 2 ^ m" using ra pk by linarith
    with False have "unat (finger_start m a k) = unat a + 2 ^ k - 2 ^ m"
      by (simp add: unat_finger_start [OF assms] le_mod_geq)
    moreover have "\<not> unat a \<le> unat a + 2 ^ k - 2 ^ m" using False pk by linarith
    ultimately show ?thesis
      using False by (simp add: cw_nat [OF assms(1) finger_start_ring [OF assms]])
  qed
qed

subsection \<open>Facts on responsibility\<close>

lemma owner_in: "ids \<noteq> [] \<Longrightarrow> owner m ids x \<in> set ids"
  by (simp add: owner_def arg_min_list_in)

lemma owner_least:
  assumes "s \<in> set ids"
  shows "cw m x (owner m ids x) \<le> cw m x s"
proof -
  from assms have "ids \<noteq> []" by auto
  with assms show ?thesis by (simp add: owner_def f_arg_min_list_f)
qed

lemma owner_eqI:
  assumes "\<forall>a \<in> set ids. on_ring m a" and "on_ring m x" and "s \<in> set ids"
    and "\<And>t. t \<in> set ids \<Longrightarrow> cw m x s \<le> cw m x t"
  shows "owner m ids x = s"
proof -
  have o: "owner m ids x \<in> set ids" using assms(3) by (intro owner_in) auto
  have "cw m x (owner m ids x) = cw m x s"
    using owner_least [OF assms(3), of m x] assms(4) [OF o] by simp
  with assms o show ?thesis using cw_inject [of m x "owner m ids x" s] by blast
qed

text \<open>Responsibility as seen from a node \<open>a\<close> of the ring.\<close>

lemma owner_view:
  assumes ring: "\<forall>a \<in> set ids. on_ring m a" and x: "on_ring m x" and a: "a \<in> set ids"
    and pos: "0 < cw m a x" and s: "s = owner m ids x"
  shows "s \<noteq> a \<Longrightarrow> cw m a x \<le> cw m a s"
    and "t \<in> set ids \<Longrightarrow> cw m a x \<le> cw m a t \<Longrightarrow> s \<noteq> a \<and> cw m a s \<le> cw m a t"
proof -
  have ids: "s \<in> set ids" using a s by (auto intro: owner_in)
  have ra: "on_ring m a" and rs: "on_ring m s" using ring a ids by auto
  have xa: "cw m x a = 2 ^ m - cw m a x" using cw_wrap [OF ra x ra] pos by simp
  have sa: "cw m x s \<le> cw m x a" using owner_least [OF a, of m x] s by simp
  show far: "cw m a x \<le> cw m a s" if "s \<noteq> a"
  proof (rule ccontr)
    assume "\<not> ?thesis"
    then have lt: "cw m a s < cw m a x" by simp
    from cw_wrap [OF ra x rs lt] sa xa have "cw m a s = 0" using cw_less [of m a x] by simp
    with that ra rs show False using cw_eq_0_iff [OF ra rs] by simp
  qed
  assume t: "t \<in> set ids" and le: "cw m a x \<le> cw m a t"
  have rt: "on_ring m t" using ring t by auto
  have xt: "cw m x t = cw m a t - cw m a x" using cw_split [OF ra x rt le] .
  have st: "cw m x s \<le> cw m x t" using owner_least [OF t, of m x] s by simp
  have "s \<noteq> a"
    using st xt xa cw_less [of m a t] le by auto
  with far st xt cw_split [OF ra x rs] le show "s \<noteq> a \<and> cw m a s \<le> cw m a t" by simp
qed

subsection \<open>The decision of one node\<close>

lemma in_range_open:
  assumes "m < 32" and "on_ring m x" and "on_ring m y" and "on_ring m z"
  shows "is_in_range m x y z \<longleftrightarrow> ring_open m x y z"
  using assms by (intro is_in_range_ring_open) auto

text \<open>The successor is the nearest other node.\<close>

lemma successor_nearest:
  assumes ring: "\<forall>a \<in> set ids. on_ring m a" and m: "0 < m" "m < 32" and a: "a \<in> set ids"
    and t: "t \<in> set ids" "t \<noteq> a"
  shows "owner m ids (finger_start m a 0) \<noteq> a \<and> cw m a (owner m ids (finger_start m a 0)) \<le> cw m a t"
proof -
  have ra: "on_ring m a" using ring a by auto
  have "cw m a (finger_start m a 0) = 1" using cw_finger_start [OF ra m] by simp
  moreover have "cw m a t \<noteq> 0" using ring t ra cw_eq_0_iff [of m a t] by auto
  ultimately show ?thesis
    using owner_view(2) [OF ring finger_start_ring [OF ra m] a _ refl t(1)] by simp
qed

text \<open>Between a node and its nearest other node, that one is responsible.\<close>

lemma owner_of_gap:
  assumes ring: "\<forall>a \<in> set ids. on_ring m a" and a: "a \<in> set ids" and s: "s \<in> set ids" and d: "on_ring m d"
    and near: "\<And>t. t \<in> set ids \<Longrightarrow> t \<noteq> a \<Longrightarrow> s \<noteq> a \<and> cw m a s \<le> cw m a t"
    and o: "d = s \<or> ring_open m a s d"
  shows "owner m ids d = s"
proof (cases "d = s \<or> a = s")
  case True
  then show ?thesis
  proof
    assume "a = s"
    with near have "t = s" if "t \<in> set ids" for t using that by blast
    then show ?thesis by (intro owner_eqI [OF ring d s]) simp
  next
    assume "d = s"
    then show ?thesis by (intro owner_eqI [OF ring d s]) simp
  qed
next
  case False
  with o have lt: "0 < cw m a d" "cw m a d < cw m a s" by (auto simp: ring_open_def)
  have ra: "on_ring m a" and rs: "on_ring m s" using ring a s by auto
  have ds: "cw m d s = cw m a s - cw m a d" using cw_split [OF ra d rs] lt by simp
  show ?thesis
  proof (rule owner_eqI [OF ring d s])
    fix t assume t: "t \<in> set ids"
    show "cw m d s \<le> cw m d t"
    proof (cases "t = a")
      case True
      then show ?thesis using cw_wrap [OF ra d ra] lt(1) ds cw_less [of m a s] by simp
    next
      case tn: False
      have rt: "on_ring m t" using ring t by auto
      from near [OF t tn] lt show ?thesis
        using cw_split [OF ra d rt] ds by (simp add: diff_le_mono)
    qed
  qed
qed

text \<open>The finger that the scan from the top selects.\<close>

lemma find_rev_last:
  assumes "k < length xs" and "P (xs ! k)"
  obtains i where "k \<le> i" and "i < length xs" and "P (xs ! i)" and "find P (rev xs) = Some (xs ! i)"
proof -
  from assms have "\<exists>i. k \<le> i \<and> i < length xs \<and> P (xs ! i) \<and> find P (rev xs) = Some (xs ! i)"
  proof (induction xs rule: rev_induct)
    case (snoc x xs)
    show ?case
    proof (cases "P x")
      case True
      with snoc.prems show ?thesis by (intro exI [of _ "length xs"]) auto
    next
      case False
      with snoc.prems have "k < length xs" "P (xs ! k)"
        by (auto simp: nth_append less_Suc_eq split: if_splits)
      with snoc.IH obtain i where "k \<le> i" "i < length xs" "P (xs ! i)" "find P (rev xs) = Some (xs ! i)"
        by blast
      with False show ?thesis by (intro exI [of _ i]) (auto simp: nth_append)
    qed
  qed simp
  with that show thesis by blast
qed

lemma far_finger:
  assumes st: "stable m ids nodes" and a: "a \<in> set ids" and d: "on_ring m d" and n: "n = nodes a"
    and k: "k < m" and p: "p \<in> set ids" "2 ^ k \<le> cw m a p" "cw m a p < cw m a d"
  obtains f i where "closest_finger n d m = Some (Some f)" and "k \<le> i" and "i < m"
    and "f = n_finger_table n ! i" and "fg_successor f \<in> set ids"
    and "2 ^ i \<le> cw m a (fg_successor f)" and "cw m a (fg_successor f) < cw m a d"
proof -
  from st have m: "0 < m" "m < 32" and ring: "\<forall>a \<in> set ids. on_ring m a" and ne: "ids \<noteq> []"
    by (auto simp: stable_def)
  from st a n have nid: "n_id n = a" "n_m n = m" "length (n_finger_table n) = m"
    and ft: "\<And>k. k < m \<Longrightarrow> fg_successor (n_finger_table n ! k) = owner m ids (finger_start m a k)"
    by (auto simp: stable_def stable_node_def)
  have ra: "on_ring m a" using ring a by auto
  have ad: "a \<noteq> d" using p by auto
  let ?P = "\<lambda>f. is_in_range m a d (fg_successor f)"
  have view: "owner m ids (finger_start m a j) \<noteq> a \<longrightarrow> 2 ^ j \<le> cw m a (owner m ids (finger_start m a j))"
      "t \<in> set ids \<Longrightarrow> 2 ^ j \<le> cw m a t \<Longrightarrow> owner m ids (finger_start m a j) \<noteq> a \<and>
        cw m a (owner m ids (finger_start m a j)) \<le> cw m a t" if "j < m" for j t
    using owner_view [OF ring finger_start_ring [OF ra that m(2)] a _ refl]
      cw_finger_start [OF ra that m(2)] by auto
  have range: "?P f \<longleftrightarrow> 0 < cw m a (fg_successor f) \<and> cw m a (fg_successor f) < cw m a d"
    if "fg_successor f \<in> set ids" for f
    using that ring d ra m(2) ad by (simp add: in_range_open ring_open_def)
  have fin: "fg_successor (n_finger_table n ! j) \<in> set ids" if "j < m" for j
    using owner_in [OF ne] that by (simp add: ft)
  have "2 ^ k \<le> cw m a (owner m ids (finger_start m a k))" using view [OF k] p by blast
  then have "0 < cw m a (owner m ids (finger_start m a k))"
    by (rule less_le_trans [rotated]) simp
  with view(2) [OF k p(1,2)] p(3) have "?P (n_finger_table n ! k)"
    using range [OF fin [OF k]] ft [OF k] by simp
  then obtain i where i: "k \<le> i" "i < m" "?P (n_finger_table n ! i)"
    "find ?P (rev (n_finger_table n)) = Some (n_finger_table n ! i)"
    using find_rev_last [of k "n_finger_table n" ?P] nid k by metis
  show thesis
  proof (rule that [of "n_finger_table n ! i" i])
    show "closest_finger n d m = Some (Some (n_finger_table n ! i))"
      using closest_finger_find [of m n d] nid i(4) by simp
    from i(3) fin [OF i(2)] have r: "0 < cw m a (fg_successor (n_finger_table n ! i))"
      "cw m a (fg_successor (n_finger_table n ! i)) < cw m a d" by (auto simp: range)
    then show "cw m a (fg_successor (n_finger_table n ! i)) < cw m a d" by simp
    from r(1) have "fg_successor (n_finger_table n ! i) \<noteq> a" by auto
    then show "2 ^ i \<le> cw m a (fg_successor (n_finger_table n ! i))"
      using view(1) [OF i(2)] ft [OF i(2)] by simp
  qed (use i fin in simp_all)
qed

text \<open>
  For an identifier other than its own, a stable node either has the responsible node as its
  successor, or its successor lies strictly between itself and the identifier.
\<close>

lemma stable_successor:
  assumes st: "stable m ids nodes" and a: "a \<in> set ids" and d: "on_ring m d" and ad: "a \<noteq> d"
  obtains f0 where "finger (nodes a) 0 = Some f0" and "fg_successor f0 \<in> set ids"
    and "is_right_tight_in_range m a d (fg_successor f0) \<longrightarrow> owner m ids d = fg_successor f0"
    and "\<not> is_right_tight_in_range m a d (fg_successor f0) \<longrightarrow>
      0 < cw m a (fg_successor f0) \<and> cw m a (fg_successor f0) < cw m a d"
proof -
  from st have m: "0 < m" "m < 32" and ring: "\<forall>a \<in> set ids. on_ring m a" and ne: "ids \<noteq> []"
    by (auto simp: stable_def)
  define f0 where "f0 = n_finger_table (nodes a) ! 0"
  define s0 where "s0 = fg_successor f0"
  from st a m have len: "length (n_finger_table (nodes a)) = m"
    and s0: "s0 = owner m ids (finger_start m a 0)"
    by (auto simp: stable_def stable_node_def s0_def f0_def)
  have s0i: "s0 \<in> set ids" using owner_in [OF ne] s0 by simp
  have ra: "on_ring m a" and rs: "on_ring m s0" using ring a s0i by auto
  have rt: "is_right_tight_in_range m a d s0 \<longleftrightarrow> d = s0 \<or> ring_open m a s0 d"
    using in_range_open [OF m(2) ra rs d] by (simp add: is_right_tight_in_range_def)
  show thesis
  proof (rule that [of f0])
    show "finger (nodes a) 0 = Some f0" using len m by (simp add: finger_def arr_get_def f0_def)
    show "fg_successor f0 \<in> set ids" using s0i by (simp add: s0_def)
    show "is_right_tight_in_range m a d (fg_successor f0) \<longrightarrow> owner m ids d = fg_successor f0"
      using owner_of_gap [OF ring a s0i d] successor_nearest [OF ring m a] rt
      unfolding s0 [symmetric] s0_def [symmetric] by blast
    show "\<not> is_right_tight_in_range m a d (fg_successor f0) \<longrightarrow>
      0 < cw m a (fg_successor f0) \<and> cw m a (fg_successor f0) < cw m a d"
    proof
      assume "\<not> is_right_tight_in_range m a d (fg_successor f0)"
      with rt have ds: "d \<noteq> s0" and "\<not> ring_open m a s0 d" by (auto simp: s0_def)
      moreover have "0 < cw m a d" using cw_eq_0_iff [OF ra d] ad by simp
      ultimately have "a \<noteq> s0" and "cw m a s0 \<le> cw m a d" by (auto simp: ring_open_def)
      moreover have "cw m a s0 \<noteq> cw m a d" using cw_inject [OF ra rs d] ds by auto
      ultimately show "0 < cw m a (fg_successor f0) \<and> cw m a (fg_successor f0) < cw m a d"
        using cw_eq_0_iff [OF ra rs] by (auto simp: s0_def)
    qed
  qed
qed

text \<open>After a hop of at least \<open>2 ^ k\<close>, what is left is below \<open>2 ^ k\<close>.\<close>

lemma remaining_halves:
  assumes ring: "\<forall>a \<in> set ids. on_ring m a" and a: "a \<in> set ids" and c: "c \<in> set ids" and d: "on_ring m d"
    and lim: "\<forall>s \<in> set ids. cw m a s < cw m a d \<longrightarrow> cw m a s < 2 ^ Suc k"
    and hop: "2 ^ k \<le> cw m a c" "cw m a c < cw m a d"
  shows "\<forall>s \<in> set ids. cw m c s < cw m c d \<longrightarrow> cw m c s < 2 ^ k"
proof (intro ballI impI)
  fix s assume s: "s \<in> set ids" and lt: "cw m c s < cw m c d"
  have ra: "on_ring m a" and rc: "on_ring m c" and rs: "on_ring m s" using ring a c s by auto
  have cd: "cw m c d = cw m a d - cw m a c" using cw_split [OF ra rc d] hop by simp
  with lt have sum: "cw m a c + cw m c s < cw m a d" by simp
  then have "cw m a s = cw m a c + cw m c s"
    using cw_triangle [OF ra rc rs] cw_less [of m a d] by simp
  with lim s sum hop show "cw m c s < 2 ^ k" by fastforce
qed

text \<open>
  The walk both protocols share: if a property of a node, a fuel and a number of hops holds
  where no other node lies before the identifier, and passes from the selected finger back to the
  node, then it holds at every node with at most \<open>k + 1\<close> hops, where \<open>2 ^ k\<close> bounds the distance of
  the nodes before the identifier.
\<close>

lemma ring_walk:
  assumes st: "stable m ids nodes" and d: "on_ring m d"
    and arrive: "\<And>a fuel. a \<in> set ids \<Longrightarrow> \<not> (\<exists>s \<in> set ids. 0 < cw m a s \<and> cw m a s < cw m a d) \<Longrightarrow>
      Q a (Suc fuel) 1"
    and forward: "\<And>a f fuel h. a \<in> set ids \<Longrightarrow> closest_finger (nodes a) d m = Some (Some f) \<Longrightarrow>
      fg_successor f \<in> set ids \<Longrightarrow> fg_successor f \<noteq> a \<Longrightarrow> Q (fg_successor f) fuel h \<Longrightarrow> Q a (Suc fuel) (Suc h)"
    and more: "\<And>a fuel h. Q a fuel h \<Longrightarrow> Q a fuel (Suc h)"
  shows "a \<in> set ids \<Longrightarrow> \<forall>s \<in> set ids. cw m a s < cw m a d \<longrightarrow> cw m a s < 2 ^ k \<Longrightarrow> k \<le> m \<Longrightarrow> k < fuel \<Longrightarrow>
    Q a fuel (Suc k)"
proof (induction k arbitrary: a fuel)
  case 0
  then obtain fl where "fuel = Suc fl" by (cases fuel) auto
  moreover have "\<not> (\<exists>s \<in> set ids. 0 < cw m a s \<and> cw m a s < cw m a d)" using 0(2) by auto
  ultimately show ?case using arrive [OF 0(1)] by simp
next
  case (Suc k)
  from Suc.prems obtain fl where fuel: "fuel = Suc fl" "k < fl" by (cases fuel) auto
  have ring: "\<forall>a \<in> set ids. on_ring m a" using st by (simp add: stable_def)
  have km: "k < m" "k \<le> m" using Suc.prems(3) by auto
  show ?case
  proof (cases "\<exists>p \<in> set ids. 2 ^ k \<le> cw m a p \<and> cw m a p < cw m a d")
    case False
    then have "\<forall>s \<in> set ids. cw m a s < cw m a d \<longrightarrow> cw m a s < 2 ^ k" by (meson not_le)
    from more [OF Suc.IH [OF Suc.prems(1) this km(2)]] Suc.prems(4) show ?thesis by simp
  next
    case True
    then obtain p where p: "p \<in> set ids" "2 ^ k \<le> cw m a p" "cw m a p < cw m a d" by blast
    obtain f i where f: "closest_finger (nodes a) d m = Some (Some f)" "k \<le> i"
      "fg_successor f \<in> set ids" "2 ^ i \<le> cw m a (fg_successor f)"
      "cw m a (fg_successor f) < cw m a d"
      by (rule far_finger [OF st Suc.prems(1) d refl km(1) p])
    have "(2::nat) ^ k \<le> 2 ^ i" using f(2) by (rule power_increasing) simp
    with f(4) have hop: "2 ^ k \<le> cw m a (fg_successor f)" by linarith
    then have "0 < cw m a (fg_successor f)" by (rule less_le_trans [rotated]) simp
    then have ca: "fg_successor f \<noteq> a" by auto
    note rest = remaining_halves [OF ring Suc.prems(1) f(3) d Suc.prems(2) hop f(5)]
    show ?thesis
      unfolding fuel(1)
      by (rule forward [OF Suc.prems(1) f(1,3) ca Suc.IH [OF f(3) rest km(2) fuel(2)]])
  qed
qed

subsection \<open>Application messages and lookups reach the responsible node\<close>

lemma owner_self:
  assumes "stable m ids nodes" and "a \<in> set ids"
  shows "owner m ids a = a"
  using assms by (intro owner_eqI) (auto simp: stable_def)

lemma external_step:
  assumes st: "stable m ids nodes" and a: "a \<in> set ids" and d: "on_ring m d"
  shows "(\<exists>ip port. handle_external_messaging (nodes a) b session sq ty d ck ct sz =
      Some [Call (ExternalMessaging True session sq (owner m ids d) ip port ty d ck ct sz)]) \<or>
    (\<exists>s \<in> set ids. 0 < cw m a s \<and> cw m a s < cw m a d) \<and>
    (\<forall>f. closest_finger (nodes a) d m = Some (Some f) \<and> fg_successor f \<noteq> a \<longrightarrow>
      handle_external_messaging (nodes a) b session sq ty d ck ct sz =
        Some [Call (ExternalMessaging False session sq (fg_successor f) (fg_ip f) (fg_port f)
          ty d ck ct sz)])"
proof (cases "a = d")
  case True
  with st a owner_self [OF st a] show ?thesis
    by (auto simp: handle_external_messaging_def stable_def)
next
  case False
  from st a have n: "n_id (nodes a) = a" "n_m (nodes a) = m"
    by (auto simp: stable_def stable_node_def)
  obtain f0 where f0: "finger (nodes a) 0 = Some f0" "fg_successor f0 \<in> set ids"
    "is_right_tight_in_range m a d (fg_successor f0) \<longrightarrow> owner m ids d = fg_successor f0"
    "\<not> is_right_tight_in_range m a d (fg_successor f0) \<longrightarrow>
      0 < cw m a (fg_successor f0) \<and> cw m a (fg_successor f0) < cw m a d"
    by (rule stable_successor [OF st a d False])
  show ?thesis
  proof (cases "is_right_tight_in_range m a d (fg_successor f0)")
    case True
    with f0 n False show ?thesis by (simp add: handle_external_messaging_def)
  next
    case nrt: False
    have "handle_external_messaging (nodes a) b session sq ty d ck ct sz =
        Some [Call (ExternalMessaging False session sq (fg_successor f) (fg_ip f) (fg_port f)
          ty d ck ct sz)]"
      if "closest_finger (nodes a) d m = Some (Some f) \<and> fg_successor f \<noteq> a" for f
      using that f0(1) n False nrt
      by (simp add: handle_external_messaging_def find_closest_preceding_node_def
          find_closest_preceding_node_ip_def find_closest_preceding_node_port_def)
    with f0(2,4) nrt show ?thesis by blast
  qed
qed

lemma route_from:
  assumes st: "stable m ids nodes" and d: "on_ring m d" and a: "a \<in> set ids"
    and lim: "\<forall>s \<in> set ids. cw m a s < cw m a d \<longrightarrow> cw m a s < 2 ^ k" and k: "k \<le> m" "k < fuel"
  shows "\<exists>path. route nodes fuel a session sq ty d ck ct sz = Some path \<and> path \<noteq> [] \<and>
      last path = owner m ids d \<and> length path \<le> Suc k \<and> set path \<subseteq> set ids"
proof (rule ring_walk [OF st d _ _ _ a lim k, where Q = "\<lambda>a fuel h. \<exists>path.
    route nodes fuel a session sq ty d ck ct sz = Some path \<and> path \<noteq> [] \<and>
    last path = owner m ids d \<and> length path \<le> h \<and> set path \<subseteq> set ids"])
  have own: "owner m ids d \<in> set ids" using st by (auto simp: stable_def owner_in)
  note step = external_step [OF st _ d, of _ False session sq ty ck ct sz]
  fix a fuel h f
  assume a: "a \<in> set ids"
  show "\<exists>path. route nodes (Suc fuel) a session sq ty d ck ct sz = Some path \<and> path \<noteq> [] \<and>
      last path = owner m ids d \<and> length path \<le> 1 \<and> set path \<subseteq> set ids"
    if "\<not> (\<exists>s \<in> set ids. 0 < cw m a s \<and> cw m a s < cw m a d)"
    using step [OF a] that own by auto
  assume f: "closest_finger (nodes a) d m = Some (Some f)" "fg_successor f \<in> set ids"
    "fg_successor f \<noteq> a" and "\<exists>path. route nodes fuel (fg_successor f) session sq ty d ck ct sz =
      Some path \<and> path \<noteq> [] \<and> last path = owner m ids d \<and> length path \<le> h \<and> set path \<subseteq> set ids"
  then obtain path where path: "route nodes fuel (fg_successor f) session sq ty d ck ct sz = Some path"
    "path \<noteq> []" "last path = owner m ids d" "length path \<le> h" "set path \<subseteq> set ids" by blast
  show "\<exists>path. route nodes (Suc fuel) a session sq ty d ck ct sz = Some path \<and> path \<noteq> [] \<and>
      last path = owner m ids d \<and> length path \<le> Suc h \<and> set path \<subseteq> set ids"
    using step [OF a]
  proof (elim disjE conjE)
    assume "\<forall>f. closest_finger (nodes a) d m = Some (Some f) \<and> fg_successor f \<noteq> a \<longrightarrow>
      handle_external_messaging (nodes a) False session sq ty d ck ct sz =
        Some [Call (ExternalMessaging False session sq (fg_successor f) (fg_ip f) (fg_port f)
          ty d ck ct sz)]"
    with f path show ?thesis by simp
  qed (use own in auto)
qed (auto intro: le_SucI)

lemma find_step:
  assumes st: "stable m ids nodes" and a: "a \<in> set ids" and d: "on_ring m d"
  shows "(\<exists>b ip port. handle_find_successor (nodes a) src sp ix d is_find =
      Some (b, [Call (ReplyFindSuccessor src sp d ix (owner m ids d) ip port)])) \<or>
    (\<exists>s \<in> set ids. 0 < cw m a s \<and> cw m a s < cw m a d) \<and>
    (\<forall>f. closest_finger (nodes a) d m = Some (Some f) \<and> fg_successor f \<noteq> a \<longrightarrow>
      handle_find_successor (nodes a) src sp ix d is_find =
        Some (is_find, [Call (JoinFindSuccessor (fg_ip f) (fg_successor f) (fg_port f) src (- 1) sp
          ix d)]))"
proof (cases "a = d")
  case True
  with st a owner_self [OF st a] show ?thesis
    by (auto simp: handle_find_successor_def stable_def)
next
  case False
  from st a have n: "n_id (nodes a) = a" "n_m (nodes a) = m"
    by (auto simp: stable_def stable_node_def)
  obtain f0 where f0: "finger (nodes a) 0 = Some f0" "fg_successor f0 \<in> set ids"
    "is_right_tight_in_range m a d (fg_successor f0) \<longrightarrow> owner m ids d = fg_successor f0"
    "\<not> is_right_tight_in_range m a d (fg_successor f0) \<longrightarrow>
      0 < cw m a (fg_successor f0) \<and> cw m a (fg_successor f0) < cw m a d"
    by (rule stable_successor [OF st a d False])
  show ?thesis
  proof (cases "is_right_tight_in_range m a d (fg_successor f0)")
    case True
    with f0 n False show ?thesis by (auto simp: handle_find_successor_def)
  next
    case nrt: False
    have "handle_find_successor (nodes a) src sp ix d is_find =
        Some (is_find, [Call (JoinFindSuccessor (fg_ip f) (fg_successor f) (fg_port f) src (- 1) sp
          ix d)])"
      if "closest_finger (nodes a) d m = Some (Some f) \<and> fg_successor f \<noteq> a" for f
      using that f0(1) n False nrt
      by (simp add: handle_find_successor_def find_closest_preceding_node_def
          find_closest_preceding_node_ip_def find_closest_preceding_node_port_def)
    with f0(2,4) nrt show ?thesis by blast
  qed
qed

lemma lookup_from:
  assumes st: "stable m ids nodes" and d: "on_ring m d" and a: "a \<in> set ids"
    and lim: "\<forall>s \<in> set ids. cw m a s < cw m a d \<longrightarrow> cw m a s < 2 ^ k" and k: "k \<le> m" "k < fuel"
  shows "\<exists>path ip port. lookup nodes fuel a src sp ix d =
      Some (path, ReplyFindSuccessor src sp d ix (owner m ids d) ip port) \<and>
      length path \<le> Suc k \<and> set path \<subseteq> set ids"
proof (rule ring_walk [OF st d _ _ _ a lim k, where Q = "\<lambda>a fuel h. \<exists>path ip port.
    lookup nodes fuel a src sp ix d = Some (path, ReplyFindSuccessor src sp d ix (owner m ids d) ip port) \<and>
    length path \<le> h \<and> set path \<subseteq> set ids"])
  note step = find_step [OF st _ d, of _ src sp ix False]
  fix a fuel h f
  assume a: "a \<in> set ids"
  show "\<exists>path ip port. lookup nodes (Suc fuel) a src sp ix d =
      Some (path, ReplyFindSuccessor src sp d ix (owner m ids d) ip port) \<and>
      length path \<le> 1 \<and> set path \<subseteq> set ids"
    if "\<not> (\<exists>s \<in> set ids. 0 < cw m a s \<and> cw m a s < cw m a d)"
    using step [OF a] that a by auto
  assume f: "closest_finger (nodes a) d m = Some (Some f)" "fg_successor f \<in> set ids"
    "fg_successor f \<noteq> a" and "\<exists>path ip port. lookup nodes fuel (fg_successor f) src sp ix d =
      Some (path, ReplyFindSuccessor src sp d ix (owner m ids d) ip port) \<and>
      length path \<le> h \<and> set path \<subseteq> set ids"
  then obtain path ip port where path: "lookup nodes fuel (fg_successor f) src sp ix d =
      Some (path, ReplyFindSuccessor src sp d ix (owner m ids d) ip port)"
    "length path \<le> h" "set path \<subseteq> set ids" by blast
  show "\<exists>path ip port. lookup nodes (Suc fuel) a src sp ix d =
      Some (path, ReplyFindSuccessor src sp d ix (owner m ids d) ip port) \<and>
      length path \<le> Suc h \<and> set path \<subseteq> set ids"
    using step [OF a]
  proof (elim disjE conjE)
    assume "\<forall>f. closest_finger (nodes a) d m = Some (Some f) \<and> fg_successor f \<noteq> a \<longrightarrow>
      handle_find_successor (nodes a) src sp ix d False =
        Some (False, [Call (JoinFindSuccessor (fg_ip f) (fg_successor f) (fg_port f) src (- 1) sp
          ix d)])"
    with f path a show ?thesis by simp
  qed (use a in auto)
qed (auto intro: le_SucI)

subsection \<open>Maintenance keeps a stable ring\<close>

text \<open>The starting points the constructor stores.\<close>

definition starts_ok :: "dae_node \<Rightarrow> bool" where
  "starts_ok n \<longleftrightarrow> (\<forall>k < length (n_finger_table n).
     fg_start (n_finger_table n ! k) = finger_start (n_m n) (n_id n) k)"

lemma starts_new:
  assumes "DAENode mem m i port addr bt config = Some n" and "m < 31"
  shows "starts_ok n"
proof -
  have nth: "length fs = length ks \<and> (\<forall>j < length ks. fg_start (fs ! j) =
      finger_start (nat m) i (ks ! j))"
    if "new_fingers (nat m) i addr port ks = Some fs" "\<forall>k \<in> set ks. k < nat m" for ks fs
    using that
  proof (induction ks arbitrary: fs)
    case (Cons k ks)
    then obtain f gs where fs: "fs = f # gs" "new_finger (nat m) i addr port k = Some f"
      "new_fingers (nat m) i addr port ks = Some gs" by (auto elim!: bind_SomeE)
    have "fg_start f = finger_start (nat m) i k"
      using fs(2) assms(2) Cons.prems(2)
      by (auto simp: new_finger_def shl_one_def finger_start_def split: if_splits elim!: bind_SomeE)
    with Cons.IH [OF fs(3)] Cons.prems(2) fs(1) show ?case by (auto simp: nth_Cons split: nat.splits)
  qed simp
  obtain ft where "new_fingers (nat m) i addr port [0..<nat m] = Some ft"
    and n: "n_finger_table n = ft" "n_m n = nat m" "n_id n = i"
    using assms(1) by (auto simp: DAENode_def split: if_splits elim!: bind_SomeE)
  from nth [OF this(1)] n show ?thesis by (simp add: starts_ok_def)
qed

text \<open>The shortcut of \<open>fix_fingers\<close>: a start that lies before the previous finger belongs to it.\<close>

lemma owner_shortcut:
  assumes ring: "\<forall>a \<in> set ids. on_ring m a" and m: "m < 32" and a: "a \<in> set ids" and i: "Suc i < m"
    and s: "s = owner m ids (finger_start m a i)" and r: "is_in_range m a s (finger_start m a (Suc i))"
  shows "owner m ids (finger_start m a (Suc i)) = s"
proof -
  have ra: "on_ring m a" and ne: "ids \<noteq> []" using ring a by auto
  have i': "i < m" using i by simp
  have si: "s \<in> set ids" using owner_in [OF ne] s by simp
  have rs: "on_ring m s" using ring si by auto
  note c0 = cw_finger_start [OF ra i' m] and c1 = cw_finger_start [OF ra i m]
  note r0 = finger_start_ring [OF ra i' m] and r1 = finger_start_ring [OF ra i m]
  have o: "a = s \<or> 2 ^ Suc i < cw m a s"
    using r c1 by (auto simp: in_range_open [OF m ra rs r1] ring_open_def)
  have view: "s \<noteq> a \<and> cw m a s \<le> cw m a t" if "t \<in> set ids" "2 ^ i \<le> cw m a t" for t
    using owner_view(2) [OF ring r0 a _ s that(1)] c0 that(2) by simp
  let ?o = "owner m ids (finger_start m a (Suc i))"
  have oi: "?o \<in> set ids" by (rule owner_in [OF ne])
  have ov: "?o \<noteq> a \<longrightarrow> 2 ^ Suc i \<le> cw m a ?o"
      "t \<in> set ids \<Longrightarrow> 2 ^ Suc i \<le> cw m a t \<Longrightarrow> ?o \<noteq> a \<and> cw m a ?o \<le> cw m a t" for t
    using owner_view [OF ring r1 a _ refl] c1 by auto
  show ?thesis
  proof (cases "a = s")
    case True
    with view [OF oi] ov(1) show ?thesis by fastforce
  next
    case False
    with o have far: "2 ^ Suc i \<le> cw m a s" by simp
    from ov(2) [OF si far] ov(1) view [OF oi] have "cw m a ?o = cw m a s" by fastforce
    with cw_inject [OF ra _ rs] ring oi show ?thesis by blast
  qed
qed

lemma stable_node_update:
  assumes "stable_node m ids n" and "starts_ok n" and "k < m"
    and "su = owner m ids (finger_start m (n_id n) k)" and "update_finger n (int k) su ip port = Some n'"
  shows "stable_node m ids n' \<and> starts_ok n' \<and> n_id n' = n_id n"
  using assms
  by (auto simp: update_finger_eq stable_node_def starts_ok_def nth_list_update split: if_splits)

lemma fix_finger_stable:
  assumes ring: "\<forall>a \<in> set ids. on_ring m a" and m: "m < 32" and a: "n_id n \<in> set ids"
    and st: "stable_node m ids n" "starts_ok n" and i: "Suc i < m" and fx: "fix_finger n i = Some (n', as)"
  shows "stable_node m ids n' \<and> starts_ok n' \<and> n_id n' = n_id n"
proof -
  let ?f = "n_finger_table n ! i" and ?g = "n_finger_table n ! Suc i"
  from st i have f: "finger n (int i) = Some ?f" and g: "finger n (int i + 1) = Some ?g"
    and s: "fg_successor ?f = owner m ids (finger_start m (n_id n) i)" "n_m n = m"
    and st1: "fg_start ?g = finger_start m (n_id n) (Suc i)"
    by (auto simp: stable_node_def starts_ok_def finger_def arr_get_def nat_add_distrib)
  show ?thesis
  proof (cases "is_in_range m (n_id n) (fg_successor ?f) (fg_start ?g)")
    case True
    with fx f g s(2) have u: "update_finger n (int (Suc i)) (fg_successor ?f) (fg_ip ?f) (fg_port ?f) = Some n'"
      by (auto simp: fix_finger_def add.commute elim!: bind_SomeE)
    have "owner m ids (finger_start m (n_id n) (Suc i)) = fg_successor ?f"
      using owner_shortcut [OF ring m a i s(1)] True st1 by simp
    from stable_node_update [OF st i this [symmetric] u] show ?thesis .
  next
    case False
    with fx f g s(2) st show ?thesis by (auto simp: fix_finger_def elim!: bind_SomeE)
  qed
qed

lemma fix_finger_loop_stable:
  assumes "\<forall>a \<in> set ids. on_ring m a" and "m < 32"
  shows "fix_finger_loop n is = Some (n', as) \<Longrightarrow> n_id n \<in> set ids \<Longrightarrow> stable_node m ids n \<Longrightarrow> starts_ok n \<Longrightarrow>
    \<forall>i \<in> set is. Suc i < m \<Longrightarrow> stable_node m ids n' \<and> starts_ok n' \<and> n_id n' = n_id n"
proof (induction "is" arbitrary: n as)
  case (Cons i "is")
  from Cons.prems(1) obtain n1 b c where one: "fix_finger n i = Some (n1, b)"
    and rest: "fix_finger_loop n1 is = Some (n', c)"
    by (auto elim!: bind_SomeE)
  from fix_finger_stable [OF assms Cons.prems(2-4) _ one] Cons.prems(5)
  have "stable_node m ids n1 \<and> starts_ok n1 \<and> n_id n1 = n_id n" by simp
  with Cons.IH [OF rest] Cons.prems show ?case by simp
qed simp

lemma stabilize_stable:
  assumes st: "stable m ids nodes" and a: "a \<in> set ids" and wf: "wf_node (nodes a)"
    and pos: "n_pos (nodes a) = - 1 \<or> n_pos (nodes a) \<in> set ids"
  shows "returns (stabilize (nodes a)) (\<lambda>(n', as). n' = nodes a)"
proof -
  let ?n = "nodes a"
  from st have m: "0 < m" "m < 32" and ring: "\<forall>a \<in> set ids. on_ring m a" and ne: "ids \<noteq> []"
    by (auto simp: stable_def)
  from st a have n: "n_id ?n = a" "n_m ?n = m" and ra: "on_ring m a"
    by (auto simp: stable_def stable_node_def)
  define f0 where "f0 = n_finger_table ?n ! 0"
  from st a m have f0: "finger ?n 0 = Some f0"
    and s0: "fg_successor f0 = owner m ids (finger_start m a 0)"
    by (auto simp: stable_def stable_node_def finger_def arr_get_def f0_def)
  have "\<not> is_in_range m a (fg_successor f0) (n_pos ?n)"
  proof (cases "n_pos ?n = - 1")
    case True
    then show ?thesis using own_pos_unset [OF ra, of "fg_successor f0"] m by simp
  next
    case False
    with pos have p: "n_pos ?n \<in> set ids" by simp
    have "on_ring m (fg_successor f0)" "on_ring m (n_pos ?n)" using owner_in [OF ne] p ring s0 by auto
    moreover have "n_pos ?n = a \<or> fg_successor f0 \<noteq> a \<and> cw m a (fg_successor f0) \<le> cw m a (n_pos ?n)"
      using successor_nearest [OF ring m a p] s0 by auto
    ultimately show ?thesis using ra m(2) by (auto simp: in_range_open ring_open_def)
  qed
  with f0 n show ?thesis by (simp add: stabilize_def)
qed

lemma fix_fingers_stable:
  assumes st: "stable m ids nodes" and a: "a \<in> set ids" and wf: "wf_node (nodes a)" "starts_ok (nodes a)"
  shows "returns (fix_fingers (nodes a)) (\<lambda>(n', as). stable_node m ids n' \<and> starts_ok n' \<and> n_id n' = a)"
proof -
  from fix_fingers_ok [OF wf(1)] obtain n' as where f: "fix_fingers (nodes a) = Some (n', as)"
    by (auto simp: op_ok_def returns_def)
  then obtain b where "fix_finger_loop (nodes a) [0..<n_m (nodes a) - 1] = Some (n', b)"
    by (auto simp: fix_fingers_def elim!: bind_SomeE)
  moreover from st a have "\<forall>a \<in> set ids. on_ring m a" "m < 32" "n_id (nodes a) = a"
    "stable_node m ids (nodes a)" "n_m (nodes a) = m" by (auto simp: stable_def stable_node_def)
  moreover have "\<forall>i \<in> set [0..<m - 1]. Suc i < m" by auto
  ultimately have "stable_node m ids n' \<and> starts_ok n' \<and> n_id n' = a"
    using fix_finger_loop_stable [of ids m "nodes a" "[0..<m - 1]" n' b] a wf(2) by simp
  with f show ?thesis by simp
qed

subsection \<open>A concrete stable ring\<close>

text \<open>Node \<open>a\<close> of the stable ring with members \<open>ids\<close>.\<close>

definition sample_ring :: "nat \<Rightarrow> ring_id list \<Rightarrow> ring_id \<Rightarrow> dae_node" where
  "sample_ring m ids a = sample_node m a ''10.0.0.1'' 3010
     (map (\<lambda>k. sample_finger (finger_start m a k) (owner m ids (finger_start m a k)) ''10.0.0.2'' 3010)
       [0..<m])"

lemma stable_sample_ring:
  assumes "0 < m" and "m < 32" and "ids \<noteq> []" and "\<forall>a \<in> set ids. on_ring m a"
  shows "stable m ids (sample_ring m ids)"
  using assms
  by (simp add: stable_def stable_node_def sample_ring_def sample_node_def sample_finger_def)

lemma wf_sample_ring:
  assumes "0 < m" and "m < 32" and "on_ring m a"
  shows "wf_node (sample_ring m ids a)" and "starts_ok (sample_ring m ids a)"
  using assms
  by (auto simp: sample_ring_def list_all_length sample_finger_def ip_ok_def ip_cap_def starts_ok_def
      intro!: wf_sample_node) (simp_all add: sample_node_def)

subsection \<open>Properties\<close>

text \<open>
  C1. On a stable ring an application message handed to any node reaches the node responsible for
  its destination identifier, after at most \<open>m + 1\<close> hops that all stay on the ring; the last hop, and
  no earlier one, is sent with \<open>is_dest\<close> set.
\<close>

theorem external_message_reaches_owner:
  assumes "stable m ids nodes" and "on_ring m dest_id" and "a \<in> set ids"
  shows "\<exists>path. route nodes (m + 1) a session sq ty dest_id client_key ct sz = Some path \<and>
     path \<noteq> [] \<and> last path = owner m ids dest_id \<and> length path \<le> m + 1 \<and> set path \<subseteq> set ids"
  using route_from [OF assms, of m "m + 1"] cw_less by auto

theorem external_message_reaches_owner_witness:
  "\<exists>path. route (sample_ring 3 [1, 4, 6]) 4 1 7 0 external_deaddrop_messaging 5 1 [] 0 = Some path \<and>
     path \<noteq> [] \<and> last path = owner 3 [1, 4, 6] 5 \<and> length path \<le> 4 \<and> set path \<subseteq> {1, 4, 6}"
proof -
  have "stable 3 [1, 4, 6] (sample_ring 3 [1, 4, 6])"
    by (rule stable_sample_ring) (simp_all add: on_ring_def)
  from external_message_reaches_owner [OF this, of 5 1 7 0 external_deaddrop_messaging 1 "[]" 0]
  show ?thesis by (simp add: on_ring_def)
qed

text \<open>
  C2. On a stable ring a successor lookup started at any node is answered with the node responsible
  for the identifier asked for, to the address and for the finger index of the request, after
  visiting at most \<open>m + 1\<close> nodes.
\<close>

theorem lookup_finds_owner:
  assumes "stable m ids nodes" and "on_ring m dest_id" and "a \<in> set ids"
  shows "\<exists>path ip port. lookup nodes (m + 1) a src_ip src_port index dest_id =
       Some (path, ReplyFindSuccessor src_ip src_port dest_id index (owner m ids dest_id) ip port) \<and>
     length path \<le> m + 1 \<and> set path \<subseteq> set ids"
  using lookup_from [OF assms, of m "m + 1"] cw_less by auto

theorem lookup_finds_owner_witness:
  "\<exists>path ip port. lookup (sample_ring 3 [1, 4, 6]) 4 6 ''10.0.0.9'' 3010 2 3 =
       Some (path, ReplyFindSuccessor ''10.0.0.9'' 3010 3 2 (owner 3 [1, 4, 6] 3) ip port) \<and>
     length path \<le> 4 \<and> set path \<subseteq> {1, 4, 6}"
proof -
  have "stable 3 [1, 4, 6] (sample_ring 3 [1, 4, 6])"
    by (rule stable_sample_ring) (simp_all add: on_ring_def)
  from lookup_finds_owner [OF this, of 3 6 "''10.0.0.9''" 3010 2] show ?thesis
    by (simp add: on_ring_def)
qed

text \<open>
  C3. Maintenance leaves a stable ring stable: \<open>stabilize\<close> changes nothing at a node whose last news
  about its successor's predecessor is a member of the ring or absent, and \<open>fix_fingers\<close>, its
  shortcut included, keeps every finger at the node responsible for its start.
\<close>

theorem maintenance_keeps_stable_ring:
  assumes "stable m ids nodes" and "a \<in> set ids" and "wf_node (nodes a)" and "starts_ok (nodes a)"
    and "n_pos (nodes a) = - 1 \<or> n_pos (nodes a) \<in> set ids"
  shows "returns (stabilize (nodes a)) (\<lambda>(n', as). n' = nodes a) \<and>
     returns (fix_fingers (nodes a)) (\<lambda>(n', as). stable_node m ids n' \<and> starts_ok n' \<and> n_id n' = a)"
  using stabilize_stable [OF assms(1-3,5)] fix_fingers_stable [OF assms(1-4)] by simp

theorem maintenance_keeps_stable_ring_witness:
  "returns (stabilize (sample_ring 3 [1, 4, 6] 4)) (\<lambda>(n', as). n' = sample_ring 3 [1, 4, 6] 4) \<and>
   returns (fix_fingers (sample_ring 3 [1, 4, 6] 4))
     (\<lambda>(n', as). stable_node 3 [1, 4, 6] n' \<and> starts_ok n' \<and> n_id n' = 4)"
proof -
  have "stable 3 [1, 4, 6] (sample_ring 3 [1, 4, 6])"
    by (rule stable_sample_ring) (simp_all add: on_ring_def)
  moreover have "n_pos (sample_ring 3 [1, 4, 6] 4) = - 1" by (simp add: sample_ring_def sample_node_def)
  ultimately show ?thesis
    using maintenance_keeps_stable_ring [of 3 "[1, 4, 6]" "sample_ring 3 [1, 4, 6]" 4] wf_sample_ring
    by (simp add: on_ring_def)
qed

end
