(* ===== verification/Joining.thy ===== *)
theory Joining
  imports Maintenance Routing
begin

text \<open>
  A node joins a stable ring: the exchange of messages that one round of \<open>stabilize\<close> causes, as a step of all the
  nodes, and the rounds after which the successors and predecessors are those of the larger ring. A message is
  handled by the node whose identifier the sender has for it.
\<close>

subsection \<open>A round of maintenance\<close>

text \<open>The handler of the reply to \<open>find_predecessor\<close>, on the node.\<close>

definition answered :: "dae_node \<Rightarrow> ring_id \<Rightarrow> ip_addr \<Rightarrow> int \<Rightarrow> dae_node option" where
  "answered n i ip port = do {
     n2 \<leftarrow> set_predecessor_of_successor_ip (set_predecessor_of_successor n i) ip;
     Some (set_predecessor_of_successor_port n2 port) }"

text \<open>What a call of node \<open>a\<close> makes of the nodes, its answer included.\<close>

fun deliver_call :: "ring_id \<Rightarrow> (ring_id \<Rightarrow> dae_node) \<Rightarrow> proto_call \<Rightarrow> (ring_id \<Rightarrow> dae_node) option" where
  "deliver_call a nodes (FindPredecessor ip port src src_ip src_port su) =
     (case handle_get_predecessor (nodes su) src_ip src_port of
        [Call (ReplyGetPredecessor rip rport i pip pport)] \<Rightarrow>
          map_option (\<lambda>n. nodes(a := n)) (answered (nodes a) i pip pport)
      | _ \<Rightarrow> None)"
| "deliver_call a nodes (NotifyPredecessorJoin ip su port i) =
     map_option (\<lambda>n. nodes(su := n)) (notify (nodes su) i (n_ip (nodes a)) (n_port (nodes a)))"
| "deliver_call a nodes c = Some nodes"

fun deliver_all :: "ring_id \<Rightarrow> (ring_id \<Rightarrow> dae_node) \<Rightarrow> action list \<Rightarrow> (ring_id \<Rightarrow> dae_node) option" where
  "deliver_all a nodes [] = Some nodes"
| "deliver_all a nodes (Call c # as) = do { nodes' \<leftarrow> deliver_call a nodes c; deliver_all a nodes' as }"
| "deliver_all a nodes (_ # as) = deliver_all a nodes as"

definition stabilize_round :: "ring_id \<Rightarrow> (ring_id \<Rightarrow> dae_node) \<Rightarrow> (ring_id \<Rightarrow> dae_node) option" where
  "stabilize_round a nodes = do {
     (n, as) \<leftarrow> stabilize (nodes a);
     deliver_all a (nodes(a := n)) as }"

text \<open>The answer to the join request, and a round of the new node and two of the node before it.\<close>

definition join_rounds :: "dae_node \<Rightarrow> ring_id \<Rightarrow> ring_id \<Rightarrow> ip_addr \<Rightarrow> int \<Rightarrow> (ring_id \<Rightarrow> dae_node) \<Rightarrow> (ring_id \<Rightarrow> dae_node) option" where
  "join_rounds n p s ip port nodes = do {
     n1 \<leftarrow> update_finger n 0 s ip port;
     nodes1 \<leftarrow> stabilize_round (n_id n) (nodes(n_id n := n1));
     nodes2 \<leftarrow> stabilize_round p nodes1;
     stabilize_round p nodes2 }"

subsection \<open>The steps of a round\<close>

definition know_pos :: "dae_node \<Rightarrow> dae_node \<Rightarrow> dae_node" where
  "know_pos n s = n\<lparr>n_pos := n_predecessor s, n_pos_ip := n_predecessor_ip s, n_pos_port := n_predecessor_port s\<rparr>"

definition know_predecessor :: "dae_node \<Rightarrow> dae_node \<Rightarrow> dae_node" where
  "know_predecessor n a = n\<lparr>n_predecessor := n_id a, n_predecessor_ip := n_ip a, n_predecessor_port := n_port a\<rparr>"

lemma know_simps [simp]:
  "n_id (know_pos n s) = n_id n" "n_ip (know_pos n s) = n_ip n" "n_port (know_pos n s) = n_port n" "n_m (know_pos n s) = n_m n"
  "n_finger_table (know_pos n s) = n_finger_table n" "n_predecessor (know_pos n s) = n_predecessor n"
  "n_predecessor_ip (know_pos n s) = n_predecessor_ip n" "n_predecessor_port (know_pos n s) = n_predecessor_port n"
  "n_pos (know_pos n s) = n_predecessor s" "n_pos_ip (know_pos n s) = n_predecessor_ip s" "n_pos_port (know_pos n s) = n_predecessor_port s"
  "n_id (know_predecessor n a) = n_id n" "n_ip (know_predecessor n a) = n_ip n" "n_port (know_predecessor n a) = n_port n"
  "n_m (know_predecessor n a) = n_m n" "n_finger_table (know_predecessor n a) = n_finger_table n"
  "n_predecessor (know_predecessor n a) = n_id a" "n_predecessor_ip (know_predecessor n a) = n_ip a"
  "n_predecessor_port (know_predecessor n a) = n_port a"
  "n_pos (know_predecessor n a) = n_pos n" "n_pos_ip (know_predecessor n a) = n_pos_ip n" "n_pos_port (know_predecessor n a) = n_pos_port n"
  by (simp_all add: know_pos_def know_predecessor_def)

lemma ask_step:
  assumes "ip_ok (n_predecessor_ip (nodes su))"
  shows "deliver_call a nodes (FindPredecessor ip port src src_ip src_port su) = Some (nodes(a := know_pos (nodes a) (nodes su)))"
  using assms
  by (simp add: handle_get_predecessor_def answered_def set_predecessor_of_successor_def set_predecessor_of_successor_ip_def
      set_predecessor_of_successor_port_def bind_strncpy know_pos_def)

lemma notify_step:
  assumes "ip_ok (n_ip (nodes a))" "n_id (nodes a) = i" "n_m (nodes su) = m" "n_id (nodes su) = su"
  shows "n_predecessor (nodes su) = - 1 \<or> is_in_range m (n_predecessor (nodes su)) su i \<Longrightarrow>
      deliver_call a nodes (NotifyPredecessorJoin ip su port i) = Some (nodes(su := know_predecessor (nodes su) (nodes a)))"
    and "n_predecessor (nodes su) \<noteq> - 1 \<Longrightarrow> \<not> is_in_range m (n_predecessor (nodes su)) su i \<Longrightarrow>
      deliver_call a nodes (NotifyPredecessorJoin ip su port i) = Some nodes"
  using assms
  by (simp_all add: notify_def setpredecessor_def setpredecessor_ip_def setpredecessor_port_def bind_strncpy know_predecessor_def)

declare deliver_call.simps [simp del]

text \<open>A round that keeps the successor, and one that moves it.\<close>

definition succ_of :: "dae_node \<Rightarrow> ring_id" where
  "succ_of n = fg_successor (n_finger_table n ! 0)"

lemma stabilize_keep:
  assumes "n_finger_table n \<noteq> []" "\<not> is_in_range (n_m n) (n_id n) (succ_of n) (n_pos n)"
  shows "\<exists>ip port. stabilize n = Some (n, Call (FindPredecessor ip port (n_id n) (n_ip n) (n_port n) (succ_of n)) #
    (if succ_of n \<noteq> n_id n then [Call (NotifyPredecessorJoin ip (succ_of n) port (n_id n))] else []))"
proof -
  have "finger n 0 = Some (n_finger_table n ! 0)" using assms(1) by (simp add: finger_def arr_get_def)
  then show ?thesis using assms(2) by (auto simp: stabilize_def succ_of_def)
qed

definition move_succ :: "dae_node \<Rightarrow> dae_node" where
  "move_succ n = n\<lparr>n_finger_table := (n_finger_table n)[0 := (n_finger_table n ! 0)
     \<lparr>fg_successor := n_pos n, fg_ip := n_pos_ip n, fg_port := n_pos_port n\<rparr>]\<rparr>"

lemma stabilize_move:
  assumes "n_finger_table n \<noteq> []" "is_in_range (n_m n) (n_id n) (succ_of n) (n_pos n)" "ip_ok (n_pos_ip n)" "n_pos n \<noteq> n_id n"
  shows "\<exists>ip port. stabilize n = Some (move_succ n, [Call (FindPredecessor ip port (n_id n) (n_ip n) (n_port n) (succ_of n)),
    Call (NotifyPredecessorJoin (n_pos_ip n) (n_pos n) (n_pos_port n) (n_id n))])"
proof -
  have f: "finger n 0 = Some (n_finger_table n ! 0)" using assms(1) by (simp add: finger_def arr_get_def)
  have u: "update_finger n 0 (n_pos n) (n_pos_ip n) (n_pos_port n) = Some (move_succ n)"
    using assms(1,3) by (simp add: update_finger_eq move_succ_def)
  have "finger (move_succ n) 0 = Some ((n_finger_table n ! 0)\<lparr>fg_successor := n_pos n, fg_ip := n_pos_ip n, fg_port := n_pos_port n\<rparr>)"
    using assms(1) by (simp add: finger_def arr_get_def move_succ_def)
  then show ?thesis using f u assms(2,4) by (auto simp: stabilize_def succ_of_def move_succ_def)
qed

text \<open>Round by round: the node asks its successor and tells it of itself.\<close>

lemma round_keep:
  assumes a: "n_finger_table (nodes a) \<noteq> []" "n_id (nodes a) = a" "n_m (nodes a) = m" "succ_of (nodes a) = s"
      "\<not> is_in_range m a s (n_pos (nodes a))" "ip_ok (n_ip (nodes a))"
    and s: "ip_ok (n_predecessor_ip (nodes s))" "n_m (nodes s) = m" "n_id (nodes s) = s"
  shows "stabilize_round a nodes = Some (let nodes' = nodes(a := know_pos (nodes a) (nodes s))
     in if s \<noteq> a \<and> (n_predecessor (nodes s) = - 1 \<or> is_in_range m (n_predecessor (nodes s)) s a)
        then nodes'(s := know_predecessor (nodes s) (nodes' a)) else nodes')"
proof -
  let ?nodes' = "nodes(a := know_pos (nodes a) (nodes s))"
  obtain ip port where st: "stabilize (nodes a) = Some (nodes a, Call (FindPredecessor ip port a (n_ip (nodes a)) (n_port (nodes a)) s) #
      (if s \<noteq> a then [Call (NotifyPredecessorJoin ip s port a)] else []))"
    using stabilize_keep [of "nodes a"] a by auto
  have ask: "deliver_call a nodes (FindPredecessor ip port a (n_ip (nodes a)) (n_port (nodes a)) s) = Some ?nodes'"
    using ask_step [where nodes = nodes and su = s] s(1) by simp
  have tell: "deliver_call a ?nodes' (NotifyPredecessorJoin ip s port a) = Some (if n_predecessor (nodes s) = - 1 \<or>
      is_in_range m (n_predecessor (nodes s)) s a then ?nodes'(s := know_predecessor (nodes s) (?nodes' a)) else ?nodes')" if "s \<noteq> a"
    using notify_step [of ?nodes' a a s m ip port] a s that by simp
  show ?thesis
  proof (cases "s = a")
    case True
    then show ?thesis using st ask by (simp add: stabilize_round_def)
  next
    case False
    then show ?thesis using st ask tell by (simp add: stabilize_round_def Let_def)
  qed
qed

lemma round_move:
  assumes a: "n_finger_table (nodes a) \<noteq> []" "n_id (nodes a) = a" "n_m (nodes a) = m" "succ_of (nodes a) = s"
      "is_in_range m a s (n_pos (nodes a))" "ip_ok (n_pos_ip (nodes a))" "n_pos (nodes a) = x" "x \<noteq> a" "ip_ok (n_ip (nodes a))"
    and s: "ip_ok (n_predecessor_ip (nodes s))" "x \<noteq> s"
    and x: "n_m (nodes x) = m" "n_id (nodes x) = x" "n_predecessor (nodes x) = - 1"
  shows "stabilize_round a nodes =
    (let a' = know_pos (move_succ (nodes a)) (nodes s) in Some (nodes(a := a', x := know_predecessor (nodes x) a')))"
proof -
  let ?n = "move_succ (nodes a)"
  let ?nodes = "nodes(a := ?n)"
  let ?a' = "know_pos ?n (nodes s)"
  have m: "n_id ?n = a" "n_ip ?n = n_ip (nodes a)" "n_port ?n = n_port (nodes a)" "n_predecessor ?n = n_predecessor (nodes a)"
    "n_predecessor_ip ?n = n_predecessor_ip (nodes a)" "n_predecessor_port ?n = n_predecessor_port (nodes a)"
    by (simp_all add: move_succ_def a)
  have k: "know_pos ?n (?nodes s) = ?a'" by (simp add: know_pos_def m)
  obtain ip port where st: "stabilize (nodes a) = Some (?n, [Call (FindPredecessor ip port a (n_ip (nodes a)) (n_port (nodes a)) s),
      Call (NotifyPredecessorJoin (n_pos_ip (nodes a)) x (n_pos_port (nodes a)) a)])"
    using stabilize_move [of "nodes a"] a by auto
  have "deliver_call a ?nodes (FindPredecessor ip port a (n_ip (nodes a)) (n_port (nodes a)) s) = Some (?nodes(a := ?a'))"
    using ask_step [of ?nodes s a ip port a "n_ip (nodes a)" "n_port (nodes a)"] s(1) k m by (cases "s = a") simp_all
  moreover have "deliver_call a (?nodes(a := ?a')) (NotifyPredecessorJoin (n_pos_ip (nodes a)) x (n_pos_port (nodes a)) a) =
      Some (nodes(a := ?a', x := know_predecessor (nodes x) ?a'))"
    using notify_step(1) [of "?nodes(a := ?a')" a a x m "n_pos_ip (nodes a)" "n_pos_port (nodes a)"] a x m by simp
  ultimately show ?thesis using st by (simp add: stabilize_round_def Let_def)
qed

subsection \<open>The larger ring\<close>

lemma successor_eqI:
  assumes ring: "\<forall>a \<in> set ids. on_ring m a" and m: "0 < m" "m < 32" and a: "a \<in> set ids" and b: "b \<in> set ids"
    and near: "\<And>t. t \<in> set ids \<Longrightarrow> t \<noteq> a \<Longrightarrow> b \<noteq> a \<and> cw m a b \<le> cw m a t"
  shows "owner m ids (finger_start m a 0) = b"
proof -
  let ?s = "owner m ids (finger_start m a 0)"
  have s: "?s \<in> set ids" using a by (intro owner_in) auto
  show ?thesis
  proof (cases "\<exists>t \<in> set ids. t \<noteq> a")
    case True
    then have sa: "?s \<noteq> a" using successor_nearest [OF ring m a] by blast
    then have "b \<noteq> a" "cw m a b \<le> cw m a ?s" using near [OF s] by auto
    moreover have "cw m a ?s \<le> cw m a b" using successor_nearest [OF ring m a b \<open>b \<noteq> a\<close>] by simp
    ultimately show ?thesis using cw_inject [of m a ?s b] ring a b s by auto
  next
    case False
    then show ?thesis using s b by metis
  qed
qed

lemma gap_of_owner:
  assumes ring: "\<forall>a \<in> set ids. on_ring m a" and x: "on_ring m x" "x \<notin> set ids" and p: "p \<in> set ids"
  shows "ring_open m p (owner m ids x) x"
proof -
  let ?s = "owner m ids x"
  have s: "?s \<in> set ids" using p by (intro owner_in) auto
  have rp: "on_ring m p" "on_ring m ?s" using ring p s by auto
  have "x \<noteq> p" "x \<noteq> ?s" using x(2) p s by auto
  then have pos: "0 < cw m p x" using cw_eq_0_iff [OF rp(1) x(1)] by simp
  moreover have "cw m p x \<noteq> cw m p ?s" using cw_inject [OF rp(1) x(1) rp(2)] \<open>x \<noteq> ?s\<close> by simp
  ultimately show ?thesis using owner_view(1) [OF ring x(1) p pos refl] by (cases "p = ?s") (simp_all add: ring_open_def)
qed

text \<open>Seen from the new node, its successor comes before every other one.\<close>

lemma new_not_before:
  assumes "on_ring m p" "on_ring m s" "on_ring m x" "ring_open m p s x" "p \<noteq> s"
  shows "\<not> ring_open m x s p"
proof -
  have "0 < cw m p x" "cw m p x < cw m p s" using assms(4,5) by (auto simp: ring_open_def)
  moreover have "cw m x s = cw m p s - cw m p x" using cw_split [OF assms(1,3,2)] calculation(2) by simp
  moreover have "cw m x p = 2 ^ m - cw m p x" using cw_wrap [OF assms(1,3,1)] calculation(1) by simp
  moreover have "cw m p s < 2 ^ m" by (rule cw_less)
  moreover have "x \<noteq> s" using calculation(2) by auto
  ultimately show ?thesis by (auto simp: ring_open_def)
qed

text \<open>The successors on the ring with one node more.\<close>

lemma new_successors:
  assumes ring: "\<forall>a \<in> set ids. on_ring m a" and m: "0 < m" "m < 32" and x: "on_ring m x" "x \<notin> set ids"
    and p: "p \<in> set ids" "owner m ids (finger_start m p 0) = owner m ids x"
  shows "owner m (x # ids) (finger_start m x 0) = owner m ids x" (is ?new)
    and "owner m (x # ids) (finger_start m p 0) = x" (is ?before)
    and "a \<in> set ids \<Longrightarrow> a \<noteq> p \<Longrightarrow> owner m (x # ids) (finger_start m a 0) = owner m ids (finger_start m a 0)"
proof -
  let ?s = "owner m ids x"
  have ring': "\<forall>a \<in> set (x # ids). on_ring m a" using ring x by simp
  have s: "?s \<in> set ids" using p by (intro owner_in) auto
  have gap: "ring_open m a ?s x" if "a \<in> set ids" for a using gap_of_owner [OF ring x that] .
  have near: "?s \<noteq> p \<and> cw m p ?s \<le> cw m p t" if "t \<in> set ids" "t \<noteq> p" for t
    using successor_nearest [OF ring m p(1) that] p(2) by simp
  show ?new
  proof (rule successor_eqI [OF ring' m])
    fix t assume "t \<in> set (x # ids)" "t \<noteq> x"
    then show "?s \<noteq> x \<and> cw m x ?s \<le> cw m x t" using s x(2) owner_least [of t ids m x] by auto
  qed (use s in auto)
  show ?before
  proof (rule successor_eqI [OF ring' m])
    fix t assume t: "t \<in> set (x # ids)" "t \<noteq> p"
    show "x \<noteq> p \<and> cw m p x \<le> cw m p t"
    proof (cases "t = x")
      case False
      with t have "t \<in> set ids" by simp
      then have "?s \<noteq> p" "cw m p ?s \<le> cw m p t" using near t(2) by blast+
      then show ?thesis using gap [OF p(1)] x(2) p(1) by (auto simp: ring_open_def)
    qed (use t(2) in simp)
  qed (use p in auto)
  assume a: "a \<in> set ids" "a \<noteq> p"
  let ?b = "owner m ids (finger_start m a 0)"
  have b: "?b \<in> set ids" using a by (intro owner_in) auto
  have ab: "?b \<noteq> a" "cw m a ?b \<le> cw m a p" using successor_nearest [OF ring m a(1) p(1)] a(2) by auto
  have ps: "?s \<noteq> p" "cw m p ?s \<le> cw m p a" using near [OF a] by auto
  have ra: "on_ring m a" "on_ring m p" "on_ring m ?s" "on_ring m ?b" using ring a(1) p(1) s b by auto
  have lt: "cw m p x < cw m p ?s" "0 < cw m p x" using gap [OF p(1)] ps(1) by (auto simp: ring_open_def)
  have "cw m a ?b \<le> cw m a x"
  proof (rule ccontr)
    assume "\<not> ?thesis"
    then have "cw m p x = cw m a x + 2 ^ m - cw m a p" using cw_wrap [OF ra(1,2) x(1)] ab(2) by simp
    moreover have "cw m p a = 2 ^ m - cw m a p" using cw_wrap [OF ra(1,2,1)] cw_eq_0_iff [OF ra(1,2)] a(2) by simp
    ultimately show False using ps(2) lt(1) by simp
  qed
  then show "owner m (x # ids) (finger_start m a 0) = ?b"
    using ab(1) successor_nearest [OF ring m a(1)] a(1) b by (intro successor_eqI [OF ring' m]) auto
qed

subsection \<open>Joining\<close>

text \<open>A stable ring whose nodes know of each other only, and a node that has just been created.\<close>

definition ring_ready :: "nat \<Rightarrow> ring_id list \<Rightarrow> (ring_id \<Rightarrow> dae_node) \<Rightarrow> bool" where
  "ring_ready m ids nodes \<longleftrightarrow> stable m ids nodes \<and> (\<forall>a \<in> set ids. wf_node (nodes a) \<and>
     (n_pos (nodes a) = - 1 \<or> n_pos (nodes a) \<in> set ids) \<and> (n_predecessor (nodes a) = - 1 \<or> n_predecessor (nodes a) \<in> set ids))"

definition newcomer :: "nat \<Rightarrow> ring_id \<Rightarrow> dae_node \<Rightarrow> bool" where
  "newcomer m x n \<longleftrightarrow> wf_node n \<and> n_m n = m \<and> n_id n = x \<and> n_pos n = - 1 \<and> n_predecessor n = - 1"

lemma on_ring_known: "on_ring m x \<Longrightarrow> m < 32 \<Longrightarrow> x \<noteq> - 1"
proof
  assume "on_ring m x" "m < 32" "x = - 1"
  moreover have "(2 :: nat) ^ m \<le> 2 ^ 32" using \<open>m < 32\<close> by (intro power_increasing) auto
  ultimately show False by (simp add: on_ring_def unsigned_minus_1_eq_mask mask_eq_exp_minus_1)
qed

lemma ring_readyD:
  assumes "ring_ready m ids nodes"
  shows "0 < m" "m < 32" "\<forall>a \<in> set ids. on_ring m a"
    and "a \<in> set ids \<Longrightarrow> wf_node (nodes a) \<and> n_id (nodes a) = a \<and> n_m (nodes a) = m \<and> n_finger_table (nodes a) \<noteq> []"
    and "a \<in> set ids \<Longrightarrow> succ_of (nodes a) = owner m ids (finger_start m a 0)"
    and "a \<in> set ids \<Longrightarrow> ip_ok (n_ip (nodes a)) \<and> ip_ok (n_predecessor_ip (nodes a))"
  using assms by (auto simp: ring_ready_def stable_def stable_node_def succ_of_def wf_node_def)

text \<open>What a member of the ring believes about its successor's predecessor never moves its successor.\<close>

lemma ready_keeps_successor:
  assumes "ring_ready m ids nodes" "a \<in> set ids"
  shows "\<not> is_in_range m a (owner m ids (finger_start m a 0)) (n_pos (nodes a))"
proof (cases "n_pos (nodes a) = - 1")
  case True
  then show ?thesis using own_pos_unset [of m a] ring_readyD(2,3) [OF assms(1)] assms(2) by simp
next
  case False
  let ?s = "owner m ids (finger_start m a 0)"
  have p: "n_pos (nodes a) \<in> set ids" using False assms by (auto simp: ring_ready_def)
  have "?s \<in> set ids" using assms(2) by (intro owner_in) auto
  then have r: "on_ring m a" "on_ring m ?s" "on_ring m (n_pos (nodes a))" using ring_readyD(3) [OF assms(1)] assms(2) p by auto
  have "n_pos (nodes a) = a \<or> ?s \<noteq> a \<and> cw m a ?s \<le> cw m a (n_pos (nodes a))"
    using successor_nearest [OF ring_readyD(3,1,2) [OF assms(1)] assms(2) p] by blast
  then show ?thesis using in_range_open [OF ring_readyD(2) [OF assms(1)] r] by (auto simp: ring_open_def)
qed

lemma join_rounds_eq:
  fixes port :: int
  assumes ready: "ring_ready m ids nodes" and x: "on_ring m x" "x \<notin> set ids" and n: "newcomer m x n"
    and p: "p \<in> set ids" "owner m ids (finger_start m p 0) = owner m ids x" and ip: "ip_ok ip"
  defines "s \<equiv> owner m ids x"
  defines "n2 \<equiv> know_pos (n\<lparr>n_finger_table := (n_finger_table n)[0 := (n_finger_table n ! 0)
      \<lparr>fg_successor := s, fg_ip := ip, fg_port := port\<rparr>]\<rparr>) (nodes s)"
  defines "s1 \<equiv> know_predecessor (nodes s) n2"
  defines "p1 \<equiv> know_pos (if p = s then s1 else nodes p) s1"
  defines "p2 \<equiv> know_pos (move_succ p1) (if p = s then p1 else s1)"
  shows "join_rounds n p s ip port nodes = Some (nodes(x := n2, s := s1, p := p2, x := know_predecessor n2 p2))"
proof -
  note m = ring_readyD(1,2) [OF ready] and ring = ring_readyD(3) [OF ready]
  have s: "s \<in> set ids" unfolding s_def using p by (intro owner_in) auto
  note sp = ring_readyD(4,6) [OF ready s] ring_readyD(4,6) [OF ready p(1)]
  have ne: "x \<noteq> s" "x \<noteq> p" "s \<noteq> x" "p \<noteq> x" using x(2) s p(1) by auto
  have r: "on_ring m p" "on_ring m s" using ring s p(1) by auto
  have known: "x \<noteq> - 1" using on_ring_known [OF x(1) m(2)] .
  have in1: "is_in_range m q s x" if "q \<in> set ids" for q
    using gap_of_owner [OF ring x that] in_range_open [OF m(2) _ r(2) x(1), of q] ring that by (simp add: s_def)
  have nn: "n_m n = m" "n_id n = x" "n_pos n = - 1" "n_predecessor n = - 1" "ip_ok (n_ip n)" "n_finger_table n \<noteq> []"
    using n by (auto simp: newcomer_def wf_node_def)
  let ?n1 = "n\<lparr>n_finger_table := (n_finger_table n)[0 := (n_finger_table n ! 0)\<lparr>fg_successor := s, fg_ip := ip, fg_port := port\<rparr>]\<rparr>"
  have u: "update_finger n 0 s ip port = Some ?n1" using ip nn(6) by (simp add: update_finger_eq)
  have pred: "n_predecessor (nodes s) = - 1 \<or> is_in_range m (n_predecessor (nodes s)) s x"
    using ready s in1 by (auto simp: ring_ready_def)
  have R1: "stabilize_round x (nodes(x := ?n1)) = Some (nodes(x := n2, s := s1))"
    using round_keep [of "nodes(x := ?n1)" x m s] nn sp ne pred own_pos_unset [OF x(1), of s] m
    by (simp add: succ_of_def n2_def s1_def Let_def)
  have n2: "n_id n2 = x" "n_m n2 = m" "n_predecessor n2 = - 1" "n_ip n2 = n_ip n" using nn by (simp_all add: n2_def)
  have s1: "n_id s1 = s" "n_m s1 = m" "n_predecessor s1 = x" "ip_ok (n_predecessor_ip s1)" "n_finger_table s1 = n_finger_table (nodes s)"
    "n_pos s1 = n_pos (nodes s)" "ip_ok (n_ip s1)"
    using sp n2 nn(5) by (simp_all add: s1_def)
  let ?N1 = "nodes(x := n2, s := s1)"
  have keep: "succ_of (?N1 p) = s" "\<not> is_in_range m p s (n_pos (?N1 p))"
    using ready_keeps_successor [OF ready p(1)] ring_readyD(5) [OF ready p(1)] p(2) s1 ne by (auto simp: succ_of_def s_def)
  have out: "\<not> is_in_range m x s p" if "p \<noteq> s"
    using new_not_before [OF r x(1) gap_of_owner [OF ring x p(1), folded s_def] that] in_range_open [OF m(2) x(1) r(2,1)] by simp
  have R2: "stabilize_round p ?N1 = Some (?N1(p := p1))"
    using round_keep [of ?N1 p m s] keep sp s1 ne known out by (auto simp: p1_def Let_def)
  have p1: "n_id p1 = p" "n_m p1 = m" "n_pos p1 = x" "succ_of p1 = s" "n_finger_table p1 \<noteq> []" "ip_ok (n_ip p1)" "ip_ok (n_pos_ip p1)"
    using sp s1 ne keep(1) by (auto simp: p1_def succ_of_def split: if_splits)
  have "ip_ok (n_predecessor_ip (if p = s then p1 else s1))" using s1 by (simp add: p1_def)
  then have R3: "stabilize_round p (?N1(p := p1)) = Some (?N1(p := p2, x := know_predecessor n2 p2))"
    using round_move [of "?N1(p := p1)" p m s x] p1 n2 ne in1 [OF p(1)] by (auto simp: p2_def Let_def)
  show ?thesis using u R1 R2 R3 nn(2) by (simp add: join_rounds_def)
qed

text \<open>The address in the answer to a lookup fits.\<close>

lemma lookup_call_ok:
  assumes "lookup nodes fuel a src sp ix d = Some (path, c)" "\<forall>b \<in> set path. wf_node (nodes b) \<and> n_m (nodes b) = m"
    and "ip_ok src" "0 \<le> ix" "ix < int m"
  shows "call_ok m c"
  using assms
proof (induction fuel arbitrary: a src sp ix d path)
  case (Suc fuel)
  obtain fd as where h: "handle_find_successor (nodes a) src sp ix d False = Some (fd, as)"
    using Suc.prems(1) by (cases "handle_find_successor (nodes a) src sp ix d False") auto
  obtain call where as: "as = [Call call]"
    using Suc.prems(1) h by (auto split: list.splits action.splits proto_call.splits)
  have a: "a \<in> set path" using Suc.prems(1) h as by (auto split: proto_call.splits)
  then have ok: "call_ok m call"
    using handle_find_successor_ok [of "nodes a" src ix sp d False] Suc.prems(2-5) h as by (simp add: returns_def)
  show ?case
  proof (cases call)
    case (JoinFindSuccessor ip next_id port s si sp' i d')
    then obtain path' where p: "lookup nodes fuel next_id s sp' i d' = Some (path', c)" "path = a # path'"
      using Suc.prems(1) h as by auto
    then show ?thesis using Suc.IH [OF p(1)] Suc.prems(2) ok JoinFindSuccessor by simp
  qed (use Suc.prems(1) h as ok in auto)
qed simp

text \<open>
  A node joins a stable ring: the lookup for its identifier, started at any member, is answered with the node
  that follows it; after the answer, one round of maintenance of the new node and two of the node before it, every
  node of the larger ring has the right successor, the new node is known to both its neighbours as such, with its
  address, and knows its predecessor.
\<close>

lemma join_completes:
  assumes ready: "ring_ready m ids nodes" and x: "on_ring m x" "x \<notin> set ids" and n: "newcomer m x n"
    and g: "g \<in> set ids" and p: "p \<in> set ids" "owner m ids (finger_start m p 0) = owner m ids x"
  shows "\<exists>path ip port nodes'. lookup nodes (m + 1) g (n_ip n) (n_port n) 0 x =
       Some (path, ReplyFindSuccessor (n_ip n) (n_port n) x 0 (owner m ids x) ip port) \<and>
     ip_ok ip \<and> join_rounds n p (owner m ids x) ip port nodes = Some nodes' \<and>
     (\<forall>a \<in> set (x # ids). succ_of (nodes' a) = owner m (x # ids) (finger_start m a 0)) \<and>
     n_predecessor (nodes' (owner m ids x)) = x \<and> n_predecessor (nodes' x) = p \<and>
     fg_ip (n_finger_table (nodes' p) ! 0) = n_ip n \<and> fg_port (n_finger_table (nodes' p) ! 0) = n_port n"
proof -
  let ?s = "owner m ids x"
  note m = ring_readyD(1,2) [OF ready] and ring = ring_readyD(3) [OF ready]
  have st: "stable m ids nodes" using ready by (simp add: ring_ready_def)
  have ipn: "ip_ok (n_ip n)" using n by (simp add: newcomer_def wf_node_def)
  obtain path ip port where l: "lookup nodes (m + 1) g (n_ip n) (n_port n) 0 x =
      Some (path, ReplyFindSuccessor (n_ip n) (n_port n) x 0 ?s ip port)" "set path \<subseteq> set ids"
    using lookup_from [OF st x(1) g, of m "m + 1" "n_ip n" "n_port n" 0] cw_less by auto
  have "call_ok m (ReplyFindSuccessor (n_ip n) (n_port n) x 0 ?s ip port)"
    by (rule lookup_call_ok [OF l(1) _ ipn]) (use l(2) ring_readyD(4) [OF ready] m in auto)
  then have ip: "ip_ok ip" by simp
  have s: "?s \<in> set ids" using p by (intro owner_in) auto
  have ne: "x \<noteq> ?s" "x \<noteq> p" "?s \<noteq> x" "p \<noteq> x" using x(2) s p(1) by auto
  have ft: "n_finger_table n \<noteq> []" "n_id n = x" "n_finger_table (nodes p) \<noteq> []" "n_finger_table (nodes ?s) \<noteq> []"
    using n ring_readyD(4) [OF ready] p(1) s by (auto simp: newcomer_def wf_node_def)
  obtain nodes' where j: "join_rounds n p ?s ip port nodes = Some nodes'"
    and others: "\<And>a. a \<in> set ids \<Longrightarrow> a \<noteq> p \<Longrightarrow> n_finger_table (nodes' a) = n_finger_table (nodes a)"
    and new: "succ_of (nodes' x) = ?s" "n_predecessor (nodes' x) = p" "n_predecessor (nodes' ?s) = x"
    and before: "succ_of (nodes' p) = x" "fg_ip (n_finger_table (nodes' p) ! 0) = n_ip n" "fg_port (n_finger_table (nodes' p) ! 0) = n_port n"
    using join_rounds_eq [OF ready x n p ip, of port] ne ft x(2) ring_readyD(4) [OF ready p(1)]
    by (auto simp: succ_of_def move_succ_def intro!: that)
  note new_succ = new_successors [OF ring m x p]
  have "succ_of (nodes' a) = owner m (x # ids) (finger_start m a 0)" if "a \<in> set (x # ids)" for a
    using that new(1) before(1) others [of a] new_succ ring_readyD(5) [OF ready, of a]
    by (cases "a = x"; cases "a = p") (simp_all add: succ_of_def)
  then show ?thesis using l(1) ip j new before by blast
qed

end
