(* ===== verification/Repair.thy ===== *)
theory Repair
  imports Joining
begin

text \<open>
  Rings under repair: when only the successors are right and the other fingers are any members of the ring, lookups
  still find the responsible node, and every run of \<open>fix_fingers\<close> with its answers sets one finger more right, so
  that a node has all of them after as many runs as it has fingers.
\<close>

subsection \<open>Linked rings\<close>

definition linked_node :: "nat \<Rightarrow> ring_id list \<Rightarrow> dae_node \<Rightarrow> bool" where
  "linked_node m ids n \<longleftrightarrow> n_m n = m \<and> length (n_finger_table n) = m \<and>
     succ_of n = owner m ids (finger_start m (n_id n) 0) \<and> (\<forall>k < m. fg_successor (n_finger_table n ! k) \<in> set ids)"

definition linked :: "nat \<Rightarrow> ring_id list \<Rightarrow> (ring_id \<Rightarrow> dae_node) \<Rightarrow> bool" where
  "linked m ids nodes \<longleftrightarrow> 0 < m \<and> m < 32 \<and> ids \<noteq> [] \<and>
     (\<forall>a \<in> set ids. on_ring m a \<and> n_id (nodes a) = a \<and> linked_node m ids (nodes a))"

lemma stable_linked: "stable m ids nodes \<Longrightarrow> linked m ids nodes"
  by (auto simp: stable_def linked_def stable_node_def linked_node_def succ_of_def owner_in)

lemma linkedD:
  assumes "linked m ids nodes"
  shows "0 < m" "m < 32" "ids \<noteq> []" "\<forall>a \<in> set ids. on_ring m a"
    and "a \<in> set ids \<Longrightarrow> n_id (nodes a) = a \<and> n_m (nodes a) = m \<and> linked_node m ids (nodes a)"
  using assms by (auto simp: linked_def linked_node_def)

text \<open>The decision of a node: its successor is responsible, or a finger strictly before the identifier is chosen.\<close>

lemma linked_decision:
  assumes l: "linked m ids nodes" and a: "a \<in> set ids" and d: "on_ring m d" "a \<noteq> d"
  obtains f0 where "finger (nodes a) 0 = Some f0" "is_right_tight_in_range m a d (fg_successor f0)" "fg_successor f0 = owner m ids d"
  | f0 f where "finger (nodes a) 0 = Some f0" "\<not> is_right_tight_in_range m a d (fg_successor f0)"
      "closest_finger (nodes a) d m = Some (Some f)" "fg_successor f \<in> set ids" "0 < cw m a (fg_successor f)"
      "cw m a (fg_successor f) < cw m a d"
proof -
  note m = linkedD(1,2) [OF l] and ring = linkedD(4) [OF l]
  let ?n = "nodes a" and ?P = "\<lambda>f. is_in_range m a d (fg_successor f)"
  let ?f0 = "n_finger_table ?n ! 0"
  let ?s = "fg_successor ?f0"
  from linkedD(5) [OF l a] have n: "n_id ?n = a" "n_m ?n = m" "length (n_finger_table ?n) = m"
    and s: "?s = owner m ids (finger_start m a 0)" and ft: "\<And>k. k < m \<Longrightarrow> fg_successor (n_finger_table ?n ! k) \<in> set ids"
    by (auto simp: linked_node_def succ_of_def)
  have si: "?s \<in> set ids" using ft m(1) by simp
  have r: "on_ring m a" "on_ring m ?s" using ring a si by auto
  have f0: "finger ?n 0 = Some ?f0" using n m by (simp add: finger_def arr_get_def)
  have tight: "is_right_tight_in_range m a d ?s \<longleftrightarrow> d = ?s \<or> ring_open m a ?s d"
    using in_range_open [OF m(2) r d(1)] by (simp add: is_right_tight_in_range_def)
  have range: "?P f \<longleftrightarrow> 0 < cw m a (fg_successor f) \<and> cw m a (fg_successor f) < cw m a d" if "fg_successor f \<in> set ids" for f
    using that ring d r m(2) by (simp add: in_range_open ring_open_def)
  show thesis
  proof (cases "is_right_tight_in_range m a d ?s")
    case True
    then have "owner m ids d = ?s"
      using owner_of_gap [OF ring a si d(1)] successor_nearest [OF ring m a] tight unfolding s [symmetric] by blast
    then show thesis using that(1) [OF f0 True] by simp
  next
    case False
    have "0 < cw m a d" using cw_eq_0_iff [OF r(1) d(1)] d(2) by simp
    then have "a \<noteq> ?s" "cw m a ?s \<le> cw m a d" using False tight by (auto simp: ring_open_def)
    moreover have "cw m a ?s \<noteq> cw m a d" using cw_inject [OF r d(1)] False tight by auto
    ultimately have "?P ?f0" using range [OF si] cw_eq_0_iff [OF r] by auto
    then obtain i where i: "i < m" "?P (n_finger_table ?n ! i)" "find ?P (rev (n_finger_table ?n)) = Some (n_finger_table ?n ! i)"
      using find_rev_last [of 0 "n_finger_table ?n" ?P] n m by metis
    have "closest_finger ?n d m = Some (Some (n_finger_table ?n ! i))"
      using closest_finger_find [of m ?n d] n i(3) by simp
    then show thesis using that(2) [OF f0 False] ft [OF i(1)] range [OF ft [OF i(1)]] i(2) by blast
  qed
qed

text \<open>The members strictly between a node and an identifier; every hop leaves fewer of them.\<close>

definition between :: "nat \<Rightarrow> ring_id list \<Rightarrow> ring_id \<Rightarrow> ring_id \<Rightarrow> ring_id set" where
  "between m ids a d = {t \<in> set ids. 0 < cw m a t \<and> cw m a t < cw m a d}"

lemma between_hop:
  assumes ring: "\<forall>a \<in> set ids. on_ring m a" and a: "a \<in> set ids" and d: "on_ring m d" and c: "c \<in> set ids"
    and hop: "0 < cw m a c" "cw m a c < cw m a d"
  shows "card (between m ids c d) < card (between m ids a d)"
proof (rule psubset_card_mono)
  have r: "on_ring m a" "on_ring m c" using ring a c by auto
  have cd: "cw m c d = cw m a d - cw m a c" using cw_split [OF r d] hop by simp
  have "t \<in> between m ids a d" if t: "t \<in> between m ids c d" for t
  proof -
    have t': "t \<in> set ids" "0 < cw m c t" "cw m c t < cw m c d" using t by (auto simp: between_def)
    have "cw m a c + cw m c t < cw m a d" using t'(3) cd hop by simp
    then have "cw m a t = cw m a c + cw m c t" using cw_triangle [OF r, of t] ring t'(1) cw_less [of m a d] by auto
    then show ?thesis using t' hop cd by (simp add: between_def)
  qed
  moreover have "c \<in> between m ids a d" "c \<notin> between m ids c d" using c hop by (auto simp: between_def)
  ultimately show "between m ids c d \<subset> between m ids a d" by blast
qed (simp add: between_def)

lemma between_bound:
  assumes "a \<in> set ids"
  shows "card (between m ids a d) < length ids"
proof -
  have "a \<notin> between m ids a d" "between m ids a d \<subseteq> set ids" by (auto simp: between_def)
  then have "between m ids a d \<subset> set ids" using assms by blast
  then have "card (between m ids a d) < card (set ids)" by (intro psubset_card_mono) auto
  then show ?thesis using card_length [of ids] by simp
qed

lemma linked_owner_self: "linked m ids nodes \<Longrightarrow> a \<in> set ids \<Longrightarrow> owner m ids a = a"
  using linkedD(4) [of m ids nodes] by (intro owner_eqI) auto

text \<open>One call of \<open>handle_find_successor\<close>.\<close>

lemma linked_find:
  assumes l: "linked m ids nodes" and a: "a \<in> set ids" and d: "on_ring m d"
  shows "(\<exists>b ip port. handle_find_successor (nodes a) src sp ix d is_find =
      Some (b, [Call (ReplyFindSuccessor src sp d ix (owner m ids d) ip port)])) \<or>
    (\<exists>ip port c. handle_find_successor (nodes a) src sp ix d is_find =
      Some (is_find, [Call (JoinFindSuccessor ip c port src (- 1) sp ix d)]) \<and>
      c \<in> set ids \<and> 0 < cw m a c \<and> cw m a c < cw m a d)"
proof (cases "a = d")
  case True
  then show ?thesis using linkedD(5) [OF l a] linked_owner_self [OF l a] by (auto simp: handle_find_successor_def)
next
  case False
  note n = linkedD(5) [OF l a]
  show ?thesis
  proof (rule linked_decision [OF l a d False])
    fix f0 assume "finger (nodes a) 0 = Some f0" "is_right_tight_in_range m a d (fg_successor f0)" "fg_successor f0 = owner m ids d"
    then show ?thesis using n False by (auto simp: handle_find_successor_def)
  next
    fix f0 f assume f: "finger (nodes a) 0 = Some f0" "\<not> is_right_tight_in_range m a d (fg_successor f0)"
      "closest_finger (nodes a) d m = Some (Some f)" "fg_successor f \<in> set ids" "0 < cw m a (fg_successor f)"
      "cw m a (fg_successor f) < cw m a d"
    then have "fg_successor f \<noteq> a" by auto
    then show ?thesis
      using f n False
      by (auto simp: handle_find_successor_def find_closest_preceding_node_def find_closest_preceding_node_ip_def
          find_closest_preceding_node_port_def)
  qed
qed

lemma linked_lookup:
  assumes l: "linked m ids nodes" and d: "on_ring m d" and "a \<in> set ids" "card (between m ids a d) < fuel"
  shows "\<exists>path ip port. lookup nodes fuel a src sp ix d = Some (path, ReplyFindSuccessor src sp d ix (owner m ids d) ip port) \<and>
    length path \<le> card (between m ids a d) + 1 \<and> set path \<subseteq> set ids"
  using assms(3,4)
proof (induction fuel arbitrary: a)
  case (Suc fuel)
  from linked_find [OF l Suc.prems(1) d, of src sp ix False] show ?case
  proof (elim disjE exE conjE)
    fix ip port c
    assume h: "handle_find_successor (nodes a) src sp ix d False = Some (False, [Call (JoinFindSuccessor ip c port src (- 1) sp ix d)])"
      and c: "c \<in> set ids" "0 < cw m a c" "cw m a c < cw m a d"
    note less = between_hop [OF linkedD(4) [OF l] Suc.prems(1) d c]
    then obtain path ip' port' where "lookup nodes fuel c src sp ix d =
        Some (path, ReplyFindSuccessor src sp d ix (owner m ids d) ip' port')"
      "length path \<le> card (between m ids c d) + 1" "set path \<subseteq> set ids"
      using Suc.IH [OF c(1)] Suc.prems(2) by auto
    then show ?thesis using h less Suc.prems(1) by auto
  qed (use Suc.prems in auto)
qed simp

subsection \<open>Runs of \<open>fix_fingers\<close> with their answers\<close>

text \<open>What the answer to a call of node \<open>a\<close> makes of it; the lookup goes through the nodes as they are then.\<close>

fun answer_call :: "nat \<Rightarrow> ring_id \<Rightarrow> (ring_id \<Rightarrow> dae_node) \<Rightarrow> proto_call \<Rightarrow> (ring_id \<Rightarrow> dae_node) option" where
  "answer_call fuel a nodes (ReplyFindSuccessor ip port d ix su su_ip su_port) =
     map_option (\<lambda>n. nodes(a := n)) (update_finger (nodes a) ix su su_ip su_port)"
| "answer_call fuel a nodes (JoinFindSuccessor ip c port src si sp ix d) =
     (case lookup nodes fuel c src sp ix d of
        Some (path, ReplyFindSuccessor ip' port' d' ix' su su_ip su_port) \<Rightarrow>
          map_option (\<lambda>n. nodes(a := n)) (update_finger (nodes a) ix' su su_ip su_port)
      | _ \<Rightarrow> None)"
| "answer_call fuel a nodes c = Some nodes"

fun answer_all :: "nat \<Rightarrow> ring_id \<Rightarrow> (ring_id \<Rightarrow> dae_node) \<Rightarrow> action list \<Rightarrow> (ring_id \<Rightarrow> dae_node) option" where
  "answer_all fuel a nodes [] = Some nodes"
| "answer_all fuel a nodes (Call c # as) = do { nodes' \<leftarrow> answer_call fuel a nodes c; answer_all fuel a nodes' as }"
| "answer_all fuel a nodes (_ # as) = answer_all fuel a nodes as"

definition fix_round :: "nat \<Rightarrow> ring_id \<Rightarrow> (ring_id \<Rightarrow> dae_node) \<Rightarrow> (ring_id \<Rightarrow> dae_node) option" where
  "fix_round fuel a nodes = do {
     (n, as) \<leftarrow> fix_fingers (nodes a);
     answer_all fuel a (nodes(a := n)) as }"

text \<open>A node of a linked ring that keeps the invariant, and a finger that is right.\<close>

definition sound_node :: "nat \<Rightarrow> ring_id list \<Rightarrow> ring_id \<Rightarrow> dae_node \<Rightarrow> bool" where
  "sound_node m ids a n \<longleftrightarrow> n_id n = a \<and> wf_node n \<and> starts_ok n \<and> linked_node m ids n"

definition sound :: "nat \<Rightarrow> ring_id list \<Rightarrow> (ring_id \<Rightarrow> dae_node) \<Rightarrow> bool" where
  "sound m ids nodes \<longleftrightarrow> 0 < m \<and> m < 32 \<and> ids \<noteq> [] \<and> (\<forall>a \<in> set ids. on_ring m a \<and> sound_node m ids a (nodes a))"

abbreviation target :: "dae_node \<Rightarrow> nat \<Rightarrow> ring_id" where
  "target n k \<equiv> fg_successor (n_finger_table n ! k)"

definition right :: "nat \<Rightarrow> ring_id list \<Rightarrow> dae_node \<Rightarrow> nat \<Rightarrow> bool" where
  "right m ids n k \<longleftrightarrow> target n k = owner m ids (finger_start m (n_id n) k)"

lemma sound_linked: "sound m ids nodes \<Longrightarrow> linked m ids nodes"
  by (auto simp: sound_def linked_def sound_node_def)

lemma sound_upd: "sound m ids nodes \<Longrightarrow> sound_node m ids a n \<Longrightarrow> sound m ids (nodes(a := n))"
  by (auto simp: sound_def)

lemma sound_at: "sound m ids nodes \<Longrightarrow> a \<in> set ids \<Longrightarrow> sound_node m ids a (nodes a)"
  by (simp add: sound_def)

text \<open>Storing a finger: a member anywhere, the right one at the front.\<close>

lemma update_sound:
  assumes "sound_node m ids a n" "j < m" "su \<in> set ids" "j = 0 \<longrightarrow> su = owner m ids (finger_start m a 0)" "ip_ok ip"
  shows "\<exists>n'. update_finger n (int j) su ip port = Some n' \<and> sound_node m ids a n' \<and>
    (\<forall>k < m. target n' k = (if k = j then su else target n k))"
proof -
  have len: "length (n_finger_table n) = m" using assms(1) by (simp add: sound_node_def linked_node_def)
  let ?n = "n\<lparr>n_finger_table := (n_finger_table n)[j := (n_finger_table n ! j)\<lparr>fg_successor := su, fg_ip := ip, fg_port := port\<rparr>]\<rparr>"
  have u: "update_finger n (int j) su ip port = Some ?n" using assms(2,5) len by (simp add: update_finger_eq)
  moreover have "wf_node ?n"
    using update_finger_ok [of n "int j" ip su port] u assms(1,2,5) by (simp add: sound_node_def linked_node_def)
  moreover have "starts_ok ?n" using assms(1,2) len by (auto simp: sound_node_def starts_ok_def nth_list_update)
  moreover have "linked_node m ids ?n"
    using assms(1-4) len by (cases j) (auto simp: sound_node_def linked_node_def succ_of_def nth_list_update)
  ultimately show ?thesis using assms(1,2) len by (auto simp: sound_node_def nth_list_update)
qed

text \<open>Calls whose answer is right: an answer already, or a lookup for the start of a finger at a member.\<close>

fun good_call :: "nat \<Rightarrow> ring_id list \<Rightarrow> ring_id \<Rightarrow> nat \<Rightarrow> proto_call \<Rightarrow> bool" where
  "good_call m ids a j (ReplyFindSuccessor ip port d ix su su_ip su_port) \<longleftrightarrow>
     ix = int j \<and> su = owner m ids (finger_start m a j) \<and> ip_ok su_ip"
| "good_call m ids a j (JoinFindSuccessor ip c port src si sp ix d) \<longleftrightarrow>
     ix = int j \<and> c \<in> set ids \<and> d = finger_start m a j \<and> ip_ok src"
| "good_call m ids a j _ \<longleftrightarrow> False"

lemma answer_good:
  assumes so: "sound m ids nodes" and a: "a \<in> set ids" and c: "good_call m ids a j c" "j < m" and fuel: "length ids \<le> fuel"
  shows "\<exists>n'. answer_call fuel a nodes c = Some (nodes(a := n')) \<and> sound_node m ids a n' \<and>
    (\<forall>k < m. target n' k = (if k = j then owner m ids (finger_start m a j) else target (nodes a) k))"
proof -
  let ?o = "owner m ids (finger_start m a j)"
  have l: "linked m ids nodes" using so by (rule sound_linked)
  have o: "?o \<in> set ids" using a by (intro owner_in) auto
  have ra: "on_ring m a" using linkedD(4) [OF l] a by simp
  have upd: "\<exists>n'. update_finger (nodes a) (int j) ?o ip port = Some n' \<and> sound_node m ids a n' \<and>
      (\<forall>k < m. target n' k = (if k = j then ?o else target (nodes a) k))" if "ip_ok ip" for ip port
    using update_sound [OF sound_at [OF so a] c(2) o _ that] by auto
  show ?thesis
  proof (cases c)
    case (ReplyFindSuccessor ip port d ix su su_ip su_port)
    then show ?thesis using upd [of su_ip su_port] c(1) by auto
  next
    case (JoinFindSuccessor ip b port src si sp ix d)
    then have b: "b \<in> set ids" "d = finger_start m a j" "ix = int j" "ip_ok src" using c(1) by auto
    have d: "on_ring m d" using finger_start_ring [OF ra c(2) linkedD(2) [OF l]] b(2) by simp
    obtain path ip' port' where lk: "lookup nodes fuel b src sp ix d = Some (path, ReplyFindSuccessor src sp d ix (owner m ids d) ip' port')"
      "set path \<subseteq> set ids"
      using linked_lookup [OF l d b(1), of fuel src sp ix] between_bound [OF b(1), of m d] fuel by auto
    have "call_ok m (ReplyFindSuccessor src sp d ix (owner m ids d) ip' port')"
    proof (rule lookup_call_ok [OF lk(1) _ b(4)])
      show "\<forall>b \<in> set path. wf_node (nodes b) \<and> n_m (nodes b) = m"
        using lk(2) so linkedD(5) [OF l] by (auto simp: sound_def sound_node_def)
    qed (use b(3) c(2) in auto)
    then show ?thesis using upd [of ip' port'] lk(1) b(2,3) JoinFindSuccessor by auto
  qed (use c(1) in auto)
qed

text \<open>The questions of a run: their indices, in order.\<close>

definition good_acts :: "nat \<Rightarrow> ring_id list \<Rightarrow> ring_id \<Rightarrow> nat list \<Rightarrow> action list \<Rightarrow> bool" where
  "good_acts m ids a js as \<longleftrightarrow> list_all2 (\<lambda>j act. j < m \<and> (\<exists>c. act = Call c \<and> good_call m ids a j c)) js as"

lemma answer_all_good:
  assumes "sound m ids nodes" "a \<in> set ids" "good_acts m ids a js as" "length ids \<le> fuel"
  shows "\<exists>n'. answer_all fuel a nodes as = Some (nodes(a := n')) \<and> sound_node m ids a n' \<and>
    (\<forall>k < m. target n' k = (if k \<in> set js then owner m ids (finger_start m a k) else target (nodes a) k))"
  using assms(1,3)
proof (induction js arbitrary: as nodes)
  case Nil
  then have "as = []" by (simp add: good_acts_def)
  then show ?case using sound_at [OF Nil(1) assms(2)] by (intro exI [of _ "nodes a"]) simp
next
  case (Cons j js)
  then obtain c as' where as: "as = Call c # as'" "good_call m ids a j c" "j < m" "good_acts m ids a js as'"
    by (auto simp: good_acts_def list_all2_Cons1)
  obtain n1 where n1: "answer_call fuel a nodes c = Some (nodes(a := n1))" "sound_node m ids a n1"
    "\<forall>k < m. target n1 k = (if k = j then owner m ids (finger_start m a j) else target (nodes a) k)"
    using answer_good [OF Cons.prems(1) assms(2) as(2,3) assms(4)] by blast
  obtain n' where n': "answer_all fuel a (nodes(a := n1)) as' = Some (nodes(a := n'))" "sound_node m ids a n'"
    "\<forall>k < m. target n' k = (if k \<in> set js then owner m ids (finger_start m a k) else target n1 k)"
    using Cons.IH [OF sound_upd [OF Cons.prems(1) n1(2)] as(4)] unfolding fun_upd_upd fun_upd_same by blast
  then have "answer_all fuel a nodes as = Some (nodes(a := n'))" using n1(1) as(1) by simp
  moreover have "\<forall>k < m. target n' k = (if k \<in> set (j # js) then owner m ids (finger_start m a k) else target (nodes a) k)"
    using n1(3) n'(3) by simp
  ultimately show ?case using n'(2) by blast
qed

text \<open>A lookup of the node itself asks a good question.\<close>

lemma own_question:
  assumes so: "sound m ids nodes" and a: "a \<in> set ids" and j: "j < m"
  shows "\<exists>b c. find_successor (nodes a) (n_ip (nodes a)) (n_port (nodes a)) (int j) (finger_start m a j) False = Some (b, [Call c]) \<and>
    good_call m ids a j c"
proof -
  let ?n = "nodes a" and ?d = "finger_start m a j"
  have l: "linked m ids nodes" using so by (rule sound_linked)
  have ra: "on_ring m a" using linkedD(4) [OF l] a by simp
  have wf: "wf_node ?n" using sound_at [OF so a] by (simp add: sound_node_def)
  then have ip: "ip_ok (n_ip ?n)" by (simp add: wf_node_def)
  have d: "on_ring m ?d" using finger_start_ring [OF ra j linkedD(2) [OF l]] .
  have ok: "returns (handle_find_successor ?n (n_ip ?n) (n_port ?n) (int j) ?d False) (\<lambda>(_, as). list_all (action_ok m) as)"
    using handle_find_successor_ok [OF wf ip, of "int j" "n_port ?n" ?d False] j linkedD(5) [OF l a] by simp
  show ?thesis
    using linked_find [OF l a d, of "n_ip ?n" "n_port ?n" "int j" False] ok ip by (auto simp: find_successor_def)
qed

text \<open>One step of the loop: the next finger is copied, which is right if this one is, or asked for.\<close>

lemma fix_finger_sound:
  assumes so: "sound m ids nodes" and a: "a \<in> set ids" and i: "Suc i < m"
  shows "\<exists>n' js as. fix_finger (nodes a) i = Some (n', as) \<and> sound_node m ids a n' \<and> good_acts m ids a js as \<and>
    (\<forall>k < m. k \<noteq> Suc i \<longrightarrow> target n' k = target (nodes a) k) \<and>
    (js = [Suc i] \<and> target n' (Suc i) = target (nodes a) (Suc i) \<or>
     js = [] \<and> (right m ids (nodes a) i \<longrightarrow> right m ids n' (Suc i)))"
proof -
  let ?n = "nodes a"
  let ?f = "n_finger_table ?n ! i" and ?g = "n_finger_table ?n ! Suc i"
  have l: "linked m ids nodes" using so by (rule sound_linked)
  have sn: "sound_node m ids a ?n" using sound_at [OF so a] .
  then have n: "n_id ?n = a" "n_m ?n = m" "length (n_finger_table ?n) = m" "wf_node ?n" "target ?n i \<in> set ids"
    using i by (auto simp: sound_node_def linked_node_def)
  have f: "finger ?n (int i) = Some ?f" "finger ?n (int i + 1) = Some ?g"
    using n(3) i by (auto simp: finger_def arr_get_def nat_add_distrib)
  have st: "fg_start ?g = finger_start m a (Suc i)" using sn n i by (simp add: sound_node_def starts_ok_def)
  show ?thesis
  proof (cases "is_in_range m a (target ?n i) (fg_start ?g)")
    case True
    have "ip_ok (fg_ip ?f)" using n(3,4) i by (simp add: wf_node_def list_all_length)
    then obtain n' where n': "update_finger ?n (int (Suc i)) (target ?n i) (fg_ip ?f) (fg_port ?f) = Some n'" "sound_node m ids a n'"
      "\<forall>k < m. target n' k = (if k = Suc i then target ?n i else target ?n k)"
      using update_sound [OF sn i n(5), of "fg_ip ?f" "fg_port ?f"] by auto
    have "right m ids ?n i \<longrightarrow> right m ids n' (Suc i)"
      using owner_shortcut [OF linkedD(4,2) [OF l] a i, of "target ?n i"] True st n' n(1) i by (auto simp: right_def sound_node_def)
    moreover have "fix_finger ?n i = Some (n', [])" using f True n n'(1) by (simp add: fix_finger_def add.commute)
    ultimately show ?thesis using n'(2,3) by (intro exI [of _ n'] exI [of _ "[]"]) (auto simp: good_acts_def)
  next
    case False
    obtain b c where c: "find_successor ?n (n_ip ?n) (n_port ?n) (int (Suc i)) (finger_start m a (Suc i)) False = Some (b, [Call c])"
      "good_call m ids a (Suc i) c"
      using own_question [OF so a i] by blast
    then have "fix_finger ?n i = Some (?n, [Call c])" using f False n st by (simp add: fix_finger_def add.commute)
    then show ?thesis using sn c(2) i by (intro exI [of _ ?n] exI [of _ "[Suc i]"]) (auto simp: good_acts_def)
  qed
qed

text \<open>The loop from index \<open>i\<close> on.\<close>

lemma fix_loop_sound:
  assumes so: "sound m ids nodes" and a: "a \<in> set ids" and e: "e < m" "i \<le> e"
  shows "\<exists>n' js as. fix_finger_loop (nodes a) [i..<e] = Some (n', as) \<and> sound_node m ids a n' \<and> good_acts m ids a js as \<and>
    (\<forall>k < m. k \<le> i \<or> e < k \<longrightarrow> target n' k = target (nodes a) k) \<and>
    (\<forall>k. i \<le> k \<and> k < e \<longrightarrow> Suc k \<in> set js \<and> target n' (Suc k) = target (nodes a) (Suc k) \<or>
       (right m ids n' k \<longrightarrow> right m ids n' (Suc k)))"
  using so e(2)
proof (induction "e - i" arbitrary: i nodes)
  case 0
  then show ?case using sound_at [OF 0(2) a] by (intro exI [of _ "nodes a"] exI [of _ "[]"]) (auto simp: good_acts_def)
next
  case (Suc x)
  then have i: "i < e" "Suc i < m" "x = e - Suc i" "Suc i \<le> e" using e(1) by auto
  obtain n1 js1 as1 where f: "fix_finger (nodes a) i = Some (n1, as1)" "sound_node m ids a n1" "good_acts m ids a js1 as1"
    "\<forall>k < m. k \<noteq> Suc i \<longrightarrow> target n1 k = target (nodes a) k"
    "js1 = [Suc i] \<and> target n1 (Suc i) = target (nodes a) (Suc i) \<or> js1 = [] \<and> (right m ids (nodes a) i \<longrightarrow> right m ids n1 (Suc i))"
    using fix_finger_sound [OF Suc.prems(1) a i(2)] by blast
  have so1: "sound m ids (nodes(a := n1))" using sound_upd [OF Suc.prems(1) f(2)] .
  obtain n' js as where g: "fix_finger_loop n1 [Suc i..<e] = Some (n', as)" "sound_node m ids a n'" "good_acts m ids a js as"
    "\<forall>k < m. k \<le> Suc i \<or> e < k \<longrightarrow> target n' k = target n1 k"
    "\<forall>k. Suc i \<le> k \<and> k < e \<longrightarrow> Suc k \<in> set js \<and> target n' (Suc k) = target n1 (Suc k) \<or> (right m ids n' k \<longrightarrow> right m ids n' (Suc k))"
    using Suc.hyps(1) [OF i(3) so1 i(4)] unfolding fun_upd_same by blast
  have ids: "n_id (nodes a) = a" "n_id n1 = a" "n_id n' = a" using sound_at [OF Suc.prems(1) a] f(2) g(2) by (auto simp: sound_node_def)
  have loop: "fix_finger_loop (nodes a) [i..<e] = Some (n', as1 @ as)" using f(1) g(1) i(1) by (simp add: upt_rec [of i e])
  have acts: "good_acts m ids a (js1 @ js) (as1 @ as)" using f(3) g(3) by (auto simp: good_acts_def intro: list_all2_appendI)
  have keep: "target n' k = target (nodes a) k" if "k < m" "k \<le> i \<or> e < k" for k
    using that f(4) g(4) i(1) by auto
  have step: "Suc k \<in> set (js1 @ js) \<and> target n' (Suc k) = target (nodes a) (Suc k) \<or> (right m ids n' k \<longrightarrow> right m ids n' (Suc k))"
    if k: "i \<le> k" "k < e" for k
  proof (cases "k = i")
    case True
    have "target n' i = target (nodes a) i" "target n' (Suc i) = target n1 (Suc i)" using keep [of i] g(4) i e(1) by auto
    then show ?thesis using f(5) True ids by (auto simp: right_def)
  next
    case False
    then have "target n1 (Suc k) = target (nodes a) (Suc k)" using f(4) k e(1) by simp
    moreover have "Suc i \<le> k" using k False by simp
    ultimately show ?thesis using g(5) k(2) by auto
  qed
  show ?case using loop g(2) acts keep step by blast
qed

text \<open>
  One run of \<open>fix_fingers\<close>, with its answers, extends the fingers that are right from the front by one.
\<close>

lemma fix_round_sound:
  assumes so: "sound m ids nodes" and a: "a \<in> set ids" and fuel: "length ids \<le> fuel"
  shows "\<exists>n'. fix_round fuel a nodes = Some (nodes(a := n')) \<and> sound_node m ids a n' \<and>
    (\<forall>r. (\<forall>k \<le> r. k < m \<longrightarrow> right m ids (nodes a) k) \<longrightarrow> (\<forall>k \<le> Suc r. k < m \<longrightarrow> right m ids n' k))"
proof -
  let ?n = "nodes a"
  have m: "0 < m" using so by (simp add: sound_def)
  have sn: "sound_node m ids a ?n" using sound_at [OF so a] .
  then have n: "n_id ?n = a" "n_m ?n = m" "length (n_finger_table ?n) = m" by (auto simp: sound_node_def linked_node_def)
  have f0: "finger ?n 0 = Some (n_finger_table ?n ! 0)" "fg_start (n_finger_table ?n ! 0) = finger_start m a 0"
    using sn n m by (auto simp: finger_def arr_get_def sound_node_def starts_ok_def)
  obtain b c where q: "find_successor ?n (n_ip ?n) (n_port ?n) 0 (finger_start m a 0) False = Some (b, [Call c])" "good_call m ids a 0 c"
    using own_question [OF so a m] by auto
  obtain n1 js as where l: "fix_finger_loop ?n [0..<m - 1] = Some (n1, as)" "sound_node m ids a n1" "good_acts m ids a js as"
    "\<forall>k < m. k \<le> 0 \<or> m - 1 < k \<longrightarrow> target n1 k = target ?n k"
    "\<forall>k. 0 \<le> k \<and> k < m - 1 \<longrightarrow> Suc k \<in> set js \<and> target n1 (Suc k) = target ?n (Suc k) \<or> (right m ids n1 k \<longrightarrow> right m ids n1 (Suc k))"
    using fix_loop_sound [OF so a, of "m - 1" 0] m by auto
  have ff: "fix_fingers ?n = Some (n1, Call c # as)" using f0 q(1) l(1) n by (simp add: fix_fingers_def)
  have "good_acts m ids a (0 # js) (Call c # as)" using q(2) l(3) m by (simp add: good_acts_def)
  then obtain n' where n': "answer_all fuel a (nodes(a := n1)) (Call c # as) = Some (nodes(a := n'))" "sound_node m ids a n'"
    "\<forall>k < m. target n' k = (if k \<in> set (0 # js) then owner m ids (finger_start m a k) else target n1 k)"
    using answer_all_good [OF sound_upd [OF so l(2)] a _ fuel] unfolding fun_upd_upd fun_upd_same by blast
  have ids: "n_id n1 = a" "n_id n' = a" using l(2) n'(2) by (auto simp: sound_node_def)
  have "right m ids n' k" if r: "\<forall>k \<le> r. k < m \<longrightarrow> right m ids ?n k" and k: "k \<le> Suc r" "k < m" for r k
  proof -
    have r1: "right m ids n1 j" if "j \<le> r" "j < m" for j
      using that
    proof (induction j)
      case 0 then show ?case using r l(4) m ids n by (simp add: right_def)
    next
      case (Suc j)
      then have "right m ids n1 j" "j < m - 1" "right m ids ?n (Suc j)" using r by auto
      then show ?case using l(5) ids n by (auto simp: right_def)
    qed
    show ?thesis
    proof (cases "k \<in> set (0 # js)")
      case True
      then show ?thesis using n'(3) k ids by (simp add: right_def)
    next
      case False
      then obtain j where j: "k = Suc j" by (cases k) auto
      then have "right m ids n1 j" "j < m - 1" using r1 k by auto
      then have "right m ids n1 k" using l(5) j False by auto
      then show ?thesis using n'(3) k False ids by (simp add: right_def)
    qed
  qed
  then show ?thesis using ff n' by (intro exI [of _ n']) (simp add: fix_round_def)
qed

subsection \<open>All fingers\<close>

fun fix_rounds :: "nat \<Rightarrow> nat \<Rightarrow> ring_id \<Rightarrow> (ring_id \<Rightarrow> dae_node) \<Rightarrow> (ring_id \<Rightarrow> dae_node) option" where
  "fix_rounds fuel 0 a nodes = Some nodes"
| "fix_rounds fuel (Suc t) a nodes = do { nodes' \<leftarrow> fix_round fuel a nodes; fix_rounds fuel t a nodes' }"

fun repair_all :: "nat \<Rightarrow> nat \<Rightarrow> ring_id list \<Rightarrow> (ring_id \<Rightarrow> dae_node) \<Rightarrow> (ring_id \<Rightarrow> dae_node) option" where
  "repair_all fuel t [] nodes = Some nodes"
| "repair_all fuel t (a # as) nodes = do { nodes' \<leftarrow> fix_rounds fuel t a nodes; repair_all fuel t as nodes' }"

lemma fix_rounds_sound:
  assumes "sound m ids nodes" "a \<in> set ids" "length ids \<le> fuel" "\<forall>k \<le> r. k < m \<longrightarrow> right m ids (nodes a) k"
  shows "\<exists>n'. fix_rounds fuel t a nodes = Some (nodes(a := n')) \<and> sound_node m ids a n' \<and>
    (\<forall>k \<le> r + t. k < m \<longrightarrow> right m ids n' k)"
  using assms
proof (induction t arbitrary: nodes r)
  case 0
  then show ?case using sound_at [OF 0(1,2)] by (intro exI [of _ "nodes a"]) simp
next
  case (Suc t)
  obtain n1 where n1: "fix_round fuel a nodes = Some (nodes(a := n1))" "sound_node m ids a n1"
    "\<forall>k \<le> Suc r. k < m \<longrightarrow> right m ids n1 k"
    using fix_round_sound [OF Suc.prems(1-3)] Suc.prems(4) by blast
  have r1: "\<forall>k \<le> Suc r. k < m \<longrightarrow> right m ids ((nodes(a := n1)) a) k" using n1(3) by simp
  obtain n' where n': "fix_rounds fuel t a (nodes(a := n1)) = Some (nodes(a := n'))" "sound_node m ids a n'"
    "\<forall>k \<le> Suc r + t. k < m \<longrightarrow> right m ids n' k"
    using Suc.IH [OF sound_upd [OF Suc.prems(1) n1(2)] Suc.prems(2,3) r1] unfolding fun_upd_upd by blast
  then have "fix_rounds fuel (Suc t) a nodes = Some (nodes(a := n'))" using n1(1) by simp
  moreover have "r + Suc t = Suc r + t" by simp
  ultimately show ?case using n'(2,3) by metis
qed

lemma repair_all_sound:
  assumes "sound m ids nodes" "set as \<subseteq> set ids" "length ids \<le> fuel" "m \<le> Suc t"
  shows "\<exists>nodes'. repair_all fuel t as nodes = Some nodes' \<and> sound m ids nodes' \<and>
    (\<forall>a \<in> set ids. (a \<in> set as \<or> (\<forall>k < m. right m ids (nodes a) k)) \<longrightarrow> (\<forall>k < m. right m ids (nodes' a) k))"
  using assms(1,2)
proof (induction as arbitrary: nodes)
  case (Cons a as)
  have a: "a \<in> set ids" using Cons.prems(2) by simp
  have m: "0 < m" using Cons.prems(1) by (simp add: sound_def)
  have "right m ids (nodes a) 0"
    using sound_at [OF Cons.prems(1) a] by (auto simp: sound_node_def linked_node_def right_def succ_of_def)
  then obtain n' where n': "fix_rounds fuel t a nodes = Some (nodes(a := n'))" "sound_node m ids a n'" "\<forall>k \<le> t. k < m \<longrightarrow> right m ids n' k"
    using fix_rounds_sound [OF Cons.prems(1) a assms(3), of 0 t] by auto
  then have all: "\<forall>k < m. right m ids n' k" using assms(4) by simp
  obtain nodes' where "repair_all fuel t as (nodes(a := n')) = Some nodes'" "sound m ids nodes'"
    "\<forall>b \<in> set ids. (b \<in> set as \<or> (\<forall>k < m. right m ids ((nodes(a := n')) b) k)) \<longrightarrow> (\<forall>k < m. right m ids (nodes' b) k)"
    using Cons.IH [OF sound_upd [OF Cons.prems(1) n'(2)]] Cons.prems(2) unfolding list.set by blast
  then show ?case using n'(1) all by (intro exI [of _ nodes']) auto
qed simp

lemma sound_all_right: "sound m ids nodes \<Longrightarrow> \<forall>a \<in> set ids. \<forall>k < m. right m ids (nodes a) k \<Longrightarrow> stable m ids nodes"
  by (auto simp: sound_def stable_def stable_node_def sound_node_def linked_node_def right_def)

text \<open>A sound ring is stable once every node, in any order, has run \<open>fix_fingers\<close> as often as it has fingers after the first.\<close>

lemma repaired_ring_stable:
  assumes so: "sound m ids nodes" and ord: "set ord = set ids" and "length ids \<le> fuel" "m \<le> Suc t"
  shows "\<exists>nodes'. repair_all fuel t ord nodes = Some nodes' \<and> stable m ids nodes'"
proof -
  obtain nodes' where "repair_all fuel t ord nodes = Some nodes'" "sound m ids nodes'"
    "\<forall>a \<in> set ids. \<forall>k < m. right m ids (nodes' a) k"
    using repair_all_sound [OF so _ assms(3,4), of ord] ord by auto
  then show ?thesis using sound_all_right by blast
qed

subsection \<open>After a join\<close>

text \<open>A node whose fingers are members, whichever they are; only its successor is left to be right.\<close>

definition fit_node :: "nat \<Rightarrow> ring_id list \<Rightarrow> ring_id \<Rightarrow> dae_node \<Rightarrow> bool" where
  "fit_node m ids a n \<longleftrightarrow> n_id n = a \<and> n_m n = m \<and> wf_node n \<and> starts_ok n \<and> (\<forall>k < m. target n k \<in> set ids)"

lemma fit_sound: "fit_node m ids a n \<Longrightarrow> succ_of n = owner m ids (finger_start m a 0) \<Longrightarrow> sound_node m ids a n"
  by (auto simp: fit_node_def sound_node_def linked_node_def wf_node_def)

lemma fit_mono: "fit_node m ids a n \<Longrightarrow> set ids \<subseteq> set ids' \<Longrightarrow> fit_node m ids' a n"
  by (auto simp: fit_node_def)

lemma fit_know_pos: "fit_node m ids a n \<Longrightarrow> ip_ok (n_predecessor_ip s) \<Longrightarrow> fit_node m ids a (know_pos n s)"
  by (auto simp: fit_node_def wf_node_def starts_ok_def know_pos_def)

lemma fit_know_predecessor: "fit_node m ids a n \<Longrightarrow> ip_ok (n_ip s) \<Longrightarrow> fit_node m ids a (know_predecessor n s)"
  by (auto simp: fit_node_def wf_node_def starts_ok_def know_predecessor_def)

lemma fit_first_finger:
  assumes "fit_node m ids a n" "su \<in> set ids" "ip_ok ip"
  shows "fit_node m ids a (n\<lparr>n_finger_table := (n_finger_table n)[0 := (n_finger_table n ! 0)
    \<lparr>fg_successor := su, fg_ip := ip, fg_port := port\<rparr>]\<rparr>)"
  using assms by (auto simp: fit_node_def wf_node_def starts_ok_def nth_list_update list_all_length)

lemma fit_move_succ: "fit_node m ids a n \<Longrightarrow> n_pos n \<in> set ids \<Longrightarrow> ip_ok (n_pos_ip n) \<Longrightarrow> fit_node m ids a (move_succ n)"
  unfolding move_succ_def by (rule fit_first_finger)

lemma fit_ips: "fit_node m ids a n \<Longrightarrow> ip_ok (n_ip n) \<and> ip_ok (n_predecessor_ip n)"
  by (simp add: fit_node_def wf_node_def)

lemma move_succ_ips [simp]: "n_ip (move_succ n) = n_ip n" "n_predecessor_ip (move_succ n) = n_predecessor_ip n"
  by (simp_all add: move_succ_def)

text \<open>The constructor makes such a node: it knows nobody, and all its fingers are itself.\<close>

definition fresh_node :: "nat \<Rightarrow> ring_id \<Rightarrow> dae_node \<Rightarrow> bool" where
  "fresh_node m x n \<longleftrightarrow> newcomer m x n \<and> starts_ok n \<and> (\<forall>k < m. target n k = x)"

lemma fresh_new:
  assumes n: "DAENode mem m i port addr bt config = Some n" and "wf_node n" "m < 31"
  shows "fresh_node (nat m) i n"
proof -
  have "\<forall>f \<in> set fs. fg_successor f = i" if "new_fingers (nat m) i addr port ks = Some fs" for ks fs
    using that by (induction ks arbitrary: fs) (auto simp: new_finger_def elim!: bind_SomeE)
  then have "\<forall>f \<in> set (n_finger_table n). fg_successor f = i"
    using n by (auto simp: DAENode_def split: if_splits elim!: bind_SomeE)
  moreover have "n_m n = nat m" "n_id n = i" "n_pos n = - 1" "n_predecessor n = - 1"
    using n by (auto simp: DAENode_def split: if_splits elim!: bind_SomeE)
  ultimately show ?thesis using starts_new [OF n assms(3)] assms(2) by (simp add: fresh_node_def newcomer_def wf_node_def)
qed

lemma fresh_fit: "fresh_node m x n \<Longrightarrow> fit_node m (x # ids) x n"
  by (simp add: fresh_node_def newcomer_def fit_node_def)

lemma ready_fit: "ring_ready m ids nodes \<Longrightarrow> starts_ok (nodes a) \<Longrightarrow> a \<in> set ids \<Longrightarrow> fit_node m ids a (nodes a)"
  by (auto simp: ring_ready_def stable_def stable_node_def fit_node_def intro!: owner_in)

lemma join_rounds_fit:
  assumes ready: "ring_ready m ids nodes" and starts: "\<forall>a \<in> set ids. starts_ok (nodes a)"
    and x: "on_ring m x" "x \<notin> set ids" and n: "fresh_node m x n"
    and p: "p \<in> set ids" "owner m ids (finger_start m p 0) = owner m ids x" and ip: "ip_ok ip"
    and j: "join_rounds n p (owner m ids x) ip port nodes = Some nodes'" and a: "a \<in> set (x # ids)"
  shows "fit_node m (x # ids) a (nodes' a)"
proof -
  define s where "s = owner m ids x"
  define n2 where "n2 = know_pos (n\<lparr>n_finger_table := (n_finger_table n)[0 := (n_finger_table n ! 0)
      \<lparr>fg_successor := s, fg_ip := ip, fg_port := port\<rparr>]\<rparr>) (nodes s)"
  define s1 where "s1 = know_predecessor (nodes s) n2"
  define p1 where "p1 = know_pos (if p = s then s1 else nodes p) s1"
  define p2 where "p2 = know_pos (move_succ p1) (if p = s then p1 else s1)"
  let ?fit = "fit_node m (x # ids)"
  have nc: "newcomer m x n" using n by (simp add: fresh_node_def)
  have nodes': "nodes' = nodes(x := n2, s := s1, p := p2, x := know_predecessor n2 p2)"
    using join_rounds_eq [OF ready x nc p ip, of port] j unfolding s_def n2_def s1_def p1_def p2_def by simp
  have s: "s \<in> set ids" unfolding s_def using p by (intro owner_in) auto
  have old: "?fit b (nodes b)" if "b \<in> set ids" for b
    using starts that by (intro fit_mono [OF ready_fit [OF ready]]) auto
  note ips = fit_ips [OF old [OF s]] fit_ips [OF old [OF p(1)]] fit_ips [OF fresh_fit [OF n, of ids]]
  have n2: "?fit x n2" unfolding n2_def using fit_first_finger [OF fresh_fit [OF n] _ ip] s ips by (intro fit_know_pos) auto
  have s1: "?fit s s1" unfolding s1_def using old [OF s] fit_ips [OF n2] by (intro fit_know_predecessor) auto
  have p1: "?fit p p1" unfolding p1_def using s1 old [OF p(1)] fit_ips [OF s1] by (intro fit_know_pos) auto
  have "n_pos p1 = x" "n_pos_ip p1 = n_ip n2" using n2 by (simp_all add: p1_def s1_def fit_node_def)
  then have p2: "?fit p p2"
    unfolding p2_def using p1 fit_ips [OF n2] fit_ips [OF p1] fit_ips [OF s1] by (intro fit_know_pos fit_move_succ) auto
  have x3: "?fit x (know_predecessor n2 p2)" using n2 fit_ips [OF p2] by (intro fit_know_predecessor) auto
  show ?thesis using a old s1 p2 x3 unfolding nodes' by auto
qed

lemma join_rounds_sound:
  assumes ready: "ring_ready m ids nodes" and starts: "\<forall>a \<in> set ids. starts_ok (nodes a)"
    and x: "on_ring m x" "x \<notin> set ids" and n: "fresh_node m x n"
    and p: "p \<in> set ids" "owner m ids (finger_start m p 0) = owner m ids x" and ip: "ip_ok ip"
    and j: "join_rounds n p (owner m ids x) ip port nodes = Some nodes'"
    and su: "\<forall>a \<in> set (x # ids). succ_of (nodes' a) = owner m (x # ids) (finger_start m a 0)"
  shows "sound m (x # ids) nodes'"
proof -
  have "sound_node m (x # ids) a (nodes' a)" if "a \<in> set (x # ids)" for a
    using fit_sound [OF join_rounds_fit [OF ready starts x n p ip j that]] su that by blast
  then show ?thesis using ring_readyD(1-3) [OF ready] x(1) unfolding sound_def by auto
qed

subsection \<open>Property\<close>

text \<open>
  C9. Lookups work before the fingers are right: on a ring of which every node knows its successor and has any members
  for its other fingers, a lookup for any identifier, started at any member, is answered with the responsible node,
  with the requester's data unchanged, after at most one hop for each member that lies between the two on the ring,
  and never more hops than the ring has members; all of them are members.
\<close>

theorem lookup_while_repairing:
  assumes "linked m ids nodes" "on_ring m d" "a \<in> set ids"
  shows "\<exists>path ip port. lookup nodes (length ids) a src sp ix d =
      Some (path, ReplyFindSuccessor src sp d ix (owner m ids d) ip port) \<and>
    length path \<le> card (between m ids a d) + 1 \<and> length path \<le> length ids \<and> set path \<subseteq> set ids"
  using linked_lookup [OF assms, of "length ids"] between_bound [OF assms(3), of m d] by fastforce

text \<open>A ring whose nodes know nobody but their successor.\<close>

definition sparse_ring :: "nat \<Rightarrow> ring_id list \<Rightarrow> ring_id \<Rightarrow> dae_node" where
  "sparse_ring m ids a = sample_node m a ''10.0.0.1'' 3010
     (map (\<lambda>k. sample_finger (finger_start m a k) (if k = 0 then owner m ids (finger_start m a 0) else a) ''10.0.0.2'' 3010) [0..<m])"

theorem lookup_while_repairing_witness:
  "\<exists>path ip port. lookup (sparse_ring 3 [1, 4, 6]) 3 4 ''10.0.0.9'' 3010 2 2 =
      Some (path, ReplyFindSuccessor ''10.0.0.9'' 3010 2 2 4 ip port) \<and> length path \<le> 3 \<and> set path \<subseteq> {1, 4, 6}"
proof -
  let ?ids = "[1, 4, 6] :: ring_id list"
  have own: "owner 3 ?ids (finger_start 3 1 0) = 4" "owner 3 ?ids (finger_start 3 4 0) = 6" "owner 3 ?ids (finger_start 3 6 0) = 1"
    by (simp_all add: owner_def finger_start_def cw_def)
  have l: "linked 3 ?ids (sparse_ring 3 ?ids)"
    by (auto simp: linked_def linked_node_def sparse_ring_def sample_node_def sample_finger_def succ_of_def on_ring_def own)
  have r: "on_ring 3 2" "4 \<in> set ?ids" "owner 3 ?ids 2 = 4" "length ?ids = 3" "set ?ids = {1, 4, 6}"
    by (simp_all add: on_ring_def owner_def cw_def)
  show ?thesis using lookup_while_repairing [OF l r(1,2), of "''10.0.0.9''" 3010 2] unfolding r(3,4,5) by blast
qed

text \<open>
  C5. A node joins a stable ring and the ring heals: the lookup for the identifier of a node just created, started at
  any member, is answered with the node that follows it; after the answer, one round of \<open>stabilize\<close> of the new node and
  two of the node before it, every node of the larger ring has the right successor and the new node is known to both
  its neighbours; and once every node, in any order, has then run \<open>fix_fingers\<close> with its answers as often as it has
  fingers after the first, every finger of every node is right: the larger ring is stable.
\<close>

theorem join_heals:
  assumes ready: "ring_ready m ids nodes" "\<forall>a \<in> set ids. starts_ok (nodes a)"
    and n: "DAENode mem (int m) x node_port addr bt config = Some n" "wf_node n" "m < 31" and x: "x \<notin> set ids"
    and g: "g \<in> set ids" and p: "p \<in> set ids" "owner m ids (finger_start m p 0) = owner m ids x"
    and ord: "set ord = set (x # ids)"
  shows "\<exists>path ip port nodes' nodes''. lookup nodes (m + 1) g (n_ip n) (n_port n) 0 x =
       Some (path, ReplyFindSuccessor (n_ip n) (n_port n) x 0 (owner m ids x) ip port) \<and>
     join_rounds n p (owner m ids x) ip port nodes = Some nodes' \<and>
     (\<forall>a \<in> set (x # ids). succ_of (nodes' a) = owner m (x # ids) (finger_start m a 0)) \<and>
     n_predecessor (nodes' (owner m ids x)) = x \<and> n_predecessor (nodes' x) = p \<and>
     repair_all (length (x # ids)) (m - 1) ord nodes' = Some nodes'' \<and> stable m (x # ids) nodes''"
proof -
  have fr: "fresh_node m x n" using fresh_new [OF n(1,2)] n(3) by simp
  then have nc: "newcomer m x n" by (simp add: fresh_node_def)
  then have rx: "on_ring m x" using n(2) by (auto simp: newcomer_def wf_node_def)
  obtain path ip port nodes' where j: "lookup nodes (m + 1) g (n_ip n) (n_port n) 0 x =
       Some (path, ReplyFindSuccessor (n_ip n) (n_port n) x 0 (owner m ids x) ip port)" "ip_ok ip"
     "join_rounds n p (owner m ids x) ip port nodes = Some nodes'"
     "\<forall>a \<in> set (x # ids). succ_of (nodes' a) = owner m (x # ids) (finger_start m a 0)"
     "n_predecessor (nodes' (owner m ids x)) = x" "n_predecessor (nodes' x) = p"
    using join_completes [OF ready(1) rx x nc g p] by blast
  have so: "sound m (x # ids) nodes'" using join_rounds_sound [OF ready rx x fr p j(2-4)] .
  have "m \<le> Suc (m - 1)" by linarith
  then obtain nodes'' where "repair_all (length (x # ids)) (m - 1) ord nodes' = Some nodes''" "stable m (x # ids) nodes''"
    using repaired_ring_stable [OF so ord order.refl] by blast
  then show ?thesis using j by blast
qed

theorem join_heals_witness:
  "\<exists>n path ip port nodes' nodes''. DAENode (sample_ring 3 [1] 1) 3 5 3010 ''10.0.0.5'' 10 (RelayConfig 0) = Some n \<and>
     lookup (sample_ring 3 [1, 4, 6]) 4 1 (n_ip n) (n_port n) 0 5 =
       Some (path, ReplyFindSuccessor (n_ip n) (n_port n) 5 0 6 ip port) \<and>
     join_rounds n 4 6 ip port (sample_ring 3 [1, 4, 6]) = Some nodes' \<and> n_predecessor (nodes' 5) = 4 \<and>
     repair_all 4 2 [6, 5, 1, 4] nodes' = Some nodes'' \<and> stable 3 [5, 1, 4, 6] nodes''"
proof -
  let ?ids = "[1, 4, 6] :: ring_id list"
  let ?nodes = "sample_ring 3 ?ids"
  have "stable 3 ?ids ?nodes" by (rule stable_sample_ring) (simp_all add: on_ring_def)
  then have ready: "ring_ready 3 ?ids ?nodes" "\<forall>a \<in> set ?ids. starts_ok (?nodes a)"
    using wf_sample_ring [of 3]
    by (simp_all add: ring_ready_def on_ring_def) (simp add: sample_ring_def sample_node_def)
  obtain n where n: "DAENode (sample_ring 3 [1] 1) (int 3) 5 3010 ''10.0.0.5'' 10 (RelayConfig 0) = Some n" "wf_node n"
    using DAENode_ok [of 3 5 "''10.0.0.5''" "RelayConfig 0" "sample_ring 3 [1] 1" 3010 10]
    by (auto simp: returns_def on_ring_def ip_ok_def ip_cap_def RelayConfig_def)
  have own: "owner 3 ?ids 5 = 6" "owner 3 ?ids (finger_start 3 4 0) = owner 3 ?ids 5"
    by (simp_all add: owner_def finger_start_def cw_def)
  have r: "(3 :: nat) < 31" "5 \<notin> set ?ids" "1 \<in> set ?ids" "4 \<in> set ?ids" "set [6, 5, 1, 4] = set (5 # ?ids)" by auto
  have k: "(3 + 1 :: nat) = 4" "(3 - 1 :: nat) = 2" "length (5 # ?ids) = 4" "int 3 = 3" by simp_all
  show ?thesis
    using join_heals [OF ready n r(1-4) own(2) r(5)] n(1) unfolding own(1) k by blast
qed

end
