(* ===== verification/DaeSocket.thy ===== *)
theory DaeSocket
  imports Delivery
begin

text \<open>
  The application interface of a relay: RandomGenerator (src/src/utils/RandomGenerator.hpp), DAESocket
  and AnonymousRelay (src/src/interface/dae). Two peers that share a seed draw the same
  sequence of dead drops. An operation works on the relay and the socket; a receive that blocks is
  \<open>None\<close> inside, an undefined one \<open>None\<close> outside.
\<close>

unbundle bit_operations_syntax

subsection \<open>RandomGenerator\<close>

definition rand_step :: "u64 \<Rightarrow> u64" where
  "rand_step seed = seed * 214013 + 2531011"

definition rand_next :: "u64 \<Rightarrow> u64 \<times> u64" where
  "rand_next seed = (let seed' = rand_step seed in (drop_bit 16 seed' AND 0x7fffffff, seed'))"

subsection \<open>DAESocket\<close>

record app_config =
  ac_session_ID :: int
  ac_window_size :: int
  ac_shared_secret :: int
  ac_timeout :: string
  ac_transmission_rate :: string

definition ConfigFile0 :: app_config where
  "ConfigFile0 = \<lparr>ac_session_ID = 1, ac_window_size = 3, ac_shared_secret = 10, ac_timeout = ''3000'',
     ac_transmission_rate = ''1''\<rparr>"

definition ConfigFile :: "int \<Rightarrow> string \<Rightarrow> int \<Rightarrow> app_config" where
  "ConfigFile s_id rate seed = ConfigFile0\<lparr>ac_session_ID := s_id, ac_transmission_rate := rate,
     ac_shared_secret := seed\<rparr>"

record dae_socket =
  ds_random :: u64
  ds_service_type :: u64
  ds_my_key :: ring_id
  ds_max_id :: ring_id
  ds_session_ID :: int
  ds_transmission_rate :: string
  ds_seq :: int
  ds_seed :: int
  ds_is_active :: bool

definition DAESocket :: "nat \<Rightarrow> u64 \<Rightarrow> ring_id \<Rightarrow> app_config \<Rightarrow> dae_socket option" where
  "DAESocket m ty client_key config = do {
     max_id \<leftarrow> shl_one (int m);
     Some \<lparr>ds_random = word_of_int (ac_shared_secret config), ds_service_type = ty,
           ds_my_key = client_key, ds_max_id = word_of_int max_id,
           ds_session_ID = ac_session_ID config,
           ds_transmission_rate = ac_transmission_rate config, ds_seq = 0,
           ds_seed = ac_shared_secret config, ds_is_active = True\<rparr> }"

text \<open>\<open>old\<close> is what the buffer of the new message descriptor holds before the copy.\<close>

definition DAESocket_send ::
  "byte list \<Rightarrow> relay \<Rightarrow> dae_socket \<Rightarrow> byte list \<Rightarrow> int \<Rightarrow> (relay \<times> dae_socket) option" where
  "DAESocket_send old r s buf sz =
     (let (x, seed') = rand_next (ds_random s)
      in if ds_max_id s = 0 then None
         else do {
           let deaddrop_id = x mod ds_max_id s;
           d \<leftarrow> MsgDescriptor old False (ds_session_ID s) (ds_seq s) (ds_service_type s)
                  deaddrop_id (ds_my_key s) buf sz;
           as \<leftarrow> send_content_package (r_node r) (mi_is_deaddrop d) (mi_session_id d) (mi_seq_id d)
                   (mi_msgtype d) (mi_to_id d) (mi_from_id d) (mi_msg d) (mi_size_of_payload d);
           r' \<leftarrow> perform_actions None r as;
           sq \<leftarrow> c_int (ds_seq s + 1);
           Some (r', s\<lparr>ds_random := seed', ds_seq := sq\<rparr>) })"

text \<open>\<open>strncmp("fin", buf, 3)\<close> stops at the first difference; \<open>None\<close> when it reads past the buffer.\<close>

fun has_prefix :: "byte list \<Rightarrow> byte list \<Rightarrow> bool option" where
  "has_prefix [] buf = Some True"
| "has_prefix (c # cs) [] = None"
| "has_prefix (c # cs) (b # bs) = (if c = b then has_prefix cs bs else Some False)"

definition fin_bytes :: "byte list" where
  "fin_bytes = [0x66, 0x69, 0x6e]"

definition recv_copy :: "dae_socket \<Rightarrow> byte list \<Rightarrow> anonymous_packet \<Rightarrow> (byte list \<times> int) option" where
  "recv_copy s buf packet = do {
     buf' \<leftarrow> memcpy_into buf (payload packet) (h_size packet);
     fin \<leftarrow> (if ds_is_active s then has_prefix fin_bytes buf' else Some False);
     Some (buf', if \<not> ds_is_active s then - 1 else if fin then 8888 else h_size packet) }"

definition DAESocket_recv ::
  "relay \<Rightarrow> dae_socket \<Rightarrow> byte list \<Rightarrow> int \<Rightarrow> (relay \<times> byte list \<times> int) option option" where
  "DAESocket_recv r s buf sz =
     map_option (\<lambda>(packet, q). do {
         (buf', n) \<leftarrow> recv_copy s buf packet;
         Some (r\<lparr>r_node := (r_node r)\<lparr>n_recv_list_user := q\<rparr>\<rparr>, buf', n) })
       (cbq_pop_front (n_recv_list_user (r_node r)))"

text \<open>The timed receive; \<open>ws\<close> are the wake-ups of its wait. The outer \<open>None\<close> is a wait that has not
  ended. The queue holds no null pointers, so the inner loop of the source is not entered.\<close>

definition DAESocket_recv_timed ::
  "relay \<Rightarrow> dae_socket \<Rightarrow> byte list \<Rightarrow> (bool \<times> anonymous_packet list) list \<Rightarrow>
   (relay \<times> byte list \<times> int) option option" where
  "DAESocket_recv_timed r s buf ws =
     (case cbq_pop_front_timed (n_recv_list_user (r_node r)) ws of
        Waiting \<Rightarrow> None
      | TimedOut q \<Rightarrow> Some (Some (r\<lparr>r_node := (r_node r)\<lparr>n_recv_list_user := q\<rparr>\<rparr>, buf, 0))
      | Got packet q \<Rightarrow>
          let r' = r\<lparr>r_node := (r_node r)\<lparr>n_recv_list_user := q\<rparr>\<rparr>
          in if \<not> ds_is_active s then Some (Some (r', buf, - 1))
             else Some (do { buf' \<leftarrow> memcpy_into buf (payload packet) (h_size packet);
                             Some (r', buf', h_size packet) }))"

definition DAESocket_close :: "dae_socket \<Rightarrow> dae_socket" where
  "DAESocket_close s = s\<lparr>ds_is_active := False\<rparr>"

subsection \<open>AnonymousRelay\<close>

text \<open>\<open>initialize\<close> with the configuration read from the file; the result is the key it returns.\<close>

definition initialize ::
  "dae_node \<Rightarrow> (nat \<Rightarrow> anonymous_packet) \<Rightarrow> u32 \<Rightarrow> int \<Rightarrow> ip_addr \<Rightarrow> int \<Rightarrow> relay_config \<Rightarrow>
   (relay \<times> int) option" where
  "initialize mem heap rnd now ip port file_config = do {
     let config = file_config\<lparr>cf_relay_ip := ip, cf_relay_port := port\<rparr>;
     r \<leftarrow> DAEService mem heap rnd config;
     let n = r_node r;
     let r1 = r\<lparr>r_node := n\<lparr>n_ServiceQueue := cbq_push (n_ServiceQueue n) config\<rparr>\<rparr>;
     r2 \<leftarrow> start_service r1 now;
     Some (r2, cf_session config) }"

text \<open>\<open>connect\<close> takes the next service off the queue and waits for one; it ignores the identifier.\<close>

definition relay_connect :: "relay \<Rightarrow> (relay \<times> dae_socket) option option" where
  "relay_connect r =
     map_option (\<lambda>(msg, q). do {
         s \<leftarrow> DAESocket (n_m (r_node r)) external_deaddrop_messaging (r_relay_id r)
                (ConfigFile (cf_session msg) (cf_transmission msg) (cf_seed msg));
         Some (r\<lparr>r_node := (r_node r)\<lparr>n_ServiceQueue := q\<rparr>\<rparr>, s) })
       (cbq_pop_front (n_ServiceQueue (r_node r)))"

text \<open>\<open>accept\<close> on a relay configured as a server does the same and sends ten zero bytes; on any other
  relay it sleeps forever.\<close>

definition relay_accept :: "byte list \<Rightarrow> relay \<Rightarrow> (relay \<times> dae_socket) option option" where
  "relay_accept old r =
     (if \<not> cf_is_server (r_config r) then None
      else map_option (\<lambda>res. do {
          (r1, s) \<leftarrow> res;
          DAESocket_send old r1 s (replicate MAX_MTU 0) 10 })
        (relay_connect r))"

text \<open>
  \<open>Dialing\<close> of the relay's metadata: a request to connect to the node with the given identifier, repeated once
  two seconds later, in a thread, unless the service has been marked as connected meanwhile.
\<close>

definition Dialing :: "relay \<Rightarrow> u64 \<Rightarrow> ring_id \<Rightarrow> string \<Rightarrow> (relay \<times> ring_id) option" where
  "Dialing r service_type my_key ident = do {
     v \<leftarrow> stoi ident;
     let connector = word_of_int v;
     r' \<leftarrow> run_node None r (\<lambda>n. connect_service n service_type connector my_key);
     Some (r', connector) }"

definition Dialing_retry :: "relay \<Rightarrow> u64 \<Rightarrow> ring_id \<Rightarrow> ring_id \<Rightarrow> relay option" where
  "Dialing_retry r service_type my_key connector =
     (let (connected, n) = is_service_connected (r_node r) service_type; r1 = r\<lparr>r_node := n\<rparr>
      in if connected then Some r1 else run_node None r1 (\<lambda>n. connect_service n service_type connector my_key))"

definition id_range :: ring_id where "id_range = 0xfffff"

definition id_to_key :: "ring_id \<Rightarrow> string" where
  "id_to_key i = to_string (unat i)"

definition key_to_id :: "string \<Rightarrow> ring_id option" where
  "key_to_id key = map_option word_of_int (stoi key)"

subsection \<open>Drawing dead drops\<close>

text \<open>The dead drops of the first \<open>k\<close> messages of a socket.\<close>

fun drops :: "nat \<Rightarrow> u64 \<Rightarrow> ring_id \<Rightarrow> ring_id list" where
  "drops 0 seed max_id = []"
| "drops (Suc k) seed max_id =
     (let (x, seed') = rand_next seed in x mod max_id # drops k seed' max_id)"

text \<open>Sending a list of messages over one socket.\<close>

fun send_all_msgs ::
  "byte list \<Rightarrow> relay \<Rightarrow> dae_socket \<Rightarrow> byte list list \<Rightarrow> (relay \<times> dae_socket) option" where
  "send_all_msgs old r s [] = Some (r, s)"
| "send_all_msgs old r s (b # bs) = do {
     (r', s') \<leftarrow> DAESocket_send old r s b (int (length b));
     send_all_msgs old r' s' bs }"

lemma rand_31_bits: "unat (fst (rand_next seed)) < 2 ^ 31"
proof -
  have "fst (rand_next seed) = take_bit 31 (drop_bit 16 (rand_step seed))"
    by (simp add: rand_next_def take_bit_eq_mask mask_eq_exp_minus_1 Let_def)
  moreover have "unat (take_bit 31 (drop_bit 16 (rand_step seed))) < 2 ^ 31"
    using take_bit_nat_less_exp [of 31 "unat (drop_bit 16 (rand_step seed))"]
    by (simp add: unsigned_take_bit_eq)
  ultimately show ?thesis by simp
qed

lemma DAESocket_send_takes:
  assumes wf: "wf_relay r" and rm: "room 1 r" and old: "length old = MAX_MTU"
    and ty: "external_id (ds_service_type s)" and mx: "ds_max_id s \<noteq> 0"
    and sq: "0 \<le> ds_seq s" "ds_seq s < 2 ^ 31 - 1" and b: "length buf \<le> body_cap"
  shows "returns (DAESocket_send old r s buf (int (length buf))) (\<lambda>(r', s'). \<exists>p. takes p r r' \<and>
     carries p (ds_service_type s) (fst (rand_next (ds_random s)) mod ds_max_id s) (ds_my_key s)
       (ds_session_ID s) (ds_seq s) buf \<and>
     s' = s\<lparr>ds_random := rand_step (ds_random s), ds_seq := ds_seq s + 1\<rparr>)"
proof -
  obtain x seed' where x: "rand_next (ds_random s) = (x, seed')" by fastforce
  then have seed': "seed' = rand_step (ds_random s)" by (auto simp: rand_next_def Let_def)
  have cap: "body_cap \<le> MAX_MTU" by (simp add: packet_cap_defs)
  let ?msg = "buf @ drop (length buf) old"
  have cpy: "memcpy_into old buf (int (length buf)) = Some ?msg"
    using b old cap by (simp add: memcpy_into_def)
  have c: "c_int (ds_seq s + 1) = Some (ds_seq s + 1)" using sq by (simp add: c_int_def)
  have sz: "int (length buf) \<le> int body_cap" "int (length buf) \<le> int (length ?msg)" using b by auto
  from route_external_takes [OF wf ty _ sz rm, of False "ds_session_ID s" "ds_seq s"
      "x mod ds_max_id s" "ds_my_key s"]
  obtain as r' p where "handle_external_messaging (r_node r) False (ds_session_ID s) (ds_seq s)
      (ds_service_type s) (x mod ds_max_id s) (ds_my_key s) ?msg (int (length buf)) = Some as"
    "perform_actions None r as = Some r'" "takes p r r'"
    "carries p (ds_service_type s) (x mod ds_max_id s) (ds_my_key s) (ds_session_ID s) (ds_seq s) buf"
    by (auto simp: returns_def elim!: bind_SomeE)
  then show ?thesis
    using mx by (auto simp: DAESocket_send_def x seed' MsgDescriptor_def cpy c send_content_package_def Let_def)
qed

lemma drops_length [simp]: "length (drops k seed mx) = k"
  by (induction k arbitrary: seed) (auto simp: Let_def split: prod.splits)

lemma drops_on_ring:
  assumes "unat mx = 2 ^ m" and "d \<in> set (drops k seed mx)"
  shows "on_ring m d"
  using assms(2)
proof (induction k arbitrary: seed)
  case (Suc k)
  have "unat (x mod mx) < 2 ^ m" for x using assms(1) by (simp add: unat_mod)
  with Suc show ?case by (auto simp: on_ring_def Let_def split: prod.splits)
qed simp

text \<open>What a socket has sent: the \<open>i\<close>-th packet carries the \<open>i\<close>-th message to the \<open>i\<close>-th drop.\<close>

definition conversation :: "dae_socket \<Rightarrow> byte list list \<Rightarrow> anonymous_packet list \<Rightarrow> bool" where
  "conversation s bs ps \<longleftrightarrow> length ps = length bs \<and> (\<forall>i < length bs.
     carries (ps ! i) (ds_service_type s) (drops (length bs) (ds_random s) (ds_max_id s) ! i) (ds_my_key s)
       (ds_session_ID s) (ds_seq s + int i) (bs ! i))"

lemma send_all_msgs_ok:
  assumes "wf_relay r" and "room (length bs) r" and "length old = MAX_MTU"
    and "external_id (ds_service_type s)" and "ds_max_id s \<noteq> 0"
    and "0 \<le> ds_seq s" and "ds_seq s + int (length bs) < 2 ^ 31" and "\<forall>b \<in> set bs. length b \<le> body_cap"
  shows "returns (send_all_msgs old r s bs) (\<lambda>(r', s'). wf_relay r' \<and>
     (\<exists>ps. conversation s bs ps \<and> held r' = held r + mset ps))"
  using assms
proof (induction bs arbitrary: r s)
  case Nil
  then show ?case by (simp add: conversation_def)
next
  case (Cons b bs)
  have rm: "room 1 r" using room_mono_add [of 1 "length bs" r] Cons.prems(2) by simp
  have "returns (DAESocket_send old r s b (int (length b))) (\<lambda>(r', s'). \<exists>p. takes p r r' \<and>
     carries p (ds_service_type s) (fst (rand_next (ds_random s)) mod ds_max_id s) (ds_my_key s)
       (ds_session_ID s) (ds_seq s) b \<and>
     s' = s\<lparr>ds_random := rand_step (ds_random s), ds_seq := ds_seq s + 1\<rparr>)"
    using Cons.prems by (intro DAESocket_send_takes rm) auto
  then obtain r1 s1 p where send: "DAESocket_send old r s b (int (length b)) = Some (r1, s1)"
    and p: "takes p r r1" "carries p (ds_service_type s) (fst (rand_next (ds_random s)) mod ds_max_id s)
       (ds_my_key s) (ds_session_ID s) (ds_seq s) b"
    and s1: "s1 = s\<lparr>ds_random := rand_step (ds_random s), ds_seq := ds_seq s + 1\<rparr>"
    by (auto simp: returns_def)
  from p(1) have sent: "sent_ok 1 r r1" and h: "held r1 = add_mset (on_wire p) (held r)" by (auto simp: takes_def)
  have "returns (send_all_msgs old r1 s1 bs) (\<lambda>(r', s'). wf_relay r' \<and>
     (\<exists>ps. conversation s1 bs ps \<and> held r' = held r1 + mset ps))"
    using Cons.prems sent_okD(1) [OF sent] sent_okD(4) [OF sent, of "length bs"]
    by (intro Cons.IH) (auto simp: s1)
  then obtain r2 s2 ps where run: "send_all_msgs old r1 s1 bs = Some (r2, s2)" and wf2: "wf_relay r2"
    and ps: "conversation s1 bs ps" "held r2 = held r1 + mset ps" by (auto simp: returns_def)
  have "conversation s (b # bs) (on_wire p # ps)"
    unfolding conversation_def
  proof (intro conjI allI impI)
    from ps(1) show "length (on_wire p # ps) = length (b # bs)" by (simp add: conversation_def)
    fix i assume "i < length (b # bs)"
    with p(2) ps(1) show "carries ((on_wire p # ps) ! i) (ds_service_type s)
      (drops (length (b # bs)) (ds_random s) (ds_max_id s) ! i) (ds_my_key s) (ds_session_ID s)
      (ds_seq s + int i) ((b # bs) ! i)"
      by (cases i) (auto simp: conversation_def s1 rand_next_def Let_def add.assoc)
  qed
  with ps(2) h have "\<exists>qs. conversation s (b # bs) qs \<and> held r2 = held r + mset qs"
    by (intro exI [of _ "on_wire p # ps"]) simp
  with send run wf2 show ?case by simp
qed

lemma DAESocket_ok:
  assumes "m < 31" and "DAESocket m ty key config = Some s"
  shows "unat (ds_max_id s) = 2 ^ m" and "ds_max_id s \<noteq> 0" and "ds_seq s = 0" and "ds_service_type s = ty"
    and "ds_my_key s = key" and "ds_session_ID s = ac_session_ID config"
    and "ds_random s = word_of_int (ac_shared_secret config)"
proof -
  from assms have "ds_max_id s = word_of_int (2 ^ m)" by (auto simp: DAESocket_def shl_one_def)
  with unat_power_64 [of m] assms(1) show mx: "unat (ds_max_id s) = 2 ^ m" by simp
  then show "ds_max_id s \<noteq> 0" by (metis power_not_zero unat_0 zero_neq_numeral)
qed (use assms in \<open>auto simp: DAESocket_def shl_one_def\<close>)

subsection \<open>Properties\<close>

text \<open>
  C7. Peers that share a secret meet: when two sockets, at any two relays of a ring of \<open>m < 31\<close> bits, are
  created with the same seed and session and send equally many messages, everything they send is
  accepted, and for every \<open>i\<close> the \<open>i\<close>-th packets of both go to the same dead drop on the ring,
  under the same session and sequence number, each with its own sender key and message.
\<close>

theorem shared_secret_meets:
  assumes m: "m < 31" and a: "DAESocket m ty ka ca = Some sa" and b: "DAESocket m ty kb cb = Some sb"
    and same: "ac_shared_secret ca = ac_shared_secret cb" "ac_session_ID ca = ac_session_ID cb"
    and ra: "wf_relay ra" "room (length as) ra" and rb: "wf_relay rb" "room (length bs) rb"
    and len: "length as = length bs" "length bs < 2 ^ 31" and ty: "external_id ty" and old: "length old = MAX_MTU"
    and cap: "\<forall>x \<in> set as \<union> set bs. length x \<le> body_cap"
  shows "\<exists>ps qs ra' rb' sa' sb'. send_all_msgs old ra sa as = Some (ra', sa') \<and>
    send_all_msgs old rb sb bs = Some (rb', sb') \<and>
    held ra' = held ra + mset ps \<and> held rb' = held rb + mset qs \<and>
    length ps = length as \<and> length qs = length bs \<and>
    (\<forall>i < length as. \<exists>d. on_ring m d \<and>
       carries (ps ! i) ty d ka (ac_session_ID ca) (int i) (as ! i) \<and>
       carries (qs ! i) ty d kb (ac_session_ID ca) (int i) (bs ! i))"
proof -
  note fa = DAESocket_ok [OF m a] and fb = DAESocket_ok [OF m b]
  have mx: "ds_max_id sa = ds_max_id sb" using fa(1) fb(1) by (metis unsigned_word_eqI)
  have "returns (send_all_msgs old ra sa as) (\<lambda>(r', s'). wf_relay r' \<and>
     (\<exists>ps. conversation sa as ps \<and> held r' = held ra + mset ps))"
    using fa ra len ty old cap by (intro send_all_msgs_ok) auto
  then obtain ra' sa' ps where ps: "send_all_msgs old ra sa as = Some (ra', sa')" "conversation sa as ps"
    "held ra' = held ra + mset ps" by (auto simp: returns_def)
  have "returns (send_all_msgs old rb sb bs) (\<lambda>(r', s'). wf_relay r' \<and>
     (\<exists>ps. conversation sb bs ps \<and> held r' = held rb + mset ps))"
    using fb rb len ty old cap by (intro send_all_msgs_ok) auto
  then obtain rb' sb' qs where qs: "send_all_msgs old rb sb bs = Some (rb', sb')" "conversation sb bs qs"
    "held rb' = held rb + mset qs" by (auto simp: returns_def)
  let ?d = "drops (length bs) (ds_random sb) (ds_max_id sb)"
  have d: "on_ring m (?d ! i)" if "i < length bs" for i
    by (rule drops_on_ring [OF fb(1) nth_mem]) (simp add: that)
  have "\<exists>d. on_ring m d \<and> carries (ps ! i) ty d ka (ac_session_ID ca) (int i) (as ! i) \<and>
       carries (qs ! i) ty d kb (ac_session_ID ca) (int i) (bs ! i)" if "i < length as" for i
    using that ps(2) qs(2) d [of i] fa fb mx same len(1)
    by (intro exI [of _ "?d ! i"]) (auto simp: conversation_def)
  moreover have "length ps = length as" "length qs = length bs" using ps(2) qs(2) by (auto simp: conversation_def)
  ultimately show ?thesis using ps(1,3) qs(1,3) by blast
qed

theorem shared_secret_meets_witness:
  "\<exists>sa sb ps qs ra rb. DAESocket 3 external_deaddrop_messaging 1 (ConfigFile 7 [] 42) = Some sa \<and>
     DAESocket 3 external_deaddrop_messaging 5 (ConfigFile 7 ''1'' 42) = Some sb \<and>
     held ra = held sample_relay + mset ps \<and> held rb = held sample_relay + mset qs \<and>
     length ps = 2 \<and> length qs = 2 \<and>
     (\<forall>i < 2. h_key_id (ps ! i) = h_key_id (qs ! i) \<and> content (ps ! i) = [[1], [2, 2]] ! i \<and>
        content (qs ! i) = [[3], []] ! i)"
proof -
  obtain sa where sa: "DAESocket 3 external_deaddrop_messaging 1 (ConfigFile 7 [] 42) = Some sa"
    by (simp add: DAESocket_def shl_one_def)
  obtain sb where sb: "DAESocket 3 external_deaddrop_messaging 5 (ConfigFile 7 ''1'' 42) = Some sb"
    by (simp add: DAESocket_def shl_one_def)
  have rm: "room (length [[1], [2, 2 :: byte]]) sample_relay" "room (length [[3], [] :: byte list]) sample_relay"
    using sample_relay_room(1) by (simp_all add: numeral_2_eq_2)
  have ext: "external_id external_deaddrop_messaging" by (simp add: external_id_def)
  have cap: "\<forall>x \<in> set [[1], [2, 2 :: byte]] \<union> set [[3], []]. length x \<le> body_cap"
    by (simp add: packet_cap_defs)
  have "3 < (31 :: nat)" by simp
  have side: "length [[1], [2, 2 :: byte]] = length [[3], [] :: byte list]"
    "length [[3], [] :: byte list] < 2 ^ 31" by simp_all
  have "ac_shared_secret (ConfigFile 7 [] 42) = ac_shared_secret (ConfigFile 7 ''1'' 42)"
    "ac_session_ID (ConfigFile 7 [] 42) = ac_session_ID (ConfigFile 7 ''1'' 42)" by (simp_all add: ConfigFile_def)
  from shared_secret_meets [OF \<open>3 < 31\<close> sa sb this wf_sample_relay rm(1) wf_sample_relay rm(2) side ext _ cap,
      of "replicate MAX_MTU 0"]
  obtain ps qs ra rb sa' sb' where
    w: "held ra = held sample_relay + mset ps" "held rb = held sample_relay + mset qs" "length ps = 2" "length qs = 2"
    "\<forall>i < 2. \<exists>d. on_ring 3 d \<and> carries (ps ! i) external_deaddrop_messaging d 1 7 (int i) ([[1], [2, 2]] ! i) \<and>
       carries (qs ! i) external_deaddrop_messaging d 5 7 (int i) ([[3], []] ! i)"
    by (simp add: ConfigFile_def eval_nat_numeral) blast
  then have "\<forall>i < 2. h_key_id (ps ! i) = h_key_id (qs ! i) \<and> content (ps ! i) = [[1], [2, 2]] ! i \<and>
        content (qs ! i) = [[3], []] ! i" unfolding carries_def by metis
  with sa sb w show ?thesis by blast
qed

text \<open>
  A receive is memory safe exactly when the message fits: with a message at the head of the user
  queue and a buffer of at least three bytes, \<open>DAESocket::recv\<close> copies the whole message and
  stays within the buffer if and only if the message is not longer than the buffer. The size the
  caller passes plays no part, contrary to the interface, which promises a maximum.
\<close>

theorem recv_ignores_size:
  assumes "n_recv_list_user (r_node r) = p # q" and "wf_packet p" and "3 \<le> length buf"
  shows "\<exists>res. DAESocket_recv r s buf sz = Some res \<and> (res \<noteq> None \<longleftrightarrow> h_size p \<le> int (length buf)) \<and>
    (\<forall>r' buf' k. res = Some (r', buf', k) \<longrightarrow> n_recv_list_user (r_node r') = q \<and>
       take (nat (h_size p)) buf' = content p)"
proof -
  from assms(2) have p: "0 \<le> h_size p" "nat (h_size p) \<le> length (payload p)"
    by (auto simp: wf_packet_def wf_mem_def payload_def)
  have pre: "has_prefix fin_bytes xs \<noteq> None" if "3 \<le> length xs" for xs
    using that by (auto simp: fin_bytes_def numeral_3_eq_3 Suc_le_length_iff)
  show ?thesis
  proof (cases "h_size p \<le> int (length buf)")
    case True
    let ?b = "take (nat (h_size p)) (payload p) @ drop (nat (h_size p)) buf"
    from True p have cp: "memcpy_into buf (payload p) (h_size p) = Some ?b" by (simp add: memcpy_into_def nat_le_iff)
    from True p assms(3) have "3 \<le> length ?b" by (simp add: min_def)
    with pre obtain fin where "has_prefix fin_bytes ?b = Some fin" by blast
    with True cp assms(1) p show ?thesis
      by (auto simp: DAESocket_recv_def cbq_pop_front_def recv_copy_def content_def payload_size_def)
  next
    case False
    with p have "memcpy_into buf (payload p) (h_size p) = None" by (simp add: memcpy_into_def nat_le_iff)
    with False assms(1) show ?thesis by (simp add: DAESocket_recv_def cbq_pop_front_def recv_copy_def)
  qed
qed

theorem recv_ignores_size_witness:
  "\<exists>s r. n_recv_list_user (r_node r) = [sample_drop 2 [1, 2, 3, 4, 5]] \<and>
     DAESocket_recv r s [0, 0, 0, 0] 4 = Some None"
proof -
  obtain s where "DAESocket 3 external_deaddrop_messaging 1 (ConfigFile 7 [] 42) = Some s"
    by (simp add: DAESocket_def shl_one_def)
  define r where "r = sample_relay\<lparr>r_node := (r_node sample_relay)\<lparr>n_recv_list_user := [sample_drop 2 [1, 2, 3, 4, 5]]\<rparr>\<rparr>"
  have q: "n_recv_list_user (r_node r) = [sample_drop 2 [1, 2, 3, 4, 5]]" by (simp add: r_def)
  have "wf_packet (sample_drop 2 [1, 2, 3, 4, 5])" by (rule wf_sample_drop) (simp add: packet_cap_defs)
  moreover have "h_size (sample_drop 2 [1, 2, 3, 4, 5]) = 5" by (simp add: sample_drop_def)
  ultimately have "DAESocket_recv r s [0, 0, 0, 0] 4 = Some None"
    using recv_ignores_size [OF q, of "[0, 0, 0, 0]" s 4] by (auto simp del: not_None_eq)
  with q show ?thesis by blast
qed

text \<open>
  Keys and identifiers convert back and forth: \<open>key_to_id\<close> undoes \<open>id_to_key\<close> for the identifiers that
  fit an \<open>int\<close>, all those of \<open>id_range\<close> included, and throws for every larger \<open>ring_id_t\<close>.
\<close>

theorem key_roundtrip:
  "key_to_id (id_to_key i) = (if unat i < 2 ^ 31 then Some i else None) \<and> unat id_range < 2 ^ 31"
  by (auto simp: key_to_id_def id_to_key_def stoi_to_string id_range_def)

subsection \<open>Dialing\<close>

lemma wf_client_service [simp]: "wf_relay (r\<lparr>r_node := set_client_service_list (r_node r) service b\<rparr>) = wf_relay r"
  by (simp add: wf_relay_def wf_node_def set_client_service_list_def)

lemma room_client_service [simp]: "room k (r\<lparr>r_node := set_client_service_list (r_node r) service b\<rparr>) = room k r"
  by (simp add: room_def set_client_service_list_def)

text \<open>A request to connect is one more packet of the relay, addressed to the node and without content: its text is
  sent with size 0.\<close>

lemma connect_request:
  assumes "wf_relay r" "room 1 r" "external_id service"
  shows "returns (run_node None r (\<lambda>n. connect_service n service connector my_key))
    (\<lambda>r'. \<exists>p. takes p (r\<lparr>r_node := set_client_service_list (r_node r) service False\<rparr>) r' \<and> carries p service connector my_key 0 0 [])"
  using route_external_takes [of "r\<lparr>r_node := set_client_service_list (r_node r) service False\<rparr>" service 0 "c_string ''CONNECT''" False 0 0 connector my_key] assms
  by (auto simp: run_node_def connect_service_def Let_def returns_def body_cap_def split: bind_splits)

theorem dialing_sends_request:
  assumes "wf_relay r" "room 1 r" "external_id service" "d < 2 ^ 31"
  shows "returns (Dialing r service my_key (to_string d)) (\<lambda>(r', connector). connector = of_nat d \<and>
    (\<exists>p. takes p (r\<lparr>r_node := set_client_service_list (r_node r) service False\<rparr>) r' \<and> carries p service (of_nat d) my_key 0 0 []))"
  using connect_request [OF assms(1-3), of "of_nat d" my_key] assms(4)
  by (auto simp: Dialing_def stoi_to_string returns_def)

end
