(* ===== verification/Md5.thy ===== *)
theory Md5
  imports Strings
begin

text \<open>
  The MD5 of the file sharing application (src/app/filesharing/md5.h): the block buffer, the
  incremental interface (\<open>addData\<close>, \<open>finalize\<close>) and the compression function. The reference at the end is RFC
  1321: the padded message cut into blocks of 64 bytes and the 64 steps given by index formulas.
\<close>

unbundle bit_operations_syntax

subsection \<open>Words and bytes\<close>

text \<open>\<open>Loader::operator[]\<close>: a little-endian 32-bit word of the block.\<close>

definition load_le :: "byte list \<Rightarrow> nat \<Rightarrow> u32" where
  "load_le p idx = (ucast (p ! (4 * idx)) :: u32) OR push_bit 8 (ucast (p ! (4 * idx + 1))) OR
     push_bit 16 (ucast (p ! (4 * idx + 2))) OR push_bit 24 (ucast (p ! (4 * idx + 3)))"

text \<open>\<open>ror\<close> shifts right and cuts to the result type; here to a byte.\<close>

definition ror_byte :: "u32 \<Rightarrow> nat \<Rightarrow> byte" where
  "ror_byte x s = ucast (drop_bit s x)"

definition rotl :: "u32 \<Rightarrow> nat \<Rightarrow> u32" where
  "rotl x s = (if s = 0 then x else push_bit s x OR drop_bit (32 - s) x)"

subsection \<open>The compression function\<close>

definition md5_f :: "u32 \<Rightarrow> u32 \<Rightarrow> u32 \<Rightarrow> u32" where "md5_f x y z = (x AND (y XOR z)) XOR z"
definition md5_g :: "u32 \<Rightarrow> u32 \<Rightarrow> u32 \<Rightarrow> u32" where "md5_g x y z = y XOR ((x XOR y) AND z)"
definition md5_h :: "u32 \<Rightarrow> u32 \<Rightarrow> u32 \<Rightarrow> u32" where "md5_h x y z = x XOR y XOR z"
definition md5_ii :: "u32 \<Rightarrow> u32 \<Rightarrow> u32 \<Rightarrow> u32" where "md5_ii x y z = y XOR (x OR NOT z)"

type_synonym md5_regs = "u32 \<times> u32 \<times> u32 \<times> u32"

text \<open>One call of \<open>round\<close>. Each call of the source names the four registers rotated by one against
  the call before, so the registers are kept in the order of the next call.\<close>

definition md5_round ::
  "byte list \<Rightarrow> md5_regs \<Rightarrow> (u32 \<Rightarrow> u32 \<Rightarrow> u32 \<Rightarrow> u32) \<times> nat \<times> nat \<times> u32 \<Rightarrow> md5_regs" where
  "md5_round x = (\<lambda>(a, b, c, d) (func, k, s, t).
     (d, b + rotl (a + func b c d + load_le x k + t) s, b, c))"

text \<open>The 64 calls, in the order of the source.\<close>

definition md5_calls :: "((u32 \<Rightarrow> u32 \<Rightarrow> u32 \<Rightarrow> u32) \<times> nat \<times> nat \<times> u32) list" where
  "md5_calls = [
     (md5_f, 0, 7, 0xd76aa478), (md5_f, 1, 12, 0xe8c7b756),
     (md5_f, 2, 17, 0x242070db), (md5_f, 3, 22, 0xc1bdceee),
     (md5_f, 4, 7, 0xf57c0faf), (md5_f, 5, 12, 0x4787c62a),
     (md5_f, 6, 17, 0xa8304613), (md5_f, 7, 22, 0xfd469501),
     (md5_f, 8, 7, 0x698098d8), (md5_f, 9, 12, 0x8b44f7af),
     (md5_f, 10, 17, 0xffff5bb1), (md5_f, 11, 22, 0x895cd7be),
     (md5_f, 12, 7, 0x6b901122), (md5_f, 13, 12, 0xfd987193),
     (md5_f, 14, 17, 0xa679438e), (md5_f, 15, 22, 0x49b40821),
     (md5_g, 1, 5, 0xf61e2562), (md5_g, 6, 9, 0xc040b340),
     (md5_g, 11, 14, 0x265e5a51), (md5_g, 0, 20, 0xe9b6c7aa),
     (md5_g, 5, 5, 0xd62f105d), (md5_g, 10, 9, 0x02441453),
     (md5_g, 15, 14, 0xd8a1e681), (md5_g, 4, 20, 0xe7d3fbc8),
     (md5_g, 9, 5, 0x21e1cde6), (md5_g, 14, 9, 0xc33707d6),
     (md5_g, 3, 14, 0xf4d50d87), (md5_g, 8, 20, 0x455a14ed),
     (md5_g, 13, 5, 0xa9e3e905), (md5_g, 2, 9, 0xfcefa3f8),
     (md5_g, 7, 14, 0x676f02d9), (md5_g, 12, 20, 0x8d2a4c8a),
     (md5_h, 5, 4, 0xfffa3942), (md5_h, 8, 11, 0x8771f681),
     (md5_h, 11, 16, 0x6d9d6122), (md5_h, 14, 23, 0xfde5380c),
     (md5_h, 1, 4, 0xa4beea44), (md5_h, 4, 11, 0x4bdecfa9),
     (md5_h, 7, 16, 0xf6bb4b60), (md5_h, 10, 23, 0xbebfbc70),
     (md5_h, 13, 4, 0x289b7ec6), (md5_h, 0, 11, 0xeaa127fa),
     (md5_h, 3, 16, 0xd4ef3085), (md5_h, 6, 23, 0x04881d05),
     (md5_h, 9, 4, 0xd9d4d039), (md5_h, 12, 11, 0xe6db99e5),
     (md5_h, 15, 16, 0x1fa27cf8), (md5_h, 2, 23, 0xc4ac5665),
     (md5_ii, 0, 6, 0xf4292244), (md5_ii, 7, 10, 0x432aff97),
     (md5_ii, 14, 15, 0xab9423a7), (md5_ii, 5, 21, 0xfc93a039),
     (md5_ii, 12, 6, 0x655b59c3), (md5_ii, 3, 10, 0x8f0ccc92),
     (md5_ii, 10, 15, 0xffeff47d), (md5_ii, 1, 21, 0x85845dd1),
     (md5_ii, 8, 6, 0x6fa87e4f), (md5_ii, 15, 10, 0xfe2ce6e0),
     (md5_ii, 6, 15, 0xa3014314), (md5_ii, 13, 21, 0x4e0811a1),
     (md5_ii, 4, 6, 0xf7537e82), (md5_ii, 11, 10, 0xbd3af235),
     (md5_ii, 2, 15, 0x2ad7d2bb), (md5_ii, 9, 21, 0xeb86d391)]"

definition add_regs :: "md5_regs \<Rightarrow> md5_regs \<Rightarrow> md5_regs" where
  "add_regs = (\<lambda>(a, b, c, d) (a', b', c', d'). (a + a', b + b', c + c', d + d'))"

definition md5_block :: "md5_regs \<Rightarrow> byte list \<Rightarrow> md5_regs" where
  "md5_block st x = add_regs st (foldl (md5_round x) st md5_calls)"

subsection \<open>The buffer\<close>

text \<open>\<open>Buffer<Byte, 128>\<close> as the bytes in use; without the debug check a longer fill is undefined.\<close>

definition buffer_fill :: "byte list \<Rightarrow> byte \<Rightarrow> nat \<Rightarrow> byte list option" where
  "buffer_fill buf val k = (if length buf + k \<le> 128 then Some (buf @ replicate k val) else None)"

definition buffer_push_back :: "byte list \<Rightarrow> byte list \<Rightarrow> byte list option" where
  "buffer_push_back buf bytes = (if length buf + length bytes \<le> 128 then Some (buf @ bytes) else None)"

subsection \<open>The incremental interface\<close>

record md5 =
  m5_buffer :: "byte list"
  m5_sizeCounter :: u64
  m5_state :: md5_regs

definition md5_init :: md5_regs where
  "md5_init = (0x67452301, 0xefcdab89, 0x98badcfe, 0x10325476)"

definition MD5 :: md5 where
  "MD5 = \<lparr>m5_buffer = [], m5_sizeCounter = 0, m5_state = md5_init\<rparr>"

definition BLOCK_SIZE :: nat where "BLOCK_SIZE = 64"

text \<open>The assertion on the size is a branch.\<close>

definition addDataImpl :: "md5 \<Rightarrow> byte list \<Rightarrow> md5 option" where
  "addDataImpl h data =
     (if length data mod BLOCK_SIZE \<noteq> 0 then None
      else Some (h\<lparr>m5_sizeCounter := m5_sizeCounter h + of_nat (length data),
             m5_state := foldl (\<lambda>st i. md5_block st (drop (i * BLOCK_SIZE) data)) (m5_state h)
               [0..<length data div BLOCK_SIZE]\<rparr>))"

text \<open>The part of \<open>addData\<close> after the buffer has been dealt with.\<close>

definition addData_blocks :: "md5 \<Rightarrow> byte list \<Rightarrow> md5 option" where
  "addData_blocks h data =
     (if length data < BLOCK_SIZE then Some (h\<lparr>m5_buffer := data\<rparr>)
      else do {
        let len = length data - length data mod BLOCK_SIZE;
        h' \<leftarrow> addDataImpl h (take len data);
        Some (if len < length data then h'\<lparr>m5_buffer := drop len data\<rparr> else h') })"

definition addData :: "md5 \<Rightarrow> byte list \<Rightarrow> md5 option" where
  "addData h inData =
     (if m5_buffer h \<noteq> []
      then do {
        let len = min (BLOCK_SIZE - length (m5_buffer h)) (length inData);
        buf \<leftarrow> buffer_push_back (m5_buffer h) (take len inData);
        if length buf < BLOCK_SIZE then Some (h\<lparr>m5_buffer := buf\<rparr>)
        else do {
          h' \<leftarrow> addDataImpl (h\<lparr>m5_buffer := buf\<rparr>) buf;
          addData_blocks (h'\<lparr>m5_buffer := []\<rparr>) (drop len inData) } }
      else addData_blocks h inData)"

text \<open>The eight bytes of the size, low word first, written over the last eight of the buffer.\<close>

definition size_bytes :: "u64 \<Rightarrow> byte list" where
  "size_bytes bits = map (\<lambda>i. ror_byte (ucast bits) (8 * i)) [0..<4] @
     map (\<lambda>i. ror_byte (ucast (drop_bit 32 bits)) (8 * i)) [0..<4]"

definition finalize :: "md5 \<Rightarrow> md5 option" where
  "finalize h = do {
     let sz = m5_sizeCounter h + of_nat (length (m5_buffer h));
     buf1 \<leftarrow> buffer_fill (m5_buffer h) 0x80 1;
     let len = BLOCK_SIZE - (length buf1 + 8) mod BLOCK_SIZE;
     buf2 \<leftarrow> buffer_fill buf1 0 (len + 8);
     let buf3 = take (length buf2 - 8) buf2 @ size_bytes (sz * 8);
     h' \<leftarrow> addDataImpl (h\<lparr>m5_sizeCounter := sz, m5_buffer := buf3\<rparr>) buf3;
     Some (h'\<lparr>m5_buffer := []\<rparr>) }"

definition toArray :: "md5 \<Rightarrow> byte list" where
  "toArray h = (case m5_state h of (a, b, c, d) \<Rightarrow>
     concat (map (\<lambda>i. map (\<lambda>j. ror_byte i (j * 8)) [0..<4]) [a, b, c, d]))"

definition hex_char :: "byte \<Rightarrow> char" where
  "hex_char v = (if v < 10 then char_of (unat v + 48) else char_of (unat v - 10 + 97))"

definition md5_toString :: "md5 \<Rightarrow> string" where
  "md5_toString h = concat (map (\<lambda>c. [hex_char (drop_bit 4 c), hex_char (c AND 0xf)]) (toArray h))"

text \<open>\<open>raw_value\<close> is the state read as sixteen bytes on a little-endian machine.\<close>

definition raw_value :: "md5 \<Rightarrow> byte list" where
  "raw_value h = toArray h"

text \<open>Hashing a file the way the application reads it, chunk by chunk.\<close>

fun addData_all :: "md5 \<Rightarrow> byte list list \<Rightarrow> md5 option" where
  "addData_all h [] = Some h"
| "addData_all h (c # cs) = do { h' \<leftarrow> addData h c; addData_all h' cs }"

definition md5_of_chunks :: "byte list list \<Rightarrow> md5 option" where
  "md5_of_chunks cs = do { h \<leftarrow> addData_all MD5 cs; finalize h }"

subsection \<open>Blocks\<close>

text \<open>Folding the compression function over a message of whole blocks.\<close>

definition blocks :: "md5_regs \<Rightarrow> byte list \<Rightarrow> md5_regs" where
  "blocks st data = foldl (\<lambda>st i. md5_block st (drop (i * 64) data)) st [0..<length data div 64]"

lemma md5_calls_bound: "(fn, k, s, t) \<in> set md5_calls \<Longrightarrow> k < 16"
  by (auto simp: md5_calls_def)

text \<open>Only the first 64 bytes of a block matter.\<close>

lemma load_le_append: "idx < 16 \<Longrightarrow> 64 \<le> length x \<Longrightarrow> load_le (x @ y) idx = load_le x idx"
  by (simp add: load_le_def nth_append)

lemma foldl_round_cong:
  assumes "\<forall>(fn, k, s, t) \<in> set cs. load_le x k = load_le y k"
  shows "foldl (md5_round x) st cs = foldl (md5_round y) st cs"
  using assms
proof (induction cs arbitrary: st)
  case (Cons c cs)
  then have "md5_round x st c = md5_round y st c" by (cases c; cases st) (auto simp: md5_round_def)
  with Cons show ?case by simp
qed simp

lemma md5_block_append:
  assumes "64 \<le> length x"
  shows "md5_block st (x @ y) = md5_block st x"
proof -
  have same: "\<forall>(fn, k, s, t) \<in> set md5_calls. load_le (x @ y) k = load_le x k"
    using assms by (auto dest: md5_calls_bound intro: load_le_append)
  show ?thesis by (simp add: md5_block_def foldl_round_cong [OF same])
qed

lemma blocks_append:
  assumes "64 dvd length a"
  shows "blocks st (a @ b) = blocks (blocks st a) b"
proof -
  from assms obtain na where la: "length a = na * 64" by (auto simp: dvd_def mult.commute)
  let ?nb = "length b div 64"
  have n: "length (a @ b) div 64 = na + ?nb" "length a div 64 = na" by (simp_all add: la)
  have "foldl (\<lambda>st i. md5_block st (drop (i * 64) (a @ b))) st [0..<na] = blocks st a"
    unfolding blocks_def n(2)
  proof (rule foldl_cong [OF refl refl])
    fix st i assume "i \<in> set [0..<na]"
    then have "(i + 1) * 64 \<le> na * 64" by (intro mult_le_mono1) simp
    then have "64 \<le> length (drop (i * 64) a)" and "i * 64 \<le> length a" using la by auto
    then show "md5_block st (drop (i * 64) (a @ b)) = md5_block st (drop (i * 64) a)"
      by (simp add: md5_block_append)
  qed
  moreover have "foldl (\<lambda>st i. md5_block st (drop (i * 64) (a @ b))) st' [na..<na + ?nb] = blocks st' b" for st'
  proof -
    have "[na..<na + ?nb] = map (\<lambda>i. i + na) [0..<?nb]" by (simp add: map_add_upt add.commute)
    moreover have "drop ((i + na) * 64) (a @ b) = drop (i * 64) b" for i
      by (simp add: la add_mult_distrib)
    ultimately show ?thesis by (simp only: blocks_def foldl_map)
  qed
  moreover have "blocks st (a @ b) =
      foldl (\<lambda>st i. md5_block st (drop (i * 64) (a @ b))) st ([0..<na] @ [na..<na + ?nb])"
    unfolding blocks_def n(1) by (simp only: upt_add_eq_append [of 0 na ?nb, OF le0])
  ultimately show ?thesis by (simp only: foldl_append)
qed

lemma addDataImpl_blocks:
  "64 dvd length data \<Longrightarrow> addDataImpl h data =
     Some (h\<lparr>m5_sizeCounter := m5_sizeCounter h + of_nat (length data), m5_state := blocks (m5_state h) data\<rparr>)"
  by (simp add: addDataImpl_def blocks_def BLOCK_SIZE_def dvd_eq_mod_eq_0)

subsection \<open>The state after some data\<close>

definition whole :: "'a list \<Rightarrow> nat" where
  "whole msg = 64 * (length msg div 64)"

definition represents :: "md5 \<Rightarrow> byte list \<Rightarrow> bool" where
  "represents h msg \<longleftrightarrow> m5_state h = blocks md5_init (take (whole msg) msg) \<and>
     m5_buffer h = drop (whole msg) msg \<and> m5_sizeCounter h = of_nat (whole msg)"

lemma whole_le: "whole msg \<le> length msg" and whole_dvd: "64 dvd whole msg"
  and whole_rest: "length msg - whole msg = length msg mod 64"
  by (simp_all add: whole_def minus_mult_div_eq_mod)

lemma represents_MD5: "represents MD5 []"
  by (simp add: represents_def MD5_def whole_def blocks_def)

lemma represents_whole:
  assumes "64 dvd length msg" and "m5_state h = blocks md5_init msg" and "m5_buffer h = []"
    and "m5_sizeCounter h = of_nat (length msg)"
  shows "represents h msg"
proof -
  from assms(1) have "whole msg = length msg" by (simp add: whole_def)
  with assms show ?thesis by (simp add: represents_def)
qed

text \<open>Taking whole blocks after a message of whole blocks.\<close>

lemma whole_append: "64 dvd length a \<Longrightarrow> whole (a @ b) = length a + whole b"
  by (auto simp: whole_def)

lemma blocks_whole:
  assumes "64 dvd length a"
  shows "blocks st (take (whole (a @ b)) (a @ b)) = blocks (blocks st a) (take (whole b) b)"
  using assms by (simp add: whole_append blocks_append)

lemma addData_blocks_represents:
  assumes h: "represents h msg" and buf: "m5_buffer h = []"
  shows "\<exists>h'. addData_blocks h data = Some h' \<and> represents h' (msg @ data)"
proof -
  from h buf have dvd: "64 dvd length msg" and all: "take (whole msg) msg = msg" "whole msg = length msg"
    using whole_le [of msg] whole_dvd [of msg] by (auto simp: represents_def)
  let ?len = "whole data"
  have len: "length data - length data mod 64 = ?len"
    by (simp add: whole_def minus_mod_eq_mult_div)
  show ?thesis
  proof (cases "length data < 64")
    case True
    then have "?len = 0" by (simp add: whole_def)
    with True h dvd all show ?thesis
      by (simp add: addData_blocks_def BLOCK_SIZE_def represents_def whole_append)
  next
    case False
    have "length (take ?len data) = ?len" using whole_le [of data] by simp
    then have impl: "addDataImpl h (take ?len data) = Some (h\<lparr>m5_sizeCounter := m5_sizeCounter h + of_nat ?len,
        m5_state := blocks (m5_state h) (take ?len data)\<rparr>)" (is "_ = Some ?h")
      using addDataImpl_blocks [of "take ?len data" h] whole_dvd [of data] by simp
    then have "addData_blocks h data = Some (if ?len < length data then ?h\<lparr>m5_buffer := drop ?len data\<rparr> else ?h)"
      using False by (simp add: addData_blocks_def BLOCK_SIZE_def Let_def len)
    moreover have "represents (if ?len < length data then ?h\<lparr>m5_buffer := drop ?len data\<rparr> else ?h) (msg @ data)"
      using h dvd all whole_le [of data] buf
      by (auto simp: represents_def whole_append blocks_append)
    ultimately show ?thesis by blast
  qed
qed

lemma addData_represents:
  assumes h: "represents h msg"
  shows "\<exists>h'. addData h data = Some h' \<and> represents h' (msg @ data)"
proof (cases "m5_buffer h = []")
  case True
  with addData_blocks_represents [OF h True] show ?thesis by (simp add: addData_def)
next
  case False
  let ?w = "take (whole msg) msg" and ?b = "m5_buffer h"
  have w: "64 dvd length ?w" "msg = ?w @ ?b" and b: "length ?b < 64"
    using h whole_le [of msg] whole_dvd [of msg] whole_rest [of msg] by (auto simp: represents_def)
  define len where "len = min (64 - length ?b) (length data)"
  let ?buf = "?b @ take len data"
  have push: "buffer_push_back ?b (take len data) = Some ?buf"
    using b by (simp add: buffer_push_back_def len_def)
  note unf = addData_def BLOCK_SIZE_def Let_def len_def [symmetric] push bind.simps
  show ?thesis
  proof (cases "length ?buf < 64")
    case True
    then have "take len data = data" by (auto simp: len_def)
    moreover have "whole (msg @ data) = length ?w"
      using True w(1) \<open>take len data = data\<close>
      by (subst w(2)) (simp add: whole_append, simp add: whole_def)
    ultimately have "represents (h\<lparr>m5_buffer := ?buf\<rparr>) (msg @ data)"
      using h whole_le [of msg] by (auto simp: represents_def)
    with True False show ?thesis unfolding unf by simp
  next
    case ge: False
    then have len64: "length ?buf = 64" using b by (auto simp: len_def)
    let ?h1 = "h\<lparr>m5_buffer := ?buf, m5_sizeCounter := m5_sizeCounter h + of_nat 64, m5_state := blocks (m5_state h) ?buf\<rparr>"
    let ?h = "?h1\<lparr>m5_buffer := []\<rparr>"
    have dvd: "64 dvd length ?buf" unfolding len64 by simp
    have impl: "addDataImpl (h\<lparr>m5_buffer := ?buf\<rparr>) ?buf = Some ?h1"
      unfolding addDataImpl_blocks [OF dvd] unfolding len64 by simp
    have m: "msg @ take len data = ?w @ ?buf" using w(2) by simp
    have "represents ?h (?w @ ?buf)"
    proof (rule represents_whole)
      show "64 dvd length (?w @ ?buf)" using w(1) dvd by simp
      show "m5_state ?h = blocks md5_init (?w @ ?buf)"
        using h by (simp add: blocks_append [OF w(1)] represents_def)
      have "m5_sizeCounter h = of_nat (length ?w)" using h whole_le [of msg] by (simp add: represents_def)
      then have "m5_sizeCounter ?h = of_nat (length ?w) + of_nat 64" by simp
      also have "\<dots> = of_nat (length (?w @ ?buf))" unfolding length_append [of ?w ?buf] len64 of_nat_add ..
      finally show "m5_sizeCounter ?h = of_nat (length (?w @ ?buf))" .
    qed simp
    then have "represents ?h (msg @ take len data)" unfolding m .
    from addData_blocks_represents [OF this, of "drop len data"]
    show ?thesis using ge False impl unfolding unf by simp
  qed
qed

lemma addData_all_represents:
  "represents h msg \<Longrightarrow> \<exists>h'. addData_all h cs = Some h' \<and> represents h' (msg @ concat cs)"
proof (induction cs arbitrary: h msg)
  case (Cons c cs)
  from addData_represents [OF Cons.prems, of c] obtain h1 where
    "addData h c = Some h1" "represents h1 (msg @ c)" by blast
  with Cons.IH [of h1 "msg @ c"] show ?case by auto
qed simp

text \<open>The bytes \<open>finalize\<close> appends to a message.\<close>

definition padding :: "nat \<Rightarrow> byte list" where
  "padding n = 0x80 # replicate (64 - (n mod 64 + 9) mod 64) 0 @ size_bytes (of_nat n * 8)"

lemma length_size_bytes [simp]: "length (size_bytes x) = 8"
  by (simp add: size_bytes_def)

lemma finalize_represents:
  assumes h: "represents h msg"
  shows "\<exists>h'. finalize h = Some h' \<and> m5_state h' = blocks md5_init (msg @ padding (length msg))"
proof -
  let ?w = "take (whole msg) msg" and ?b = "m5_buffer h"
  have w: "64 dvd length ?w" "msg = ?w @ ?b" and b: "length ?b = length msg mod 64"
    using h whole_le [of msg] whole_dvd [of msg] whole_rest [of msg] by (auto simp: represents_def)
  have b64: "length ?b < 64" using b by simp
  have "length msg = whole msg + length ?b" using w(2) whole_le [of msg] b whole_rest [of msg] by simp
  then have sz: "m5_sizeCounter h + of_nat (length ?b) = of_nat (length msg)"
    using h by (simp add: represents_def)
  define n where "n = length ?b"
  define z where "z = 64 - (n + 9) mod 64"
  have n: "n < 64" and pad: "padding (length msg) = 0x80 # replicate z 0 @ size_bytes (of_nat (length msg) * 8)"
    using b64 by (simp_all add: n_def z_def padding_def b)
  let ?buf = "?b @ padding (length msg)"
  have total: "n + z + 9 = 64 \<or> n + z + 9 = 128"
    using n unfolding z_def by (cases "n < 55") (auto simp: mod_if)
  moreover have "length ?buf = n + z + 9" by (simp add: pad n_def)
  ultimately have "length ?buf = 64 \<or> length ?buf = 128" by linarith
  then have dvd: "64 dvd length ?buf" by (elim disjE ssubst) simp_all
  let ?h = "h\<lparr>m5_sizeCounter := of_nat (length msg), m5_buffer := ?buf\<rparr>"
  have fill: "buffer_fill ?b 0x80 1 = Some (?b @ [0x80])"
    "buffer_fill (?b @ [0x80]) 0 (z + 8) = Some (?b @ [0x80] @ replicate (z + 8) 0)"
    using total n by (auto simp: buffer_fill_def n_def)
  have z: "BLOCK_SIZE - (length (?b @ [0x80]) + 8) mod BLOCK_SIZE = z"
    by (simp add: BLOCK_SIZE_def z_def n_def add.commute)
  have cut: "take (length (?b @ [0x80] @ replicate (z + 8) 0) - 8) (?b @ [0x80] @ replicate (z + 8) 0) @
      size_bytes (of_nat (length msg) * 8) = ?buf"
    by (simp add: pad replicate_add)
  have "finalize h = Some ((?h\<lparr>m5_sizeCounter := of_nat (length msg) + of_nat (length ?buf),
      m5_state := blocks (m5_state h) ?buf\<rparr>)\<lparr>m5_buffer := []\<rparr>)"
    unfolding finalize_def Let_def sz fill bind.simps z cut addDataImpl_blocks [OF dvd] by simp
  moreover have "blocks md5_init (msg @ padding (length msg)) = blocks (m5_state h) ?buf"
  proof -
    have st: "m5_state h = blocks md5_init ?w" using h by (simp add: represents_def)
    have eq: "msg @ padding (length msg) = ?w @ ?buf" using w(2) by (metis append.assoc)
    show ?thesis unfolding eq st by (rule blocks_append [OF w(1)])
  qed
  ultimately show ?thesis by simp
qed

subsection \<open>The reference\<close>

text \<open>RFC 1321: the auxiliary functions, the index of the message word and the shift of step \<open>i\<close>.\<close>

definition rfc_fun :: "nat \<Rightarrow> u32 \<Rightarrow> u32 \<Rightarrow> u32 \<Rightarrow> u32" where
  "rfc_fun i x y z =
     (if i < 16 then (x AND y) OR (NOT x AND z)
      else if i < 32 then (x AND z) OR (y AND NOT z)
      else if i < 48 then x XOR y XOR z
      else y XOR (x OR NOT z))"

definition rfc_index :: "nat \<Rightarrow> nat" where
  "rfc_index i = (if i < 16 then i else if i < 32 then 5 * i + 1 else if i < 48 then 3 * i + 5 else 7 * i) mod 16"

definition rfc_shift :: "nat \<Rightarrow> nat" where
  "rfc_shift i = [[7, 12, 17, 22], [5, 9, 14, 20], [4, 11, 16, 23], [6, 10, 15, 21]] ! (i div 16) ! (i mod 4)"

text \<open>The constants \<open>T[i]\<close>, the integer part of \<open>2 ^ 32\<close> times the sine of \<open>i + 1\<close>, as printed there.\<close>

definition rfc_T :: "u32 list" where
  "rfc_T = [
     0xd76aa478, 0xe8c7b756, 0x242070db, 0xc1bdceee, 0xf57c0faf, 0x4787c62a, 0xa8304613, 0xfd469501,
     0x698098d8, 0x8b44f7af, 0xffff5bb1, 0x895cd7be, 0x6b901122, 0xfd987193, 0xa679438e, 0x49b40821,
     0xf61e2562, 0xc040b340, 0x265e5a51, 0xe9b6c7aa, 0xd62f105d, 0x02441453, 0xd8a1e681, 0xe7d3fbc8,
     0x21e1cde6, 0xc33707d6, 0xf4d50d87, 0x455a14ed, 0xa9e3e905, 0xfcefa3f8, 0x676f02d9, 0x8d2a4c8a,
     0xfffa3942, 0x8771f681, 0x6d9d6122, 0xfde5380c, 0xa4beea44, 0x4bdecfa9, 0xf6bb4b60, 0xbebfbc70,
     0x289b7ec6, 0xeaa127fa, 0xd4ef3085, 0x04881d05, 0xd9d4d039, 0xe6db99e5, 0x1fa27cf8, 0xc4ac5665,
     0xf4292244, 0x432aff97, 0xab9423a7, 0xfc93a039, 0x655b59c3, 0x8f0ccc92, 0xffeff47d, 0x85845dd1,
     0x6fa87e4f, 0xfe2ce6e0, 0xa3014314, 0x4e0811a1, 0xf7537e82, 0xbd3af235, 0x2ad7d2bb, 0xeb86d391]"

definition rfc_step :: "byte list \<Rightarrow> md5_regs \<Rightarrow> nat \<Rightarrow> md5_regs" where
  "rfc_step x = (\<lambda>(a, b, c, d) i.
     (d, b + word_rotl (rfc_shift i) (a + rfc_fun i b c d + load_le x (rfc_index i) + rfc_T ! i), b, c))"

definition rfc_compress :: "md5_regs \<Rightarrow> byte list \<Rightarrow> md5_regs" where
  "rfc_compress st x = add_regs st (foldl (rfc_step x) st [0..<64])"

fun rfc_blocks :: "md5_regs \<Rightarrow> byte list \<Rightarrow> md5_regs" where
  "rfc_blocks st data =
     (if length data < 64 then st else rfc_blocks (rfc_compress st (take 64 data)) (drop 64 data))"

declare rfc_blocks.simps [simp del]

text \<open>The padding: a one bit, the fewest zeros that leave eight bytes in the last block, the size.\<close>

definition rfc_pad :: "byte list \<Rightarrow> byte list" where
  "rfc_pad msg = msg @ 0x80 # replicate ((119 - length msg mod 64) mod 64) 0 @
     size_bytes (of_nat (length msg) * 8)"

definition rfc_md5 :: "byte list \<Rightarrow> md5_regs" where
  "rfc_md5 msg = rfc_blocks md5_init (rfc_pad msg)"

subsection \<open>The code and the reference\<close>

lemma md5_f_rfc: "md5_f x y z = (x AND y) OR (NOT x AND z)"
  unfolding md5_f_def by (rule bit_word_eqI) (auto simp: bit_simps)

lemma md5_g_rfc: "md5_g x y z = (x AND z) OR (y AND NOT z)"
  unfolding md5_g_def by (rule bit_word_eqI) (auto simp: bit_simps)

lemma rotl_word_rotl:
  assumes "s < 32"
  shows "rotl x s = word_rotl s x"
proof (rule bit_word_eqI)
  fix n assume "n < LENGTH(32)"
  then have n: "n < 32" by simp
  have md: "(n + (32 - s)) mod 32 = (if s \<le> n then n - s else n + (32 - s))"
    using n assms by (auto simp: mod_if)
  have r: "bit (word_rotl s x) n \<longleftrightarrow> bit x (if s \<le> n then n - s else n + (32 - s))"
    unfolding bit_word_rotl_iff using n assms by (simp add: md [symmetric])
  have "\<not> bit x (32 - s + n)" if "s \<le> n"
    using that assms by (intro notI) (drule bit_imp_le_length, simp)
  then have "bit (rotl x s) n \<longleftrightarrow> bit x (if s \<le> n then n - s else 32 - s + n)"
    using n assms by (auto simp: rotl_def bit_or_iff bit_push_bit_iff bit_drop_bit_eq)
  then show "bit (rotl x s) n \<longleftrightarrow> bit (word_rotl s x) n" unfolding r by (simp only: add.commute)
qed

lemma rfc_params:
  assumes "i < 64"
  shows "md5_calls ! i = (rfc_fun i, rfc_index i, rfc_shift i, rfc_T ! i)" and "rfc_shift i < 32"
proof -
  have fn: "rfc_fun i = md5_f" if "i < 16" for i
    using that by (intro ext) (simp add: rfc_fun_def md5_f_rfc)
  have gn: "rfc_fun i = md5_g" if "16 \<le> i" "i < 32" for i
    using that by (intro ext) (simp add: rfc_fun_def md5_g_rfc)
  have hn: "rfc_fun i = md5_h" if "32 \<le> i" "i < 48" for i
    using that by (intro ext) (simp add: rfc_fun_def md5_h_def)
  have "n": "rfc_fun i = md5_ii" if "48 \<le> i" for i
    using that by (intro ext) (simp add: rfc_fun_def md5_ii_def)
  have "list_all (\<lambda>i. md5_calls ! i = (rfc_fun i, rfc_index i, rfc_shift i, rfc_T ! i) \<and> rfc_shift i < 32) [0..<64]"
    by (simp add: upt_conv_Cons md5_calls_def rfc_T_def rfc_index_def rfc_shift_def fn gn hn "n")
  with assms show "md5_calls ! i = (rfc_fun i, rfc_index i, rfc_shift i, rfc_T ! i)" and "rfc_shift i < 32"
    by (auto simp: list_all_iff)
qed

lemma length_md5_calls: "length md5_calls = 64"
  by (simp add: md5_calls_def)

lemma md5_block_rfc: "md5_block st x = rfc_compress st x"
proof -
  have "foldl (md5_round x) st (map (\<lambda>i. md5_calls ! i) [0..<64]) = foldl (rfc_step x) st [0..<64]"
    unfolding foldl_map
  proof (rule foldl_cong [OF refl refl])
    fix st i assume "i \<in> set [0..<64 :: nat]"
    then show "md5_round x st (md5_calls ! i) = rfc_step x st i"
      by (cases st) (simp add: md5_round_def rfc_step_def rfc_params rotl_word_rotl)
  qed
  moreover have "map (\<lambda>i. md5_calls ! i) [0..<64] = md5_calls"
    using map_nth [of md5_calls] by (simp add: length_md5_calls)
  ultimately show ?thesis by (simp add: md5_block_def rfc_compress_def)
qed

lemma blocks_rfc: "blocks st data = rfc_blocks st data"
proof (induction st data rule: rfc_blocks.induct)
  case (1 st data)
  show ?case
  proof (cases "length data < 64")
    case True
    then show ?thesis by (simp add: blocks_def rfc_blocks.simps [of st data])
  next
    case False
    then have "64 dvd length (take 64 data)" by simp
    from blocks_append [OF this, of st "drop 64 data"]
    have "blocks st data = blocks (blocks st (take 64 data)) (drop 64 data)" by simp
    moreover have "blocks st (take 64 data) = rfc_compress st (take 64 data)"
      using False by (simp add: blocks_def md5_block_rfc)
    ultimately show ?thesis using 1 False by (simp add: rfc_blocks.simps [of st data])
  qed
qed

lemma md5_of_chunks_eq:
  "\<exists>h. md5_of_chunks cs = Some h \<and>
     m5_state h = rfc_blocks md5_init (concat cs @ padding (length (concat cs)))"
proof -
  obtain h where h: "addData_all MD5 cs = Some h" "represents h (concat cs)"
    using addData_all_represents [OF represents_MD5, of cs] by auto
  with finalize_represents [OF h(2)] show ?thesis by (auto simp: md5_of_chunks_def blocks_rfc)
qed

text \<open>The zeros of the code and of the reference.\<close>

lemma zeros:
  "64 - (n mod 64 + 9) mod 64 = (if n mod 64 = 55 then 64 else (119 - n mod 64) mod (64 :: nat))"
proof -
  define r where "r = n mod 64"
  have "64 - (r + 9) mod 64 = (if r = 55 then 64 else (119 - r) mod (64 :: nat))" if "r < 64"
  proof (cases "r < 55")
    case True
    then have "119 - r = 64 + (55 - r)" by simp
    then have "(119 - r) mod 64 = 55 - r" using True by (simp only: mod_add_self1) simp
    with True show ?thesis by simp
  next
    case False
    with that have "(r + 9) mod 64 = r - 55" by (simp add: mod_if)
    with False that show ?thesis by auto
  qed
  then show ?thesis by (simp add: r_def)
qed

lemma padding_rfc: "length msg mod 64 \<noteq> 55 \<Longrightarrow> msg @ padding (length msg) = rfc_pad msg"
  by (simp add: padding_def rfc_pad_def zeros)

subsection \<open>Examples\<close>

lemmas md5_eval = md5_block_def md5_calls_def md5_round_def load_le_def md5_f_def md5_g_def md5_h_def
  md5_ii_def rotl_def md5_init_def add_regs_def

lemma size_bytes_24: "size_bytes 24 = [24, 0, 0, 0, 0, 0, 0, 0]"
  by (simp add: size_bytes_def ror_byte_def upt_conv_Cons)

lemma size_bytes_440: "size_bytes 440 = [184, 1, 0, 0, 0, 0, 0, 0]"
  by (simp add: size_bytes_def ror_byte_def upt_conv_Cons)

lemma md5_block_abc:
  "md5_block md5_init [97, 98, 99, 128, 0, 0, 0, 0, 0, 0, 0, 0, 0, 0, 0, 0, 0, 0, 0, 0, 0, 0, 0, 0, 0, 0, 0, 0,
       0, 0, 0, 0, 0, 0, 0, 0, 0, 0, 0, 0, 0, 0, 0, 0, 0, 0, 0, 0, 0, 0, 0, 0, 0, 0, 0, 0, 24, 0,
       0, 0, 0, 0, 0, 0] =
     (0x98500190, 0xb04fd23c, 0x7d3f96d6, 0x727fe128)"
  by (simp add: md5_eval)

text \<open>A message of 55 zero bytes: the block of the reference, then the two blocks of the code.\<close>

lemma md5_block_ref:
  "md5_block md5_init [0, 0, 0, 0, 0, 0, 0, 0, 0, 0, 0, 0, 0, 0, 0, 0, 0, 0, 0, 0, 0, 0, 0, 0, 0, 0, 0, 0, 0, 0,
       0, 0, 0, 0, 0, 0, 0, 0, 0, 0, 0, 0, 0, 0, 0, 0, 0, 0, 0, 0, 0, 0, 0, 0, 0, 128, 184, 1, 0,
       0, 0, 0, 0, 0] =
     (0x1433eac9, 0xd49f1cb9, 0x32948fe3, 0xf2d14f06)"
  by (simp add: md5_eval)

lemma md5_block_code1:
  "md5_block md5_init [0, 0, 0, 0, 0, 0, 0, 0, 0, 0, 0, 0, 0, 0, 0, 0, 0, 0, 0, 0, 0, 0, 0, 0, 0, 0, 0, 0, 0, 0,
       0, 0, 0, 0, 0, 0, 0, 0, 0, 0, 0, 0, 0, 0, 0, 0, 0, 0, 0, 0, 0, 0, 0, 0, 0, 128, 0, 0, 0,
       0, 0, 0, 0, 0] =
     (0x9b1d4889, 0x7117cdd4, 0x39942573, 0x08609d5f)"
  by (simp add: md5_eval)

lemma md5_block_code2:
  "md5_block (0x9b1d4889, 0x7117cdd4, 0x39942573, 0x08609d5f)
      [0, 0, 0, 0, 0, 0, 0, 0, 0, 0, 0, 0, 0, 0, 0, 0, 0, 0, 0, 0, 0, 0, 0, 0, 0, 0, 0, 0, 0, 0,
       0, 0, 0, 0, 0, 0, 0, 0, 0, 0, 0, 0, 0, 0, 0, 0, 0, 0, 0, 0, 0, 0, 0, 0, 0, 0, 184, 1, 0,
       0, 0, 0, 0, 0] =
     (0x017880d1, 0xcf33f084, 0x1cdfa00d, 0x50b6745a)"
  by (simp add: md5_eval)

lemma rfc_blocks_one: "length x = 64 \<Longrightarrow> rfc_blocks st x = md5_block st x"
  by (simp add: rfc_blocks.simps [of st x] rfc_blocks.simps [of _ "[]"] md5_block_rfc)

lemma rfc_blocks_Cons: "length x = 64 \<Longrightarrow> rfc_blocks st (x @ y) = rfc_blocks (md5_block st x) y"
  by (simp add: rfc_blocks.simps [of st "x @ y"] md5_block_rfc)

subsection \<open>Properties\<close>

text \<open>
  Hashing is incremental: however the bytes of a file are cut into the chunks given to \<open>addData\<close>,
  empty ones included, every call stays within the buffer of 128 bytes and the digest is the one of
  the whole file given at once.
\<close>

theorem md5_streaming:
  "\<exists>h h'. md5_of_chunks cs = Some h \<and> md5_of_chunks [concat cs] = Some h' \<and> toArray h = toArray h'"
  using md5_of_chunks_eq [of cs] md5_of_chunks_eq [of "[concat cs]"] by (auto simp: toArray_def)

text \<open>
  C24. The optimised compression and the incremental padding compute the MD5 of RFC 1321: for every
  message whose length is not 55 modulo 64, in any chunks, the state after \<open>finalize\<close> is the one
  the reference computes from the padded message.
\<close>

theorem md5_is_rfc1321:
  assumes "length (concat cs) mod 64 \<noteq> 55"
  shows "returns (md5_of_chunks cs) (\<lambda>h. m5_state h = rfc_md5 (concat cs))"
  using md5_of_chunks_eq [of cs] assms by (auto simp: returns_def rfc_md5_def padding_rfc)

theorem md5_is_rfc1321_witness:
  "returns (md5_of_chunks [[0x61, 0x62], [], [0x63]])
     (\<lambda>h. m5_state h = (0x98500190, 0xb04fd23c, 0x7d3f96d6, 0x727fe128) \<and>
        md5_toString h = ''900150983cd24fb0d6963f7d28e17f72'')"
proof -
  have zs: "replicate 52 (0 :: byte) = [0, 0, 0, 0, 0, 0, 0, 0, 0, 0, 0, 0, 0, 0, 0, 0, 0, 0, 0, 0, 0, 0, 0, 0, 0, 0, 0, 0, 0, 0,
       0, 0, 0, 0, 0, 0, 0, 0, 0, 0, 0, 0, 0, 0, 0, 0, 0, 0, 0, 0, 0, 0]"
    by (simp add: eval_nat_numeral)
  have "rfc_pad [0x61, 0x62, 0x63] = [97, 98, 99, 128, 0, 0, 0, 0, 0, 0, 0, 0, 0, 0, 0, 0, 0, 0, 0, 0, 0, 0, 0, 0, 0, 0, 0, 0,
       0, 0, 0, 0, 0, 0, 0, 0, 0, 0, 0, 0, 0, 0, 0, 0, 0, 0, 0, 0, 0, 0, 0, 0, 0, 0, 0, 0, 24, 0,
       0, 0, 0, 0, 0, 0]"
    by (simp add: rfc_pad_def zs size_bytes_24)
  then have "rfc_md5 [0x61, 0x62, 0x63] = (0x98500190, 0xb04fd23c, 0x7d3f96d6, 0x727fe128)"
    by (simp add: rfc_md5_def rfc_blocks_one md5_block_abc)
  moreover have "md5_toString h = ''900150983cd24fb0d6963f7d28e17f72''"
    if "m5_state h = (0x98500190, 0xb04fd23c, 0x7d3f96d6, 0x727fe128)" for h :: md5
    using that by (simp add: md5_toString_def toArray_def ror_byte_def hex_char_def upt_conv_Cons char_of_def bit_Suc_0_iff)
  ultimately show ?thesis
    using md5_is_rfc1321 [of "[[0x61, 0x62], [], [0x63]]"] by (auto elim!: returns_mono)
qed

text \<open>
  A message of 55 bytes modulo 64 is padded wrongly: the code adds 64 zero bytes where none is
  needed and compresses one block more than RFC 1321, so its digest of 55 zero bytes is not the MD5 of
  that message.
\<close>

theorem md5_wrong_at_55:
  "length (msg @ padding (length msg)) = length (rfc_pad msg) + (if length msg mod 64 = 55 then 64 else 0) \<and>
   returns (md5_of_chunks [replicate 55 0]) (\<lambda>h. m5_state h \<noteq> rfc_md5 (replicate 55 0))"
proof
  show "length (msg @ padding (length msg)) = length (rfc_pad msg) + (if length msg mod 64 = 55 then 64 else 0)"
    by (simp add: padding_def rfc_pad_def zeros)
  let ?m = "replicate 55 0 :: byte list"
  have z: "?m = [0, 0, 0, 0, 0, 0, 0, 0, 0, 0, 0, 0, 0, 0, 0, 0, 0, 0, 0, 0, 0, 0, 0, 0, 0, 0, 0, 0, 0, 0,
       0, 0, 0, 0, 0, 0, 0, 0, 0, 0, 0, 0, 0, 0, 0, 0, 0, 0, 0, 0, 0, 0, 0, 0, 0]" by (simp add: eval_nat_numeral)
  have z64: "replicate 64 (0 :: byte) = [0, 0, 0, 0, 0, 0, 0, 0, 0, 0, 0, 0, 0, 0, 0, 0, 0, 0, 0, 0, 0, 0, 0, 0, 0, 0, 0, 0, 0, 0,
       0, 0, 0, 0, 0, 0, 0, 0, 0, 0, 0, 0, 0, 0, 0, 0, 0, 0, 0, 0, 0, 0, 0, 0, 0, 0, 0, 0, 0, 0,
       0, 0, 0, 0]" by (simp add: eval_nat_numeral)
  have "rfc_pad ?m = [0, 0, 0, 0, 0, 0, 0, 0, 0, 0, 0, 0, 0, 0, 0, 0, 0, 0, 0, 0, 0, 0, 0, 0, 0, 0, 0, 0, 0, 0,
       0, 0, 0, 0, 0, 0, 0, 0, 0, 0, 0, 0, 0, 0, 0, 0, 0, 0, 0, 0, 0, 0, 0, 0, 0, 128, 184, 1, 0,
       0, 0, 0, 0, 0]"
    unfolding rfc_pad_def by (simp add: size_bytes_440) (simp add: z)
  then have "rfc_md5 ?m = (0x1433eac9, 0xd49f1cb9, 0x32948fe3, 0xf2d14f06)"
    by (simp add: rfc_md5_def rfc_blocks_one md5_block_ref)
  moreover have "?m @ padding (length ?m) =
      [0, 0, 0, 0, 0, 0, 0, 0, 0, 0, 0, 0, 0, 0, 0, 0, 0, 0, 0, 0, 0, 0, 0, 0, 0, 0, 0, 0, 0, 0,
       0, 0, 0, 0, 0, 0, 0, 0, 0, 0, 0, 0, 0, 0, 0, 0, 0, 0, 0, 0, 0, 0, 0, 0, 0, 128, 0, 0, 0,
       0, 0, 0, 0, 0] @
      [0, 0, 0, 0, 0, 0, 0, 0, 0, 0, 0, 0, 0, 0, 0, 0, 0, 0, 0, 0, 0, 0, 0, 0, 0, 0, 0, 0, 0, 0,
       0, 0, 0, 0, 0, 0, 0, 0, 0, 0, 0, 0, 0, 0, 0, 0, 0, 0, 0, 0, 0, 0, 0, 0, 0, 0, 184, 1, 0,
       0, 0, 0, 0, 0]"
    unfolding padding_def by (simp add: size_bytes_440) (simp add: z z64)
  then have "rfc_blocks md5_init (?m @ padding (length ?m)) = (0x017880d1, 0xcf33f084, 0x1cdfa00d, 0x50b6745a)"
    by (simp add: rfc_blocks_Cons rfc_blocks_one md5_block_code1 md5_block_code2 del: append_Cons)
  ultimately show "returns (md5_of_chunks [?m]) (\<lambda>h. m5_state h \<noteq> rfc_md5 ?m)"
    using md5_of_chunks_eq [of "[?m]"] by (auto simp: returns_def)
qed

end
