(* ===== verification/FileShare.thy ===== *)
theory FileShare
  imports Md5 DaeSocket
begin

text \<open>
  The file sharing application (src/app/filesharing): FileTask, which puts the blocks of a download in order,
  and FileService, which registers files under their MD5, tells where they are and serves their
  blocks. Messages are the structures the code overlays on its buffers. A blocking or endless loop
  is \<open>None\<close>.
\<close>

subsection \<open>Messages\<close>

record uint128 =
  u_h :: u64
  u_l :: u64

definition uint128_less :: "uint128 \<Rightarrow> uint128 \<Rightarrow> bool" where
  "uint128_less left right = (if u_h left \<noteq> u_h right then u_h left < u_h right else u_l left < u_l right)"







definition sizeof_FileContent :: nat where "sizeof_FileContent = 40"

subsection \<open>FileTask\<close>

record file_block =
  fb_idx :: int
  fb_size :: int
  fb_buf :: "byte list"

record file_task =
  ft_md5 :: uint128
  ft_len :: int
  ft_cur_seq_id :: int
  ft_cur_recv_len :: int
  ft_un_appended :: "file_block list"

definition FileTask :: "uint128 \<Rightarrow> int \<Rightarrow> file_task" where
  "FileTask md5 len = \<lparr>ft_md5 = md5, ft_len = len, ft_cur_seq_id = 0, ft_cur_recv_len = 0, ft_un_appended = []\<rparr>"

text \<open>The priority queue is kept in the order in which \<open>top\<close> gives its elements, that is by index; the
  comparison of the source is the inverse one, which makes the smallest index the top.\<close>

definition block_less :: "file_block \<Rightarrow> file_block \<Rightarrow> bool" where
  "block_less left right = (fb_idx left > fb_idx right)"

fun pq_push :: "file_block \<Rightarrow> file_block list \<Rightarrow> file_block list" where
  "pq_push b [] = [b]"
| "pq_push b (x # xs) = (if block_less x b then b # x # xs else x # pq_push b xs)"

text \<open>The loop over the waiting blocks. A block before the current position is neither removed nor
  skipped, so the loop does not end.\<close>

partial_function (option) drain :: "int \<Rightarrow> file_block list \<Rightarrow> (int \<times> file_block list) option" where
  "drain cur q = (case q of
       [] \<Rightarrow> Some (cur, [])
     | b # bs \<Rightarrow>
         if fb_idx b = cur then do { cur' \<leftarrow> c_long (cur + fb_size b); drain cur' bs }
         else if fb_idx b < cur then drain cur q
         else Some (cur, q))"

text \<open>The index and the size of a block are of type \<open>int\<close>, the positions of type \<open>long\<close>.\<close>

definition append_data_block :: "file_task \<Rightarrow> u32 \<Rightarrow> u32 \<Rightarrow> byte list \<Rightarrow> file_task option" where
  "append_data_block t idx sz buf = do {
     received \<leftarrow> c_long (ft_cur_recv_len t + sint sz);
     let t1 = t\<lparr>ft_cur_recv_len := received\<rparr>;
     if sint idx = ft_cur_seq_id t1
     then do {
       pos \<leftarrow> c_long (ft_cur_seq_id t1 + sint sz);
       (cur, q) \<leftarrow> drain pos (ft_un_appended t1);
       Some (t1\<lparr>ft_cur_seq_id := cur, ft_un_appended := q\<rparr>) }
     else do {
       buff \<leftarrow> memcpy_into (replicate (nat (sint sz)) 0) buf (sint sz);
       Some (t1\<lparr>ft_un_appended :=
         pq_push \<lparr>fb_idx = sint idx, fb_size = sint sz, fb_buf = buff\<rparr> (ft_un_appended t1)\<rparr>) } }"

definition check_fin :: "file_task \<Rightarrow> bool" where
  "check_fin t = (ft_cur_seq_id t = ft_len t)"

text \<open>Blocks one after the other: an offset and the bytes at it, which a caller passes as an \<open>int\<close>, cut off to 32
  bits, and with their number.\<close>

fun append_all :: "file_task \<Rightarrow> (int \<times> byte list) list \<Rightarrow> file_task option" where
  "append_all t [] = Some t"
| "append_all t ((idx, d) # bs) = do {
     t' \<leftarrow> append_data_block t (word_of_int idx) (of_nat (length d)) d;
     append_all t' bs }"

subsection \<open>FileService\<close>





definition content_cap :: nat where "content_cap = 1300"





text \<open>The upload: the file is read in pieces of 1500 bytes, hashed, shared under its MD5 and announced to
  the node the hash names. The result is the service, the key of that node and the announcement.\<close>

function pieces :: "nat \<Rightarrow> byte list \<Rightarrow> byte list list" where
  "pieces k data = (if k = 0 \<or> data = [] then [] else take k data # pieces k (drop k data))"
  by auto
termination
  by (relation "measure (\<lambda>(k, data). length data)") auto

declare pieces.simps [simp del]




subsection \<open>Pieces of a file\<close>

text \<open>The blocks of a file with their offsets.\<close>

fun offsets :: "int \<Rightarrow> byte list list \<Rightarrow> (int \<times> byte list) list" where
  "offsets i [] = []"
| "offsets i (d # ds) = (i, d) # offsets (i + int (length d)) ds"

abbreviation total :: "byte list list \<Rightarrow> int" where
  "total ds \<equiv> int (length (concat ds))"

lemma offsets_ge: "(j, d) \<in> set (offsets i ds) \<Longrightarrow> i \<le> j"
  by (induction ds arbitrary: i) fastforce+

lemma offsets_le: "(j, d) \<in> set (offsets i ds) \<Longrightarrow> j + int (length d) \<le> i + total ds"
proof (induction ds arbitrary: i)
  case (Cons e es)
  then show ?case using Cons.IH [of "i + int (length e)"] by (auto simp: add.assoc)
qed simp

lemma map_snd_offsets [simp]: "map snd (offsets i ds) = ds"
  by (induction ds arbitrary: i) auto

lemma offsets_head:
  assumes "(i, d) \<in># mset (offsets i ds)" "[] \<notin> set ds"
  shows "\<exists>ds'. ds = d # ds'"
proof (cases ds)
  case (Cons e es)
  have "(i, d) \<notin> set (offsets (i + int (length e)) es)"
    using offsets_ge [of i d "i + int (length e)" es] assms(2) Cons by auto
  with assms(1) Cons show ?thesis by auto
qed (use assms in auto)

lemma concat_pieces: "0 < k \<Longrightarrow> concat (pieces k data) = data"
  by (induction k data rule: pieces.induct) (subst pieces.simps, simp)

lemma pieces_nonempty: "[] \<notin> set (pieces k data)"
  by (induction k data rule: pieces.induct) (subst pieces.simps, auto)


subsection \<open>Putting blocks in order\<close>

lemma drain_Nil [simp]: "drain cur [] = Some (cur, [])"
  by (subst drain.simps) simp

lemma drain_here:
  "fb_idx b = cur \<Longrightarrow> - (2 ^ 63) \<le> cur + fb_size b \<Longrightarrow> cur + fb_size b < 2 ^ 63 \<Longrightarrow>
     drain cur (b # bs) = drain (cur + fb_size b) bs"
  by (subst drain.simps) (simp add: c_long_def)

lemma drain_gap: "cur < fb_idx b \<Longrightarrow> drain cur (b # bs) = Some (cur, b # bs)"
  by (subst drain.simps) simp

text \<open>The loop has no result when the first block lies before the current position.\<close>

lemma drain_late:
  assumes "fb_idx b < cur"
  shows "drain cur (b # bs) = None"
proof -
  have "drain cur q = Some r \<Longrightarrow> (\<forall>b bs. q = b # bs \<longrightarrow> \<not> fb_idx b < cur)" for cur q r
    by (erule drain.raw_induct [rotated]) (fastforce split: list.splits if_splits bind_splits)
  with assms show ?thesis by (metis not_None_eq)
qed

abbreviation block_key :: "file_block \<Rightarrow> int \<times> byte list" where
  "block_key b \<equiv> (fb_idx b, fb_buf b)"

definition waiting :: "file_block list \<Rightarrow> bool" where
  "waiting q \<longleftrightarrow> sorted (map fb_idx q) \<and> list_all (\<lambda>b. fb_size b = int (length (fb_buf b))) q"

lemma mset_pq_push [simp]: "mset (pq_push b q) = add_mset b (mset q)"
  by (induction q) auto

lemma set_pq_push [simp]: "set (pq_push b q) = insert b (set q)"
  by (induction q) auto

lemma waiting_push: "waiting q \<Longrightarrow> fb_size b = int (length (fb_buf b)) \<Longrightarrow> waiting (pq_push b q)"
  by (induction q) (auto simp: waiting_def block_less_def list_all_iff)

lemma pq_push_head: "\<exists>x xs. pq_push b q = x # xs \<and> fb_idx x \<le> fb_idx b"
  by (cases q) (auto simp: block_less_def)

text \<open>
  The blocks still to come and those in the queue are always the rest of the file from the current
  position on.
\<close>

lemma drain_rest:
  assumes "waiting q" "X + mset (map block_key q) = mset (offsets cur ds)" "[] \<notin> set ds" "0 \<le> cur" "cur + total ds < 2 ^ 63"
  shows "\<exists>cur' q' ds'. drain cur q = Some (cur', q') \<and> waiting q' \<and> [] \<notin> set ds' \<and>
    X + mset (map block_key q') = mset (offsets cur' ds') \<and> (\<forall>b \<in> set q'. cur' < fb_idx b) \<and>
    cur' + total ds' = cur + total ds \<and> cur \<le> cur'"
  using assms
proof (induction q arbitrary: cur ds)
  case Nil
  then show ?case by auto
next
  case (Cons b q)
  have mem: "block_key b \<in># mset (offsets cur ds)"
    unfolding Cons.prems(2) [symmetric] by simp
  then have ge: "cur \<le> fb_idx b" using offsets_ge [of "fb_idx b" "fb_buf b" cur ds] by simp
  show ?case
  proof (cases "fb_idx b = cur")
    case True
    with mem Cons.prems(3) obtain ds' where ds: "ds = fb_buf b # ds'"
      using offsets_head [of cur "fb_buf b" ds] by auto
    have sz: "fb_size b = int (length (fb_buf b))" and w: "waiting q"
      using Cons.prems(1) by (auto simp: waiting_def)
    have "X + mset (map block_key q) = mset (offsets (cur + fb_size b) ds')" using Cons.prems(2) ds True sz by simp
    then obtain cur' q' ds'' where r: "drain (cur + fb_size b) q = Some (cur', q')" "waiting q'" "[] \<notin> set ds''"
      "X + mset (map block_key q') = mset (offsets cur' ds'')" "\<forall>b \<in> set q'. cur' < fb_idx b"
      "cur' + total ds'' = cur + fb_size b + total ds'" "cur + fb_size b \<le> cur'"
      using Cons.IH [OF w, of "cur + fb_size b" ds'] Cons.prems(3-5) ds sz by auto
    have "drain cur (b # q) = drain (cur + fb_size b) q" using drain_here [OF True, of q] Cons.prems(4,5) ds sz by simp
    then show ?thesis using r ds sz by (intro exI [of _ cur'] exI [of _ q'] exI [of _ ds'']) simp
  next
    case False
    with ge have "\<forall>x \<in> set (b # q). cur < fb_idx x" using Cons.prems(1) by (auto simp: waiting_def)
    with False ge Cons.prems show ?thesis by (intro exI [of _ cur] exI [of _ "b # q"] exI [of _ ds]) (simp add: drain_gap)
  qed
qed

lemma memcpy_whole: "memcpy_into (replicate (length d) 0) d (int (length d)) = Some d"
  by (simp add: memcpy_into_def)

lemma sint_u32: "0 \<le> i \<Longrightarrow> i < 2 ^ 31 \<Longrightarrow> sint (word_of_int i :: u32) = i"
  by (simp add: sint_uint unsigned_of_int take_bit_int_eq_self signed_take_bit_int_eq_self)

lemma sint_u32_nat: "int n < 2 ^ 31 \<Longrightarrow> sint (of_nat n :: u32) = int n"
  using sint_u32 [of "int n"] by simp

text \<open>A block whose index and size fit an \<open>int\<close>, at the current position and elsewhere.\<close>

lemma append_here:
  assumes "ft_cur_seq_id t = i" "0 \<le> i" "i + int (length d) < 2 ^ 31"
    "0 \<le> ft_cur_recv_len t" "ft_cur_recv_len t + int (length d) < 2 ^ 63"
  shows "append_data_block t (word_of_int i) (of_nat (length d)) d = do {
    (cur, q) \<leftarrow> drain (i + int (length d)) (ft_un_appended t);
    Some (t\<lparr>ft_cur_recv_len := ft_cur_recv_len t + int (length d), ft_cur_seq_id := cur, ft_un_appended := q\<rparr>) }"
proof -
  have "sint (word_of_int i :: u32) = i" "sint (of_nat (length d) :: u32) = int (length d)"
    using sint_u32 [of i] sint_u32_nat [of "length d"] assms by auto
  then show ?thesis using assms by (simp add: append_data_block_def c_long_def)
qed

lemma append_elsewhere:
  assumes "ft_cur_seq_id t \<noteq> i" "0 \<le> i" "i < 2 ^ 31" "int (length d) < 2 ^ 31"
    "0 \<le> ft_cur_recv_len t" "ft_cur_recv_len t + int (length d) < 2 ^ 63"
  shows "append_data_block t (word_of_int i) (of_nat (length d)) d =
    Some (t\<lparr>ft_cur_recv_len := ft_cur_recv_len t + int (length d), ft_un_appended :=
      pq_push \<lparr>fb_idx = i, fb_size = int (length d), fb_buf = d\<rparr> (ft_un_appended t)\<rparr>)"
proof -
  have "sint (word_of_int i :: u32) = i" "sint (of_nat (length d) :: u32) = int (length d)"
    using sint_u32 [of i] sint_u32_nat [of "length d"] assms by auto
  then show ?thesis using assms by (simp add: append_data_block_def c_long_def memcpy_whole)
qed

lemma append_all_rest:
  assumes "waiting (ft_un_appended t)" "\<forall>b \<in> set (ft_un_appended t). ft_cur_seq_id t < fb_idx b"
    "mset bs + mset (map block_key (ft_un_appended t)) = mset (offsets (ft_cur_seq_id t) ds)" "[] \<notin> set ds"
    "0 \<le> ft_cur_seq_id t" "ft_cur_seq_id t + total ds < 2 ^ 31"
    "0 \<le> ft_cur_recv_len t" "ft_cur_recv_len t + total (map snd bs) < 2 ^ 63"
  shows "\<exists>t'. append_all t bs = Some t' \<and> ft_un_appended t' = [] \<and> ft_len t' = ft_len t \<and>
    ft_cur_seq_id t' = ft_cur_seq_id t + total ds \<and>
    ft_cur_recv_len t' = ft_cur_recv_len t + total (map snd bs)"
  using assms
proof (induction bs arbitrary: t ds)
  case Nil
  have "ds = []"
  proof (rule ccontr)
    assume "ds \<noteq> []"
    then obtain e es where "ds = e # es" by (cases ds) auto
    then have "(ft_cur_seq_id t, e) \<in># mset (map block_key (ft_un_appended t))" using Nil.prems(3) by simp
    with Nil.prems(2) show False by auto
  qed
  with Nil.prems(3) show ?case by simp
next
  case (Cons x bs)
  obtain i d where x: "x = (i, d)" by (cases x)
  let ?cur = "ft_cur_seq_id t" and ?q = "ft_un_appended t"
  let ?r = "ft_cur_recv_len t + int (length d)"
  let ?t1 = "t\<lparr>ft_cur_recv_len := ?r\<rparr>"
  have mem: "(i, d) \<in># mset (offsets ?cur ds)" unfolding Cons.prems(3) [symmetric] x by simp
  then have b: "?cur \<le> i" "i + int (length d) \<le> ?cur + total ds"
    using offsets_ge [of i d ?cur ds] offsets_le [of i d ?cur ds] by auto
  have r: "?r + total (map snd bs) < 2 ^ 63" using Cons.prems(8) x by simp
  show ?case
  proof (cases "i = ?cur")
    case True
    with mem Cons.prems(4) obtain ds' where ds: "ds = d # ds'"
      using offsets_head [of ?cur d ds] by auto
    have mb: "mset bs + mset (map block_key ?q) = mset (offsets (?cur + int (length d)) ds')"
      using Cons.prems(3) x True ds by simp
    obtain cur' q' ds'' where dr: "drain (?cur + int (length d)) ?q = Some (cur', q')" "waiting q'"
        "[] \<notin> set ds''" "mset bs + mset (map block_key q') = mset (offsets cur' ds'')"
        "\<forall>b \<in> set q'. cur' < fb_idx b" "cur' + total ds'' = ?cur + int (length d) + total ds'" "?cur + int (length d) \<le> cur'"
      using drain_rest [OF Cons.prems(1) mb] Cons.prems(4-6) ds by auto
    have "append_data_block t (word_of_int i) (of_nat (length d)) d =
        Some (?t1\<lparr>ft_cur_seq_id := cur', ft_un_appended := q'\<rparr>)"
      using append_here [of t i d] True b Cons.prems(5-7) r dr(1) by simp
    then show ?thesis
      using Cons.IH [of "?t1\<lparr>ft_cur_seq_id := cur', ft_un_appended := q'\<rparr>" ds''] dr x ds Cons.prems(5-7) r
      by (auto simp: algebra_simps)
  next
    case False
    let ?b = "\<lparr>fb_idx = i, fb_size = int (length d), fb_buf = d\<rparr>"
    have gt: "?cur < i" using b(1) False by simp
    have "append_data_block t (word_of_int i) (of_nat (length d)) d = Some (?t1\<lparr>ft_un_appended := pq_push ?b ?q\<rparr>)"
      using append_elsewhere [of t i d] False b Cons.prems(5-7) r by simp
    then show ?thesis
      using Cons.IH [of "?t1\<lparr>ft_un_appended := pq_push ?b ?q\<rparr>" ds] Cons.prems x gt r
      by (auto simp: waiting_push algebra_simps)
  qed
qed

subsection \<open>Properties\<close>






text \<open>
  C23. The blocks of a file of less than \<open>2 ^ 31\<close> bytes, however it is cut, may arrive in any order: \<open>append_data_block\<close>,
  which takes their offsets and sizes as \<open>int\<close>s, returns for each of them, and after the last one the file is complete,
  nothing is left waiting and the bytes received are counted.
\<close>

theorem blocks_in_any_order:
  assumes "concat ds = file" "[] \<notin> set ds" "length file < 2 ^ 31" "mset bs = mset (offsets 0 ds)"
  shows "returns (append_all (FileTask md5 (int (length file))) bs) (\<lambda>t.
    check_fin t \<and> ft_un_appended t = [] \<and> ft_cur_recv_len t = int (length file))"
proof -
  let ?t = "FileTask md5 (int (length file))"
  have "mset (map snd bs) = mset ds" using arg_cong [OF assms(4), of "image_mset snd"] by (simp flip: mset_map)
  then have "sum_list (map length (map snd bs)) = sum_list (map length ds)"
    by (metis mset_map sum_mset_sum_list)
  then have tot: "total (map snd bs) = total ds" by (simp only: length_concat)
  have "\<exists>t'. append_all ?t bs = Some t' \<and> ft_un_appended t' = [] \<and> ft_len t' = ft_len ?t \<and>
    ft_cur_seq_id t' = ft_cur_seq_id ?t + total ds \<and> ft_cur_recv_len t' = ft_cur_recv_len ?t + total (map snd bs)"
    using assms tot by (intro append_all_rest) (auto simp: FileTask_def waiting_def)
  then show ?thesis using tot assms(1) by (auto simp: FileTask_def check_fin_def returns_def)
qed

theorem blocks_in_any_order_witness:
  "returns (append_all (FileTask \<lparr>u_h = 0, u_l = 0\<rparr> 5) [(3, [4, 5]), (0, [1, 2]), (2, [3])]) (\<lambda>t.
     check_fin t \<and> ft_un_appended t = [] \<and> ft_cur_recv_len t = 5)"
proof -
  have "concat [[1, 2], [3], [4, 5]] = [1, 2, 3, 4, 5 :: byte]" "[] \<notin> set [[1, 2], [3], [4, 5 :: byte]]"
    "length [1, 2, 3, 4, 5 :: byte] < 2 ^ 31"
    "mset [(3, [4, 5]), (0, [1, 2]), (2, [3])] = mset (offsets 0 [[1, 2], [3], [4, 5 :: byte]])"
    by simp_all
  from blocks_in_any_order [OF this, of "\<lparr>u_h = 0, u_l = 0\<rparr>"] show ?thesis by simp
qed

text \<open>
  C28. A block that lies before the current position, a retransmitted one for instance, is put into the queue, and the
  next block in order never returns: the loop over the queue neither removes nor skips it. (All indices, sizes and
  counts are within the range of \<open>int\<close>.)
\<close>

theorem late_block_hangs:
  assumes "0 \<le> idx" "idx < ft_cur_seq_id t" "ft_cur_seq_id t + int (length e) < 2 ^ 31" "int (length d) < 2 ^ 31"
    "0 \<le> ft_cur_recv_len t" "ft_cur_recv_len t < 2 ^ 31"
  shows "returns (append_all t [(idx, d)]) (\<lambda>t'. ft_cur_seq_id t' = ft_cur_seq_id t) \<and>
    append_all t [(idx, d), (ft_cur_seq_id t, e)] = None"
proof -
  let ?b = "\<lparr>fb_idx = idx, fb_size = int (length d), fb_buf = d\<rparr>"
  let ?t1 = "t\<lparr>ft_cur_recv_len := ft_cur_recv_len t + int (length d), ft_un_appended := pq_push ?b (ft_un_appended t)\<rparr>"
  have t1: "append_data_block t (word_of_int idx) (of_nat (length d)) d = Some ?t1"
    using append_elsewhere [of t idx d] assms by simp
  obtain x :: file_block and xs where "pq_push ?b (ft_un_appended t) = x # xs" "fb_idx x \<le> idx"
    using pq_push_head [of ?b "ft_un_appended t"] by auto
  then have "drain (ft_cur_seq_id t + int (length e)) (pq_push ?b (ft_un_appended t)) = None"
    using assms(2) drain_late [of x "ft_cur_seq_id t + int (length e)" xs] by simp
  then show ?thesis using t1 append_here [of ?t1 "ft_cur_seq_id t" e] assms by simp
qed

theorem late_block_hangs_witness:
  "returns (append_all (FileTask \<lparr>u_h = 0, u_l = 0\<rparr> 9) [(0, [1, 2, 3])]) (\<lambda>t.
     ft_cur_seq_id t = 3 \<and> append_all t [(0, [1, 2, 3]), (3, [4, 5, 6])] = None)"
proof -
  define t where "t = (FileTask \<lparr>u_h = 0, u_l = 0\<rparr> 9)\<lparr>ft_cur_seq_id := 3, ft_cur_recv_len := 3\<rparr>"
  have "append_all (FileTask \<lparr>u_h = 0, u_l = 0\<rparr> 9) [(0, [1, 2, 3])] = Some t"
    using append_here [of "FileTask \<lparr>u_h = 0, u_l = 0\<rparr> 9" 0 "[1, 2, 3]"] by (simp add: FileTask_def t_def)
  then show ?thesis using late_block_hangs [of 0 t "[4, 5, 6]" "[1, 2, 3]"] by (simp add: t_def)
qed

lemma DAESocket_send_overflow: "int (length old) < n \<Longrightarrow> DAESocket_send old r s buf n = None"
  by (auto simp: DAESocket_send_def MsgDescriptor_def memcpy_into_def split: prod.splits)

text \<open>
  A file of more than 984 bytes starts with a block that, with its header, overruns the 1024 bytes of the
  message descriptor of \<open>DAESocket\<close>.
\<close>

lemma file_blocks_overflow:
  assumes "984 < length file" "length old = MAX_MTU"
  shows "DAESocket_send old r s buf (int (sizeof_FileContent + length (take content_cap file))) = None"
  using DAESocket_send_overflow [of old "int (sizeof_FileContent + length (take content_cap file))"] assms
  by (simp add: sizeof_FileContent_def MAX_MTU_def content_cap_def)

end
