(* ===== verification/Heaps.thy ===== *)
theory Heaps
  imports Queues "HOL-Library.Signed_Division"
begin

text \<open>
  The array heap of src/src/utils/Heap.hpp and its locked twin src/src/utils/ConcurrentHeap.hpp. The
  comparison of the elements is a parameter; the locale \<open>keyed\<close> is what its users promise of it, a
  comparison of keys of a linear order. Elements beyond \<open>n\<close> are whatever was left there. An access
  outside the array is \<open>None\<close>.
\<close>

subsection \<open>Operations\<close>

record 'a heap =
  hp_arr :: "'a list"
  hp_n :: nat

text \<open>\<open>init\<close> are the default-constructed elements of the new array.\<close>

definition Heap :: "'a list \<Rightarrow> 'a heap" where
  "Heap init = \<lparr>hp_arr = init, hp_n = 0\<rparr>"

definition heap_default_size :: nat where "heap_default_size = 8192"

text \<open>The loop of \<open>insert\<close>: the father of an index is its half.\<close>

fun heap_up :: "('a \<Rightarrow> 'a \<Rightarrow> bool) \<Rightarrow> 'a \<Rightarrow> 'a list \<Rightarrow> nat \<Rightarrow> 'a list" where
  "heap_up lt t arr index =
     (if 0 < index \<and> lt t (arr ! (index div 2))
      then heap_up lt t (arr[index := arr ! (index div 2)]) (index div 2)
      else arr[index := t])"

declare heap_up.simps [simp del]

text \<open>Whatever the loop does, position \<open>n\<close> is written first.\<close>

definition heap_insert :: "('a \<Rightarrow> 'a \<Rightarrow> bool) \<Rightarrow> 'a heap \<Rightarrow> 'a \<Rightarrow> 'a heap option" where
  "heap_insert lt h t =
     (if hp_n h < length (hp_arr h)
      then Some \<lparr>hp_arr = heap_up lt t (hp_arr h) (hp_n h), hp_n = hp_n h + 1\<rparr> else None)"

text \<open>The loop of \<open>pop_heap\<close>: the children of an index are \<open>2 * index + 1\<close> and \<open>2 * index + 2\<close>.\<close>

function heap_down :: "('a \<Rightarrow> 'a \<Rightarrow> bool) \<Rightarrow> 'a \<Rightarrow> nat \<Rightarrow> 'a list \<Rightarrow> nat \<Rightarrow> 'a list" where
  "heap_down lt lst n arr index =
     (let left = index * 2 + 1; right = index * 2 + 2
      in if index < n \<and> left < n \<and> (n \<le> right \<or> lt (arr ! left) (arr ! right)) \<and> lt (arr ! left) lst
         then heap_down lt lst n (arr[index := arr ! left]) left
         else if index < n \<and> right < n \<and> lt (arr ! right) lst
         then heap_down lt lst n (arr[index := arr ! right]) right
         else arr[index := lst])"
  by auto
termination
  by (relation "measure (\<lambda>(lt, lst, n, arr, index). n - index)") auto

declare heap_down.simps [simp del]

text \<open>The element the queue returns and the queue. An empty queue gives what lies at position 0.\<close>

definition pop_heap :: "('a \<Rightarrow> 'a \<Rightarrow> bool) \<Rightarrow> 'a heap \<Rightarrow> ('a \<times> 'a heap) option" where
  "pop_heap lt h = do {
     t \<leftarrow> arr_get (hp_arr h) 0;
     Some (if 0 < hp_n h
       then (t, \<lparr>hp_arr = heap_down lt (hp_arr h ! (hp_n h - 1)) (hp_n h - 1) (hp_arr h) 0, hp_n = hp_n h - 1\<rparr>)
       else (t, h)) }"

definition heap_front :: "'a heap \<Rightarrow> 'a option" where
  "heap_front h = arr_get (hp_arr h) 0"

definition heap_size :: "'a heap \<Rightarrow> nat" where
  "heap_size h = hp_n h"

text \<open>\<open>operator[]\<close> takes the remainder of C, which has the sign of the index.\<close>

definition heap_index :: "'a heap \<Rightarrow> int \<Rightarrow> int option" where
  "heap_index h index =
     (if hp_n h = 0 then None
      else let i = index smod int (hp_n h)
           in if 0 \<le> i \<and> i < int (length (hp_arr h)) then Some i else None)"

definition heap_at :: "'a heap \<Rightarrow> int \<Rightarrow> 'a option" where
  "heap_at h index = do { i \<leftarrow> heap_index h index; arr_get (hp_arr h) i }"

text \<open>The locked heap: each of \<open>insert\<close> and \<open>pop_heap\<close> is one step under the mutex.\<close>

definition ConcurrentHeap :: "'a list \<Rightarrow> 'a heap" where
  "ConcurrentHeap init = \<lparr>hp_arr = init, hp_n = 0\<rparr>"

definition ch_insert :: "('a \<Rightarrow> 'a \<Rightarrow> bool) \<Rightarrow> 'a heap \<Rightarrow> 'a \<Rightarrow> 'a heap option" where
  "ch_insert lt h t = heap_insert lt h t"

definition ch_pop_heap :: "('a \<Rightarrow> 'a \<Rightarrow> bool) \<Rightarrow> 'a heap \<Rightarrow> ('a \<times> 'a heap) option" where
  "ch_pop_heap lt h = pop_heap lt h"

fun insert_all :: "('a \<Rightarrow> 'a \<Rightarrow> bool) \<Rightarrow> 'a heap \<Rightarrow> 'a list \<Rightarrow> 'a heap option" where
  "insert_all lt h [] = Some h"
| "insert_all lt h (t # ts) = do { h' \<leftarrow> heap_insert lt h t; insert_all lt h' ts }"

text \<open>What the heap holds.\<close>

definition heap_items :: "'a heap \<Rightarrow> 'a multiset" where
  "heap_items h = mset (take (hp_n h) (hp_arr h))"

definition heap_wf :: "'a heap \<Rightarrow> bool" where
  "heap_wf h \<longleftrightarrow> hp_n h \<le> length (hp_arr h)"

subsection \<open>Nothing is lost\<close>

lemma length_heap_up [simp]: "length (heap_up lt t arr i) = length arr"
  by (induction lt t arr i rule: heap_up.induct) (subst heap_up.simps, simp)

lemma length_heap_down [simp]: "length (heap_down lt t n arr i) = length arr"
  by (induction lt t n arr i rule: heap_down.induct) (subst heap_down.simps, simp add: Let_def)

text \<open>Both loops only touch what lies before \<open>n\<close>.\<close>

lemma take_heap_up: "i < k \<Longrightarrow> take k (heap_up lt t arr i) = heap_up lt t (take k arr) i"
proof (induction lt t arr i rule: heap_up.induct)
  case (1 lt t arr index)
  then show ?case
    by (subst (1 2) heap_up.simps) (auto simp: take_update_swap)
qed

lemma take_heap_down:
  "i < n \<Longrightarrow> take n (heap_down lt t n arr i) = heap_down lt t n (take n arr) i"
proof (induction lt t n arr i rule: heap_down.induct)
  case (1 lt t n arr i)
  then show ?case by (subst (1 2) heap_down.simps) (auto simp: Let_def take_update_swap)
qed

lemma mset_heap_up: "i < length arr \<Longrightarrow> mset (heap_up lt t arr i) = mset (arr[i := t])"
proof (induction lt t arr i rule: heap_up.induct)
  case (1 lt t arr i)
  then show ?case
    using mset_move [of i arr "i div 2" t] by (subst heap_up.simps) auto
qed

lemma mset_heap_down:
  "i < n \<Longrightarrow> n \<le> length arr \<Longrightarrow> mset (heap_down lt t n arr i) = mset (arr[i := t])"
proof (induction lt t n arr i rule: heap_down.induct)
  case (1 lt t n arr i)
  then show ?case
    using mset_move [of i arr "i * 2 + 1" t] mset_move [of i arr "i * 2 + 2" t]
    by (subst heap_down.simps) (auto simp: Let_def)
qed

lemma heap_insert_ok:
  assumes "heap_wf h" "heap_insert lt h t = Some h'"
  shows "heap_wf h' \<and> heap_items h' = add_mset t (heap_items h)"
proof -
  let ?n = "hp_n h" and ?arr = "hp_arr h"
  from assms have n: "?n < length ?arr" and h': "h' = \<lparr>hp_arr = heap_up lt t ?arr ?n, hp_n = ?n + 1\<rparr>"
    by (auto simp: heap_insert_def split: if_splits)
  have "take (?n + 1) ?arr = take ?n ?arr @ [?arr ! ?n]" using n by (simp add: take_Suc_conv_app_nth)
  with n show ?thesis
    by (simp add: h' heap_items_def heap_wf_def take_heap_up mset_heap_up list_update_append)
qed

lemma pop_heap_ok:
  assumes "heap_wf h" "0 < hp_n h" "pop_heap lt h = Some (t, h')"
  shows "heap_wf h' \<and> heap_items h = add_mset t (heap_items h') \<and> t = hp_arr h ! 0 \<and> hp_n h' = hp_n h - 1"
proof -
  let ?n = "hp_n h - 1" and ?arr = "hp_arr h"
  have len: "?n < length ?arr" using assms by (auto simp: heap_wf_def)
  from assms have t: "t = ?arr ! 0" and h': "h' = \<lparr>hp_arr = heap_down lt (?arr ! ?n) ?n ?arr 0, hp_n = ?n\<rparr>"
    by (auto simp: pop_heap_def arr_get_def split: if_splits)
  have snoc: "take (hp_n h) ?arr = take ?n ?arr @ [?arr ! ?n]"
    using assms(2) len by (metis Suc_pred' take_Suc_conv_app_nth)
  show ?thesis
  proof (cases "?n = 0")
    case True
    with snoc t h' len show ?thesis by (simp add: heap_items_def heap_wf_def)
  next
    case False
    then have "take ?n ?arr \<noteq> []" and 0: "take ?n ?arr ! 0 = t" using len t by auto
    then obtain xs where xs: "take ?n ?arr = t # xs" by (metis list.exhaust nth_Cons_0)
    then have "?n = length (t # xs)" using len by (metis length_take min.absorb2 less_imp_le)
    with False len xs show ?thesis
      by (simp add: h' heap_items_def heap_wf_def take_heap_down mset_heap_down snoc t)
  qed
qed


text \<open>\<open>pop_heap\<close> as an operation of a sequence; it has no check, so an empty heap gives an element too.\<close>

definition heap_pop :: "('a \<Rightarrow> 'a \<Rightarrow> bool) \<Rightarrow> 'a heap \<Rightarrow> unit \<Rightarrow> ('a option \<times> 'a heap) option" where
  "heap_pop lt h u = map_option (\<lambda>(t, h'). (Some t, h')) (pop_heap lt h)"

text \<open>Sequences in which every pop finds an element.\<close>

fun pops_covered :: "nat \<Rightarrow> ('a, 'c) buffer_op list \<Rightarrow> bool" where
  "pops_covered n [] \<longleftrightarrow> True"
| "pops_covered n (Put x # ops) \<longleftrightarrow> pops_covered (Suc n) ops"
| "pops_covered n (Get c # ops) \<longleftrightarrow> 0 < n \<and> pops_covered (n - 1) ops"

text \<open>The abstract heap, a buffer in the sense of the queues, gives nothing when it is empty.\<close>

definition heap_get :: "('a \<Rightarrow> 'a \<Rightarrow> bool) \<Rightarrow> 'a heap \<Rightarrow> unit \<Rightarrow> ('a option \<times> 'a heap) option" where
  "heap_get lt h u =
     (if heap_size h = 0 then Some (None, h)
      else do { (t, h') \<leftarrow> pop_heap lt h; Some (Some t, h') })"

lemma pop_heap_returns:
  "heap_wf h \<Longrightarrow> 0 < hp_n h \<Longrightarrow> \<exists>t h'. pop_heap lt h = Some (t, h') \<and> hp_n h' \<le> hp_n h \<and>
     length (hp_arr h') = length (hp_arr h)"
  by (cases "hp_arr h") (auto simp: pop_heap_def arr_get_def heap_wf_def)

lemma heap_get_returns:
  "heap_wf h \<Longrightarrow> \<exists>r h'. heap_get lt h c = Some (r, h') \<and> hp_n h' \<le> hp_n h \<and>
     length (hp_arr h') = length (hp_arr h)"
  using pop_heap_returns [of h lt] by (cases "hp_n h = 0") (auto simp: heap_get_def heap_size_def)

interpretation hp: buffer
  where put = "heap_insert lt" and get = "heap_get lt" and items = heap_items and wf = heap_wf
  for lt :: "'a \<Rightarrow> 'a \<Rightarrow> bool"
proof unfold_locales
  fix q q' :: "'a heap" and r and c
  assume "heap_wf q" "heap_get lt q c = Some (r, q')"
  then show "heap_wf q' \<and> heap_items q = heap_items q' + mset (case r of None \<Rightarrow> [] | Some x \<Rightarrow> [x])"
    using pop_heap_ok [of q lt]
    by (auto simp: heap_get_def heap_size_def split: if_splits elim!: bind_SomeE)
qed (rule heap_insert_ok)

lemma heap_run_length:
  "run_buffer (heap_insert lt) (heap_get lt) h ops = Some (out, h') \<Longrightarrow> length (hp_arr h') = length (hp_arr h)"
proof (induction ops arbitrary: h out)
  case (Cons op ops)
  then show ?case
    by (cases op) (auto simp: heap_insert_def heap_get_def pop_heap_def split: if_splits elim!: bind_SomeE)
qed simp

subsection \<open>The smallest element\<close>

text \<open>What the users promise of their comparison.\<close>

locale keyed =
  fixes lt :: "'a \<Rightarrow> 'a \<Rightarrow> bool" and key :: "'a \<Rightarrow> 'k :: linorder"
  assumes lt_key: "lt a b \<longleftrightarrow> key a < key b"
begin

text \<open>The order \<open>insert\<close> maintains, with the father at half the index.\<close>

definition ordered :: "'a list \<Rightarrow> nat \<Rightarrow> bool" where
  "ordered arr n \<longleftrightarrow> (\<forall>j < n. key (arr ! (j div 2)) \<le> key (arr ! j))"

lemma ordered_root: "ordered arr n \<Longrightarrow> j < n \<Longrightarrow> key (arr ! 0) \<le> key (arr ! j)"
proof (induction j rule: less_induct)
  case (less j)
  show ?case
  proof (cases "j = 0")
    case False
    then have "key (arr ! 0) \<le> key (arr ! (j div 2))" using less by auto
    also have "\<dots> \<le> key (arr ! j)" using less.prems by (simp add: ordered_def)
    finally show ?thesis .
  qed simp
qed

text \<open>The array is ordered but for the hole at \<open>i\<close>, in whose place \<open>t\<close> would be.\<close>

definition hole :: "'a \<Rightarrow> 'a list \<Rightarrow> nat \<Rightarrow> nat \<Rightarrow> bool" where
  "hole t arr n i \<longleftrightarrow>
     (\<forall>j < n. j \<noteq> i \<and> j div 2 \<noteq> i \<longrightarrow> key (arr ! (j div 2)) \<le> key (arr ! j)) \<and>
     (\<forall>j < n. j \<noteq> i \<and> j div 2 = i \<longrightarrow> key t \<le> key (arr ! j) \<and> key (arr ! (i div 2)) \<le> key (arr ! j))"

lemma hole_up:
  assumes "hole t arr n i" "i < n" "n \<le> length arr" "0 < i" "lt t (arr ! (i div 2))"
  shows "hole t (arr[i := arr ! (i div 2)]) n (i div 2)"
proof -
  let ?f = "i div 2" and ?arr = "arr[i := arr ! (i div 2)]"
  have f: "?f < i" "?f div 2 \<noteq> i" "?f < n" using assms by auto
  have ft: "key t < key (arr ! ?f)" using assms(5) by (simp add: lt_key)
  have ff: "key (arr ! (?f div 2)) \<le> key (arr ! ?f)" using assms(1) f by (auto simp: hole_def)
  have other: "key (?arr ! (j div 2)) \<le> key (?arr ! j)" if "j < n" "j \<noteq> ?f" "j div 2 \<noteq> ?f" for j
    using assms(1,2,3) that by (cases "j div 2 = i") (auto simp: hole_def nth_list_update)
  have child: "key (arr ! ?f) \<le> key (?arr ! j)" if "j < n" "j \<noteq> ?f" "j div 2 = ?f" for j
    using assms(1,2,3) that f by (cases "j = i") (auto simp: hole_def nth_list_update)
  show ?thesis
    unfolding hole_def using other child ft ff f assms(2,3)
    by (auto intro: order.trans less_imp_le)
qed

lemma heap_up_ordered:
  "hole t arr n i \<Longrightarrow> i < n \<Longrightarrow> n \<le> length arr \<Longrightarrow> ordered (heap_up lt t arr i) n"
proof (induction i arbitrary: arr rule: less_induct)
  case (less i)
  show ?case
  proof (cases "0 < i \<and> lt t (arr ! (i div 2))")
    case True
    with less show ?thesis
      by (subst heap_up.simps) (simp add: hole_up)
  next
    case False
    have stop: "i = 0 \<or> key (arr ! (i div 2)) \<le> key t" using False by (auto simp: lt_key not_less)
    have "key (arr[i := t] ! (j div 2)) \<le> key (arr[i := t] ! j)" if "j < n" for j
      using less.prems that stop by (cases "j = i"; cases "j div 2 = i") (auto simp: hole_def nth_list_update)
    with False show ?thesis by (subst heap_up.simps) (auto simp: ordered_def)
  qed
qed

lemma insert_ordered:
  assumes "heap_insert lt h t = Some h'" "ordered (hp_arr h) (hp_n h)"
  shows "ordered (hp_arr h') (hp_n h')"
proof -
  from assms(1) have n: "hp_n h < length (hp_arr h)" "hp_n h' = hp_n h + 1"
      "hp_arr h' = heap_up lt t (hp_arr h) (hp_n h)"
    by (auto simp: heap_insert_def split: if_splits)
  have "hole t (hp_arr h) (hp_n h + 1) (hp_n h)"
    using assms(2) by (auto simp: hole_def ordered_def less_Suc_eq)
  with n show ?thesis by (simp add: heap_up_ordered)
qed

lemma front_smallest:
  "heap_wf h \<Longrightarrow> ordered (hp_arr h) (hp_n h) \<Longrightarrow> x \<in># heap_items h \<Longrightarrow> key (hp_arr h ! 0) \<le> key x"
  by (auto simp: heap_items_def heap_wf_def in_set_conv_nth intro: ordered_root)

lemma insert_all_ordered:
  assumes "heap_wf h" "ordered (hp_arr h) (hp_n h)" "hp_n h + length ts \<le> length (hp_arr h)"
  shows "\<exists>h'. insert_all lt h ts = Some h' \<and> heap_wf h' \<and> ordered (hp_arr h') (hp_n h') \<and>
    heap_items h' = heap_items h + mset ts \<and> hp_n h' = hp_n h + length ts"
  using assms
proof (induction ts arbitrary: h)
  case (Cons t ts)
  obtain h1 where h1: "heap_insert lt h t = Some h1" using Cons.prems(3) by (simp add: heap_insert_def)
  then have "hp_n h1 = hp_n h + 1" "length (hp_arr h1) = length (hp_arr h)"
    by (auto simp: heap_insert_def split: if_splits)
  with Cons.IH [of h1] h1 insert_ordered [OF h1] heap_insert_ok [OF _ h1] Cons.prems show ?case by auto
qed simp

lemma pop_smallest:
  assumes "ts \<noteq> []" "length ts \<le> length init"
  shows "returns (do { h \<leftarrow> insert_all lt (Heap init) ts; pop_heap lt h })
    (\<lambda>(t, h'). (\<forall>x \<in> set ts. key t \<le> key x) \<and> mset ts = add_mset t (heap_items h'))"
proof -
  have "\<exists>h. insert_all lt (Heap init) ts = Some h \<and> heap_wf h \<and> ordered (hp_arr h) (hp_n h) \<and>
      heap_items h = heap_items (Heap init) + mset ts \<and> hp_n h = hp_n (Heap init) + length ts"
    using assms(2) by (intro insert_all_ordered) (auto simp: Heap_def heap_wf_def ordered_def)
  then obtain h where h: "insert_all lt (Heap init) ts = Some h" "heap_wf h" "ordered (hp_arr h) (hp_n h)"
      "heap_items h = mset ts" "hp_n h = length ts"
    by (auto simp: Heap_def heap_items_def)
  then have n: "0 < hp_n h" using assms(1) by simp
  obtain t h' where pop: "pop_heap lt h = Some (t, h')" using pop_heap_returns [OF h(2) n] by blast
  have "set ts = set_mset (heap_items h)" using h(4) by simp
  with pop_heap_ok [OF h(2) n pop] front_smallest [OF h(2,3)] h show ?thesis by (simp add: pop)
qed

end

subsection \<open>Properties\<close>

lemma heap_pop_get: "0 < hp_n h \<Longrightarrow> heap_pop lt h c = heap_get lt h c"
  by (auto simp: heap_pop_def heap_get_def heap_size_def split: bind_splits option.splits)

text \<open>While every pop finds an element the heap runs as the abstract one does.\<close>

lemma heap_run_covered:
  assumes "heap_wf h" "pops_covered (hp_n h) ops" "hp_n h + length (puts_of ops) \<le> length (hp_arr h)"
  shows "run_buffer (heap_insert lt) (heap_pop lt) h ops = run_buffer (heap_insert lt) (heap_get lt) h ops \<and>
    (\<exists>out h'. run_buffer (heap_insert lt) (heap_get lt) h ops = Some (out, h'))"
  using assms
proof (induction ops arbitrary: h)
  case (Cons op ops)
  show ?case
  proof (cases op)
    case (Put t)
    with Cons.prems obtain h1 where h1: "heap_insert lt h t = Some h1" by (auto simp: heap_insert_def)
    then have "hp_n h1 = hp_n h + 1" "length (hp_arr h1) = length (hp_arr h)"
      by (auto simp: heap_insert_def split: if_splits)
    with Cons.IH [of h1] Put h1 Cons.prems heap_insert_ok [OF _ h1] show ?thesis by auto
  next
    case (Get c)
    then have n: "0 < hp_n h" using Cons.prems(2) by simp
    obtain t h1 where t: "pop_heap lt h = Some (t, h1)" "length (hp_arr h1) = length (hp_arr h)"
      using pop_heap_returns [OF Cons.prems(1) n] by blast
    then have get: "heap_get lt h c = Some (Some t, h1)" using n by (simp add: heap_get_def heap_size_def)
    have h1: "heap_wf h1" "hp_n h1 = hp_n h - 1" using pop_heap_ok [OF Cons.prems(1) n t(1)] by auto
    have "hp_n h1 + length (puts_of ops) \<le> length (hp_arr h1)" using Cons.prems(3) Get h1(2) t(2) by simp
    moreover have "pops_covered (hp_n h1) ops" using Cons.prems(2) Get h1(2) by simp
    ultimately obtain out h' where "run_buffer (heap_insert lt) (heap_pop lt) h1 ops = run_buffer (heap_insert lt) (heap_get lt) h1 ops"
      "run_buffer (heap_insert lt) (heap_get lt) h1 ops = Some (out, h')"
      using Cons.IH [OF h1(1)] by blast
    then show ?thesis using Get get heap_pop_get [OF n, of lt c] by simp
  qed
qed simp

text \<open>
  C25. A heap loses, duplicates and invents nothing and stays within its array while it is not popped empty: any
  sequence of \<open>insert\<close> and \<open>pop_heap\<close> on a new heap in which every pop finds an element, with any comparison and at
  most as many insertions as the array has places, runs to the end; what was inserted is what was taken out together
  with what is still there. \<open>pop_heap\<close> does not check for this: when nothing is left it gives what lies at the front of
  the array, and the heap stays as it is.
\<close>

theorem heap_conserves:
  assumes "pops_covered 0 ops" "length (puts_of ops) \<le> length init" "init \<noteq> []"
  shows "returns (run_buffer (heap_insert lt) (heap_pop lt) (Heap init) ops)
    (\<lambda>(out, h'). heap_wf h' \<and> mset (puts_of ops) = heap_items h' + mset out \<and>
      (hp_n h' = 0 \<longrightarrow> pop_heap lt h' = Some (hp_arr h' ! 0, h')))"
proof -
  have wf: "heap_wf (Heap init)" "hp_n (Heap init) = 0" "hp_arr (Heap init) = init" "heap_items (Heap init) = {#}"
    by (simp_all add: Heap_def heap_wf_def heap_items_def)
  have run: "run_buffer (heap_insert lt) (heap_pop lt) (Heap init) ops = run_buffer (heap_insert lt) (heap_get lt) (Heap init) ops"
    and ex: "\<exists>out h'. run_buffer (heap_insert lt) (heap_get lt) (Heap init) ops = Some (out, h')"
    using heap_run_covered [of "Heap init" ops lt] wf assms by auto
  from ex obtain out h' where r: "run_buffer (heap_insert lt) (heap_get lt) (Heap init) ops = Some (out, h')" by blast
  have "length (hp_arr h') = length init" using heap_run_length [OF r] wf(3) by simp
  then have "pop_heap lt h' = Some (hp_arr h' ! 0, h')" if "hp_n h' = 0"
    using that assms(3) by (cases "hp_arr h'") (auto simp: pop_heap_def arr_get_def)
  then show ?thesis using hp.run_conserves [OF wf(1) r] wf(4) run r by (simp add: returns_def)
qed

theorem heap_conserves_witness:
  "returns (run_buffer (heap_insert (<)) (heap_pop (<)) (Heap [0, 0 :: int]) [Put 5, Get (), Put 3, Get ()])
    (\<lambda>(out, h'). heap_wf h' \<and> {#5, 3#} = heap_items h' + mset out \<and>
      (hp_n h' = 0 \<longrightarrow> pop_heap (<) h' = Some (hp_arr h' ! 0, h')))"
proof -
  let ?ops = "[Put 5, Get (), Put 3, Get ()] :: (int, unit) buffer_op list"
  have "pops_covered 0 ?ops" "length (puts_of ?ops) \<le> length [0, 0 :: int]" "[0, 0 :: int] \<noteq> []" by simp_all
  note all = heap_conserves [OF this, of "(<)"]
  have "puts_of ?ops = [5, 3]" by simp
  then show ?thesis using all by simp
qed

text \<open>
  While elements are only inserted, the first \<open>pop_heap\<close> gives the smallest of them, for every
  comparison of keys.
\<close>

theorem heap_pops_smallest:
  assumes "keyed lt key" "ts \<noteq> []" "length ts \<le> length init"
  shows "returns (do { h \<leftarrow> insert_all lt (Heap init) ts; pop_heap lt h })
    (\<lambda>(t, h'). (\<forall>x \<in> set ts. key t \<le> key x) \<and> mset ts = add_mset t (heap_items h'))"
  by (rule keyed.pop_smallest [OF assms])

theorem heap_pops_smallest_witness:
  "returns (do { h \<leftarrow> insert_all (<) (Heap (replicate 4 0)) [3, 1, 2 :: int]; pop_heap (<) h })
    (\<lambda>(t, h'). t = 1 \<and> heap_items h' = {#2, 3#})"
proof -
  have "keyed (<) (\<lambda>x. x :: int)" by unfold_locales simp
  have one: "t = 1 \<and> M = {#2, 3#}" if "\<forall>x \<in> set [3, 1, 2 :: int]. t \<le> x" "mset [3, 1, 2] = add_mset t M" for t M
  proof -
    have "t \<in># mset [3, 1, 2]" unfolding that(2) by simp
    then have "t = 1" using that(1) by auto
    with that(2) show ?thesis by simp
  qed
  show ?thesis
    by (rule returns_mono [OF heap_pops_smallest [OF \<open>keyed (<) (\<lambda>x. x :: int)\<close>]]) (use one in auto)
qed

text \<open>
  The heap is not a priority queue: \<open>insert\<close> takes the father of an index to be its half,
  \<open>pop_heap\<close> takes the children to be \<open>2 * index + 1\<close> and \<open>2 * index + 2\<close>. After ten insertions
  the fourth pop gives 5 while 4 is still in the heap.
\<close>

theorem heap_order_broken:
  "returns (run_buffer (heap_insert (<)) (heap_pop (<)) (Heap (replicate 10 (0 :: int)))
      (map Put [2, 4, 6, 3, 8, 9, 1, 5, 10, 7] @ replicate 4 (Get ())))
    (\<lambda>(out, h'). out = [1, 2, 3, 5] \<and> 4 \<in># heap_items h')"
proof -
  have "map_option (\<lambda>(out, h). (out, take (hp_n h) (hp_arr h)))
      (run_buffer (heap_insert (<)) (heap_pop (<)) (Heap (replicate 10 (0 :: int)))
        (map Put [2, 4, 6, 3, 8, 9, 1, 5, 10, 7] @ replicate 4 (Get ()))) =
    Some ([1, 2, 3, 5], [4, 7, 6, 8, 10, 9])"
    by code_simp
  then show ?thesis by (auto simp: returns_def heap_items_def)
qed

end
