(* ===== verification/Pools.thy ===== *)
theory Pools
  imports Heaps Node
begin

text \<open>
  The two pools built on the array heap: PoissionPool, whose packets wait for a deadline, and UniformPool,
  which orders the packets of a finger at random (src/src/obfuscation). A random number and the time of
  day are arguments; a critical section is one step; \<open>None\<close> is undefined behaviour.
\<close>

subsection \<open>PoissionPool\<close>

record pool_packet =
  pp_delay :: "int \<times> int"
  pp_is_dummy :: bool
  pp_packet :: "anonymous_packet option"

definition compute_delay :: "int \<times> int \<Rightarrow> int" where
  "compute_delay a = fst a * 1000000 + snd a"

definition pool_packet_less :: "pool_packet \<Rightarrow> pool_packet \<Rightarrow> bool" where
  "pool_packet_less a b = (compute_delay (pp_delay a) < compute_delay (pp_delay b))"

record poission_pool =
  po_lambda :: int
  po_pool_queue :: "pool_packet heap"

definition pool_queue_size :: nat where "pool_queue_size = 1024"

text \<open>\<open>init\<close> are the elements of the new array.\<close>

definition PoissionPool :: "pool_packet list \<Rightarrow> poission_pool" where
  "PoissionPool init = \<lparr>po_lambda = 10, po_pool_queue = Heap init\<rparr>"

definition add_usec :: "int \<times> int \<Rightarrow> int \<Rightarrow> int \<times> int" where
  "add_usec now delay =
     (let usec = snd now + delay in if usec > 1000000 then (fst now + 1, usec - 1000000) else (fst now, usec))"

definition generate_dummy :: "poission_pool \<Rightarrow> u32 \<Rightarrow> int \<times> int \<Rightarrow> poission_pool option" where
  "generate_dummy p rnd now =
     (let t = uint (rnd mod 1000); delay = t * po_lambda p;
          packet = \<lparr>pp_delay = add_usec now delay, pp_is_dummy = True, pp_packet = None\<rparr>
      in if heap_size (po_pool_queue p) \<ge> pool_queue_size then Some p
         else do {
           q \<leftarrow> heap_insert pool_packet_less (po_pool_queue p) packet;
           Some (p\<lparr>po_pool_queue := q\<rparr>) })"

text \<open>
  One round of the loop of \<open>send\<close>. The random number becomes an \<open>int\<close>; both remainders are those of
  C. The flag says whether the packet has been placed.
\<close>

definition poission_send_round :: "poission_pool \<Rightarrow> u32 \<Rightarrow> anonymous_packet \<Rightarrow> (poission_pool \<times> bool) option" where
  "poission_send_round p rnd packet =
     (let q = po_pool_queue p; s = int (heap_size q)
      in if s = 0 then Some (p, False)
         else do {
           let index = sint rnd smod s;
           e \<leftarrow> heap_at q index;
           if pp_is_dummy e
           then do {
             i \<leftarrow> heap_index q index;
             arr \<leftarrow> arr_set (hp_arr q) i (e\<lparr>pp_is_dummy := False, pp_packet := Some packet\<rparr>);
             Some (p\<lparr>po_pool_queue := q\<lparr>hp_arr := arr\<rparr>\<rparr>, True) }
           else Some (p, False) })"

text \<open>What the other threads do: the generation of a dummy and a round of \<open>send\<close>.\<close>

datatype poission_op = Generate u32 "int \<times> int" | TrySend u32 anonymous_packet

fun run_ops :: "poission_pool \<Rightarrow> poission_op list \<Rightarrow> (poission_pool \<times> anonymous_packet list) option" where
  "run_ops p [] = Some (p, [])"
| "run_ops p (Generate rnd now # ops) = do { p' \<leftarrow> generate_dummy p rnd now; run_ops p' ops }"
| "run_ops p (TrySend rnd packet # ops) = do {
     (p', placed) \<leftarrow> poission_send_round p rnd packet;
     (p'', ps) \<leftarrow> run_ops p' ops;
     Some (p'', if placed then packet # ps else ps) }"

text \<open>
  The sender: every round reads the clock, looks at the front of the heap, also of an empty one, and waits while the
  other threads run the operations of the round. The delay computed before the wait decides whether the loop ends. The
  mutex is released before the pop: \<open>late\<close> is what the other threads do in between. (The pop itself is unlocked and may
  also race with them; here it is one step.) \<open>Some None\<close> is a sender that still waits.
\<close>

fun sync_fetch ::
  "poission_op list \<Rightarrow> poission_pool \<Rightarrow> ((int \<times> int) \<times> poission_op list) list \<Rightarrow>
   ((anonymous_packet option \<times> poission_pool) option) option" where
  "sync_fetch late p [] = Some None"
| "sync_fetch late p ((now, others) # rounds) = do {
     f \<leftarrow> heap_front (po_pool_queue p);
     let delay = compute_delay now - compute_delay (pp_delay f);
     (p', _) \<leftarrow> (if heap_size (po_pool_queue p) = 0 \<or> delay < 0 then run_ops p others else Some (p, []));
     if delay < 0 then sync_fetch late p' rounds
     else do {
       (p'', _) \<leftarrow> run_ops p' late;
       (t, q) \<leftarrow> pop_heap pool_packet_less (po_pool_queue p'');
       Some (Some (pp_packet t, p''\<lparr>po_pool_queue := q\<rparr>)) } }"

subsection \<open>UniformPool\<close>

record uniform_package =
  up_random_id :: u64
  up_id :: u64
  up_ip :: ip_addr
  up_port :: int
  up_packet :: "anonymous_packet option"

definition uniform_package_less :: "uniform_package \<Rightarrow> uniform_package \<Rightarrow> bool" where
  "uniform_package_less l r = (up_random_id l < up_random_id r)"

text \<open>The map from fingers to heaps, in the order of its keys; \<open>init\<close> are the elements of a new heap.\<close>

type_synonym uniform_pool = "(int \<times> uniform_package heap) list"

fun uniform_slot ::
  "uniform_pool \<Rightarrow> int \<Rightarrow> (uniform_package heap \<Rightarrow> uniform_package heap option) \<Rightarrow> uniform_package list \<Rightarrow> uniform_pool option" where
  "uniform_slot [] k f init = do { h \<leftarrow> f (Heap init); Some [(k, h)] }"
| "uniform_slot ((j, h) # p) k f init =
     (if j = k then do { h' \<leftarrow> f h; Some ((j, h') # p) }
      else if k < j then do { h' \<leftarrow> f (Heap init); Some ((k, h') # (j, h) # p) }
      else do { p' \<leftarrow> uniform_slot p k f init; Some ((j, h) # p') })"

definition uniform_send ::
  "uniform_package list \<Rightarrow> chord_finger list \<Rightarrow> uniform_pool \<Rightarrow> u32 \<Rightarrow> u64 \<Rightarrow> anonymous_packet \<Rightarrow> uniform_pool option" where
  "uniform_send init fingers p rnd finger_id packet = do {
     f \<leftarrow> arr_get fingers (uint finger_id);
     let pkg = \<lparr>up_random_id = ucast (rnd mod 100), up_id = finger_id, up_ip = fg_ip f, up_port = fg_port f,
                up_packet = Some packet\<rparr>;
     uniform_slot p (sint (ucast finger_id :: u32)) (\<lambda>h. heap_insert uniform_package_less h pkg) init }"

text \<open>A batch sends one packet of every heap that has one.\<close>

fun uniform_send_batch ::
  "uniform_pool \<Rightarrow> (uniform_pool \<times> (ip_addr \<times> int \<times> anonymous_packet option) list) option" where
  "uniform_send_batch [] = Some ([], [])"
| "uniform_send_batch ((j, h) # p) =
     (if heap_size h = 0
      then do { (p', out) \<leftarrow> uniform_send_batch p; Some ((j, h) # p', out) }
      else do {
        (pkg, h') \<leftarrow> pop_heap uniform_package_less h;
        (p', out) \<leftarrow> uniform_send_batch p;
        Some ((j, h') # p', (up_ip pkg, up_port pkg, up_packet pkg) # out) })"

subsection \<open>Invariant\<close>

interpretation po: keyed pool_packet_less "\<lambda>a. compute_delay (pp_delay a)"
  by unfold_locales (simp add: pool_packet_less_def)

interpretation up: keyed uniform_package_less up_random_id
  by unfold_locales (simp add: uniform_package_less_def)

abbreviation pool_items_of :: "poission_pool \<Rightarrow> pool_packet multiset" where
  "pool_items_of p \<equiv> heap_items (po_pool_queue p)"

text \<open>The array has its size, the front is in it, and exactly the dummies carry no packet.\<close>

definition pool_wf :: "poission_pool \<Rightarrow> bool" where
  "pool_wf p \<longleftrightarrow> heap_wf (po_pool_queue p) \<and> length (hp_arr (po_pool_queue p)) = pool_queue_size \<and>
     (\<forall>e \<in># pool_items_of p. pp_is_dummy e \<longleftrightarrow> pp_packet e = None)"

text \<open>The packets that wait.\<close>

definition payloads :: "pool_packet multiset \<Rightarrow> anonymous_packet multiset" where
  "payloads M = {# the (pp_packet e). e \<in># filter_mset (\<lambda>e. \<not> pp_is_dummy e) M #}"

lemma payloads_add [simp]:
  "payloads (add_mset e M) = (if pp_is_dummy e then payloads M else add_mset (the (pp_packet e)) (payloads M))"
  by (simp add: payloads_def)

lemma pool_wf_new: "length init = pool_queue_size \<Longrightarrow> pool_wf (PoissionPool init)"
  by (simp add: pool_wf_def PoissionPool_def Heap_def heap_wf_def heap_items_def)

lemma compute_delay_add_usec: "compute_delay (add_usec now d) = compute_delay now + d"
  by (simp add: compute_delay_def add_usec_def Let_def algebra_simps)

lemma heap_insert_length: "heap_insert lt h t = Some h' \<Longrightarrow> length (hp_arr h') = length (hp_arr h) \<and> 0 < hp_n h'"
  by (auto simp: heap_insert_def split: if_splits)

lemma generate_dummy_ok:
  assumes "pool_wf p"
  shows "\<exists>p'. generate_dummy p rnd now = Some p' \<and> pool_wf p' \<and> payloads (pool_items_of p') = payloads (pool_items_of p) \<and>
    0 < hp_n (po_pool_queue p')"
proof (cases "heap_size (po_pool_queue p) \<ge> pool_queue_size")
  case True
  then show ?thesis using assms by (simp add: generate_dummy_def Let_def heap_size_def pool_queue_size_def)
next
  case False
  let ?e = "\<lparr>pp_delay = add_usec now (uint (rnd mod 1000) * po_lambda p), pp_is_dummy = True, pp_packet = None\<rparr>"
  obtain q where q: "heap_insert pool_packet_less (po_pool_queue p) ?e = Some q"
    using False assms by (simp add: heap_insert_def pool_wf_def heap_size_def)
  have "heap_wf (po_pool_queue p)" using assms by (simp add: pool_wf_def)
  from heap_insert_ok [OF this q] heap_insert_length [OF q] assms False q show ?thesis
    by (simp add: generate_dummy_def Let_def pool_wf_def)
qed

text \<open>Replacing an element of the heap in place.\<close>

lemma heap_items_replace:
  assumes "heap_wf h" "i < hp_n h"
  shows "\<exists>M. heap_items h = add_mset (hp_arr h ! i) M \<and> heap_items (h\<lparr>hp_arr := (hp_arr h)[i := e]\<rparr>) = add_mset e M"
proof -
  let ?xs = "take (hp_n h) (hp_arr h)"
  have i: "i < length ?xs" using assms by (simp add: heap_wf_def)
  have "mset (?xs[i := e]) = add_mset e (mset ?xs - {# ?xs ! i #})" using i by (rule mset_update)
  moreover have "mset ?xs = add_mset (?xs ! i) (mset ?xs - {# ?xs ! i #})"
    using nth_mem [OF i] by (metis insert_DiffM set_mset_mset)
  ultimately show ?thesis using assms
    by (intro exI [of _ "mset ?xs - {# ?xs ! i #}"]) (simp add: heap_items_def take_update_swap)
qed

lemma heap_index_smod:
  assumes "heap_wf h" "0 < hp_n h"
  shows "heap_index h (x smod int (hp_n h)) = (if 0 \<le> x smod int (hp_n h) then Some (x smod int (hp_n h)) else None)"
proof -
  have b: "\<bar>x smod int (hp_n h)\<bar> < int (hp_n h)"
    using smod_int_range [of "int (hp_n h)" x] assms(2) by auto
  then have "(x smod int (hp_n h)) smod int (hp_n h) = x smod int (hp_n h)"
    by (simp add: smod_int_alt_def [of "x smod int (hp_n h)"] sgn_mult_abs)
  with b assms show ?thesis by (auto simp: heap_index_def heap_wf_def Let_def)
qed

lemma send_round_cases:
  fixes rnd :: u32
  assumes "pool_wf p" "0 < hp_n (po_pool_queue p)"
  defines "q \<equiv> po_pool_queue p"
  defines "i \<equiv> sint rnd smod int (hp_n q)"
  shows "poission_send_round p rnd packet =
    (if i < 0 then None
     else let e = hp_arr q ! nat i
          in Some (if pp_is_dummy e
            then (p\<lparr>po_pool_queue := q\<lparr>hp_arr := (hp_arr q)[nat i := e\<lparr>pp_is_dummy := False, pp_packet := Some packet\<rparr>]\<rparr>\<rparr>, True)
            else (p, False)))"
proof -
  have wf: "heap_wf q" using assms by (simp add: pool_wf_def)
  have hi: "heap_index q i = (if 0 \<le> i then Some i else None)"
    using heap_index_smod [OF wf] assms(2) by (simp add: i_def q_def)
  have b: "\<bar>i\<bar> < int (hp_n q)" using smod_int_range [of "int (hp_n q)" "sint rnd"] assms(2) by (auto simp: i_def q_def)
  with wf have len: "i < int (length (hp_arr q))" by (simp add: heap_wf_def)
  show ?thesis
    using assms(2) hi len unfolding poission_send_round_def heap_at_def heap_size_def
    by (simp add: Let_def arr_get_def arr_set_def flip: q_def i_def)
qed

lemma send_round_ok:
  assumes "pool_wf p" "poission_send_round p rnd packet = Some (p', placed)"
  shows "pool_wf p' \<and> hp_n (po_pool_queue p') = hp_n (po_pool_queue p) \<and>
    payloads (pool_items_of p') = payloads (pool_items_of p) + (if placed then {# packet #} else {#})"
proof (cases "hp_n (po_pool_queue p) = 0")
  case True
  with assms show ?thesis by (simp add: poission_send_round_def heap_size_def)
next
  case False
  let ?q = "po_pool_queue p" and ?i = "sint rnd smod int (hp_n (po_pool_queue p))"
  let ?e = "(hp_arr ?q ! nat ?i)\<lparr>pp_is_dummy := False, pp_packet := Some packet\<rparr>"
  note cases = send_round_cases [OF assms(1), of rnd packet]
  have i: "0 \<le> ?i" using cases False assms(2) by (auto split: if_splits)
  have wf: "heap_wf ?q" using assms(1) by (simp add: pool_wf_def)
  have "nat ?i < hp_n ?q" using smod_int_range [of "int (hp_n ?q)" "sint rnd"] i False by auto
  from heap_items_replace [OF wf this, of ?e] obtain M where
    M: "heap_items ?q = add_mset (hp_arr ?q ! nat ?i) M" "heap_items (?q\<lparr>hp_arr := (hp_arr ?q)[nat ?i := ?e]\<rparr>) = add_mset ?e M"
    by blast
  show ?thesis
    using cases False i assms M by (auto simp: Let_def pool_wf_def heap_wf_def split: if_splits)
qed

lemma send_round_returns:
  assumes "pool_wf p" "rnd < 2 ^ 31"
  shows "\<exists>p' placed. poission_send_round p rnd packet = Some (p', placed)"
proof (cases "hp_n (po_pool_queue p) = 0")
  case False
  have "uint rnd < 2 ^ 31" using assms(2) unfolding word_less_def by simp
  then have "\<not> bit (uint rnd) 31" by (simp add: bit_iff_odd)
  then have "0 \<le> sint rnd" by (simp add: sint_uint)
  then have "0 \<le> sint rnd smod int (hp_n (po_pool_queue p))" using False by (simp add: smod_int_compares(2))
  then show ?thesis using send_round_cases [OF assms(1), of rnd packet] False by (auto simp: Let_def not_less)
qed (auto simp: poission_send_round_def heap_size_def intro: exI [of _ False])

lemma run_ops_nonempty:
  "run_ops p ops = Some (p', ps) \<Longrightarrow> pool_wf p \<Longrightarrow> 0 < hp_n (po_pool_queue p) \<Longrightarrow>
     pool_wf p' \<and> 0 < hp_n (po_pool_queue p')"
proof (induction p ops arbitrary: ps rule: run_ops.induct)
  case (2 p rnd now ops)
  with generate_dummy_ok [of p rnd now] show ?case by (auto elim!: bind_SomeE)
next
  case (3 p rnd packet ops)
  then obtain p1 b ps' where "poission_send_round p rnd packet = Some (p1, b)" "run_ops p1 ops = Some (p', ps')"
    by (auto elim!: bind_SomeE)
  with 3 send_round_ok [of p rnd packet p1 b] show ?case by auto
qed simp

lemma pop_heap_front: "0 < hp_n h \<Longrightarrow> pop_heap lt h = Some (t, h') \<Longrightarrow> heap_front h = Some t"
  by (auto simp: pop_heap_def heap_front_def elim!: bind_SomeE)

subsection \<open>UniformPool loses nothing\<close>

fun uniform_items :: "uniform_pool \<Rightarrow> uniform_package multiset" where
  "uniform_items [] = {#}"
| "uniform_items ((j, h) # p) = heap_items h + uniform_items p"

definition uniform_wf :: "uniform_pool \<Rightarrow> bool" where
  "uniform_wf p \<longleftrightarrow> list_all (\<lambda>(j, h). heap_wf h) p"

abbreviation parcel :: "uniform_package \<Rightarrow> ip_addr \<times> int \<times> anonymous_packet option" where
  "parcel g \<equiv> (up_ip g, up_port g, up_packet g)"

lemma heap_items_Heap [simp]: "heap_items (Heap init) = {#}" "heap_wf (Heap init)"
  by (simp_all add: Heap_def heap_items_def heap_wf_def)

lemma uniform_slot_insert:
  "uniform_slot p k (\<lambda>h. heap_insert lt h g) init = Some p' \<Longrightarrow> uniform_wf p \<Longrightarrow>
     uniform_wf p' \<and> uniform_items p' = add_mset g (uniform_items p)"
proof (induction p k "\<lambda>h. heap_insert lt h g" init arbitrary: p' rule: uniform_slot.induct)
  case (1 k init)
  then show ?case using heap_insert_ok [of "Heap init" lt g] by (auto simp: uniform_wf_def elim!: bind_SomeE)
next
  case (2 j h p k init)
  then show ?case using heap_insert_ok [of "Heap init" lt g] heap_insert_ok [of h lt g]
    by (auto simp: uniform_wf_def split: if_splits elim!: bind_SomeE)
qed

text \<open>A message accepted by \<open>send\<close> waits in the pool, and a batch sends one message of every finger that
  has one and keeps the others.\<close>

lemma uniform_send_keeps:
  assumes "uniform_send init fingers p rnd finger_id packet = Some p'" "uniform_wf p"
  shows "uniform_wf p' \<and> image_mset up_packet (uniform_items p') =
    add_mset (Some packet) (image_mset up_packet (uniform_items p))"
  using assms uniform_slot_insert by (fastforce simp: uniform_send_def Let_def elim!: bind_SomeE)

lemma uniform_batch_conserves:
  "uniform_wf p \<Longrightarrow> \<exists>p' out. uniform_send_batch p = Some (p', out) \<and> uniform_wf p' \<and>
     image_mset parcel (uniform_items p) = image_mset parcel (uniform_items p') + mset out \<and>
     length out = length (filter (\<lambda>(j, h). heap_size h \<noteq> 0) p)"
proof (induction p)
  case (Cons x p)
  obtain j h where x: "x = (j, h)" by (cases x)
  with Cons obtain p' out where p': "uniform_send_batch p = Some (p', out)" "uniform_wf p'"
      "image_mset parcel (uniform_items p) = image_mset parcel (uniform_items p') + mset out"
      "length out = length (filter (\<lambda>(j, h). heap_size h \<noteq> 0) p)"
    by (auto simp: uniform_wf_def)
  show ?case
  proof (cases "hp_n h = 0")
    case True
    with p' x Cons.prems show ?thesis by (simp add: uniform_wf_def heap_size_def)
  next
    case False
    have wf: "heap_wf h" using Cons.prems x by (simp add: uniform_wf_def)
    obtain g h' where pop: "pop_heap uniform_package_less h = Some (g, h')"
      using pop_heap_returns [OF wf, of uniform_package_less] False by auto
    from pop_heap_ok [OF wf _ pop] False p' x pop show ?thesis by (simp add: uniform_wf_def heap_size_def)
  qed
qed (simp add: uniform_wf_def)

subsection \<open>Properties\<close>

text \<open>
  C26. The Poisson pool loses no packet that \<open>send\<close> placed: whatever dummies are generated and whatever rounds of \<open>send\<close>
  run, in any order and for all 32-bit random numbers, either all of them stay within the array of 1024 entries and
  the packets waiting afterwards are those that waited before together with those placed, or some round of \<open>send\<close> had
  drawn a number of at least \<open>2 ^ 31\<close> (which becomes negative) and read before the array.
\<close>

theorem poission_conserves:
  assumes "pool_wf p"
  shows "case run_ops p ops of
      Some (p', placed) \<Rightarrow> pool_wf p' \<and> payloads (pool_items_of p') = payloads (pool_items_of p) + mset placed
    | None \<Rightarrow> \<exists>rnd packet. TrySend rnd packet \<in> set ops \<and> 2 ^ 31 \<le> rnd"
  using assms
proof (induction ops arbitrary: p)
  case (Cons op ops)
  show ?case
  proof (cases op)
    case (Generate rnd now)
    from generate_dummy_ok [OF Cons.prems(1), of rnd now] obtain p' where
      g: "generate_dummy p rnd now = Some p'" "pool_wf p'" "payloads (pool_items_of p') = payloads (pool_items_of p)"
      by blast
    with Cons.IH [of p'] Generate show ?thesis by (auto split: option.splits)
  next
    case (TrySend rnd packet)
    show ?thesis
    proof (cases "poission_send_round p rnd packet")
      case None
      then have "2 ^ 31 \<le> rnd" using send_round_returns [OF Cons.prems(1), of rnd packet] by (auto simp: not_less [symmetric])
      then show ?thesis using None TrySend by auto
    next
      case (Some r)
      obtain p' placed where s: "poission_send_round p rnd packet = Some (p', placed)" using Some by (cases r) simp
      note ok = send_round_ok [OF Cons.prems(1) s]
      show ?thesis using Cons.IH [OF conjunct1 [OF ok]] ok s TrySend by (cases "run_ops p' ops") auto
    qed
  qed
qed simp

text \<open>
  \<open>PoissionPool::send\<close> turns a 32-bit random number into an \<open>int\<close> and uses its remainder as index:
  a round on a non-empty pool reads outside the array exactly when the remainder is negative, which
  happens for numbers from \<open>2 ^ 31\<close> on.
\<close>

theorem poission_send_unchecked:
  assumes "pool_wf p" "0 < hp_n (po_pool_queue p)"
  shows "poission_send_round p rnd packet = None \<longleftrightarrow> sint rnd smod int (hp_n (po_pool_queue p)) < 0"
  using send_round_cases [OF assms] by (simp add: Let_def)

text \<open>The deadline at the front never moves back, whatever the other threads do.\<close>

lemma heap_up_front:
  "i < length arr \<Longrightarrow> pool_packet_less t (arr ! 0) \<or> heap_up pool_packet_less t arr i ! 0 = arr ! 0 \<or> i = 0"
proof (induction pool_packet_less t arr i rule: heap_up.induct)
  case (1 t arr i)
  show ?case
  proof (cases "0 < i \<and> pool_packet_less t (arr ! (i div 2))")
    case True
    let ?arr = "arr[i := arr ! (i div 2)]"
    have up: "heap_up pool_packet_less t arr i = heap_up pool_packet_less t ?arr (i div 2)"
      using True by (subst heap_up.simps) simp
    have z: "?arr ! 0 = arr ! 0" using True by simp
    show ?thesis using 1(1) [OF True] 1(2) True up z by (cases "i div 2 = 0") auto
  next
    case False
    then show ?thesis by (subst heap_up.simps) auto
  qed
qed

lemma update_front: "arr \<noteq> [] \<Longrightarrow> arr[i := t] ! 0 = (if i = 0 then t else arr ! 0)"
  by (cases arr; cases i) auto

lemma heap_up_root: "heap_up lt t arr i ! 0 \<in> {t, arr ! 0} \<or> arr = []"
proof (induction lt t arr i rule: heap_up.induct)
  case (1 lt t arr i)
  then show ?case by (subst heap_up.simps) (auto simp: update_front)
qed

abbreviation deadline :: "poission_pool \<Rightarrow> int" where
  "deadline p \<equiv> compute_delay (pp_delay (hp_arr (po_pool_queue p) ! 0))"

lemma generate_front:
  assumes "pool_wf p" "0 < hp_n (po_pool_queue p)" "generate_dummy p rnd now = Some p'"
  shows "deadline p' \<le> deadline p"
proof (cases "heap_size (po_pool_queue p) \<ge> pool_queue_size")
  case False
  let ?q = "po_pool_queue p"
  obtain t q where q: "heap_insert pool_packet_less ?q t = Some q" "p' = p\<lparr>po_pool_queue := q\<rparr>"
    using assms(3) False by (auto simp: generate_dummy_def Let_def elim!: bind_SomeE)
  then have n: "hp_n ?q < length (hp_arr ?q)" "hp_arr q = heap_up pool_packet_less t (hp_arr ?q) (hp_n ?q)"
    by (auto simp: heap_insert_def split: if_splits)
  have "hp_arr q ! 0 \<in> {t, hp_arr ?q ! 0}" using heap_up_root [of pool_packet_less t "hp_arr ?q" "hp_n ?q"] n by auto
  then show ?thesis using heap_up_front [OF n(1), of t] n(2) assms(2) q(2) by (auto simp: pool_packet_less_def)
qed (use assms(3) in \<open>auto simp: generate_dummy_def Let_def\<close>)

lemma send_round_front:
  assumes "pool_wf p" "0 < hp_n (po_pool_queue p)" "poission_send_round p rnd packet = Some (p', placed)"
  shows "deadline p' = deadline p"
proof -
  have "hp_arr (po_pool_queue p) \<noteq> []" using assms(1) by (auto simp: pool_wf_def pool_queue_size_def)
  then show ?thesis
    using send_round_cases [OF assms(1,2), of rnd packet] assms(3)
    by (auto simp: Let_def update_front split: if_splits)
qed

lemma run_ops_front:
  "run_ops p ops = Some (p', ps) \<Longrightarrow> pool_wf p \<Longrightarrow> 0 < hp_n (po_pool_queue p) \<Longrightarrow> deadline p' \<le> deadline p"
proof (induction p ops arbitrary: ps rule: run_ops.induct)
  case (2 p rnd now ops)
  then obtain p1 where p1: "generate_dummy p rnd now = Some p1" "run_ops p1 ops = Some (p', ps)" by (auto elim!: bind_SomeE)
  then have "pool_wf p1" "0 < hp_n (po_pool_queue p1)" using generate_dummy_ok [OF 2(3), of rnd now] by auto
  then show ?case using 2(1) [OF p1] generate_front [OF 2(3,4) p1(1)] by linarith
next
  case (3 p rnd packet ops)
  then obtain p1 b ps' where p1: "poission_send_round p rnd packet = Some (p1, b)" "run_ops p1 ops = Some (p', ps')"
    by (auto elim!: bind_SomeE)
  then have w: "pool_wf p1" "0 < hp_n (po_pool_queue p1)" using send_round_ok [OF 3(3) p1(1)] 3(4) by auto
  have "deadline p' \<le> deadline p1" using 3(1) [OF p1(1) refl p1(2) w] .
  then show ?case using send_round_front [OF 3(3,4) p1(1)] by simp
qed simp

lemma run_ops_append:
  "run_ops p (as @ bs) = do { (p1, ps) \<leftarrow> run_ops p as; (p2, qs) \<leftarrow> run_ops p1 bs; Some (p2, ps @ qs) }"
proof (induction p as rule: run_ops.induct)
  case (1 p)
  then show ?case by (cases "run_ops p bs") auto
next
  case (2 p rnd now ops)
  then show ?case by (cases "generate_dummy p rnd now") auto
next
  case (3 p rnd packet ops)
  then show ?case by (cases "poission_send_round p rnd packet") (auto split: bind_splits)
qed

text \<open>
  C27. While the pool is not empty no packet is fetched before its deadline: when \<open>sync_fetch\<close> returns from a pool that
  was not empty at the start, it has waited for some number of rounds and then read a time; the pool in which it pops
  is the one the other threads made of the first while it waited and after it released the mutex, and what it gives back
  is the packet of an entry it takes out of that pool, whose deadline is not after the time it read.
\<close>

theorem fetch_after_deadline:
  assumes "pool_wf p" "0 < hp_n (po_pool_queue p)" "sync_fetch late p rounds = Some (Some (pk, p'))"
  shows "\<exists>k p1 ps t. k < length rounds \<and> run_ops p (concat (map snd (take k rounds)) @ late) = Some (p1, ps) \<and>
    pool_items_of p1 = add_mset t (pool_items_of p') \<and> pk = pp_packet t \<and>
    compute_delay (pp_delay t) \<le> compute_delay (fst (rounds ! k))"
  using assms
proof (induction rounds arbitrary: p)
  case (Cons r rounds)
  obtain now others where r: "r = (now, others)" by (cases r)
  let ?q = "po_pool_queue p"
  obtain f where f: "heap_front ?q = Some f" using Cons.prems(3) r by (auto elim!: bind_SomeE)
  then have f0: "f = hp_arr ?q ! 0" by (auto simp: heap_front_def arr_get_def split: if_splits)
  show ?case
  proof (cases "compute_delay now < compute_delay (pp_delay f)")
    case True
    then obtain p0 ps0 where run: "run_ops p others = Some (p0, ps0)" "sync_fetch late p0 rounds = Some (Some (pk, p'))"
      using Cons.prems(3) f r by (auto elim!: bind_SomeE)
    note ne = run_ops_nonempty [OF run(1) Cons.prems(1,2)]
    obtain k p1 ps t where k: "k < length rounds" "run_ops p0 (concat (map snd (take k rounds)) @ late) = Some (p1, ps)"
      "pool_items_of p1 = add_mset t (pool_items_of p')" "pk = pp_packet t"
      "compute_delay (pp_delay t) \<le> compute_delay (fst (rounds ! k))"
      using Cons.IH [OF conjunct1 [OF ne] conjunct2 [OF ne] run(2)] by blast
    have "concat (map snd (take (Suc k) (r # rounds))) @ late = others @ (concat (map snd (take k rounds)) @ late)"
      using r by simp
    then have "run_ops p (concat (map snd (take (Suc k) (r # rounds))) @ late) = Some (p1, ps0 @ ps)"
      using run(1) k(2) by (simp only: run_ops_append [of p others]) simp
    then show ?thesis using k by (intro exI [of _ "Suc k"] exI [of _ p1] exI [of _ "ps0 @ ps"] exI [of _ t]) simp
  next
    case False
    then obtain p1 ps t q where l: "run_ops p late = Some (p1, ps)"
      and pop: "pop_heap pool_packet_less (po_pool_queue p1) = Some (t, q)" "pk = pp_packet t" "p' = p1\<lparr>po_pool_queue := q\<rparr>"
      using Cons.prems(2,3) f r by (auto simp: heap_size_def elim!: bind_SomeE)
    have w: "pool_wf p1" "0 < hp_n (po_pool_queue p1)" using run_ops_nonempty [OF l Cons.prems(1,2)] by auto
    then have hw: "heap_wf (po_pool_queue p1)" by (simp add: pool_wf_def)
    note ok = pop_heap_ok [OF hw w(2) pop(1)]
    have "compute_delay (pp_delay t) \<le> compute_delay now"
      using run_ops_front [OF l Cons.prems(1,2)] ok f0 False by simp
    then show ?thesis using l ok pop r by (intro exI [of _ 0] exI [of _ p1] exI [of _ ps] exI [of _ t]) simp
  qed
qed simp

text \<open>
  The deadline is ignored after the pool was empty: the delay is computed from the stale entry at position 0
  before the wait, so the first dummy is fetched at once, however far its deadline is.
\<close>

theorem fetch_ignores_deadline_when_empty:
  assumes "pool_wf p" "hp_n (po_pool_queue p) = 0" "compute_delay (pp_delay (hp_arr (po_pool_queue p) ! 0)) \<le> compute_delay now"
  shows "\<exists>p'. sync_fetch [] p [(now, [Generate rnd later])] = Some (Some (None, p'))"
proof -
  let ?q = "po_pool_queue p"
  let ?e = "\<lparr>pp_delay = add_usec later (uint (rnd mod 1000) * po_lambda p), pp_is_dummy = True, pp_packet = None\<rparr>"
  have len: "0 < length (hp_arr ?q)" using assms(1) by (simp add: pool_wf_def pool_queue_size_def)
  then have front: "heap_front ?q = Some (hp_arr ?q ! 0)" by (simp add: heap_front_def arr_get_def)
  have "generate_dummy p rnd later = Some (p\<lparr>po_pool_queue := \<lparr>hp_arr = (hp_arr ?q)[0 := ?e], hp_n = 1\<rparr>\<rparr>)"
    using assms(2) len
    by (simp add: generate_dummy_def Let_def heap_insert_def heap_up.simps heap_size_def pool_queue_size_def)
  with front assms(2,3) len show ?thesis by (simp add: pop_heap_def arr_get_def heap_size_def Let_def)
qed

subsection \<open>Examples\<close>

definition sample_entry :: pool_packet where
  "sample_entry = \<lparr>pp_delay = (0, 0), pp_is_dummy = True, pp_packet = None\<rparr>"

text \<open>A pool after its first dummy, due at one second and 70 microseconds.\<close>

definition sample_pool :: poission_pool where
  "sample_pool = \<lparr>po_lambda = 10, po_pool_queue =
     \<lparr>hp_arr = sample_entry\<lparr>pp_delay := (1, 70)\<rparr> # replicate 1023 sample_entry, hp_n = 1\<rparr>\<rparr>"

lemma sample_pool_wf: "pool_wf sample_pool" "0 < hp_n (po_pool_queue sample_pool)"
  by (simp_all add: pool_wf_def sample_pool_def heap_wf_def heap_items_def pool_queue_size_def sample_entry_def
        PoissionPool_def)

theorem poission_conserves_witness:
  "case run_ops sample_pool [TrySend 7 sample_mem, Generate 3 (1, 0)] of
      Some (p', placed) \<Rightarrow> pool_wf p' \<and> payloads (pool_items_of p') = payloads (pool_items_of sample_pool) + mset placed
    | None \<Rightarrow> \<exists>rnd packet. TrySend rnd packet \<in> set [TrySend 7 sample_mem, Generate 3 (1, 0)] \<and> 2 ^ 31 \<le> rnd"
  by (rule poission_conserves [OF sample_pool_wf(1)])

theorem poission_send_unchecked_witness:
  "\<exists>p. pool_wf p \<and> (poission_send_round p 0xffffffff sample_mem = None) = (- 1 smod int (hp_n (po_pool_queue p)) < 0)"
  using poission_send_unchecked [OF sample_pool_wf, of "0xffffffff" sample_mem] sample_pool_wf by auto

theorem fetch_after_deadline_witness:
  "\<exists>p' k p1 ps t. sync_fetch [] sample_pool [((1, 0), []), ((1, 80), [])] = Some (Some (None, p')) \<and>
     k < 2 \<and> run_ops sample_pool [] = Some (p1, ps) \<and> pool_items_of p1 = add_mset t (pool_items_of p') \<and>
     compute_delay (pp_delay t) \<le> compute_delay (fst ([((1, 0), [] :: poission_op list), ((1, 80), [])] ! k))"
proof -
  let ?rounds = "[((1, 0), []), ((1, 80), [])] :: ((int \<times> int) \<times> poission_op list) list"
  have "\<exists>p'. sync_fetch [] sample_pool ?rounds = Some (Some (None, p'))"
    by (simp add: sample_pool_def sample_entry_def heap_front_def heap_size_def arr_get_def compute_delay_def
          pop_heap_def Let_def)
  then obtain p' where p': "sync_fetch [] sample_pool ?rounds = Some (Some (None, p'))" ..
  obtain k p1 ps t where k: "k < length ?rounds" "run_ops sample_pool (concat (map snd (take k ?rounds)) @ []) = Some (p1, ps)"
    "pool_items_of p1 = add_mset t (pool_items_of p')" "compute_delay (pp_delay t) \<le> compute_delay (fst (?rounds ! k))"
    using fetch_after_deadline [OF sample_pool_wf p'] by blast
  have none: "concat (map snd (take k ?rounds)) @ [] = []" using k(1) by (cases k) (auto simp: less_Suc_eq)
  have "k < 2" using k(1) by simp
  then show ?thesis using p' k(2-4) unfolding none by blast
qed

end
