(* ===== verification/Neighbours.thy ===== *)
theory Neighbours
  imports Prelude
begin

text \<open>
  Bounded ordered arrays: the template OrderedVector and the set of neighbouring relays NeighbouringSet, which
  repeats its code for relays (src/src/utils), with the comparison operators of relays of
  src/src/relay/SocketHeader.cpp. The loops take the operators \<open><\<close> and \<open>>\<close> as two arguments, since
  for relays they are not converses of each other. Undefined behaviour is \<open>None\<close>.
\<close>

subsection \<open>Loops\<close>

text \<open>Insertion into an array with room, from position \<open>i\<close> downwards.\<close>

fun shift_insert :: "('a \<Rightarrow> 'a \<Rightarrow> bool) \<Rightarrow> ('a \<Rightarrow> 'a \<Rightarrow> bool) \<Rightarrow> 'a \<Rightarrow> nat \<Rightarrow> 'a list \<Rightarrow> nat \<Rightarrow> 'a list" where
  "shift_insert lt gt t n arr 0 = arr[0 := t]"
| "shift_insert lt gt t n arr (Suc i) =
     (if gt t (arr ! i) \<and> (lt t (arr ! Suc i) \<or> n \<le> Suc i) then arr[Suc i := t]
      else shift_insert lt gt t n (arr[Suc i := arr ! i]) i)"

text \<open>Insertion into a full array, moving elements up. The result is the array and the element erased
  from the set: the new one when a place was found, for the code erases after it has overwritten.\<close>

fun full_up :: "('a \<Rightarrow> 'a \<Rightarrow> bool) \<Rightarrow> ('a \<Rightarrow> 'a \<Rightarrow> bool) \<Rightarrow> 'a \<Rightarrow> 'a list \<Rightarrow> nat \<Rightarrow> 'a list \<times> 'a" where
  "full_up lt gt t arr 0 = (arr[0 := t], arr ! 0)"
| "full_up lt gt t arr (Suc i) =
     (if gt t (arr ! i) \<and> lt t (arr ! Suc i) then (arr[Suc i := t], t)
      else full_up lt gt t (arr[Suc i := arr ! i]) i)"

text \<open>The same moving elements down; \<open>k\<close> rounds are left and \<open>m\<close> is the last position.\<close>

fun full_down :: "('a \<Rightarrow> 'a \<Rightarrow> bool) \<Rightarrow> ('a \<Rightarrow> 'a \<Rightarrow> bool) \<Rightarrow> 'a \<Rightarrow> nat \<Rightarrow> 'a list \<Rightarrow> nat \<Rightarrow> 'a list \<times> 'a" where
  "full_down lt gt t m arr 0 = (arr[m := t], arr ! m)"
| "full_down lt gt t m arr (Suc k) =
     (let i = m - Suc k
      in if gt t (arr ! i) \<and> lt t (arr ! Suc i) then (arr[i := t], t)
         else full_down lt gt t m (arr[i := arr ! Suc i]) k)"

text \<open>The last position between two neighbours, 0 if there is none.\<close>

fun found_at :: "('a \<Rightarrow> 'a \<Rightarrow> bool) \<Rightarrow> ('a \<Rightarrow> 'a \<Rightarrow> bool) \<Rightarrow> 'a \<Rightarrow> 'a list \<Rightarrow> nat \<Rightarrow> nat" where
  "found_at lt gt t arr 0 = 0"
| "found_at lt gt t arr (Suc i) =
     (if gt t (arr ! i) \<and> lt t (arr ! Suc i) then i else found_at lt gt t arr i)"

text \<open>The window: its offset in the array and its size.\<close>

definition window :: "int \<Rightarrow> int \<Rightarrow> int \<Rightarrow> int \<times> int" where
  "window found n sz =
     (if found + 1 + sz div 2 > n then let s = min sz n in (n - s, s)
      else if found + 1 - sz div 2 < 0 then (0, min sz n)
      else (found + 1 - sz div 2, sz))"

subsection \<open>OrderedVector\<close>

record 'a ordered_vector =
  ov_arr :: "'a list"
  ov_n :: nat
  ov_c_less :: int
  ov_c_large :: int
  ov_mid :: 'a
  ov_set :: "'a set"

definition ov_max_num :: "'a ordered_vector \<Rightarrow> nat" where
  "ov_max_num v = length (ov_arr v)"

text \<open>\<open>init\<close> are the elements of the new array.\<close>

definition OrderedVector :: "'a list \<Rightarrow> 'a \<Rightarrow> 'a ordered_vector" where
  "OrderedVector init mid = \<lparr>ov_arr = init, ov_n = 0, ov_c_less = 0, ov_c_large = 0, ov_mid = mid, ov_set = {}\<rparr>"

definition ov_insert_full :: "'a :: linorder ordered_vector \<Rightarrow> 'a \<Rightarrow> 'a ordered_vector option" where
  "ov_insert_full v t =
     (let arr = ov_arr v; m = ov_max_num v
      in if m = 0 then None
         else if ov_c_large v \<ge> ov_c_less v \<and> t > arr ! (m - 1) then Some v
         else if ov_c_less v \<ge> ov_c_large v \<and> t < arr ! 0 then Some v
         else let c_large = ov_c_large v + (if t > ov_mid v then 1 else 0);
                  c_less = ov_c_less v + (if t > ov_mid v then 0 else 1);
                  large = c_large > c_less;
                  (arr', erased) = (if large then full_up (<) (>) t arr (m - 1) else full_down (<) (>) t (m - 1) arr (m - 1))
              in Some (v\<lparr>ov_arr := arr', ov_set := insert t (ov_set v) - {erased},
                         ov_c_large := c_large - (if large then 1 else 0),
                         ov_c_less := c_less - (if large then 0 else 1)\<rparr>))"

definition ov_insert_room :: "'a :: linorder ordered_vector \<Rightarrow> 'a \<Rightarrow> 'a ordered_vector" where
  "ov_insert_room v t =
     v\<lparr>ov_arr := shift_insert (<) (>) t (ov_n v) (ov_arr v) (ov_n v),
       ov_c_large := ov_c_large v + (if t > ov_mid v then 1 else 0),
       ov_c_less := ov_c_less v + (if \<not> t > ov_mid v \<and> t < ov_mid v then 1 else 0),
       ov_n := ov_n v + 1\<rparr>"

definition ov_insert :: "'a :: linorder ordered_vector \<Rightarrow> 'a \<Rightarrow> 'a ordered_vector option" where
  "ov_insert v t = (if ov_n v \<ge> ov_max_num v then ov_insert_full v t else Some (ov_insert_room v t))"

definition ov_near_neighbour :: "'a :: linorder ordered_vector \<Rightarrow> 'a \<Rightarrow> int \<Rightarrow> (int \<times> int) option" where
  "ov_near_neighbour v t sz = do {
     a0 \<leftarrow> arr_get (ov_arr v) 0;
     if t \<le> a0 then Some (0, min sz (int (ov_n v)))
     else do {
       al \<leftarrow> arr_get (ov_arr v) (int (ov_n v) - 1);
       if t \<ge> al then Some (int (ov_n v) - min sz (int (ov_n v)), min sz (int (ov_n v)))
       else Some (window (int (found_at (<) (>) t (ov_arr v) (ov_n v - 1))) (int (ov_n v)) sz) } }"

subsection \<open>Relays\<close>

text \<open>\<open>ht_sock\<close> is the address and port of the socket address, in host order.\<close>

record host_port =
  ht_host :: string
  ht_port :: int
  ht_relay_id :: u64
  ht_sock :: "u32 \<times> 16 word"

definition host_lt :: "host_port \<Rightarrow> host_port \<Rightarrow> bool" where
  "host_lt a b = (ht_relay_id a < ht_relay_id b)"

definition host_gt :: "host_port \<Rightarrow> host_port \<Rightarrow> bool" where
  "host_gt a b = (ht_relay_id a < ht_relay_id b)"

definition host_le :: "host_port \<Rightarrow> host_port \<Rightarrow> bool" where
  "host_le a b = (ht_relay_id a \<le> ht_relay_id b)"

definition host_ge :: "host_port \<Rightarrow> host_port \<Rightarrow> bool" where
  "host_ge a b = (ht_relay_id a \<le> ht_relay_id b)"

subsection \<open>NeighbouringSet\<close>

record neighbouring_set =
  ns_arr :: "host_port list"
  ns_n :: nat
  ns_c_less :: int
  ns_c_large :: int
  ns_mid :: host_port
  ns_set :: "u64 set"

definition MAX_SET :: nat where "MAX_SET = 20"

definition ns_init :: "host_port list \<Rightarrow> host_port \<Rightarrow> neighbouring_set" where
  "ns_init init relay_host =
     \<lparr>ns_arr = init, ns_n = 0, ns_c_less = 0, ns_c_large = 0, ns_mid = relay_host, ns_set = {}\<rparr>"

definition ns_insert_full :: "neighbouring_set \<Rightarrow> host_port \<Rightarrow> neighbouring_set" where
  "ns_insert_full s t =
     (let arr = ns_arr s
      in if ns_c_large s \<ge> ns_c_less s \<and> host_gt t (arr ! (MAX_SET - 1)) then s
         else if ns_c_less s \<ge> ns_c_large s \<and> host_lt t (arr ! 0) then s
         else let c_large = ns_c_large s + (if host_gt t (ns_mid s) then 1 else 0);
                  c_less = ns_c_less s + (if host_gt t (ns_mid s) then 0 else 1);
                  large = c_large > c_less;
                  (arr', erased) = (if large then full_up host_lt host_gt t arr (MAX_SET - 1)
                                    else full_down host_lt host_gt t (MAX_SET - 1) arr (MAX_SET - 1))
              in s\<lparr>ns_arr := arr', ns_set := insert (ht_relay_id t) (ns_set s) - {ht_relay_id erased},
                   ns_c_large := c_large - (if large then 1 else 0),
                   ns_c_less := c_less - (if large then 0 else 1)\<rparr>)"

definition ns_insert_room :: "neighbouring_set \<Rightarrow> host_port \<Rightarrow> neighbouring_set" where
  "ns_insert_room s t =
     s\<lparr>ns_arr := shift_insert host_lt host_gt t (ns_n s) (ns_arr s) (ns_n s),
       ns_c_large := ns_c_large s + (if host_gt t (ns_mid s) then 1 else 0),
       ns_c_less := ns_c_less s + (if \<not> host_gt t (ns_mid s) \<and> host_lt t (ns_mid s) then 1 else 0),
       ns_n := ns_n s + 1\<rparr>"

definition ns_insert :: "neighbouring_set \<Rightarrow> host_port \<Rightarrow> neighbouring_set" where
  "ns_insert s t = (if ns_n s \<ge> MAX_SET then ns_insert_full s t else ns_insert_room s t)"

definition add_neighbor :: "neighbouring_set \<Rightarrow> host_port \<Rightarrow> neighbouring_set" where
  "add_neighbor s host =
     (if ht_relay_id host \<in> ns_set s then s
      else let s' = ns_insert s host in s'\<lparr>ns_set := insert (ht_relay_id host) (ns_set s')\<rparr>)"

definition add_neighbor_ip :: "neighbouring_set \<Rightarrow> u32 \<Rightarrow> 16 word \<Rightarrow> u64 \<Rightarrow> neighbouring_set" where
  "add_neighbor_ip s ip port relay_id =
     (let host_port = \<lparr>ht_host = ''...'', ht_port = uint port, ht_relay_id = relay_id, ht_sock = (ip, port)\<rparr>
      in if relay_id \<in> ns_set s then s
         else let s' = ns_insert s host_port in s'\<lparr>ns_set := insert relay_id (ns_set s')\<rparr>)"

definition contain :: "neighbouring_set \<Rightarrow> u64 \<Rightarrow> bool" where
  "contain s i = (i \<in> ns_set s)"

definition ns_near_neighbour :: "neighbouring_set \<Rightarrow> host_port \<Rightarrow> int \<Rightarrow> (int \<times> int) option" where
  "ns_near_neighbour s t sz = do {
     a0 \<leftarrow> arr_get (ns_arr s) 0;
     if host_le t a0 then Some (0, min sz (int (ns_n s)))
     else do {
       al \<leftarrow> arr_get (ns_arr s) (int (ns_n s) - 1);
       if host_ge t al then Some (int (ns_n s) - min sz (int (ns_n s)), min sz (int (ns_n s)))
       else Some (window (int (found_at host_lt host_gt t (ns_arr s) (ns_n s - 1))) (int (ns_n s)) sz) } }"

definition random_neighbor :: "neighbouring_set \<Rightarrow> u32 \<Rightarrow> host_port option" where
  "random_neighbor s rnd =
     (if ns_n s = 0 then None else arr_get (ns_arr s) (uint rnd mod int (ns_n s)))"

definition random_near_neighbor :: "neighbouring_set \<Rightarrow> u32 \<Rightarrow> u64 \<Rightarrow> host_port option" where
  "random_near_neighbor s rnd relay_id = do {
     (off, sz) \<leftarrow> ns_near_neighbour s \<lparr>ht_host = [], ht_port = 100, ht_relay_id = relay_id, ht_sock = (0, 0)\<rparr> 20;
     if sz = 0 then None else arr_get (ns_arr s) (off + uint rnd mod sz) }"

subsection \<open>Insertion with room\<close>

lemma length_shift_insert [simp]: "length (shift_insert lt gt t n arr i) = length arr"
  by (induction i arbitrary: arr) auto

lemma take_shift_insert: "i < k \<Longrightarrow> take k (shift_insert lt gt t n arr i) = shift_insert lt gt t n (take k arr) i"
  by (induction i arbitrary: arr) (auto simp: take_update_swap)

lemma shift_insert_above: "i < j \<Longrightarrow> shift_insert lt gt t n arr i ! j = arr ! j"
  by (induction i arbitrary: arr) auto

lemma mset_shift_insert: "i < length arr \<Longrightarrow> mset (shift_insert lt gt t n arr i) = mset (arr[i := t])"
proof (induction i arbitrary: arr)
  case (Suc i)
  then show ?case using mset_move [of "Suc i" arr i t] by simp
qed simp

lemma mset_shift_insert_room:
  assumes "n < length arr"
  shows "mset (take (Suc n) (shift_insert lt gt t n arr n)) = add_mset t (mset (take n arr))"
  using assms by (simp add: take_shift_insert mset_shift_insert take_Suc_conv_app_nth list_update_append)

lemma insort_snoc: "t < y \<Longrightarrow> insort t (xs @ [y]) = insort t xs @ [y]" for t :: "'a :: linorder"
  by (induction xs) auto

text \<open>With a linear order the loop is insertion into a sorted list.\<close>

lemma shift_insert_insort:
  fixes t :: "'a :: linorder"
  assumes "i < length arr" "sorted (take i arr)" "t \<notin> set (take i arr)" "n \<le> i \<or> t < arr ! i"
  shows "take (Suc i) (shift_insert (<) (>) t n arr i) = insort t (take i arr)"
  using assms
proof (induction i arbitrary: arr)
  case (Suc i)
  have snoc: "take (Suc i) arr = take i arr @ [arr ! i]" using Suc.prems(1) by (simp add: take_Suc_conv_app_nth)
  show ?case
  proof (cases "arr ! i < t")
    case True
    have "\<forall>x \<in> set (take (Suc i) arr). x \<le> t"
      using Suc.prems(2) True unfolding snoc by (auto simp: sorted_append)
    then have "insort t (take (Suc i) arr) = take (Suc i) arr @ [t]" by (rule sorted_insort_is_snoc [OF Suc.prems(2)])
    with True Suc.prems(1,4) show ?thesis by (auto simp: take_Suc_conv_app_nth [of "Suc i"])
  next
    case False
    then have lt: "t < arr ! i" using Suc.prems(3) snoc by auto
    let ?arr = "arr[Suc i := arr ! i]"
    have "take (Suc i) (shift_insert (<) (>) t n ?arr i) = insort t (take i ?arr)"
      using Suc.prems lt snoc by (intro Suc.IH) (auto simp: sorted_append)
    moreover have "shift_insert (<) (>) t n ?arr i ! Suc i = arr ! i" using Suc.prems(1) by (simp add: shift_insert_above)
    ultimately show ?thesis
      using False Suc.prems(1) lt
      by (simp add: take_Suc_conv_app_nth [of "Suc i" "shift_insert (<) (>) t n ?arr i"] snoc insort_snoc)
  qed
qed (simp add: take_Suc_conv_app_nth)

fun ov_insert_all :: "'a :: linorder ordered_vector \<Rightarrow> 'a list \<Rightarrow> 'a ordered_vector option" where
  "ov_insert_all v [] = Some v"
| "ov_insert_all v (t # ts) = do { v' \<leftarrow> ov_insert v t; ov_insert_all v' ts }"

abbreviation ov_elems :: "'a ordered_vector \<Rightarrow> 'a list" where
  "ov_elems v \<equiv> take (ov_n v) (ov_arr v)"

lemma ov_insert_insort:
  assumes "ov_n v < ov_max_num v" "sorted (ov_elems v)" "t \<notin> set (ov_elems v)"
  shows "\<exists>v'. ov_insert v t = Some v' \<and> ov_elems v' = insort t (ov_elems v) \<and> ov_max_num v' = ov_max_num v \<and>
    ov_n v' = ov_n v + 1"
  using assms shift_insert_insort [of "ov_n v" "ov_arr v" t "ov_n v"]
  by (simp add: ov_insert_def ov_insert_room_def ov_max_num_def)

lemma ov_insert_all_sorts:
  assumes "ov_n v + length ts \<le> ov_max_num v" "sorted (ov_elems v)" "distinct (ts @ ov_elems v)"
  shows "\<exists>v'. ov_insert_all v ts = Some v' \<and> ov_elems v' = foldl (\<lambda>xs t. insort t xs) (ov_elems v) ts"
  using assms
proof (induction ts arbitrary: v)
  case (Cons t ts)
  then obtain v' where v': "ov_insert v t = Some v'" "ov_elems v' = insort t (ov_elems v)"
      "ov_max_num v' = ov_max_num v" "ov_n v' = ov_n v + 1"
    using ov_insert_insort [of v t] by auto
  with Cons.IH [of v'] Cons.prems show ?case by (simp add: sorted_insort set_insort_key distinct_insort)
qed simp

subsection \<open>Members of a NeighbouringSet\<close>

abbreviation ns_elems :: "neighbouring_set \<Rightarrow> host_port list" where
  "ns_elems s \<equiv> take (ns_n s) (ns_arr s)"

definition ns_inv :: "neighbouring_set \<Rightarrow> bool" where
  "ns_inv s \<longleftrightarrow> length (ns_arr s) = MAX_SET \<and> ns_n s \<le> MAX_SET \<and> distinct (map ht_relay_id (ns_elems s)) \<and>
     ns_set s = ht_relay_id ` set (ns_elems s)"

lemma ns_inv_init: "length init = MAX_SET \<Longrightarrow> ns_inv (ns_init init h)"
  by (simp add: ns_inv_def ns_init_def)

lemma add_neighbor_known: "ht_relay_id h \<in> ns_set s \<Longrightarrow> add_neighbor s h = s"
  by (simp add: add_neighbor_def)

lemma add_neighbor_room:
  assumes "ns_inv s" "ns_n s < MAX_SET"
  shows "ns_inv (add_neighbor s h) \<and> ns_set (add_neighbor s h) = insert (ht_relay_id h) (ns_set s) \<and>
    mset (ns_elems (add_neighbor s h)) = mset (ns_elems s) + (if ht_relay_id h \<in> ns_set s then {#} else {# h #})"
proof (cases "ht_relay_id h \<in> ns_set s")
  case True
  with assms show ?thesis by (auto simp: add_neighbor_def)
next
  case False
  let ?s = "add_neighbor s h"
  have elems: "mset (ns_elems ?s) = add_mset h (mset (ns_elems s))"
    using assms False mset_shift_insert_room [of "ns_n s" "ns_arr s"]
    by (simp add: add_neighbor_def ns_insert_def ns_insert_room_def Let_def ns_inv_def)
  then have "set (ns_elems ?s) = insert h (set (ns_elems s))" by (metis set_mset_add_mset_insert set_mset_mset)
  moreover have ids: "mset (map ht_relay_id (ns_elems ?s)) = mset (ht_relay_id h # map ht_relay_id (ns_elems s))"
    using elems by simp
  moreover have "distinct (map ht_relay_id (ns_elems ?s))"
    unfolding mset_eq_imp_distinct_iff [OF ids] using assms(1) False by (auto simp: ns_inv_def)
  ultimately show ?thesis using assms False elems
    by (simp add: add_neighbor_def ns_insert_def ns_insert_room_def Let_def ns_inv_def)
qed

lemma ns_inv_card: "ns_inv s \<Longrightarrow> card (ns_set s) = ns_n s"
  using distinct_card [of "map ht_relay_id (ns_elems s)"] by (simp add: ns_inv_def)

lemma foldl_add_neighbor:
  assumes "ns_inv s" "card (ns_set s \<union> ht_relay_id ` set hs) \<le> MAX_SET"
  shows "ns_inv (foldl add_neighbor s hs) \<and> ns_set (foldl add_neighbor s hs) = ns_set s \<union> ht_relay_id ` set hs"
  using assms
proof (induction hs arbitrary: s)
  case (Cons h hs)
  let ?s = "add_neighbor s h"
  let ?U = "ns_set s \<union> ht_relay_id ` set (h # hs)"
  have fin: "finite (ns_set s)" using Cons.prems(1) by (simp add: ns_inv_def)
  have "card (insert (ht_relay_id h) (ns_set s)) \<le> card ?U" using fin by (intro card_mono) auto
  then have "ht_relay_id h \<in> ns_set s \<or> card (ns_set s) < MAX_SET" using Cons.prems(2) fin
    by (cases "ht_relay_id h \<in> ns_set s") simp_all
  then have "ns_inv ?s \<and> ns_set ?s = insert (ht_relay_id h) (ns_set s)"
    using add_neighbor_room [OF Cons.prems(1), of h] ns_inv_card [OF Cons.prems(1)] add_neighbor_known Cons.prems(1)
    by auto
  with Cons.IH [of ?s] Cons.prems(2) show ?case by simp
qed simp

lemma window_in_array:
  "0 < n \<Longrightarrow> window found n 20 = (off, sz) \<Longrightarrow> 0 < sz \<and> 0 \<le> off \<and> off + sz \<le> n"
  by (auto simp: window_def Let_def split: if_splits)

lemma near_neighbour_in_array:
  assumes "ns_inv s" "0 < ns_n s"
  shows "\<exists>off sz. ns_near_neighbour s t 20 = Some (off, sz) \<and> 0 < sz \<and> 0 \<le> off \<and> off + sz \<le> int (ns_n s)"
proof -
  have a: "arr_get (ns_arr s) 0 = Some (ns_arr s ! 0)" "arr_get (ns_arr s) (int (ns_n s) - 1) = Some (ns_arr s ! (ns_n s - 1))"
    using assms by (auto simp: arr_get_def ns_inv_def MAX_SET_def nat_diff_distrib)
  obtain off sz where w: "window (int (found_at host_lt host_gt t (ns_arr s) (ns_n s - 1))) (int (ns_n s)) 20 = (off, sz)"
    by fastforce
  from window_in_array [OF _ w] assms(2) a w show ?thesis by (auto simp: ns_near_neighbour_def)
qed

subsection \<open>Properties\<close>

text \<open>
  Over a linear order the vector sorts: inserting distinct elements into a new vector that has room
  for them returns, and the vector then holds them in increasing order.
\<close>

theorem ordered_vector_sorts:
  assumes "length ts \<le> length init" "distinct ts"
  shows "returns (ov_insert_all (OrderedVector init mid) ts) (\<lambda>v. ov_elems v = sort ts)"
proof -
  have "foldl (\<lambda>xs t. insort t xs) [] ts = sort ts"
    by (simp add: sort_conv_fold foldl_conv_fold)
  with ov_insert_all_sorts [of "OrderedVector init mid" ts] assms show ?thesis
    by (auto simp: OrderedVector_def ov_max_num_def returns_def)
qed

theorem ordered_vector_sorts_witness:
  "returns (ov_insert_all (OrderedVector [0, 0, 0 :: int] 50) [7, 9, 8]) (\<lambda>v. ov_elems v = [7, 8, 9])"
  using ordered_vector_sorts [of "[7, 9, 8 :: int]" "[0, 0, 0]" 50] by simp

text \<open>
  The set of neighbours is what was added: as long as no more than 20 different relays are
  added to a new set, \<open>contain\<close> holds of exactly their identifiers, the array holds one relay for each of
  them, and \<open>random_near_neighbor\<close> returns one of the relays of the array for every random number
  and every identifier, although the array need not be sorted.
\<close>

theorem neighbours_are_members:
  assumes "length init = MAX_SET" "card (ht_relay_id ` set hs) \<le> MAX_SET" "hs \<noteq> []"
  shows "let s = foldl add_neighbor (ns_init init me) hs
    in contain s i = (i \<in> ht_relay_id ` set hs) \<and> ns_n s = card (ht_relay_id ` set hs) \<and>
      distinct (map ht_relay_id (ns_elems s)) \<and> ht_relay_id ` set (ns_elems s) = ht_relay_id ` set hs \<and>
      returns (random_near_neighbor s rnd j) (\<lambda>h. h \<in> set (ns_elems s))"
proof -
  define s where "s = foldl add_neighbor (ns_init init me) hs"
  have inv: "ns_inv s" and st: "ns_set s = ht_relay_id ` set hs"
    using foldl_add_neighbor [OF ns_inv_init [OF assms(1)], of me hs] assms(2) by (simp_all add: s_def ns_init_def)
  have n: "ns_n s = card (ht_relay_id ` set hs)" using ns_inv_card [OF inv] st by simp
  then have pos: "0 < ns_n s" using assms(3) by (simp add: card_gt_0_iff)
  from near_neighbour_in_array [OF inv pos] obtain off sz where
    w: "ns_near_neighbour s \<lparr>ht_host = [], ht_port = 100, ht_relay_id = j, ht_sock = (0, 0)\<rparr> 20 = Some (off, sz)"
      "0 < sz" "0 \<le> off" "off + sz \<le> int (ns_n s)" by blast
  let ?k = "off + uint rnd mod sz"
  have k: "0 \<le> ?k" "?k < int (ns_n s)" using w pos_mod_bound [of sz "uint rnd"] pos_mod_sign [of sz "uint rnd"] by linarith+
  then have "nat ?k < ns_n s" "nat ?k < length (ns_arr s)" using inv by (auto simp: ns_inv_def)
  then have "ns_arr s ! nat ?k \<in> set (ns_elems s)" by (auto simp: in_set_conv_nth intro!: exI [of _ "nat ?k"])
  moreover have "random_near_neighbor s rnd j = Some (ns_arr s ! nat ?k)"
    using w k \<open>nat ?k < length (ns_arr s)\<close> by (simp add: random_near_neighbor_def arr_get_def)
  ultimately show ?thesis using inv st n by (simp add: contain_def ns_inv_def flip: s_def)
qed

definition sample_host :: "u64 \<Rightarrow> host_port" where
  "sample_host i = \<lparr>ht_host = ''10.0.0.1'', ht_port = 4000, ht_relay_id = i, ht_sock = (0, 4000)\<rparr>"

theorem neighbours_are_members_witness:
  "contain (foldl add_neighbor (ns_init (replicate 20 (sample_host 0)) (sample_host 9)) (map sample_host [5, 3, 5])) 3 \<and>
   ns_n (foldl add_neighbor (ns_init (replicate 20 (sample_host 0)) (sample_host 9)) (map sample_host [5, 3, 5])) = 2"
proof -
  have "ht_relay_id ` set (map sample_host [5, 3, 5]) = {5, 3}" by (simp add: sample_host_def insert_commute)
  moreover have "card {5, 3 :: u64} = 2" by simp
  ultimately show ?thesis
    using neighbours_are_members [of "replicate 20 (sample_host 0)" "map sample_host [5, 3, 5]" "sample_host 9" 3 0 0]
    unfolding Let_def by (simp add: MAX_SET_def)
qed

text \<open>
  The neighbours are not kept in order: \<open>operator>\<close> of relays is written with \<open><\<close>, so relays added in the
  order 5, 3, 4 are stored in the order 4, 5, 3.
\<close>

theorem neighbours_unsorted:
  "map ht_relay_id (ns_elems (foldl add_neighbor (ns_init (replicate 20 (sample_host 0)) (sample_host 9))
     (map sample_host [5, 3, 4]))) = [4, 5, 3] \<and> host_gt (sample_host 3) (sample_host 4)"
  by code_simp

text \<open>A relay that a full set rejects is reported as contained, and will never be added again.\<close>

theorem rejected_neighbour_contained:
  assumes "ns_inv s" "ns_n s = MAX_SET" "ht_relay_id h \<notin> ns_set s"
    "ns_c_less s \<ge> ns_c_large s" "host_lt h (ns_arr s ! 0)"
  shows "contain (add_neighbor s h) (ht_relay_id h) \<and> ht_relay_id h \<notin> ht_relay_id ` set (ns_elems (add_neighbor s h))"
proof -
  have "ns_insert s h = s"
    using assms by (simp add: ns_insert_def ns_insert_full_def Let_def)
  with assms show ?thesis by (simp add: add_neighbor_def contain_def ns_inv_def)
qed

end
