(* ===== verification/Bytes.thy ===== *)
theory Bytes
  imports Prelude
begin

unbundle bit_operations_syntax

text \<open>
  Numbers and their bytes: a word stored with its low byte first, and reversing them by shifts, as the code writes it and as \<open>htonl\<close> and \<open>ntohl\<close> do on a
  machine with the low byte first.
\<close>

definition bswap32 :: "u32 \<Rightarrow> u32" where
  "bswap32 x =
     (let byte0 = x AND 0xff; byte1 = drop_bit 8 x AND 0xff; byte2 = drop_bit 16 x AND 0xff; byte3 = drop_bit 24 x AND 0xff
      in push_bit 24 byte0 OR push_bit 16 byte1 OR push_bit 8 byte2 OR byte3)"

text \<open>A \<open>uint32_t\<close> stored in the first four bytes of a buffer.\<close>

definition put32 :: "nat \<Rightarrow> byte list" where
  "put32 s = [of_nat (s mod 256), of_nat (s div 256 mod 256), of_nat (s div 65536 mod 256), of_nat (s div 16777216 mod 256)]"

definition get32 :: "byte list \<Rightarrow> nat" where
  "get32 bs = unat (bs ! 0) + 256 * unat (bs ! 1) + 65536 * unat (bs ! 2) + 16777216 * unat (bs ! 3)"

lemma and_ff: "(x :: u32) AND 0xff = take_bit 8 x"
  by (simp add: take_bit_eq_mask mask_eq_decr_exp)

lemma bit_bswap32:
  "bit (bswap32 x) n \<longleftrightarrow> (if n < 8 then bit x (n + 24) else if n < 16 then bit x (n + 8) else if n < 24 then bit x (n - 8)
     else n < 32 \<and> bit x (n - 24))"
  unfolding bswap32_def Let_def and_ff by (auto simp: bit_simps ac_simps)

lemma bswap32_bswap32: "bswap32 (bswap32 x) = x"
proof (rule bit_word_eqI)
  fix n assume "n < LENGTH(32)"
  then have "n < 32" by simp
  then consider "n < 8" | "8 \<le> n" "n < 16" | "16 \<le> n" "n < 24" | "24 \<le> n" "n < 32" by linarith
  then show "bit (bswap32 (bswap32 x)) n \<longleftrightarrow> bit x n" by cases (auto simp: bit_bswap32)
qed

lemma get32_put32:
  assumes "s < 2 ^ 32"
  shows "get32 (put32 s @ xs) = s"
proof -
  have b: "unat (of_nat x :: byte) = x mod 256" for x
    by (simp add: unsigned_of_nat take_bit_eq_mod)
  have "s div 16777216 < 256" using assms by auto
  then have top: "s div 16777216 mod 256 = s div 16777216" by simp
  moreover have "s = s mod 256 + 256 * (s div 256)" "s div 256 = s div 256 mod 256 + 256 * (s div 65536)"
    "s div 65536 = s div 65536 mod 256 + 256 * (s div 16777216)"
    by (simp_all add: div_mult2_eq [of s 256 256, simplified] div_mult2_eq [of s 65536 256, simplified])
  ultimately have "s mod 256 + 256 * (s div 256 mod 256) + 65536 * (s div 65536 mod 256) + 16777216 * (s div 16777216 mod 256) = s"
    by linarith
  then show ?thesis using top by (simp add: get32_def put32_def b)
qed

lemma length_put32 [simp]: "length (put32 s) = 4"
  by (simp add: put32_def)

lemma get32_prefix: "take 4 xs = take 4 ys \<Longrightarrow> 4 \<le> length xs \<Longrightarrow> 4 \<le> length ys \<Longrightarrow> get32 xs = get32 ys"
proof -
  assume "take 4 xs = take 4 ys" "4 \<le> length xs" "4 \<le> length ys"
  then have "xs ! i = ys ! i" if "i < 4" for i using that by (metis nth_take)
  then show ?thesis by (simp add: get32_def)
qed

end
