(* ===== verification/Tcp.thy ===== *)
theory Tcp
  imports Strings Packet Bytes
begin

text \<open>
  The TCP back end of the socket interface (src/src/interface/tcp/AnonymousSocket.cpp): framing and
  encryption of messages on a byte stream, and the list of relays. The authenticated encryption is
  libsodium's and an argument of the definitions; what the code relies on, that opening undoes
  sealing and that sealing adds a tag, are hypotheses of the round trip. \<open>None\<close> is undefined
  behaviour.
\<close>

subsection \<open>Framing\<close>

definition NPUBBYTES :: nat where "NPUBBYTES = 12"
definition ABYTES :: nat where "ABYTES = 16"
definition sizeof_header32 :: nat where "sizeof_header32 = 4"

record tcp_socket =
  ts_fd :: int
  ts_shared_buffer :: "byte list"
  ts_used_buffer_size :: nat

text \<open>\<open>mem\<close> is what the buffer of \<open>2 * MAX_MTU\<close> bytes holds before.\<close>

definition TcpSocket :: "byte list \<Rightarrow> int \<Rightarrow> tcp_socket" where
  "TcpSocket mem fd = \<lparr>ts_fd = fd, ts_shared_buffer = mem, ts_used_buffer_size = 0\<rparr>"

text \<open>
  The bytes \<open>send\<close> gives to the connection; \<open>nonce\<close> are the random bytes. The copy of the message and
  the encryption write behind header and nonce into a buffer of \<open>MAX_MTU\<close> bytes.
\<close>

definition tcp_send ::
  "('k \<Rightarrow> byte list \<Rightarrow> byte list \<Rightarrow> byte list) \<Rightarrow> 'k \<Rightarrow> byte list \<Rightarrow> byte list \<Rightarrow> int \<Rightarrow> byte list option" where
  "tcp_send enc key nonce buf sz =
     (if sz < 0 \<or> int (length buf) < sz \<or> length nonce \<noteq> NPUBBYTES then None
      else let c = enc key nonce (take (nat sz) buf); l = length c + NPUBBYTES; s = l + sizeof_header32
           in if s > MAX_MTU then None else Some (put32 s @ nonce @ c))"

text \<open>
  The reading loop. \<open>stream\<close> are the bytes the peer has sent and not yet read here, \<open>ks\<close> how many of them
  are there at each call of \<open>recv\<close>, which takes at most what it is asked for. The result is the buffer,
  the bytes in it, the expected size and the rest of the stream. \<open>Reset\<close> is a closed connection,
  \<open>Blocked\<close> a caller that still waits.
\<close>

datatype 'a recv_result = Received 'a | Reset | Blocked

fun tcp_fill ::
  "byte list \<Rightarrow> nat \<Rightarrow> nat \<Rightarrow> byte list \<Rightarrow> nat list \<Rightarrow> (byte list \<times> nat \<times> nat \<times> byte list) recv_result option" where
  "tcp_fill shared got expected stream ks =
     (if expected \<le> got then Some (Received (shared, got, expected, stream))
      else case ks of
        [] \<Rightarrow> Some Blocked
      | k # ks' \<Rightarrow>
          let chunk = take (min k expected) stream
          in if chunk = [] then Some Reset
             else if got + length chunk > length shared then None
             else let shared' = take got shared @ chunk @ drop (got + length chunk) shared
                  in tcp_fill shared' (got + length chunk) (get32 shared') (drop (length chunk) stream) ks')"

declare tcp_fill.simps [simp del]

text \<open>
  The rest of \<open>recv\<close>. A size below four makes the length of the ciphertext wrap around. The plaintext is
  written to a buffer of \<open>cap\<close> bytes; the bytes of the next frame are moved to the front by a \<open>memcpy\<close>,
  which is undefined when the regions overlap. \<open>None\<close> in the result is the return value -1.
\<close>

definition tcp_open ::
  "('k \<Rightarrow> byte list \<Rightarrow> byte list \<Rightarrow> byte list option) \<Rightarrow> 'k \<Rightarrow> nat \<Rightarrow> tcp_socket \<Rightarrow> byte list \<Rightarrow> nat \<Rightarrow> nat \<Rightarrow>
   (byte list option \<times> tcp_socket) option" where
  "tcp_open dec key cap s shared got expected =
     (let used = got - expected; s' = s\<lparr>ts_shared_buffer := shared, ts_used_buffer_size := used\<rparr>;
          total_size = expected - sizeof_header32; buffer = drop sizeof_header32 shared
      in if expected < sizeof_header32 then None
         else if total_size < NPUBBYTES + ABYTES then Some (None, s')
         else if total_size - NPUBBYTES - ABYTES > cap then None
         else case dec key (take NPUBBYTES buffer) (take (total_size - NPUBBYTES) (drop NPUBBYTES buffer)) of
             None \<Rightarrow> Some (None, s')
           | Some m \<Rightarrow>
               if used > expected then None
               else Some (Some m, s'\<lparr>ts_shared_buffer := take used (drop expected shared) @ drop used shared\<rparr>))"

definition tcp_recv ::
  "('k \<Rightarrow> byte list \<Rightarrow> byte list \<Rightarrow> byte list option) \<Rightarrow> 'k \<Rightarrow> nat \<Rightarrow> tcp_socket \<Rightarrow> nat \<Rightarrow> byte list \<Rightarrow> nat list \<Rightarrow>
   (byte list option \<times> tcp_socket \<times> byte list) recv_result option" where
  "tcp_recv dec key cap s sz stream ks =
     (let used = ts_used_buffer_size s; shared = ts_shared_buffer s;
          expected = (if used = 0 then sz else get32 shared)
      in do {
        r \<leftarrow> tcp_fill shared used expected stream ks;
        case r of
          Received (shared', got, expected', stream') \<Rightarrow> do {
            (m, s') \<leftarrow> tcp_open dec key cap s shared' got expected';
            Some (Received (m, s', stream')) }
        | Reset \<Rightarrow> Some Reset
        | Blocked \<Rightarrow> Some Blocked })"

subsection \<open>Relays\<close>

record tcp_host =
  th_ip :: string
  th_port :: int

text \<open>Extraction from a stream: a word, and an \<open>int\<close>, which fails without a digit or out of range.\<close>

definition extract_word :: "string \<Rightarrow> (string \<times> string) option" where
  "extract_word s =
     (let t = dropWhile is_space s; w = takeWhile (\<lambda>c. \<not> is_space c) t
      in if w = [] then None else Some (w, drop (length w) t))"

definition extract_int :: "string \<Rightarrow> (int \<times> string) option" where
  "extract_int s =
     (let t = dropWhile is_space s;
          (neg, u) = (case t of c # cs \<Rightarrow> if c = CHR ''-'' then (True, cs)
                        else if c = CHR ''+'' then (False, cs) else (False, t) | [] \<Rightarrow> (False, []));
          ds = takeWhile is_digit u; v = int (digits_val 0 ds)
      in if ds = [] then None
         else map_option (\<lambda>x. (x, drop (length ds) u)) (c_int (if neg then - v else v)))"

lemma extract_word_shorter: "extract_word s = Some (w, s') \<Longrightarrow> length s' < length s"
proof -
  assume a: "extract_word s = Some (w, s')"
  let ?t = "dropWhile is_space s"
  have "0 < length w" "w = takeWhile (\<lambda>c. \<not> is_space c) ?t" "s' = drop (length w) ?t"
    using a by (auto simp: extract_word_def Let_def split: if_splits)
  note w = this
  have t: "length ?t \<le> length s" by (rule length_dropWhile_le)
  have "length w \<le> length ?t" unfolding w(2) by (rule length_takeWhile_le)
  moreover have "length s' = length ?t - length w" unfolding w(3) by simp
  ultimately show ?thesis using w(1) t by linarith
qed

lemma extract_int_shorter: "extract_int s = Some (v, s') \<Longrightarrow> length s' \<le> length s"
  using length_dropWhile_le [of is_space s]
  by (auto simp: extract_int_def Let_def split: if_splits list.splits)

text \<open>The loop over the file: the relays and the index of the last one with the own address.\<close>

function tcp_relays :: "string \<Rightarrow> int \<Rightarrow> string \<Rightarrow> int \<Rightarrow> tcp_host list \<times> int" where
  "tcp_relays ip port s idx =
     (case extract_word s of
        None \<Rightarrow> ([], -1)
      | Some (w, s') \<Rightarrow>
          (case extract_int s' of
             None \<Rightarrow> ([], -1)
           | Some (p, s'') \<Rightarrow>
               let (rs, r) = tcp_relays ip port s'' (idx + 1)
               in (\<lparr>th_ip = w, th_port = p\<rparr> # rs, if r \<noteq> -1 then r else if ip = w \<and> port = p then idx else -1)))"
  by auto
termination
  by (relation "measure (\<lambda>(ip, port, s, idx). length s)")
    (auto dest!: extract_word_shorter extract_int_shorter)

declare tcp_relays.simps [simp del]

text \<open>\<open>up\<close> says whether binding and listening succeed. The result is the key, empty on failure.\<close>

definition tcp_initialize :: "bool \<Rightarrow> string \<Rightarrow> int \<Rightarrow> string \<Rightarrow> string \<times> tcp_host list" where
  "tcp_initialize up ip port meta_file =
     (let (rs, relay_idx) = tcp_relays ip port meta_file 0
      in (if relay_idx = -1 \<or> \<not> up then [] else to_string (nat relay_idx), rs))"

text \<open>Connecting: the address to connect to, or the invalid socket. The index is compared as an
  unsigned number, so a negative one does not exist either.\<close>

definition tcp_connect :: "tcp_host list \<Rightarrow> string \<Rightarrow> tcp_host option option" where
  "tcp_connect relays key = do {
     idx \<leftarrow> stoi key;
     Some (if idx < 0 \<or> int (length relays) \<le> idx then None else Some (relays ! nat idx)) }"

definition tcp_accept :: "byte list \<Rightarrow> int \<Rightarrow> tcp_socket" where
  "tcp_accept mem accept_fd = TcpSocket mem (if accept_fd < 0 then - 1 else accept_fd)"

definition tcp_id_to_key :: "ring_id \<Rightarrow> string" where
  "tcp_id_to_key i = to_string (unat i)"

definition tcp_key_to_id :: "string \<Rightarrow> ring_id option" where
  "tcp_key_to_id key = map_option word_of_int (stoi key)"

definition tcp_id_range :: "tcp_host list \<Rightarrow> ring_id" where
  "tcp_id_range relays = of_nat (length relays)"

subsection \<open>One frame\<close>

text \<open>The buffer and the stream together are a frame and what follows it.\<close>

definition pending :: "byte list \<Rightarrow> nat \<Rightarrow> byte list \<Rightarrow> byte list" where
  "pending shared got stream = take got shared @ stream"

lemma pending_read:
  assumes "pending shared got stream = frame @ rest" "got + length chunk \<le> length shared"
    "chunk = take j stream"
  defines "shared' \<equiv> take got shared @ chunk @ drop (got + length chunk) shared"
  shows "pending shared' (got + length chunk) (drop (length chunk) stream) = frame @ rest \<and> length shared' = length shared"
proof -
  have "take (got + length chunk) shared' = take got shared @ chunk" using assms(2) by (simp add: shared'_def)
  moreover have "chunk @ drop (length chunk) stream = stream" unfolding assms(3)
    by (cases "j \<le> length stream") (simp_all add: min_def)
  ultimately show ?thesis using assms(1,2) by (simp add: pending_def shared'_def)
qed

lemma pending_header:
  assumes "pending shared got stream = frame @ rest" "4 \<le> got" "got \<le> length shared" "4 \<le> length frame"
  shows "get32 shared = get32 frame"
proof -
  have "take 4 (take got shared @ stream) = take 4 (frame @ rest)" using assms(1) by (simp add: pending_def)
  then have "take 4 shared = take 4 frame" using assms(2-4) by (simp add: min_def)
  then show ?thesis using assms(2-4) by (intro get32_prefix) auto
qed

lemma tcp_fill_frame:
  assumes "pending shared got stream = frame @ rest" "4 \<le> got" "got \<le> 2 * length frame" "got \<le> length shared"
    "length shared = 2 * MAX_MTU" "length frame \<le> MAX_MTU" "4 \<le> length frame" "get32 frame = length frame"
    "\<forall>k \<in> set ks. 0 < k" "length frame \<le> got + length ks"
  shows "\<exists>shared' got' stream'. tcp_fill shared got (length frame) stream ks = Some (Received (shared', got', length frame, stream')) \<and>
    pending shared' got' stream' = frame @ rest \<and> length frame \<le> got' \<and> got' \<le> 2 * length frame \<and>
    length shared' = 2 * MAX_MTU"
  using assms
proof (induction ks arbitrary: shared got stream)
  case Nil
  then show ?case by (subst tcp_fill.simps) simp
next
  case (Cons k ks)
  show ?case
  proof (cases "length frame \<le> got")
    case True
    with Cons.prems show ?thesis by (subst tcp_fill.simps) simp
  next
    case False
    let ?chunk = "take (min k (length frame)) stream"
    let ?shared = "take got shared @ ?chunk @ drop (got + length ?chunk) shared"
    have "length (frame @ rest) = got + length stream"
      unfolding Cons.prems(1) [symmetric] using Cons.prems(4) by (simp add: pending_def)
    then have ne: "?chunk \<noteq> []" using False Cons.prems(7,9) by auto
    have c: "length ?chunk \<le> length frame" "0 < length ?chunk" using ne by auto
    then have fits: "got + length ?chunk \<le> length shared" using False Cons.prems(5,6) by linarith
    have enough: "length frame \<le> got + length ?chunk + length ks" using c(2) Cons.prems(10) unfolding list.size(4) by linarith
    note p = pending_read [OF Cons.prems(1) fits refl]
    have hd: "get32 ?shared = length frame"
      using pending_header [of ?shared "got + length ?chunk" "drop (length ?chunk) stream" "frame" rest] p fits Cons.prems(2,7,8)
      by simp
    have "\<exists>shared' got' stream'. tcp_fill ?shared (got + length ?chunk) (length frame) (drop (length ?chunk) stream) ks =
        Some (Received (shared', got', length frame, stream')) \<and>
      pending shared' got' stream' = frame @ rest \<and> length frame \<le> got' \<and> got' \<le> 2 * length frame \<and>
      length shared' = 2 * MAX_MTU"
      using p c(1) fits Cons.prems(2,3,5-9) False enough by (intro Cons.IH) auto
    then show ?thesis
      using False ne fits hd by (subst tcp_fill.simps) (simp add: Let_def del: take_eq_Nil length_take)
  qed
qed


text \<open>A frame in the buffer is opened, and what follows it moves to the front.\<close>

lemma tcp_open_frame:
  assumes aead: "dec key nonce (enc key nonce m) = Some m" "length (enc key nonce m) = length m + ABYTES"
    and "frame = put32 s @ nonce @ enc key nonce m" "length nonce = NPUBBYTES" "length m \<le> cap"
    and "pending shared got stream = frame @ rest" "length frame \<le> got" "got \<le> 2 * length frame"
      "length shared = 2 * MAX_MTU" "length frame \<le> MAX_MTU"
  shows "\<exists>s'. tcp_open dec key cap sk shared got (length frame) = Some (Some m, s') \<and>
    pending (ts_shared_buffer s') (ts_used_buffer_size s') stream = rest \<and>
    length (ts_shared_buffer s') = 2 * MAX_MTU \<and> ts_used_buffer_size s' \<le> MAX_MTU"
proof -
  let ?F = "length frame"
  have F: "?F = length m + 32" using assms by (simp add: NPUBBYTES_def ABYTES_def)
  have got: "got \<le> length shared" using assms by simp
  have "take ?F (take got shared @ stream) = take ?F (frame @ rest)" using assms(6) by (simp add: pending_def)
  then have "take ?F shared = frame" using assms(7) got by (simp add: min_def)
  then obtain tl where sh: "shared = frame @ tl" by (metis append_take_drop_id)
  then have dec: "dec key (take NPUBBYTES (drop 4 shared)) (take (?F - 4 - NPUBBYTES) (drop NPUBBYTES (drop 4 shared))) = Some m"
    using assms(1,2,3,4) F by (simp add: NPUBBYTES_def ABYTES_def)
  have "take got shared = frame @ take (got - ?F) (drop ?F shared)" using assms(7) sh by simp
  then have rest: "take (got - ?F) (drop ?F shared) @ stream = rest" using assms(6) by (simp add: pending_def)
  let ?s = "sk\<lparr>ts_shared_buffer := take (got - ?F) (drop ?F shared) @ drop (got - ?F) shared, ts_used_buffer_size := got - ?F\<rparr>"
  have "tcp_open dec key cap sk shared got ?F = Some (Some m, ?s)"
    using dec F assms(5,8) by (simp add: tcp_open_def Let_def sizeof_header32_def NPUBBYTES_def ABYTES_def)
  with rest assms(8-10) got show ?thesis by (intro exI [of _ ?s]) (simp add: pending_def)
qed

subsection \<open>Properties\<close>

text \<open>The first read, or the bytes kept from the last frame, give the size; the loop then completes the frame.\<close>

lemma tcp_fill_start:
  assumes "length shared = 2 * MAX_MTU" "pending shared used stream = frame @ rest"
    and "if used = 0
         then 4 \<le> sz \<and> sz \<le> 2 * MAX_MTU \<and> ks \<noteq> [] \<and> 4 \<le> hd ks \<and> min sz (hd ks) \<le> 2 * length frame
         else 4 \<le> used \<and> used \<le> 2 * length frame"
    and "\<forall>k \<in> set ks. 0 < k" "length frame \<le> length ks" "get32 frame = length frame" "32 \<le> length frame" "length frame \<le> MAX_MTU"
  shows "\<exists>shared' got' stream'. tcp_fill shared used (if used = 0 then sz else get32 shared) stream ks =
        Some (Received (shared', got', length frame, stream')) \<and>
      pending shared' got' stream' = frame @ rest \<and> length frame \<le> got' \<and> got' \<le> 2 * length frame \<and> length shared' = 2 * MAX_MTU"
proof (cases "used = 0")
  case True
  with assms(3) obtain k ks' where ks: "ks = k # ks'" "4 \<le> k" "4 \<le> sz" "sz \<le> 2 * MAX_MTU" "min sz k \<le> 2 * length frame"
    by (cases ks) auto
  have st: "stream = frame @ rest" using assms(2) True by (simp add: pending_def)
  let ?chunk = "take (min k sz) stream"
  let ?shared' = "?chunk @ drop (length ?chunk) shared"
  have c: "4 \<le> length ?chunk" "length ?chunk \<le> 2 * length frame" "length ?chunk \<le> length shared"
    using ks st assms(1,7) by auto
  have p: "pending ?shared' (length ?chunk) (drop (length ?chunk) stream) = frame @ rest \<and> length ?shared' = length shared"
    using pending_read [of shared 0 stream "frame" rest ?chunk "min k sz"] assms(2) True c by simp
  have h: "get32 ?shared' = length frame"
    using pending_header [OF conjunct1 [OF p]] c p assms(6,7) by simp
  have "\<exists>shared' got' stream'. tcp_fill ?shared' (length ?chunk) (length frame) (drop (length ?chunk) stream) ks' =
      Some (Received (shared', got', length frame, stream')) \<and>
    pending shared' got' stream' = frame @ rest \<and> length frame \<le> got' \<and> got' \<le> 2 * length frame \<and> length shared' = 2 * MAX_MTU"
    using p c assms(1,4-8) ks by (intro tcp_fill_frame) auto
  moreover have "?chunk \<noteq> []" using c by auto
  ultimately show ?thesis
    using True ks c h by (subst tcp_fill.simps) (simp add: Let_def del: take_eq_Nil length_take)
next
  case False
  have u: "4 \<le> used" "used \<le> 2 * length frame" using assms(3) False by auto
  have ul: "used \<le> length shared" using u assms(1,8) by simp
  have "get32 shared = length frame" using pending_header [OF assms(2)] u ul assms(6,7) by simp
  then show ?thesis
    using False tcp_fill_frame [OF assms(2) u ul assms(1) assms(8) _ assms(6) assms(4)] assms(5,7) by simp
qed

text \<open>
  C18. What is sent over TCP is received: given an authenticated encryption that opens what it sealed and adds a
  tag of 16 bytes, a frame made by \<open>send\<close> at the front of the connection is returned by \<open>recv\<close>
  as the message, however the network cuts the stream, provided the header has arrived with the
  first bytes and no more than two frames' worth is read at once; the bytes after the frame are
  kept for the next call.
\<close>

theorem tcp_roundtrip:
  assumes "\<And>k n m. dec k n (enc k n m) = Some m" "\<And>k n m. length (enc k n m) = length m + ABYTES"
    and "tcp_send enc key nonce buf (int (length buf)) = Some frame"
    and "length (ts_shared_buffer s) = 2 * MAX_MTU"
    and "pending (ts_shared_buffer s) (ts_used_buffer_size s) stream = frame @ rest"
    and "if ts_used_buffer_size s = 0
         then 4 \<le> sz \<and> sz \<le> 2 * MAX_MTU \<and> ks \<noteq> [] \<and> 4 \<le> hd ks \<and> min sz (hd ks) \<le> 2 * length frame
         else 4 \<le> ts_used_buffer_size s \<and> ts_used_buffer_size s \<le> 2 * length frame"
    and "\<forall>k \<in> set ks. 0 < k" "length frame \<le> length ks" "length buf \<le> cap"
  shows "returns (tcp_recv dec key cap s sz stream ks) (\<lambda>r. case r of
      Received (m, s', stream') \<Rightarrow> m = Some buf \<and>
        pending (ts_shared_buffer s') (ts_used_buffer_size s') stream' = rest \<and>
        length (ts_shared_buffer s') = 2 * MAX_MTU
    | _ \<Rightarrow> False)"
proof -
  let ?shared = "ts_shared_buffer s" and ?used = "ts_used_buffer_size s" and ?F = "length frame"
  have frame: "frame = put32 ?F @ nonce @ enc key nonce buf" "length nonce = NPUBBYTES" "?F \<le> MAX_MTU" "?F = length buf + 32"
    using assms(2,3) by (auto simp: tcp_send_def Let_def sizeof_header32_def NPUBBYTES_def ABYTES_def split: if_splits)
  have hd: "get32 frame = ?F" using get32_put32 [of ?F "nonce @ enc key nonce buf"] frame by (simp add: MAX_MTU_def)
  have hd': "32 \<le> ?F" using frame(4) by simp
  obtain shared' got' stream' where fill:
      "tcp_fill ?shared ?used (if ?used = 0 then sz else get32 ?shared) stream ks = Some (Received (shared', got', ?F, stream'))"
      "pending shared' got' stream' = frame @ rest" "?F \<le> got'" "got' \<le> 2 * ?F" "length shared' = 2 * MAX_MTU"
    using tcp_fill_start [OF assms(4-8) hd hd' frame(3)] by blast
  from tcp_open_frame [where dec = dec and enc = enc and key = key and nonce = nonce and m = buf and sk = s,
      OF assms(1,2) frame(1,2) assms(9) fill(2-5) frame(3)] fill(1) show ?thesis
    by (auto simp: tcp_recv_def Let_def)
qed

definition sample_enc :: "byte \<Rightarrow> byte list \<Rightarrow> byte list \<Rightarrow> byte list" where
  "sample_enc k n m = m @ replicate 16 k"

definition sample_dec :: "byte \<Rightarrow> byte list \<Rightarrow> byte list \<Rightarrow> byte list option" where
  "sample_dec k n c =
     (if drop (length c - 16) c = replicate 16 k then Some (take (length c - 16) c) else None)"

theorem tcp_roundtrip_witness:
  "\<exists>frame. tcp_send sample_enc 7 (replicate 12 1) [1, 2, 3] 3 = Some frame \<and>
     returns (tcp_recv sample_dec 7 100 (TcpSocket (replicate 2048 0) 5) 1500 (frame @ [9]) (replicate 40 20)) (\<lambda>r. case r of
       Received (m, s', stream') \<Rightarrow> m = Some [1, 2, 3] \<and>
         pending (ts_shared_buffer s') (ts_used_buffer_size s') stream' = [9] \<and>
         length (ts_shared_buffer s') = 2 * MAX_MTU
     | _ \<Rightarrow> False)"
proof -
  have "\<exists>frame. tcp_send sample_enc 7 (replicate 12 1) [1, 2, 3] 3 = Some frame \<and> length frame = 35"
    by (simp add: tcp_send_def sample_enc_def NPUBBYTES_def sizeof_header32_def MAX_MTU_def)
  then obtain frame :: "byte list" where f: "tcp_send sample_enc 7 (replicate 12 1) [1, 2, 3] 3 = Some frame" "length frame = 35" by blast
  have "returns (tcp_recv sample_dec 7 100 (TcpSocket (replicate 2048 0) 5) 1500 (frame @ [9]) (replicate 40 20)) (\<lambda>r. case r of
       Received (m, s', stream') \<Rightarrow> m = Some [1, 2, 3] \<and>
         pending (ts_shared_buffer s') (ts_used_buffer_size s') stream' = [9] \<and>
         length (ts_shared_buffer s') = 2 * MAX_MTU
     | _ \<Rightarrow> False)"
    using f
    by (intro tcp_roundtrip [where enc = sample_enc and nonce = "replicate 12 1" and frame = "frame"])
      (simp_all add: sample_enc_def sample_dec_def ABYTES_def TcpSocket_def pending_def MAX_MTU_def hd_replicate f(2))
  with f show ?thesis by blast
qed

subsection \<open>Keys of relays\<close>

lemma tcp_relays_index:
  "tcp_relays ip port s idx = (rs, r) \<Longrightarrow> r \<noteq> -1 \<Longrightarrow> 0 \<le> idx \<Longrightarrow>
     idx \<le> r \<and> r < idx + int (length rs) \<and> rs ! nat (r - idx) = \<lparr>th_ip = ip, th_port = port\<rparr>"
proof (induction ip port s idx arbitrary: rs r rule: tcp_relays.induct)
  case (1 ip port s idx)
  obtain w s' p s'' rs' r' where ex: "extract_word s = Some (w, s')" "extract_int s' = Some (p, s'')"
      "tcp_relays ip port s'' (idx + 1) = (rs', r')"
      "rs = \<lparr>th_ip = w, th_port = p\<rparr> # rs'" "r = (if r' \<noteq> -1 then r' else if ip = w \<and> port = p then idx else -1)"
    using 1(2,3) by (subst (asm) tcp_relays.simps) (auto simp: Let_def split: option.splits prod.splits)
  show ?case
  proof (cases "r' = -1")
    case True
    with ex 1(3) show ?thesis by (auto split: if_splits)
  next
    case False
    with 1(1) [OF ex(1) refl ex(2) refl ex(3)] 1(4)
    have ih: "idx + 1 \<le> r'" "r' < idx + 1 + int (length rs')" "rs' ! nat (r' - (idx + 1)) = \<lparr>th_ip = ip, th_port = port\<rparr>"
      by auto
    have "nat (r' - idx) = Suc (nat (r' - (idx + 1)))" using ih(1) by simp
    with ih ex False show ?thesis by simp
  qed
qed

text \<open>The key a relay gets by initialising names its own address for everyone with the same file.\<close>

theorem tcp_key_connects:
  assumes "tcp_initialize up ip port meta = (key, relays)" "key \<noteq> []" "length relays \<le> 2 ^ 31"
  shows "tcp_connect relays key = Some (Some \<lparr>th_ip = ip, th_port = port\<rparr>)"
proof -
  obtain r where r: "tcp_relays ip port meta 0 = (relays, r)" "r \<noteq> -1" "key = to_string (nat r)"
    using assms(1,2) by (auto simp: tcp_initialize_def Let_def split: prod.splits if_splits)
  from tcp_relays_index [OF r(1,2)] r(3) assms(3) show ?thesis
    by (auto simp: tcp_connect_def stoi_to_string)
qed

text \<open>The key of every identifier in range is read back and names a relay of the file.\<close>

lemma tcp_id_connects:
  assumes "i < tcp_id_range relays" "length relays \<le> 2 ^ 31"
  shows "tcp_key_to_id (tcp_id_to_key i) = Some i" "tcp_connect relays (tcp_id_to_key i) = Some (Some (relays ! unat i))"
proof -
  have "unat (of_nat (length relays) :: ring_id) = length relays" using assms(2) by (simp add: unsigned_of_nat take_bit_nat_eq_self)
  then have "unat i < length relays" using assms(1) by (simp add: tcp_id_range_def word_less_nat_alt)
  moreover from this have "uint i < int (length relays)" by (metis uint_nat of_nat_less_iff)
  ultimately show "tcp_key_to_id (tcp_id_to_key i) = Some i" "tcp_connect relays (tcp_id_to_key i) = Some (Some (relays ! unat i))"
    using assms(2) by (simp_all add: tcp_key_to_id_def tcp_id_to_key_def tcp_connect_def stoi_to_string)
qed

end
