(* ===== verification/Tor.thy ===== *)
theory Tor
  imports Tcp
begin

text \<open>
  The onion-routing back end of the socket interface (src/src/interface/tor/TorSocket.cpp): building a
  circuit, sending and receiving through it, and the relays that peel or add a layer. Framing is that of
  the TCP back end, with a buffer of \<open>MAX_MTU\<close> bytes. Every layer is sealed with the key of the
  process that seals it, as in the source. \<open>None\<close> is undefined behaviour; a result of
  \<open>-1\<close> is an error value of its own.
\<close>

subsection \<open>Data\<close>

record tor_peer =
  tp_ip :: string
  tp_port :: int
  tp_key :: string
  tp_ip_raw :: nat

record relay_metadata =
  rm_all_relays :: "tor_peer list"
  rm_tor_key :: string
  rm_server_idx :: int
  rm_num_layers :: int

text \<open>
  \<open>tor_message_t\<close>: a byte, three bytes of padding, four of address, two of port, two of
  padding. Writing the fields leaves the padding as it was.
\<close>

definition sizeof_tor_message :: nat where "sizeof_tor_message = 12"

definition put_tor_message :: "byte list \<Rightarrow> byte \<Rightarrow> nat \<Rightarrow> nat \<Rightarrow> byte list" where
  "put_tor_message old is_dest ip port =
     is_dest # take 3 (drop 1 old) @ put32 ip @ [of_nat (port mod 256), of_nat (port div 256 mod 256)] @ take 2 (drop 10 old)"

definition tm_is_dest :: "byte list \<Rightarrow> byte" where
  "tm_is_dest b = b ! 0"

definition tm_ip :: "byte list \<Rightarrow> nat" where
  "tm_ip b = get32 (drop 4 b)"

definition tm_port :: "byte list \<Rightarrow> nat" where
  "tm_port b = unat (b ! 8) + 256 * unat (b ! 9)"

subsection \<open>Sealing\<close>

text \<open>Nonce and ciphertext; opening fails on less than a nonce and a tag.\<close>

definition seal :: "('k \<Rightarrow> byte list \<Rightarrow> byte list \<Rightarrow> byte list) \<Rightarrow> 'k \<Rightarrow> byte list \<Rightarrow> byte list \<Rightarrow> byte list" where
  "seal enc key nonce m = nonce @ enc key nonce m"

definition unseal :: "('k \<Rightarrow> byte list \<Rightarrow> byte list \<Rightarrow> byte list option) \<Rightarrow> 'k \<Rightarrow> byte list \<Rightarrow> byte list option" where
  "unseal dec key b =
     (if length b < NPUBBYTES + ABYTES then None else dec key (take NPUBBYTES b) (drop NPUBBYTES b))"

text \<open>
  The loop of \<open>generate_circuits\<close>: \<open>h12\<close> are the first twelve bytes of the local buffer, \<open>c\<close> what \<open>buf\<close>
  holds. The local buffer has \<open>MAX_MTU\<close> bytes, \<open>buf\<close> four less.
\<close>

fun onion_loop ::
  "('k \<Rightarrow> byte list \<Rightarrow> byte list \<Rightarrow> byte list) \<Rightarrow> 'k \<Rightarrow> tor_peer list \<Rightarrow> (nat \<Rightarrow> byte list) \<Rightarrow> bool \<Rightarrow> nat \<Rightarrow>
   byte list \<Rightarrow> byte list \<Rightarrow> byte list option" where
  "onion_loop enc key relays nonces header 0 h12 c = Some c"
| "onion_loop enc key relays nonces header (Suc i) h12 c =
     (let h12' = (if header then put_tor_message h12 0 (tp_ip_raw (relays ! Suc i)) (nat (tp_port (relays ! Suc i) mod 65536))
                 else h12);
          plain = (if header then h12' else []) @ c;
          c' = seal enc key (nonces i) plain
      in if length plain > MAX_MTU \<or> length c' > MAX_MTU - sizeof_header32 \<or> (header \<and> length relays \<le> Suc i) then None
         else onion_loop enc key relays nonces header i h12' c')"

definition generate_circuits ::
  "('k \<Rightarrow> byte list \<Rightarrow> byte list \<Rightarrow> byte list) \<Rightarrow> 'k \<Rightarrow> tor_peer list \<Rightarrow> (nat \<Rightarrow> byte list) \<Rightarrow> byte list \<Rightarrow> bool \<Rightarrow> nat \<Rightarrow>
   byte list option" where
  "generate_circuits enc key relays nonces buf header layer =
     (let c = seal enc key (nonces layer) buf
      in if length c > MAX_MTU - sizeof_header32 then None
         else onion_loop enc key relays nonces header layer (nonces layer) c)"

text \<open>
  \<open>TorSocket::send\<close>: the frame given to the connection. Size -1 sends the first bytes of the buffer with
  headers, to build the circuit; a socket that was accepted adds one layer only.
\<close>

definition tor_send ::
  "('k \<Rightarrow> byte list \<Rightarrow> byte list \<Rightarrow> byte list) \<Rightarrow> 'k \<Rightarrow> nat \<Rightarrow> bool \<Rightarrow> tor_peer list \<Rightarrow> (nat \<Rightarrow> byte list) \<Rightarrow> byte list \<Rightarrow> int \<Rightarrow>
   byte list option" where
  "tor_send enc key num_layers is_sender relays nonces from_buf sz =
     (let header = (is_sender \<and> sz = -1);
          sz' = (if header then int sizeof_tor_message else sz)
      in if sz' < 0 \<or> int (length from_buf) < sz' \<or> sz' > int (MAX_MTU - sizeof_header32) then None
         else do {
           c \<leftarrow> generate_circuits enc key relays nonces (take (nat sz') from_buf) header
                  (if is_sender then num_layers else 0);
           Some (put32 (length c + sizeof_header32) @ c) })"

subsection \<open>Receiving\<close>

text \<open>
  \<open>recv_with_header_size\<close>: the body of the next frame, the buffer and how many bytes follow the frame in
  it. The size of the frame is the body's and four.
\<close>

definition recv_with_header_size ::
  "byte list \<Rightarrow> nat \<Rightarrow> nat \<Rightarrow> byte list \<Rightarrow> nat list \<Rightarrow> (byte list \<times> byte list \<times> nat \<times> byte list) recv_result option" where
  "recv_with_header_size shared used sz stream ks = do {
     r \<leftarrow> tcp_fill shared used (if used = 0 then sz else get32 shared) stream ks;
     case r of
       Received (shared', got, expected, stream') \<Rightarrow>
         if expected < sizeof_header32 then None
         else Some (Received (take (expected - sizeof_header32) (drop sizeof_header32 shared'), shared', got - expected, stream'))
     | Reset \<Rightarrow> Some Reset
     | Blocked \<Rightarrow> Some Blocked }"

text \<open>Moving the bytes after a frame of \<open>n\<close> bytes to the front.\<close>

definition shift_shared :: "byte list \<Rightarrow> nat \<Rightarrow> nat \<Rightarrow> byte list option" where
  "shift_shared shared n used =
     (if used > n then None else Some (take used (drop n shared) @ drop used shared))"

text \<open>\<open>recv_crypto_send\<close> on a frame with body \<open>b\<close>: a relay adds or removes a layer. \<open>None\<close> inside is -1.\<close>

definition crypto_forward ::
  "('k \<Rightarrow> byte list \<Rightarrow> byte list \<Rightarrow> byte list) \<Rightarrow> ('k \<Rightarrow> byte list \<Rightarrow> byte list \<Rightarrow> byte list option) \<Rightarrow> 'k \<Rightarrow> bool \<Rightarrow> byte list \<Rightarrow>
   byte list \<Rightarrow> byte list option option" where
  "crypto_forward enc dec key encrypt nonce b =
     (let out = (if encrypt then Some (seal enc key nonce b) else unseal dec key b)
      in case out of
           None \<Rightarrow> Some None
         | Some o' \<Rightarrow> if length o' + sizeof_header32 > MAX_MTU then None
                    else Some (Some (put32 (length o' + sizeof_header32) @ o')))"

definition recv_crypto_send ::
  "('k \<Rightarrow> byte list \<Rightarrow> byte list \<Rightarrow> byte list) \<Rightarrow> ('k \<Rightarrow> byte list \<Rightarrow> byte list \<Rightarrow> byte list option) \<Rightarrow> 'k \<Rightarrow> bool \<Rightarrow> byte list \<Rightarrow>
   byte list \<Rightarrow> nat \<Rightarrow> byte list \<Rightarrow> nat list \<Rightarrow> (byte list option \<times> byte list \<times> nat \<times> byte list) recv_result option" where
  "recv_crypto_send enc dec key encrypt nonce shared used stream ks = do {
     r \<leftarrow> recv_with_header_size shared used MAX_MTU stream ks;
     case r of
       Received (b, shared', used', stream') \<Rightarrow> do {
         out \<leftarrow> crypto_forward enc dec key encrypt nonce b;
         case out of
           None \<Rightarrow> Some (Received (None, shared', used', stream'))
         | Some f \<Rightarrow> do {
             shared'' \<leftarrow> shift_shared shared' (length b + sizeof_header32) used';
             Some (Received (Some f, shared'', used', stream')) } }
     | Reset \<Rightarrow> Some Reset
     | Blocked \<Rightarrow> Some Blocked }"

text \<open>The loop of \<open>recv_decrypt_onion\<close>, which opens \<open>k\<close> layers into a buffer of \<open>cap\<close> bytes.\<close>

fun decrypt_onion ::
  "('k \<Rightarrow> byte list \<Rightarrow> byte list \<Rightarrow> byte list option) \<Rightarrow> 'k \<Rightarrow> nat \<Rightarrow> nat \<Rightarrow> byte list \<Rightarrow> byte list option option" where
  "decrypt_onion dec key cap 0 b = Some (Some b)"
| "decrypt_onion dec key cap (Suc k) b =
     (if length b \<ge> NPUBBYTES + ABYTES \<and> length b - NPUBBYTES - ABYTES > cap then None
      else case unseal dec key b of
        None \<Rightarrow> Some None
      | Some m \<Rightarrow> decrypt_onion dec key cap k m)"

definition recv_decrypt_onion ::
  "('k \<Rightarrow> byte list \<Rightarrow> byte list \<Rightarrow> byte list option) \<Rightarrow> 'k \<Rightarrow> nat \<Rightarrow> nat \<Rightarrow> byte list \<Rightarrow> nat \<Rightarrow> byte list \<Rightarrow> nat list \<Rightarrow>
   (byte list option \<times> byte list \<times> nat \<times> byte list) recv_result option" where
  "recv_decrypt_onion dec key cap layer shared used stream ks = do {
     r \<leftarrow> recv_with_header_size shared used MAX_MTU stream ks;
     case r of
       Received (b, shared', used', stream') \<Rightarrow> do {
         shared'' \<leftarrow> shift_shared shared' (length b + sizeof_header32) used';
         m \<leftarrow> decrypt_onion dec key cap (Suc layer) b;
         Some (Received (m, shared'', used', stream')) }
     | Reset \<Rightarrow> Some Reset
     | Blocked \<Rightarrow> Some Blocked }"

text \<open>
  What \<open>accept\<close> does with the first message of a connection: a request for this node, or one to
  forward, with the next address and the frame sent there. An error while receiving leaves the message
  uninitialised.
\<close>

datatype tor_accept = Request | Forward nat nat "byte list"

definition accept_first :: "byte list option \<Rightarrow> tor_accept option" where
  "accept_first m =
     (case m of
        None \<Rightarrow> None
      | Some b \<Rightarrow>
          if b = [] then None
          else if tm_is_dest b = 1 then Some Request
          else if length b < sizeof_tor_message then None
          else let rest = drop sizeof_tor_message b
               in Some (Forward (tm_ip b) (tm_port b) (put32 (length rest + sizeof_header32) @ rest)))"

subsection \<open>Configuration and path selection\<close>

text \<open>
  The loop over the configuration file: \<open>layer n\<close>, or an address with its key. The key stored with a
  relay is the one read before it. \<open>None\<close> is the return with an empty identifier because the
  own key is too long.
\<close>

definition KEYBYTES :: nat where "KEYBYTES = 32"

function tor_config :: "string \<Rightarrow> int \<Rightarrow> string \<Rightarrow> string \<Rightarrow> bool \<Rightarrow> relay_metadata \<Rightarrow> (relay_metadata \<times> bool) option" where
  "tor_config ip port s key find_me md =
     (case extract_word s of
        None \<Rightarrow> Some (md, find_me)
      | Some (w, s1) \<Rightarrow>
          (case extract_int s1 of
             None \<Rightarrow> Some (md, find_me)
           | Some (p, s2) \<Rightarrow>
               if w = ''layer'' then tor_config ip port s2 key find_me (md\<lparr>rm_num_layers := p\<rparr>)
               else
                 let pair = \<lparr>tp_ip = w, tp_port = p, tp_key = key, tp_ip_raw = 0\<rparr>;
                     (key', s3) = (case extract_word s2 of None \<Rightarrow> (key, []) | Some x \<Rightarrow> x);
                     mine = (w = ip \<and> p = port);
                     md1 = (if mine then md\<lparr>rm_tor_key := key', rm_server_idx := int (length (rm_all_relays md))\<rparr> else md)
                 in if mine \<and> length key' \<ge> KEYBYTES then None
                    else tor_config ip port s3 key' (find_me \<or> mine) (md1\<lparr>rm_all_relays := rm_all_relays md1 @ [pair]\<rparr>)))"
  by auto
termination
  by (relation "measure (\<lambda>(ip, port, s, key, find_me, md). length s)")
    (auto dest!: extract_word_shorter extract_int_shorter split: option.splits)

declare tor_config.simps [simp del]

text \<open>The raw addresses; a relay whose address does not parse keeps the one before.\<close>

fun resolve_relays :: "(string \<Rightarrow> nat option) \<Rightarrow> nat \<Rightarrow> tor_peer list \<Rightarrow> tor_peer list" where
  "resolve_relays inet_pton addr [] = []"
| "resolve_relays inet_pton addr (p # ps) =
     (let addr' = (case inet_pton (tp_ip p) of None \<Rightarrow> addr | Some a \<Rightarrow> a)
      in p\<lparr>tp_ip_raw := addr'\<rparr> # resolve_relays inet_pton addr' ps)"

definition tor_initialize :: "(string \<Rightarrow> nat option) \<Rightarrow> bool \<Rightarrow> string \<Rightarrow> int \<Rightarrow> string \<Rightarrow> string \<times> relay_metadata option" where
  "tor_initialize inet_pton up ip port meta =
     (case tor_config ip port meta [] False \<lparr>rm_all_relays = [], rm_tor_key = [], rm_server_idx = 0, rm_num_layers = 0\<rparr> of
        None \<Rightarrow> ([], None)
      | Some (md, find_me) \<Rightarrow>
          if \<not> find_me \<or> \<not> up then ([], Some md)
          else (to_string (nat (rm_server_idx md)),
                Some (md\<lparr>rm_all_relays := resolve_relays inet_pton 0 (rm_all_relays md)\<rparr>)))"

text \<open>Drawing a relay other than the own and the destination; \<open>None\<close> while the draws given are used up.\<close>

fun tor_pick :: "relay_metadata \<Rightarrow> int \<Rightarrow> u32 list \<Rightarrow> (int \<times> u32 list) option" where
  "tor_pick md idi [] = None"
| "tor_pick md idi (d # ds) =
     (let relay_idx = uint d mod int (length (rm_all_relays md))
      in if relay_idx = rm_server_idx md \<or> relay_idx = idi then tor_pick md idi ds else Some (relay_idx, ds))"

fun tor_picks :: "relay_metadata \<Rightarrow> int \<Rightarrow> nat \<Rightarrow> u32 list \<Rightarrow> int list option" where
  "tor_picks md idi 0 ds = Some []"
| "tor_picks md idi (Suc k) ds = do {
     (r, ds') \<leftarrow> tor_pick md idi ds;
     rs \<leftarrow> tor_picks md idi k ds';
     Some (r # rs) }"

text \<open>The relays of a new circuit, the destination last; \<open>Some None\<close> is the invalid socket.\<close>

definition tor_connect :: "relay_metadata \<Rightarrow> string \<Rightarrow> u32 list \<Rightarrow> tor_peer list option option" where
  "tor_connect md key draws = do {
     idi \<leftarrow> stoi key;
     if idi < 0 \<or> int (length (rm_all_relays md)) \<le> idi then Some None
     else do {
       rs \<leftarrow> tor_picks md idi (nat (rm_num_layers md)) draws;
       Some (Some (map (\<lambda>r. rm_all_relays md ! nat r) rs @ [rm_all_relays md ! nat idi])) } }"

subsection \<open>Circuits\<close>

text \<open>A relay that gets the body of a first message, and the route the message takes through relays with
  the given keys: the addresses it is forwarded to until one of them accepts it.\<close>

definition tor_hop :: "('k \<Rightarrow> byte list \<Rightarrow> byte list \<Rightarrow> byte list option) \<Rightarrow> 'k \<Rightarrow> byte list \<Rightarrow> tor_accept option" where
  "tor_hop dec key b = do { m \<leftarrow> decrypt_onion dec key MAX_MTU 1 b; accept_first m }"

fun tor_route :: "('k \<Rightarrow> byte list \<Rightarrow> byte list \<Rightarrow> byte list option) \<Rightarrow> 'k list \<Rightarrow> byte list \<Rightarrow> (nat \<times> nat) list option" where
  "tor_route dec [] b = None"
| "tor_route dec (key # keys) b = do {
     a \<leftarrow> tor_hop dec key b;
     case a of
       Request \<Rightarrow> Some []
     | Forward ip port f \<Rightarrow> map_option (Cons (ip, port)) (tor_route dec keys (drop sizeof_header32 f)) }"

text \<open>Frames through relays that all add or all remove a layer.\<close>

fun tor_pass ::
  "('k \<Rightarrow> byte list \<Rightarrow> byte list \<Rightarrow> byte list) \<Rightarrow> ('k \<Rightarrow> byte list \<Rightarrow> byte list \<Rightarrow> byte list option) \<Rightarrow> bool \<Rightarrow> ('k \<times> byte list) list \<Rightarrow>
   byte list \<Rightarrow> byte list option option" where
  "tor_pass enc dec encrypt [] f = Some (Some f)"
| "tor_pass enc dec encrypt ((key, nonce) # ks) f = do {
     r \<leftarrow> crypto_forward enc dec key encrypt nonce (drop sizeof_header32 f);
     case r of None \<Rightarrow> Some None | Some f' \<Rightarrow> tor_pass enc dec encrypt ks f' }"

subsection \<open>Layers\<close>

lemmas tor_sizes = sizeof_header32_def sizeof_tor_message_def NPUBBYTES_def ABYTES_def MAX_MTU_def

text \<open>What the code relies on of the encryption.\<close>

definition opens :: "('k \<Rightarrow> byte list \<Rightarrow> byte list \<Rightarrow> byte list) \<Rightarrow> ('k \<Rightarrow> byte list \<Rightarrow> byte list \<Rightarrow> byte list option) \<Rightarrow> bool" where
  "opens enc dec \<longleftrightarrow> (\<forall>k n m. dec k n (enc k n m) = Some m \<and> length (enc k n m) = length m + ABYTES)"

lemma unseal_seal [simp]:
  "opens enc dec \<Longrightarrow> length nonce = NPUBBYTES \<Longrightarrow> unseal dec key (seal enc key nonce m) = Some m"
  by (simp add: unseal_def seal_def opens_def)

lemma length_seal [simp]:
  "opens enc dec \<Longrightarrow> length nonce = NPUBBYTES \<Longrightarrow> length (seal enc key nonce m) = length m + 28"
  by (simp add: seal_def opens_def tor_sizes)

fun seals :: "('k \<Rightarrow> byte list \<Rightarrow> byte list \<Rightarrow> byte list) \<Rightarrow> 'k \<Rightarrow> byte list list \<Rightarrow> byte list \<Rightarrow> byte list" where
  "seals enc key [] m = m"
| "seals enc key (n # ns) m = seal enc key n (seals enc key ns m)"

lemma length_seals:
  "opens enc dec \<Longrightarrow> \<forall>n \<in> set ns. length n = NPUBBYTES \<Longrightarrow> length (seals enc key ns m) = length m + 28 * length ns"
  by (induction ns) auto

lemma seals_append: "seals enc key (ns @ [n]) m = seals enc key ns (seal enc key n m)"
  by (induction ns) auto

lemma decrypt_seals:
  "opens enc dec \<Longrightarrow> \<forall>n \<in> set ns. length n = NPUBBYTES \<Longrightarrow> length m + 28 * length ns \<le> cap + 28 \<Longrightarrow>
     decrypt_onion dec key cap (length ns) (seals enc key ns m) = Some (Some m)"
proof (induction ns)
  case (Cons n ns)
  then show ?case by (simp add: length_seals tor_sizes)
qed simp

lemma onion_loop_seals:
  assumes "opens enc dec" "\<forall>j. length (nonces j) = NPUBBYTES" "length c + 28 * i \<le> 1020"
  shows "onion_loop enc key relays nonces False i h12 c = Some (seals enc key (map nonces [0..<i]) c)"
  using assms
proof (induction i arbitrary: c)
  case (Suc i)
  have "length (seal enc key (nonces i) c) = length c + 28" using Suc.prems(1,2) by simp
  with Suc show ?case by (simp add: Let_def tor_sizes seals_append)
qed simp

lemma tor_pass_peel:
  assumes "opens enc dec" "\<forall>n \<in> set ns. length n = NPUBBYTES" "length m + 28 * length ns \<le> 1020" "length p = 4"
  shows "\<exists>p'. length p' = 4 \<and> tor_pass enc dec False (replicate (length ns) (key, [])) (p @ seals enc key ns m) = Some (Some (p' @ m))"
  using assms
proof (induction ns arbitrary: p)
  case (Cons n ns)
  have len: "length (seals enc key ns m) = length m + 28 * length ns" using Cons.prems by (simp add: length_seals)
  have "\<exists>p'. length p' = 4 \<and> tor_pass enc dec False (replicate (length ns) (key, []))
      (put32 (length (seals enc key ns m) + sizeof_header32) @ seals enc key ns m) = Some (Some (p' @ m))"
    using Cons.prems by (intro Cons.IH) auto
  with Cons.prems len show ?case by (simp add: crypto_forward_def Let_def sizeof_header32_def MAX_MTU_def)
qed auto

lemma tor_pass_add:
  assumes "opens enc dec" "\<forall>n \<in> set ns. length n = NPUBBYTES" "length c + 28 * length ns \<le> 1020" "length p = 4"
  shows "\<exists>p'. length p' = 4 \<and> tor_pass enc dec True (map (Pair key) ns) (p @ c) = Some (Some (p' @ seals enc key (rev ns) c))"
  using assms
proof (induction ns arbitrary: p c)
  case (Cons n ns)
  let ?c = "seal enc key n c"
  have len: "length ?c = length c + 28" using Cons.prems by simp
  have "\<exists>p'. length p' = 4 \<and> tor_pass enc dec True (map (Pair key) ns) (put32 (length ?c + sizeof_header32) @ ?c) =
      Some (Some (p' @ seals enc key (rev ns) ?c))"
    using Cons.prems len by (intro Cons.IH) auto
  with Cons.prems len show ?case by (simp add: crypto_forward_def Let_def sizeof_header32_def MAX_MTU_def seals_append)
qed auto

abbreviation tor_addr :: "tor_peer \<Rightarrow> nat \<times> nat" where
  "tor_addr p \<equiv> (tp_ip_raw p, nat (tp_port p))"

definition peer_ok :: "tor_peer \<Rightarrow> bool" where
  "peer_ok p \<longleftrightarrow> tp_ip_raw p < 2 ^ 32 \<and> 0 \<le> tp_port p \<and> tp_port p < 65536"

lemma tor_message_fields:
  assumes "length old = 12" "ip < 2 ^ 32" "port < 65536"
  shows "length (put_tor_message old d ip port) = 12" "tm_is_dest (put_tor_message old d ip port @ c) = d"
    "tm_ip (put_tor_message old d ip port @ c) = ip" "tm_port (put_tor_message old d ip port @ c) = port"
proof -
  obtain a1 a2 a3 where a: "take 3 (drop 1 old) = [a1, a2, a3]"
    using assms(1) by (auto simp: length_Suc_conv eval_nat_numeral)
  obtain b1 b2 where b: "take 2 (drop 10 old) = [b1, b2]"
    using assms(1) by (auto simp: length_Suc_conv eval_nat_numeral)
  obtain i1 i2 i3 i4 where i: "put32 ip = [i1, i2, i3, i4]" by (simp add: put32_def)
  show "length (put_tor_message old d ip port) = 12" "tm_is_dest (put_tor_message old d ip port @ c) = d"
    using a b i by (simp_all add: put_tor_message_def tm_is_dest_def)
  show "tm_ip (put_tor_message old d ip port @ c) = ip"
    using a b i get32_put32 [OF assms(2), of "[of_nat (port mod 256), of_nat (port div 256 mod 256), b1, b2] @ c"]
    by (simp add: put_tor_message_def tm_ip_def)
  have "unat (of_nat x :: byte) = x mod 256" for x by (simp add: unsigned_of_nat take_bit_eq_mod)
  then show "tm_port (put_tor_message old d ip port @ c) = port"
    using a b i assms(3) by (simp add: put_tor_message_def tm_port_def)
qed

text \<open>One more layer is one more hop.\<close>

lemma tor_route_layer:
  assumes "opens enc dec" "length nonce = NPUBBYTES" "length h12 = 12" "peer_ok p" "length c \<le> 980"
    "tor_route dec keys c = Some path"
  shows "tor_route dec (key # keys)
      (seal enc key nonce (put_tor_message h12 0 (tp_ip_raw p) (nat (tp_port p mod 65536)) @ c)) = Some (tor_addr p # path)"
proof -
  let ?port = "nat (tp_port p mod 65536)"
  have port: "?port = nat (tp_port p)" "nat (tp_port p) < 65536" using assms(4) by (auto simp: peer_ok_def)
  note f = tor_message_fields [OF assms(3), of "tp_ip_raw p" "nat (tp_port p)" 0]
  have f': "length (put_tor_message h12 0 (tp_ip_raw p) (nat (tp_port p))) = 12"
      "tm_is_dest (put_tor_message h12 0 (tp_ip_raw p) (nat (tp_port p)) @ c) = 0"
      "tm_ip (put_tor_message h12 0 (tp_ip_raw p) (nat (tp_port p)) @ c) = tp_ip_raw p"
      "tm_port (put_tor_message h12 0 (tp_ip_raw p) (nat (tp_port p)) @ c) = nat (tp_port p)"
    using f assms(4) port(2) by (simp_all add: peer_ok_def)
  then have "put_tor_message h12 0 (tp_ip_raw p) (nat (tp_port p)) @ c \<noteq> []" by auto
  with f' assms(1,2,5,6) port(1) show ?thesis
    by (simp add: tor_hop_def accept_first_def Let_def tor_sizes)
qed

lemma onion_loop_route:
  assumes "opens enc dec" "\<forall>j. length (nonces j) = NPUBBYTES" "length h12 = 12" "\<forall>p \<in> set relays. peer_ok p"
    "i < length relays" "length c + 40 * i \<le> 1020" "tor_route dec keys c = Some path"
  shows "\<exists>r. onion_loop enc key relays nonces True i h12 c = Some r \<and> length r \<le> 1020 \<and>
    tor_route dec (replicate i key @ keys) r = Some (map (\<lambda>j. tor_addr (relays ! j)) [1..<Suc i] @ path)"
  using assms
proof (induction i arbitrary: h12 c keys path)
  case (Suc i)
  let ?p = "relays ! Suc i"
  have ok: "peer_ok ?p" using Suc.prems(4,5) by simp
  let ?h = "put_tor_message h12 0 (tp_ip_raw ?p) (nat (tp_port ?p mod 65536))"
  let ?c = "seal enc key (nonces i) (?h @ c)"
  have h: "length ?h = 12" using ok Suc.prems(3) by (intro tor_message_fields) (auto simp: peer_ok_def)
  have len: "length ?c = length c + 40" using Suc.prems(1,2) h by simp
  have route: "tor_route dec (key # keys) ?c = Some (tor_addr ?p # path)"
    using Suc.prems ok by (intro tor_route_layer) auto
  have "\<exists>r. onion_loop enc key relays nonces True i ?h ?c = Some r \<and> length r \<le> 1020 \<and>
      tor_route dec (replicate i key @ key # keys) r = Some (map (\<lambda>j. tor_addr (relays ! j)) [1..<Suc i] @ tor_addr ?p # path)"
    using Suc.prems h len route by (intro Suc.IH) auto
  moreover have "replicate i key @ key # keys = replicate (Suc i) key @ keys" by (simp add: replicate_append_same)
  ultimately show ?case using h len Suc.prems(5,6) by (simp add: Let_def tor_sizes)
qed simp

subsection \<open>Properties\<close>

text \<open>
  C19. Building a circuit: when all relays have the key of the sender, the first message of a
  connection with up to 24 layers is sent, every relay on the way opens one layer and forwards the
  rest to the next relay the sender has chosen, and the last of them, the destination, accepts
  it.
\<close>

theorem tor_circuit:
  assumes "opens enc dec" "\<forall>j. length (nonces j) = NPUBBYTES" "\<forall>p \<in> set relays. peer_ok p"
    "num_layers < length relays" "num_layers \<le> 24" "12 \<le> length buf" "buf ! 0 = 1"
  shows "returns (tor_send enc key num_layers True relays nonces buf (- 1)) (\<lambda>f.
    tor_route dec (replicate (num_layers + 1) key) (drop sizeof_header32 f) =
      Some (map (\<lambda>j. tor_addr (relays ! j)) [1..<num_layers + 1]))"
proof -
  let ?m = "take 12 buf" and ?n = "nonces num_layers"
  have m: "length ?m = 12" "?m \<noteq> []" "?m ! 0 = 1" using assms(6,7) by auto
  then have "tor_route dec [key] (seal enc key ?n ?m) = Some []"
    using assms(1,2) by (simp add: tor_hop_def accept_first_def tm_is_dest_def tor_sizes)
  moreover have "length (seal enc key ?n ?m) = 40" using assms(1,2) m by simp
  ultimately have "\<exists>r. onion_loop enc key relays nonces True num_layers ?n (seal enc key ?n ?m) = Some r \<and> length r \<le> 1020 \<and>
      tor_route dec (replicate num_layers key @ [key]) r = Some (map (\<lambda>j. tor_addr (relays ! j)) [1..<Suc num_layers] @ [])"
    using assms by (intro onion_loop_route) (auto simp: NPUBBYTES_def)
  then show ?thesis
    using assms(6) \<open>length (seal enc key ?n ?m) = 40\<close>
    by (auto simp: tor_send_def generate_circuits_def Let_def tor_sizes replicate_append_same returns_def)
qed

lemma opens_sample: "opens sample_enc sample_dec"
  by (simp add: opens_def sample_enc_def sample_dec_def ABYTES_def)

definition sample_peer :: "nat \<Rightarrow> tor_peer" where
  "sample_peer i = \<lparr>tp_ip = ''10.0.0.1'', tp_port = 9000 + int i, tp_key = ''k'', tp_ip_raw = i\<rparr>"

theorem tor_circuit_witness:
  "returns (tor_send sample_enc 7 2 True (map sample_peer [4, 5, 6]) (\<lambda>_. replicate 12 0) (1 # replicate 11 0) (- 1)) (\<lambda>f.
    tor_route sample_dec [7, 7, 7] (drop 4 f) = Some [(5, 9005), (6, 9006)])"
proof -
  have "returns (tor_send sample_enc 7 2 True (map sample_peer [4, 5, 6]) (\<lambda>_. replicate 12 0) (1 # replicate 11 0) (- 1)) (\<lambda>f.
    tor_route sample_dec (replicate (2 + 1) 7) (drop sizeof_header32 f) =
      Some (map (\<lambda>j. tor_addr (map sample_peer [4, 5, 6] ! j)) [1..<2 + 1]))"
    by (rule tor_circuit [OF opens_sample]) (simp_all add: NPUBBYTES_def peer_ok_def sample_peer_def)
  moreover have "map (\<lambda>j. tor_addr (map sample_peer [4, 5, 6] ! j)) [1..<2 + 1] = [(5, 9005), (6, 9006)]"
    by (simp add: sample_peer_def upt_rec)
  moreover have "replicate (2 + 1) (7 :: byte) = [7, 7, 7]" by (simp add: numeral_3_eq_3)
  ultimately show ?thesis by (simp only: sizeof_header32_def)
qed

text \<open>
  C20. What goes through a circuit arrives: with one key for all relays and the destination, a message of the sender
  opened by every relay on the way and by the destination, and a message of the destination sealed once
  more by every relay on the way back and opened by the sender, is the message, as long as it and 28 bytes for
  every relay and for the end fit the 1020 bytes of a frame, and what is left of its layers fits the buffer of the receiver.
\<close>

theorem tor_roundtrip:
  assumes "opens enc dec" "\<forall>j. length (nonces j) = NPUBBYTES"
    "length m + 28 * (num_layers + 1) \<le> 1020" "length m + 28 * num_layers \<le> cap"
    "length ns = num_layers" "\<forall>n \<in> set ns. length n = NPUBBYTES"
  shows "returns (tor_send enc key num_layers True relays nonces m (int (length m))) (\<lambda>f.
      returns (tor_pass enc dec False (replicate num_layers (key, [])) f) (\<lambda>r. case r of
        Some f' \<Rightarrow> decrypt_onion dec key cap 1 (drop sizeof_header32 f') = Some (Some m) | None \<Rightarrow> False)) \<and>
    returns (tor_send enc key num_layers False relays nonces m (int (length m))) (\<lambda>f.
      returns (tor_pass enc dec True (map (Pair key) ns) f) (\<lambda>r. case r of
        Some f' \<Rightarrow> decrypt_onion dec key cap (num_layers + 1) (drop sizeof_header32 f') = Some (Some m) | None \<Rightarrow> False))"
proof
  let ?n = "nonces num_layers"
  let ?c = "seal enc key ?n m"
  have len: "length ?c = length m + 28" using assms(1,2) by simp
  have loop: "onion_loop enc key relays nonces False num_layers ?n ?c = Some (seals enc key (map nonces [0..<num_layers]) ?c)"
    using assms len by (intro onion_loop_seals) auto
  have open1: "decrypt_onion dec key cap 1 ?c = Some (Some m)"
    using decrypt_seals [of enc dec "[?n]" m cap key] assms by simp
  obtain p' where "length p' = 4"
      "tor_pass enc dec False (replicate num_layers (key, []))
        (put32 (length (seals enc key (map nonces [0..<num_layers]) ?c) + 4) @ seals enc key (map nonces [0..<num_layers]) ?c) =
       Some (Some (p' @ ?c))"
    using tor_pass_peel [of enc dec "map nonces [0..<num_layers]" ?c "put32 (length (seals enc key (map nonces [0..<num_layers]) ?c) + 4)" key]
      assms len by auto
  then show "returns (tor_send enc key num_layers True relays nonces m (int (length m))) (\<lambda>f.
      returns (tor_pass enc dec False (replicate num_layers (key, [])) f) (\<lambda>r. case r of
        Some f' \<Rightarrow> decrypt_onion dec key cap 1 (drop sizeof_header32 f') = Some (Some m) | None \<Rightarrow> False))"
    using loop open1 assms(3) len
    by (simp add: tor_send_def generate_circuits_def Let_def tor_sizes del: decrypt_onion.simps)
  obtain q' where "length q' = 4"
      "tor_pass enc dec True (map (Pair key) ns) (put32 (length (seal enc key (nonces 0) m) + 4) @ seal enc key (nonces 0) m) =
       Some (Some (q' @ seals enc key (rev ns) (seal enc key (nonces 0) m)))"
    using tor_pass_add [of enc dec ns "seal enc key (nonces 0) m" "put32 (length (seal enc key (nonces 0) m) + 4)" key] assms by auto
  moreover have "decrypt_onion dec key cap (num_layers + 1) (seals enc key (rev ns) (seal enc key (nonces 0) m)) = Some (Some m)"
    using decrypt_seals [of enc dec "rev ns @ [nonces 0]" m cap key] assms by (simp add: seals_append)
  ultimately show "returns (tor_send enc key num_layers False relays nonces m (int (length m))) (\<lambda>f.
      returns (tor_pass enc dec True (map (Pair key) ns) f) (\<lambda>r. case r of
        Some f' \<Rightarrow> decrypt_onion dec key cap (num_layers + 1) (drop sizeof_header32 f') = Some (Some m) | None \<Rightarrow> False))"
    using assms(1,2,3)
    by (simp add: tor_send_def generate_circuits_def Let_def tor_sizes del: decrypt_onion.simps)
qed

theorem tor_roundtrip_witness:
  "returns (tor_send sample_enc 7 2 True (map sample_peer [4, 5, 6]) (\<lambda>_. replicate 12 0) [1, 2, 3] 3) (\<lambda>f.
      returns (tor_pass sample_enc sample_dec False (replicate 2 (7, [])) f) (\<lambda>r. case r of
        Some f' \<Rightarrow> decrypt_onion sample_dec 7 100 1 (drop sizeof_header32 f') = Some (Some [1, 2, 3]) | None \<Rightarrow> False))"
proof -
  have "int (length [1, 2, 3 :: byte]) = 3" by simp
  moreover have "returns (tor_send sample_enc 7 2 True (map sample_peer [4, 5, 6]) (\<lambda>_. replicate 12 0) [1, 2, 3] (int (length [1, 2, 3 :: byte]))) (\<lambda>f.
      returns (tor_pass sample_enc sample_dec False (replicate 2 (7, [])) f) (\<lambda>r. case r of
        Some f' \<Rightarrow> decrypt_onion sample_dec 7 100 1 (drop sizeof_header32 f') = Some (Some [1, 2, 3]) | None \<Rightarrow> False))"
    by (rule conjunct1 [OF tor_roundtrip [OF opens_sample, where ns = "replicate 2 (replicate 12 0)"]]) (simp_all add: NPUBBYTES_def)
  ultimately show ?thesis by (simp only:)
qed

text \<open>No relay of a circuit is the own one or the destination, and with only those two the search never
  ends.\<close>

lemma tor_pick_other:
  "tor_pick md idi ds = Some (r, ds') \<Longrightarrow> rm_all_relays md \<noteq> [] \<Longrightarrow>
     r \<noteq> rm_server_idx md \<and> r \<noteq> idi \<and> 0 \<le> r \<and> r < int (length (rm_all_relays md))"
  by (induction md idi ds rule: tor_pick.induct) (auto simp: Let_def split: if_splits)

lemma tor_picks_other:
  "tor_picks md idi k ds = Some rs \<Longrightarrow> rm_all_relays md \<noteq> [] \<Longrightarrow>
     length rs = k \<and> (\<forall>r \<in> set rs. r \<noteq> rm_server_idx md \<and> r \<noteq> idi \<and> 0 \<le> r \<and> r < int (length (rm_all_relays md)))"
  by (induction md idi k ds arbitrary: rs rule: tor_picks.induct) (fastforce dest: tor_pick_other elim!: bind_SomeE)+

theorem tor_two_relays_never_connect:
  assumes "length (rm_all_relays md) = 2" "rm_server_idx md = 0" "idi = 1" "0 < k"
  shows "tor_picks md idi k ds = None"
proof -
  have "tor_pick md idi ds = None"
    using assms(1-3) by (induction ds) (auto simp: Let_def)
  with assms(4) show ?thesis by (cases k) auto
qed

text \<open>A relay whose key is not the sender's cannot open the layer meant for it, for the sender seals every layer
  with its own key; it goes on with an uninitialised message.\<close>

lemma tor_own_key_only:
  assumes "opens enc dec" "length nonce = NPUBBYTES" "dec key' nonce (enc key nonce m) = None" "length m \<le> MAX_MTU"
  shows "tor_hop dec key' (seal enc key nonce m) = None"
  using assms by (simp add: tor_hop_def unseal_def seal_def opens_def accept_first_def)

end
