(* ===== verification/TorRelay.thy ===== *)
theory TorRelay
  imports Tor
begin

text \<open>
  A relay of the onion-routing back end at work (\<open>accept\<close> in src/src/interface/tor/TorSocket.cpp): the loop that takes
  connections, and the two threads that carry the frames of a circuit in each direction. A connection is the bytes
  that will arrive on it and the sizes of the reads; a thread runs over a list of reads for each of its calls.
\<close>

subsection \<open>Taking connections\<close>

definition tor_recv ::
  "('k \<Rightarrow> byte list \<Rightarrow> byte list \<Rightarrow> byte list option) \<Rightarrow> 'k \<Rightarrow> nat \<Rightarrow> bool \<Rightarrow> nat \<Rightarrow> byte list \<Rightarrow> nat \<Rightarrow> byte list \<Rightarrow> nat list \<Rightarrow>
   (byte list option \<times> byte list \<times> nat \<times> byte list) recv_result option" where
  "tor_recv dec key num_layers is_sender cap shared used stream ks =
     recv_decrypt_onion dec key cap (if is_sender then num_layers else 0) shared used stream ks"

text \<open>A connection with its stream, the reads of the first message and whether the next relay can be reached.\<close>

datatype tor_event =
    AcceptFailed
  | Accepted "byte list" "nat list" bool

datatype tor_waiting =
    Waiting
  | InvalidSocket
  | Connection "byte list" nat "byte list"

text \<open>A thread that forwards: where to, the first frame, and the stream it goes on with, or that it has closed.\<close>

datatype forwarder =
    Forwarder nat nat "byte list" "byte list"
  | ForwardClosed

definition start_forward :: "bool \<Rightarrow> nat \<Rightarrow> nat \<Rightarrow> byte list \<Rightarrow> byte list \<Rightarrow> forwarder" where
  "start_forward connects ip port f stream = (if connects then Forwarder ip port f stream else ForwardClosed)"

text \<open>The buffer of a new socket holds arbitrary bytes, \<open>shared0\<close>.\<close>

fun tor_accept_loop ::
  "('k \<Rightarrow> byte list \<Rightarrow> byte list \<Rightarrow> byte list option) \<Rightarrow> 'k \<Rightarrow> nat \<Rightarrow> byte list \<Rightarrow> tor_event list \<Rightarrow> (tor_waiting \<times> forwarder list) option" where
  "tor_accept_loop dec key num_layers shared0 [] = Some (Waiting, [])"
| "tor_accept_loop dec key num_layers shared0 (AcceptFailed # es) = Some (InvalidSocket, [])"
| "tor_accept_loop dec key num_layers shared0 (Accepted stream ks connects # es) = do {
     r \<leftarrow> tor_recv dec key num_layers False MAX_MTU shared0 0 stream ks;
     case r of
       Received (m, shared, used, stream') \<Rightarrow> do {
         a \<leftarrow> accept_first m;
         case a of
           Request \<Rightarrow> Some (Connection shared used stream', [])
         | Forward ip port f \<Rightarrow> do {
             (w, fws) \<leftarrow> tor_accept_loop dec key num_layers shared0 es;
             Some (w, start_forward connects ip port f stream' # fws) } }
     | Reset \<Rightarrow> None
     | Blocked \<Rightarrow> Some (Waiting, []) }"

text \<open>
  One of the two threads of a circuit: it adds or removes a layer of every frame, and closes the other end when that
  fails. The frames sent, and whether it has closed.
\<close>

fun forward_loop ::
  "('k \<Rightarrow> byte list \<Rightarrow> byte list \<Rightarrow> byte list) \<Rightarrow> ('k \<Rightarrow> byte list \<Rightarrow> byte list \<Rightarrow> byte list option) \<Rightarrow> 'k \<Rightarrow> bool \<Rightarrow>
   (byte list \<times> nat list) list \<Rightarrow> byte list \<Rightarrow> nat \<Rightarrow> byte list \<Rightarrow> (byte list list \<times> bool) option" where
  "forward_loop enc dec key encrypt [] shared used stream = Some ([], False)"
| "forward_loop enc dec key encrypt ((nonce, ks) # calls) shared used stream = do {
     r \<leftarrow> recv_crypto_send enc dec key encrypt nonce shared used stream ks;
     case r of
       Received (Some f, shared', used', stream') \<Rightarrow> do {
         (fs, closed) \<leftarrow> forward_loop enc dec key encrypt calls shared' used' stream';
         Some (f # fs, closed) }
     | Received (None, _) \<Rightarrow> Some ([], True)
     | Reset \<Rightarrow> Some ([], True)
     | Blocked \<Rightarrow> Some ([], False) }"

definition tor_id_to_key :: "ring_id \<Rightarrow> string" where
  "tor_id_to_key i = to_string (unat i)"

definition tor_key_to_id :: "string \<Rightarrow> ring_id option" where
  "tor_key_to_id key = map_option word_of_int (stoi key)"

definition tor_id_range :: "relay_metadata \<Rightarrow> ring_id" where
  "tor_id_range md = of_nat (length (rm_all_relays md))"

subsection \<open>Whole frames\<close>

definition frame_of :: "byte list \<Rightarrow> byte list" where
  "frame_of b = put32 (length b + sizeof_header32) @ b"

lemma length_frame_of [simp]: "length (frame_of b) = length b + 4"
  by (simp add: frame_of_def sizeof_header32_def put32_def)

text \<open>A read that gives exactly a frame, and one that gives the bytes after it as well.\<close>

lemma tcp_fill_read:
  assumes "got < expected" "take (min k expected) stream = chunk" "chunk \<noteq> []" "got + length chunk \<le> length shared"
  shows "tcp_fill shared got expected stream (k # ks) =
    tcp_fill (take got shared @ chunk @ drop (got + length chunk) shared) (got + length chunk)
      (get32 (take got shared @ chunk @ drop (got + length chunk) shared)) (drop (length chunk) stream) ks"
  using assms by (subst tcp_fill.simps) (simp add: Let_def)

lemma fill_frames:
  assumes "length b + 4 + length nx \<le> 1024" "length shared = 1024"
  shows "tcp_fill shared 0 MAX_MTU (frame_of b @ nx @ rest) [length b + 4 + length nx] =
    Some (Received (frame_of b @ nx @ drop (length b + 4 + length nx) shared, length b + 4 + length nx, length b + 4, rest))"
proof -
  let ?n = "length b + 4 + length nx"
  let ?chunk = "frame_of b @ nx"
  have "take (min ?n MAX_MTU) (frame_of b @ nx @ rest) = ?chunk" using assms(1) by (simp add: MAX_MTU_def min_absorb1)
  moreover have "?chunk \<noteq> []" by (simp add: frame_of_def put32_def)
  ultimately have "tcp_fill shared 0 MAX_MTU (frame_of b @ nx @ rest) [?n] =
      tcp_fill (?chunk @ drop ?n shared) ?n (get32 (?chunk @ drop ?n shared)) rest []"
    using tcp_fill_read [of 0 MAX_MTU ?n "frame_of b @ nx @ rest" ?chunk shared "[]"] assms by (simp add: MAX_MTU_def)
  also have "get32 (?chunk @ drop ?n shared) = length b + 4"
    using assms(1) get32_put32 [of "length b + 4" "b @ nx @ drop ?n shared"] by (simp add: frame_of_def sizeof_header32_def)
  also have "tcp_fill (?chunk @ drop ?n shared) ?n (length b + 4) rest [] = Some (Received (?chunk @ drop ?n shared, ?n, length b + 4, rest))"
    by (subst tcp_fill.simps) simp
  finally show ?thesis by simp
qed

lemma recv_frames:
  assumes "length b + 4 + length nx \<le> 1024" "length shared = 1024"
  shows "recv_with_header_size shared 0 MAX_MTU (frame_of b @ nx @ rest) [length b + 4 + length nx] =
    Some (Received (b, frame_of b @ nx @ drop (length b + 4 + length nx) shared, length nx, rest))"
proof -
  have "take (length b) (drop 4 (frame_of b @ xs)) = b" for xs by (simp add: frame_of_def put32_def)
  then show ?thesis using fill_frames [OF assms] by (simp add: recv_with_header_size_def sizeof_header32_def)
qed

subsection \<open>Circuits carry their frames\<close>

text \<open>What a relay makes of the body of a frame.\<close>

definition relayed :: "('k \<Rightarrow> byte list \<Rightarrow> byte list \<Rightarrow> byte list) \<Rightarrow> ('k \<Rightarrow> byte list \<Rightarrow> byte list \<Rightarrow> byte list option) \<Rightarrow> 'k \<Rightarrow> bool \<Rightarrow>
   byte list \<Rightarrow> byte list \<Rightarrow> byte list option" where
  "relayed enc dec key encrypt nonce b = (if encrypt then Some (seal enc key nonce b) else unseal dec key b)"

lemma recv_crypto_frame:
  assumes "length b + 4 \<le> 1024" "length shared = 1024" "relayed enc dec key encrypt nonce b = Some p" "length p + 4 \<le> 1024"
  shows "\<exists>shared'. recv_crypto_send enc dec key encrypt nonce shared 0 (frame_of b @ rest) [length b + 4] =
    Some (Received (Some (frame_of p), shared', 0, rest)) \<and> length shared' = 1024"
proof -
  have "recv_with_header_size shared 0 MAX_MTU (frame_of b @ rest) [length b + 4] =
      Some (Received (b, frame_of b @ drop (length b + 4) shared, 0, rest))"
    using recv_frames [of b "[]" shared rest] assms(1,2) by simp
  moreover have "crypto_forward enc dec key encrypt nonce b = Some (Some (frame_of p))"
    using assms(3,4) by (simp add: crypto_forward_def relayed_def frame_of_def MAX_MTU_def sizeof_header32_def split: if_splits)
  ultimately show ?thesis using assms(1,2) by (simp add: recv_crypto_send_def shift_shared_def)
qed

text \<open>
  As long as every read gives one whole frame, a thread relays all of them in their order, each with a layer
  more or less.
\<close>

theorem frames_relayed:
  assumes "list_all (\<lambda>(nonce, b, p). relayed enc dec key encrypt nonce b = Some p \<and> length b + 4 \<le> 1024 \<and> length p + 4 \<le> 1024) jobs"
    and "length shared = 1024"
  shows "forward_loop enc dec key encrypt (map (\<lambda>(nonce, b, p). (nonce, [length b + 4])) jobs) shared 0
      (concat (map (\<lambda>(nonce, b, p). frame_of b) jobs)) = Some (map (\<lambda>(nonce, b, p). frame_of p) jobs, False)"
  using assms
proof (induction jobs arbitrary: shared)
  case (Cons job jobs)
  obtain nonce b p where job: "job = (nonce, b, p)" by (cases job) auto
  obtain shared' where "recv_crypto_send enc dec key encrypt nonce shared 0
      (frame_of b @ concat (map (\<lambda>(nonce, b, p). frame_of b) jobs)) [length b + 4] =
        Some (Received (Some (frame_of p), shared', 0, concat (map (\<lambda>(nonce, b, p). frame_of b) jobs)))" "length shared' = 1024"
    using recv_crypto_frame [of b shared enc dec key encrypt nonce p] Cons.prems job by auto
  then show ?case using Cons.IH [of shared'] Cons.prems(1) job by simp
qed simp

text \<open>
  A frame that arrives together with the first message of a circuit is lost: it stays in the buffer of the socket that
  was accepted, and the thread that forwards starts with an empty buffer of its own and with what comes after it.
\<close>

theorem early_frame_lost:
  assumes "opens enc dec" "length nonce = NPUBBYTES" "accept_first (Some m) = Some (Forward ip port f)"
    and "b = seal enc key nonce m" "length b + 4 + (length early + 4) \<le> 1024" "length early \<le> length b" "length shared0 = 1024"
  shows "tor_accept_loop dec key num_layers shared0
      [Accepted (frame_of b @ frame_of early @ rest) [length b + 4 + (length early + 4)] True] =
    Some (Waiting, [Forwarder ip port f rest])"
proof -
  have "recv_with_header_size shared0 0 MAX_MTU (frame_of b @ frame_of early @ rest) [length b + 4 + (length early + 4)] =
      Some (Received (b, frame_of b @ frame_of early @ drop (length b + 4 + (length early + 4)) shared0, length early + 4, rest))"
    using recv_frames [of b "frame_of early" shared0 rest] assms(5,7) by simp
  moreover have "decrypt_onion dec key MAX_MTU (Suc 0) b = Some (Some m)"
    using decrypt_seals [of enc dec "[nonce]" m MAX_MTU key] assms by (simp add: MAX_MTU_def)
  ultimately show ?thesis
    using assms(3,6) by (simp add: tor_recv_def recv_decrypt_onion_def shift_shared_def sizeof_header32_def start_forward_def)
qed

text \<open>A client that connects and sends nothing stops the relay: no later connection is taken.\<close>

lemma silent_client_stops_relay: "tor_accept_loop dec key num_layers shared0 (Accepted stream [] connects # es) = Some (Waiting, [])"
proof -
  have "tcp_fill shared0 0 MAX_MTU stream [] = Some Blocked" by (subst tcp_fill.simps) (simp add: MAX_MTU_def)
  then show ?thesis by (simp add: tor_recv_def recv_decrypt_onion_def recv_with_header_size_def)
qed

lemma tor_key_roundtrip: "tor_key_to_id (tor_id_to_key i) = (if unat i < 2 ^ 31 then Some i else None)"
  by (auto simp: tor_key_to_id_def tor_id_to_key_def stoi_to_string)

end
