(* ===== verification/Loopix.thy ===== *)
theory Loopix
  imports Tcp Ring Queues
begin

text \<open>
  The back end for the Loopix mix network (src/src/interface/loopix/LoopixSocket.cpp): datagrams with a
  header of five bytes go to and come from a local mix client, which is not part of the sources. The
  queues of the sockets are objects with an address, since two sockets may share one and a socket may
  keep one that is no longer registered. \<open>lx_running\<close> says that the receiving thread has not ended.
  \<open>None\<close> is undefined behaviour or an exception of the standard library.
\<close>

subsection \<open>State\<close>

record loopix_packet =
  lp_buf :: "byte list"
  lp_size :: int

record loopix_relay =
  lx_relay_idx :: int
  lx_relay_num :: int
  lx_accept_queue :: "loopix_packet block_queue"
  lx_socket_queue :: "int \<Rightarrow> nat option"
  lx_queues :: "nat \<Rightarrow> loopix_packet block_queue"
  lx_next :: nat
  lx_running :: bool

record loopix_socket =
  ls_dest_idx :: int
  ls_queue :: nat
  ls_is_active :: bool

definition header_len :: nat where "header_len = 5"

definition get_queue :: "loopix_relay \<Rightarrow> int \<Rightarrow> nat option" where
  "get_queue r idx = lx_socket_queue r idx"

definition register_queue :: "loopix_relay \<Rightarrow> int \<Rightarrow> nat \<times> loopix_relay" where
  "register_queue r idx =
     (lx_next r, r\<lparr>lx_socket_queue := (lx_socket_queue r)(idx \<mapsto> lx_next r),
                  lx_queues := (lx_queues r)(lx_next r := []), lx_next := lx_next r + 1\<rparr>)"

definition deregister_queue :: "loopix_relay \<Rightarrow> int \<Rightarrow> loopix_relay" where
  "deregister_queue r idx = r\<lparr>lx_socket_queue := (lx_socket_queue r)(idx := None)\<rparr>"

definition LoopixSocket :: "loopix_relay \<Rightarrow> int \<Rightarrow> loopix_socket \<times> loopix_relay" where
  "LoopixSocket r dest =
     (let (q, r') = register_queue r dest in (\<lparr>ls_dest_idx = dest, ls_queue = q, ls_is_active = True\<rparr>, r'))"

subsection \<open>Sending and receiving\<close>

text \<open>The header: whether it opens a connection, source and destination in two bytes each.\<close>

definition loopix_header :: "byte \<Rightarrow> int \<Rightarrow> int \<Rightarrow> byte list" where
  "loopix_header connection src dest =
     [connection, word_of_int (src div 256), word_of_int (src mod 256), word_of_int (dest div 256), word_of_int (dest mod 256)]"

definition header_src :: "byte list \<Rightarrow> int" where
  "header_src b = uint (b ! 1) * 256 + uint (b ! 2)"

text \<open>The datagram for the mix client.\<close>

definition loopix_send :: "loopix_relay \<Rightarrow> loopix_socket \<Rightarrow> byte list \<Rightarrow> int \<Rightarrow> byte list option" where
  "loopix_send r s buf sz =
     (if sz < 0 \<or> int (length buf) < sz \<or> sz > int (MAX_MTU - header_len) then None
      else Some (loopix_header 0 (lx_relay_idx r) (ls_dest_idx s) @ take (nat sz) buf))"

text \<open>
  The receiving thread on one datagram, into a new packet of zero bytes. A packet of an unknown
  source is taken for a request to connect, a request of a known source is dropped.
\<close>

definition new_loopix_packet :: loopix_packet where
  "new_loopix_packet = \<lparr>lp_buf = replicate MAX_MTU 0, lp_size = 0\<rparr>"

definition loopix_datagram :: "loopix_relay \<Rightarrow> byte list \<Rightarrow> loopix_relay" where
  "loopix_datagram r data =
     (let sz = min MAX_MTU (length data);
          buf = take MAX_MTU data @ drop sz (lp_buf new_loopix_packet);
          packet = \<lparr>lp_buf = buf, lp_size = int sz\<rparr>;
          src = header_src buf
      in if \<not> lx_running r then r
         else if data = [] then r\<lparr>lx_running := False\<rparr>
         else case get_queue r src of
           None \<Rightarrow> r\<lparr>lx_accept_queue := cbq_push (lx_accept_queue r) packet\<rparr>
         | Some q \<Rightarrow>
             if buf ! 0 = 1 then r
             else r\<lparr>lx_queues := (lx_queues r)(q := cbq_push (lx_queues r q) packet)\<rparr>)"

text \<open>
  \<open>recv\<close> into a buffer of \<open>cap\<close> bytes: the return value with what was copied, and the relay. The copy
  of a packet shorter than its header is undefined. The caller that waits without a limit gets \<open>Some None\<close>
  while nothing has come.
\<close>

definition loopix_copy ::
  "nat \<Rightarrow> loopix_relay \<Rightarrow> loopix_socket \<Rightarrow> loopix_packet \<Rightarrow> loopix_packet block_queue \<Rightarrow> ((int \<times> byte list) \<times> loopix_relay) option" where
  "loopix_copy cap r s packet q =
     (let r' = r\<lparr>lx_queues := (lx_queues r)(ls_queue s := q)\<rparr>; n = lp_size packet - int header_len
      in if \<not> ls_is_active s then Some ((-1, []), r')
         else if n < 0 \<or> n > int cap \<or> int (length (lp_buf packet)) < lp_size packet then None
         else Some ((n, take (nat n) (drop header_len (lp_buf packet))), r'))"

definition loopix_recv ::
  "nat \<Rightarrow> loopix_relay \<Rightarrow> loopix_socket \<Rightarrow> ((int \<times> byte list) \<times> loopix_relay) option option" where
  "loopix_recv cap r s =
     (case cbq_pop_front (lx_queues r (ls_queue s)) of
        None \<Rightarrow> Some None
      | Some (packet, q) \<Rightarrow> map_option Some (loopix_copy cap r s packet q))"

definition loopix_recv_timed ::
  "nat \<Rightarrow> (bool \<times> loopix_packet list) list \<Rightarrow> loopix_relay \<Rightarrow> loopix_socket \<Rightarrow> ((int \<times> byte list) \<times> loopix_relay) option option" where
  "loopix_recv_timed cap wakes r s =
     (case cbq_pop_front_timed (lx_queues r (ls_queue s)) wakes of
        Waiting \<Rightarrow> Some None
      | TimedOut q \<Rightarrow> Some (Some ((0, []), r\<lparr>lx_queues := (lx_queues r)(ls_queue s := q)\<rparr>))
      | Got packet q \<Rightarrow> map_option Some (loopix_copy cap r s packet q))"

text \<open>\<open>close\<close> wakes a waiting caller with a new packet, and only then ends the socket.\<close>

definition close_push :: "loopix_relay \<Rightarrow> loopix_socket \<Rightarrow> loopix_relay" where
  "close_push r s = r\<lparr>lx_queues := (lx_queues r)(ls_queue s := cbq_push (lx_queues r (ls_queue s)) new_loopix_packet)\<rparr>"

definition loopix_close :: "loopix_relay \<Rightarrow> loopix_socket \<Rightarrow> loopix_socket \<times> loopix_relay" where
  "loopix_close r s = (s\<lparr>ls_is_active := False\<rparr>, close_push r s)"

subsection \<open>Connections\<close>

text \<open>The datagrams of \<open>connect\<close>, sent twice, and the socket.\<close>

definition loopix_connect :: "loopix_relay \<Rightarrow> string \<Rightarrow> (byte list list \<times> loopix_socket \<times> loopix_relay) option" where
  "loopix_connect r key = do {
     dest \<leftarrow> stoi key;
     let b = loopix_header 1 (lx_relay_idx r) dest;
     let (s, r') = LoopixSocket r dest;
     Some ([b, b], s, r') }"

definition loopix_accept :: "loopix_relay \<Rightarrow> (loopix_socket \<times> loopix_relay) option" where
  "loopix_accept r =
     (case cbq_pop_front (lx_accept_queue r) of
        None \<Rightarrow> None
      | Some (packet, q) \<Rightarrow> Some (LoopixSocket (r\<lparr>lx_accept_queue := q\<rparr>) (header_src (lp_buf packet))))"

text \<open>
  Reading the configuration: the index of the last relay with the own address, zero without one, and the
  number of relays. \<open>up\<close> says whether binding succeeds.
\<close>

function loopix_config :: "string \<Rightarrow> int \<Rightarrow> string \<Rightarrow> int \<Rightarrow> int \<Rightarrow> int \<times> int" where
  "loopix_config ip port s relay_idx cur_idx =
     (case extract_word s of
        None \<Rightarrow> (relay_idx, cur_idx)
      | Some (w, s') \<Rightarrow>
          (case extract_int s' of
             None \<Rightarrow> (relay_idx, cur_idx)
           | Some (p, s'') \<Rightarrow> loopix_config ip port s'' (if w = ip \<and> p = port then cur_idx else relay_idx) (cur_idx + 1)))"
  by auto
termination
  by (relation "measure (\<lambda>(ip, port, s, _). length s)")
    (auto dest!: extract_word_shorter extract_int_shorter)

declare loopix_config.simps [simp del]

definition loopix_initialize :: "bool \<Rightarrow> string \<Rightarrow> int \<Rightarrow> string \<Rightarrow> string \<times> loopix_relay" where
  "loopix_initialize up ip port meta =
     (let (i, n) = loopix_config ip port meta 0 0
      in (if up then to_string (nat i) else [],
          \<lparr>lx_relay_idx = i, lx_relay_num = n, lx_accept_queue = [], lx_socket_queue = (\<lambda>_. None),
            lx_queues = (\<lambda>_. []), lx_next = 0, lx_running = up\<rparr>))"

definition loopix_id_to_key :: "ring_id \<Rightarrow> string" where
  "loopix_id_to_key i = to_string (unat i)"

definition loopix_key_to_id :: "string \<Rightarrow> ring_id option" where
  "loopix_key_to_id key = map_option word_of_int (stoi key)"

definition loopix_id_range :: "loopix_relay \<Rightarrow> ring_id" where
  "loopix_id_range r = word_of_int (lx_relay_num r)"

subsection \<open>Messages in order\<close>

fun loopix_recv_all :: "nat \<Rightarrow> loopix_relay \<Rightarrow> loopix_socket \<Rightarrow> nat \<Rightarrow> (byte list list \<times> loopix_relay) option" where
  "loopix_recv_all cap r s 0 = Some ([], r)"
| "loopix_recv_all cap r s (Suc k) = do {
     x \<leftarrow> loopix_recv cap r s;
     case x of
       None \<Rightarrow> None
     | Some ((n, m), r') \<Rightarrow> do {
         (ms, r'') \<leftarrow> loopix_recv_all cap r' s k;
         Some (m # ms, r'') } }"

lemma header_src_header:
  assumes "0 \<le> src" "src < 65536"
  shows "header_src (loopix_header c src dest @ xs) = src"
proof -
  have "src div 256 < 256" using assms by auto
  then have "uint (word_of_int (src div 256) :: byte) = src div 256" "uint (word_of_int (src mod 256) :: byte) = src mod 256"
    using assms by (simp_all add: unsigned_of_int take_bit_int_eq_self)
  then show ?thesis by (simp add: header_src_def loopix_header_def)
qed

lemma length_header [simp]: "length (loopix_header c src dest) = header_len"
  by (simp add: loopix_header_def header_len_def)

text \<open>The packet a datagram becomes.\<close>

definition loopix_packet_of :: "byte \<Rightarrow> int \<Rightarrow> int \<Rightarrow> byte list \<Rightarrow> loopix_packet" where
  "loopix_packet_of c src dest m =
     \<lparr>lp_buf = loopix_header c src dest @ m @ replicate (MAX_MTU - (header_len + length m)) 0, lp_size = int (header_len + length m)\<rparr>"

lemma packet_of_simps [simp]:
  "lp_size (loopix_packet_of c src dest m) = int header_len + int (length m)"
  "drop header_len (lp_buf (loopix_packet_of c src dest m)) = m @ replicate (MAX_MTU - (header_len + length m)) 0"
  "length (lp_buf (loopix_packet_of c src dest m)) = header_len + length m + (MAX_MTU - (header_len + length m))"
  by (simp_all add: loopix_packet_of_def)

lemma src_packet_of:
  assumes "0 \<le> src" "src < 65536"
  shows "header_src (lp_buf (loopix_packet_of c src dest m)) = src"
  using header_src_header [OF assms] by (simp add: loopix_packet_of_def)

lemma datagram_cases:
  assumes "0 \<le> src" "src < 65536" "length m \<le> MAX_MTU - header_len" "lx_running r"
  shows "loopix_datagram r (loopix_header c src dest @ m) =
    (case lx_socket_queue r src of
       None \<Rightarrow> r\<lparr>lx_accept_queue := lx_accept_queue r @ [loopix_packet_of c src dest m]\<rparr>
     | Some q \<Rightarrow> if c = 1 then r else r\<lparr>lx_queues := (lx_queues r)(q := lx_queues r q @ [loopix_packet_of c src dest m])\<rparr>)"
proof -
  let ?d = "loopix_header c src dest @ m" and ?z = "replicate (MAX_MTU - (header_len + length m)) (0 :: byte)"
  have len: "header_len + length m \<le> MAX_MTU" using assms(3) by (simp add: header_len_def MAX_MTU_def)
  then have d: "take MAX_MTU ?d = ?d" "min MAX_MTU (length ?d) = header_len + length m" by simp_all
  have ne: "?d \<noteq> []" by (simp add: loopix_header_def)
  have b: "(?d @ xs) ! 0 = c" "header_src (?d @ xs) = src" for xs
    using header_src_header [OF assms(1,2), of c dest "m @ xs"] by (simp_all add: loopix_header_def)
  have p: "\<lparr>lp_buf = ?d @ ?z, lp_size = int (header_len + length m)\<rparr> = loopix_packet_of c src dest m"
    by (simp add: loopix_packet_of_def)
  have z: "drop (header_len + length m) (lp_buf new_loopix_packet) = ?z" by (simp add: new_loopix_packet_def)
  show ?thesis
    unfolding loopix_datagram_def d Let_def z p b get_queue_def cbq_push_def using assms(4) ne by (simp del: append_is_Nil_conv)
qed

lemma deliver_queued:
  assumes "0 \<le> src" "src < 65536" "\<forall>m \<in> set ms. length m \<le> MAX_MTU - header_len" "lx_socket_queue r src = Some q" "lx_running r"
  shows "foldl loopix_datagram r (map (\<lambda>m. loopix_header 0 src dest @ m) ms) =
    r\<lparr>lx_queues := (lx_queues r)(q := lx_queues r q @ map (loopix_packet_of 0 src dest) ms)\<rparr>"
  using assms
proof (induction ms arbitrary: r)
  case (Cons m ms)
  let ?r = "r\<lparr>lx_queues := (lx_queues r)(q := lx_queues r q @ [loopix_packet_of 0 src dest m])\<rparr>"
  have "foldl loopix_datagram ?r (map (\<lambda>m. loopix_header 0 src dest @ m) ms) =
      ?r\<lparr>lx_queues := (lx_queues ?r)(q := lx_queues ?r q @ map (loopix_packet_of 0 src dest) ms)\<rparr>"
    using Cons.prems by (intro Cons.IH) auto
  then show ?case using datagram_cases [of src m r 0 dest] Cons.prems by (simp add: fun_upd_def cong: if_cong)
qed simp

lemma recv_queued:
  assumes "ls_is_active s" "lx_queues r (ls_queue s) = map (loopix_packet_of 0 src dest) ms"
    "\<forall>m \<in> set ms. length m \<le> MAX_MTU - header_len \<and> length m \<le> cap"
  shows "\<exists>r'. loopix_recv_all cap r s (length ms) = Some (ms, r')"
  using assms
proof (induction ms arbitrary: r)
  case (Cons m ms)
  let ?r = "r\<lparr>lx_queues := (lx_queues r)(ls_queue s := map (loopix_packet_of 0 src dest) ms)\<rparr>"
  have "loopix_recv cap r s = Some (Some ((int (length m), m), ?r))"
    using Cons.prems by (simp add: loopix_recv_def loopix_copy_def cbq_pop_front_def Let_def)
  moreover have "\<exists>r'. loopix_recv_all cap ?r s (length ms) = Some (ms, r')" using Cons.prems by (intro Cons.IH) auto
  ultimately show ?case by auto
qed simp

subsection \<open>Properties\<close>

text \<open>
  C21. Messages over an established Loopix connection arrive in order and unchanged when the mix network
  delivers their datagrams in order: every message that fits a datagram is sent, and the peer,
  whose socket for the sender is open and empty, receives exactly these messages.
\<close>

theorem loopix_in_order:
  assumes "0 \<le> lx_relay_idx a" "lx_relay_idx a < 65536" "lx_socket_queue b (lx_relay_idx a) = Some (ls_queue s)"
    "lx_queues b (ls_queue s) = []" "ls_is_active s" "lx_running b"
    "\<forall>m \<in> set ms. length m \<le> MAX_MTU - header_len \<and> length m \<le> cap"
  shows "returns (those (map (\<lambda>m. loopix_send a sa m (int (length m))) ms)) (\<lambda>ds.
    returns (loopix_recv_all cap (foldl loopix_datagram b ds) s (length ms)) (\<lambda>(ms', _). ms' = ms))"
proof -
  let ?dest = "ls_dest_idx sa" and ?src = "lx_relay_idx a"
  have sent: "those (map (\<lambda>m. loopix_send a sa m (int (length m))) ms) = Some (map (\<lambda>m. loopix_header 0 ?src ?dest @ m) ms)"
    using assms(7) by (induction ms) (auto simp: loopix_send_def header_len_def MAX_MTU_def)
  let ?b = "b\<lparr>lx_queues := (lx_queues b)(ls_queue s := map (loopix_packet_of 0 ?src ?dest) ms)\<rparr>"
  have "foldl loopix_datagram b (map (\<lambda>m. loopix_header 0 ?src ?dest @ m) ms) = ?b"
    using deliver_queued [OF assms(1,2) _ assms(3)] assms(4,6,7) by simp
  moreover have "\<exists>r'. loopix_recv_all cap ?b s (length ms) = Some (ms, r')"
    using assms by (intro recv_queued) auto
  ultimately show ?thesis by (auto simp: sent)
qed

definition sample_loopix :: loopix_relay where
  "sample_loopix = \<lparr>lx_relay_idx = 300, lx_relay_num = 400, lx_accept_queue = [], lx_socket_queue = [300 \<mapsto> 0],
     lx_queues = (\<lambda>_. []), lx_next = 1, lx_running = True\<rparr>"

theorem loopix_in_order_witness:
  "returns (those (map (\<lambda>m. loopix_send sample_loopix \<lparr>ls_dest_idx = 7, ls_queue = 0, ls_is_active = True\<rparr> m (int (length m))) [[1], [2, 3]])) (\<lambda>ds.
    returns (loopix_recv_all 100 (foldl loopix_datagram sample_loopix ds)
      \<lparr>ls_dest_idx = 300, ls_queue = 0, ls_is_active = True\<rparr> (length [[1 :: byte], [2, 3]])) (\<lambda>(ms', _). ms' = [[1], [2, 3]]))"
  by (rule loopix_in_order) (simp_all add: sample_loopix_def MAX_MTU_def header_len_def)

text \<open>
  A request to connect is sent twice. When both copies arrive before the first is accepted, both are
  accepted, and the second registration takes the place of the first: nothing reaches the first socket any
  more.
\<close>

theorem loopix_double_accept:
  assumes "0 \<le> src" "src < 65536" "lx_socket_queue r src = None" "lx_accept_queue r = []" "lx_running r"
    "length m \<le> MAX_MTU - header_len"
  shows "\<exists>s1 r1 s2 r2. loopix_accept (foldl loopix_datagram r [loopix_header 1 src me, loopix_header 1 src me]) = Some (s1, r1) \<and>
    loopix_accept r1 = Some (s2, r2) \<and> ls_dest_idx s1 = src \<and> ls_dest_idx s2 = src \<and>
    lx_queues (loopix_datagram r2 (loopix_header 0 src me @ m)) (ls_queue s1) = []"
proof -
  let ?p = "loopix_packet_of 1 src me []"
  have c: "loopix_datagram r' (loopix_header 1 src me) = r'\<lparr>lx_accept_queue := lx_accept_queue r' @ [?p]\<rparr>"
    if "lx_socket_queue r' src = None" "lx_running r'" for r'
    using datagram_cases [OF assms(1,2), of "[]" r' 1 me] that by simp
  let ?r2 = "foldl loopix_datagram r [loopix_header 1 src me, loopix_header 1 src me]"
  have q: "lx_accept_queue ?r2 = [?p, ?p]" "lx_next ?r2 = lx_next r" "lx_running ?r2"
    using assms(3-5) by (simp_all add: c)
  note accept = loopix_accept_def cbq_pop_front_def LoopixSocket_def register_queue_def src_packet_of [OF assms(1,2)]
  obtain s1 r1 where a1: "loopix_accept ?r2 = Some (s1, r1)" "ls_dest_idx s1 = src" "ls_queue s1 = lx_next r"
      "lx_accept_queue r1 = [?p]" "lx_next r1 = lx_next r + 1" "lx_queues r1 (lx_next r) = []" "lx_running r1"
    using q by (auto simp: accept)
  obtain s2 r2 where a2: "loopix_accept r1 = Some (s2, r2)" "ls_dest_idx s2 = src"
      "lx_socket_queue r2 src = Some (lx_next r + 1)" "lx_queues r2 (lx_next r) = []" "lx_running r2"
    using a1(4-7) by (auto simp: accept)
  show ?thesis
    using a1 a2 datagram_cases [OF assms(1,2,6) a2(5), of 0 me] by auto
qed

text \<open>
  A caller that waits in \<open>recv\<close> is woken by \<open>close\<close> with a packet of size zero while the socket still counts as
  active: the copy of its payload, of minus five bytes, is undefined.
\<close>

theorem loopix_close_race:
  assumes "lx_queues r (ls_queue s) = []" "ls_is_active s"
  shows "loopix_recv cap (close_push r s) s = None"
    "\<exists>r'. loopix_recv cap (snd (loopix_close r s)) (fst (loopix_close r s)) = Some (Some ((-1, []), r'))"
  using assms
  by (simp_all add: loopix_recv_def loopix_close_def close_push_def cbq_push_def cbq_pop_front_def loopix_copy_def
      new_loopix_packet_def header_len_def Let_def)

end
