(* ===== verification/Simulator.thy ===== *)
theory Simulator
  imports Prelude "HOL-Library.Signed_Division"
begin

text \<open>
  The simulator of the message flow on a full ring (src/src/simulation/DAESimulator.cpp): users with
  neighbours at the powers of two, who emit a message per round and pass on what they receive. Random
  numbers come from a stream \<open>rnd\<close> read at a position that the simulation carries along. \<open>None\<close> is undefined
  behaviour; the counters of the code are of type \<open>int\<close> and \<open>long\<close> and are incremented with a check.
\<close>

subsection \<open>State\<close>

record dae_msg =
  dm_dest :: int
  dm_step :: int
  dm_ram :: int
  dm_t :: int

definition msg_less :: "dae_msg \<Rightarrow> dae_msg \<Rightarrow> bool" where
  "msg_less l r \<longleftrightarrow> dm_ram l < dm_ram r"

text \<open>A priority queue is the list of its elements; \<open>queues\<close> is a \<open>std::map\<close> that makes empty ones.\<close>

record dae_user =
  du_total_recv_msg_latencies :: int
  du_total_recv_msg_count :: int
  du_id :: int
  du_queues :: "int \<Rightarrow> dae_msg list"
  du_send_queue :: "dae_msg list"
  du_neighbours :: "int list"
  du_count :: nat
  du_total_msg_count :: int
  du_recv_messages :: "dae_msg list"

record dae_simulator =
  sim_num_of_users :: int
  sim_step :: int
  sim_users :: "dae_user list"
  sim_draws :: nat

definition EXP_RANDOM_MAX :: int where "EXP_RANDOM_MAX = 10240"
definition SHUFFLE_PER_GROUP :: nat where "SHUFFLE_PER_GROUP = 20"
definition SEND_SPEED_UP :: nat where "SEND_SPEED_UP = 1"

subsection \<open>A user\<close>

definition in_range :: "int \<Rightarrow> int \<Rightarrow> int \<Rightarrow> int \<Rightarrow> bool" where
  "in_range n left right val =
     (if left < right then val \<ge> left \<and> val < right else (val \<ge> left \<and> val < n) \<or> val < right)"

text \<open>\<open>log2\<close> of an \<open>int\<close>, cut off to an \<open>int\<close>; it has no value for a number that is not positive.\<close>

fun floor_log2 :: "nat \<Rightarrow> nat" where
  "floor_log2 n = (if n < 2 then 0 else Suc (floor_log2 (n div 2)))"

declare floor_log2.simps [simp del]

definition init_user :: "int \<Rightarrow> int \<Rightarrow> dae_user option" where
  "init_user n i =
     (if n \<le> 0 then None
      else let count = floor_log2 (nat n)
        in do {
          nb \<leftarrow> those (map (\<lambda>j. map_option (\<lambda>x. x mod n) (c_int (i + 2 ^ j))) [0..<count]);
          Some \<lparr>du_total_recv_msg_latencies = 10, du_total_recv_msg_count = 1, du_id = i, du_queues = (\<lambda>_. []),
            du_send_queue = [], du_neighbours = nb, du_count = count, du_total_msg_count = 0, du_recv_messages = []\<rparr> })"

text \<open>The mean, a \<open>long\<close>, is narrowed to an \<open>int\<close>.\<close>

definition print_info :: "dae_user \<Rightarrow> dae_user option" where
  "print_info u =
     (if du_total_recv_msg_count u = 0 then None
      else let mean = sint (word_of_int (du_total_recv_msg_latencies u sdiv du_total_recv_msg_count u) :: u32)
        in Some (u\<lparr>du_total_recv_msg_latencies := mean, du_total_recv_msg_count := 1\<rparr>))"

definition recv_message :: "int \<Rightarrow> dae_msg \<Rightarrow> dae_user \<Rightarrow> dae_user option" where
  "recv_message step m u =
     (if dm_dest m = du_id u
      then do {
        k \<leftarrow> c_int (du_total_recv_msg_count u + 1);
        latency \<leftarrow> c_int (step - dm_t m);
        l \<leftarrow> c_long (du_total_recv_msg_latencies u + latency);
        Some (u\<lparr>du_total_recv_msg_count := k, du_total_recv_msg_latencies := l\<rparr>) }
      else Some (u\<lparr>du_recv_messages := du_recv_messages u @ [m]\<rparr>))"

text \<open>The loop from the last but one neighbour down.\<close>

fun idx_loop :: "int \<Rightarrow> int list \<Rightarrow> int \<Rightarrow> nat \<Rightarrow> int \<Rightarrow> int" where
  "idx_loop n nb dest 0 idx = idx"
| "idx_loop n nb dest (Suc i) idx =
     (if in_range n (nb ! i) (nb ! (i + 1)) dest then int i else idx_loop n nb dest i idx)"

definition get_idx :: "int \<Rightarrow> dae_user \<Rightarrow> int \<Rightarrow> int" where
  "get_idx n u dest = idx_loop n (du_neighbours u) dest (du_count u - 1) (int (du_count u) - 1)"

definition gen_random_dest :: "int \<Rightarrow> dae_user \<Rightarrow> u32 \<Rightarrow> int \<times> int" where
  "gen_random_dest n u r =
     (let dest = uint r mod n
      in (dest, idx_loop n (du_neighbours u) dest (du_count u - 1) (int (du_count u) - 1)))"

definition get_exp_random :: "u32 \<Rightarrow> int" where
  "get_exp_random r = uint r mod EXP_RANDOM_MAX"

definition enqueue :: "int \<Rightarrow> dae_msg \<Rightarrow> dae_user \<Rightarrow> dae_user option" where
  "enqueue idx m u = do {
     k \<leftarrow> c_int (du_total_msg_count u + 1);
     Some (u\<lparr>du_queues := (du_queues u)(idx := du_queues u idx @ [m]), du_send_queue := du_send_queue u @ [m],
             du_total_msg_count := k\<rparr>) }"

text \<open>The loop over the received messages.\<close>

fun pass_on :: "int \<Rightarrow> (nat \<Rightarrow> u32) \<Rightarrow> nat \<Rightarrow> dae_msg list \<Rightarrow> dae_user \<Rightarrow> (dae_user \<times> nat) option" where
  "pass_on n rnd k [] u = Some (u\<lparr>du_recv_messages := []\<rparr>, k)"
| "pass_on n rnd k (m # ms) u = do {
     let idx = get_idx n u (dm_dest m);
     st \<leftarrow> c_int (dm_step m + 1);
     v \<leftarrow> enqueue idx (m\<lparr>dm_ram := get_exp_random (rnd k), dm_step := st\<rparr>) (u\<lparr>du_recv_messages := ms\<rparr>);
     pass_on n rnd (k + 1) ms v }"

definition emit_real_message :: "int \<Rightarrow> int \<Rightarrow> (nat \<Rightarrow> u32) \<Rightarrow> nat \<Rightarrow> dae_user \<Rightarrow> (dae_user \<times> nat) option" where
  "emit_real_message n step rnd k u = do {
     let (dest, idx) = gen_random_dest n u (rnd k);
     let m = \<lparr>dm_dest = dest, dm_step = 0, dm_ram = get_exp_random (rnd (k + 1)), dm_t = step\<rparr>;
     u1 \<leftarrow> enqueue idx m u;
     pass_on n rnd (k + 2) (du_recv_messages u1) u1 }"

subsection \<open>The simulation\<close>

text \<open>Handing a message to the neighbour at \<open>idx\<close>.\<close>

definition hand_over :: "dae_simulator \<Rightarrow> nat \<Rightarrow> int \<Rightarrow> dae_msg \<Rightarrow> dae_user list option" where
  "hand_over s i idx m = do {
     nb \<leftarrow> arr_get (du_neighbours (sim_users s ! i)) idx;
     v \<leftarrow> arr_get (sim_users s) nb;
     w \<leftarrow> recv_message (sim_step s) m v;
     arr_set (sim_users s) nb w }"

definition send_real_message :: "nat \<Rightarrow> dae_simulator \<Rightarrow> dae_simulator option" where
  "send_real_message i s =
     (case du_send_queue (sim_users s ! i) of
        [] \<Rightarrow> Some s
      | m # q \<Rightarrow> do {
          us \<leftarrow> hand_over s i (get_idx (sim_num_of_users s) (sim_users s ! i) (dm_dest m)) m;
          let u = us ! i;
          k \<leftarrow> c_int (du_total_msg_count u - 1);
          Some (s\<lparr>sim_users := us[i := u\<lparr>du_total_msg_count := k,
                                       du_send_queue := tl (du_send_queue u)\<rparr>]\<rparr>) })"

text \<open>\<open>send_message\<close>, which nothing calls; \<open>j\<close> is the position of the element \<open>top\<close> gives, a greatest one.\<close>

definition send_message :: "(nat \<Rightarrow> u32) \<Rightarrow> nat \<Rightarrow> nat \<Rightarrow> dae_simulator \<Rightarrow> dae_simulator option" where
  "send_message rnd j i s =
     (let u = sim_users s ! i; k = sim_draws s
      in if du_count u = 0 then None
         else let idx = uint (rnd k) mod int (du_count u); q = du_queues u idx;
                  ram = unat (rnd (k + 1)) mod SHUFFLE_PER_GROUP
           in if q \<noteq> [] \<and> (length q \<ge> SHUFFLE_PER_GROUP \<or> ram < length q)
              then if j < length q \<and> (\<forall>m \<in> set q. \<not> msg_less (q ! j) m)
                then do {
                  us \<leftarrow> hand_over s i idx (q ! j);
                  let v = us ! i;
                  total \<leftarrow> c_int (du_total_msg_count v - 1);
                  Some (s\<lparr>sim_draws := k + 2,
                          sim_users := us[i := v\<lparr>du_queues := (du_queues v)(idx := take j q @ drop (Suc j) q),
                                                du_total_msg_count := total\<rparr>]\<rparr>) }
                else None
              else Some (s\<lparr>sim_draws := k + (if q = [] then 2 else 3)\<rparr>))"

fun send_times :: "nat \<Rightarrow> nat \<Rightarrow> dae_simulator \<Rightarrow> dae_simulator option" where
  "send_times 0 i s = Some s"
| "send_times (Suc k) i s = do { s' \<leftarrow> send_real_message i s; send_times k i s' }"

definition send_batch_messages :: "nat \<Rightarrow> dae_simulator \<Rightarrow> dae_simulator option" where
  "send_batch_messages i s = send_times (du_count (sim_users s ! i) * SEND_SPEED_UP) i s"

text \<open>The two loops of a round; \<open>print\<close> says whether a second has passed.\<close>

fun emit_all :: "(nat \<Rightarrow> u32) \<Rightarrow> nat list \<Rightarrow> dae_simulator \<Rightarrow> dae_simulator option" where
  "emit_all rnd [] s = Some s"
| "emit_all rnd (i # is) s = do {
     (u, k) \<leftarrow> emit_real_message (sim_num_of_users s) (sim_step s) rnd (sim_draws s) (sim_users s ! i);
     emit_all rnd is (s\<lparr>sim_users := (sim_users s)[i := u], sim_draws := k\<rparr>) }"

fun send_all_batches :: "bool \<Rightarrow> nat list \<Rightarrow> dae_simulator \<Rightarrow> dae_simulator option" where
  "send_all_batches print [] s = Some s"
| "send_all_batches print (i # is) s = do {
     s1 \<leftarrow> send_batch_messages i s;
     s2 \<leftarrow> (if print \<and> i < 1024
            then map_option (\<lambda>u. s1\<lparr>sim_users := (sim_users s1)[i := u]\<rparr>) (print_info (sim_users s1 ! i))
            else Some s1);
     send_all_batches print is s2 }"

definition sim_round :: "(nat \<Rightarrow> u32) \<Rightarrow> bool \<Rightarrow> dae_simulator \<Rightarrow> dae_simulator option" where
  "sim_round rnd print s =
     (let is = [0..<length (sim_users s)]
      in do {
        s1 \<leftarrow> emit_all rnd is s;
        s2 \<leftarrow> send_all_batches print is s1;
        st \<leftarrow> c_int (sim_step s2 + 1);
        Some (s2\<lparr>sim_step := st\<rparr>) })"

definition sim_start :: "int \<Rightarrow> dae_simulator option" where
  "sim_start n = do {
     us \<leftarrow> those (map (\<lambda>i. init_user n (int i)) [0..<nat n]);
     Some \<lparr>sim_num_of_users = n, sim_step = 0, sim_users = us, sim_draws = 0\<rparr> }"

text \<open>The loop of \<open>start\<close>, which does not end, up to some round; a flag per round says whether it prints.\<close>

fun sim_run :: "(nat \<Rightarrow> u32) \<Rightarrow> bool list \<Rightarrow> dae_simulator \<Rightarrow> dae_simulator option" where
  "sim_run rnd [] s = Some s"
| "sim_run rnd (print # ps) s = do { s' \<leftarrow> sim_round rnd print s; sim_run rnd ps s' }"

text \<open>The route of a message: the users it is handed to until it is at its destination, at most \<open>k\<close>.\<close>

fun sim_route :: "dae_simulator \<Rightarrow> int \<Rightarrow> nat \<Rightarrow> int \<Rightarrow> int list option" where
  "sim_route s dest 0 i = (if i = dest then Some [] else None)"
| "sim_route s dest (Suc k) i =
     (if i = dest then Some []
      else do {
        u \<leftarrow> arr_get (sim_users s) i;
        nb \<leftarrow> arr_get (du_neighbours u) (get_idx (sim_num_of_users s) u dest);
        r \<leftarrow> sim_route s dest k nb;
        Some (nb # r) })"

subsection \<open>Greedy hops\<close>

lemma floor_log2_bounds:
  assumes "0 < n"
  shows "2 ^ floor_log2 n \<le> n \<and> n < 2 ^ Suc (floor_log2 n)"
  using assms
proof (induction n rule: floor_log2.induct)
  case (1 n)
  show ?case
  proof (cases "n < 2")
    case True with 1 show ?thesis by (simp add: floor_log2.simps)
  next
    case False
    then have "2 ^ floor_log2 (n div 2) \<le> n div 2 \<and> n div 2 < 2 ^ Suc (floor_log2 (n div 2))" using 1 by auto
    with False show ?thesis by (subst (1 2) floor_log2.simps) auto
  qed
qed

lemma in_range_clockwise:
  assumes "0 \<le> left" "left < n" "0 \<le> right" "right < n" "0 \<le> val" "val < n" "left \<noteq> right"
  shows "in_range n left right val \<longleftrightarrow> (val - left) mod n < (right - left) mod n"
proof -
  have m: "(x - left) mod n = (if left \<le> x then x - left else x - left + n)" if "0 \<le> x" "x < n" for x
  proof (cases "left \<le> x")
    case True with that assms show ?thesis by simp
  next
    case False
    then have "(x - left) mod n = (x - left + n) mod n" by simp
    also have "\<dots> = x - left + n" using False that assms by (intro mod_pos_pos_trivial) auto
    finally show ?thesis using False by simp
  qed
  show ?thesis using assms m [of val] m [of right] by (auto simp: in_range_def)
qed

text \<open>Clockwise distance.\<close>

definition sim_dist :: "int \<Rightarrow> int \<Rightarrow> int \<Rightarrow> int" where
  "sim_dist n i dest = (dest - i) mod n"

lemma sim_dist_pos:
  assumes "0 \<le> i" "i < n" "0 \<le> dest" "dest < n" "i \<noteq> dest"
  shows "1 \<le> sim_dist n i dest"
proof -
  have "dest mod n \<noteq> i mod n" using assms by simp
  then have "sim_dist n i dest \<noteq> 0" by (simp add: sim_dist_def mod_eq_dvd_iff dvd_eq_mod_eq_0)
  moreover have "0 \<le> sim_dist n i dest" using assms by (simp add: sim_dist_def)
  ultimately show ?thesis by linarith
qed

lemma sim_dist_hop:
  assumes "0 \<le> a" "a \<le> sim_dist n i dest" "0 < n"
  shows "sim_dist n ((i + a) mod n) dest = sim_dist n i dest - a"
proof -
  have "sim_dist n ((i + a) mod n) dest = ((dest - i) mod n - a) mod n"
    by (simp add: sim_dist_def mod_simps algebra_simps)
  also have "\<dots> = (dest - i) mod n - a" using assms
    by (intro mod_pos_pos_trivial) (auto simp: sim_dist_def intro: order.strict_trans1 [OF _ pos_mod_bound [of n "dest - i"]])
  finally show ?thesis by (simp add: sim_dist_def)
qed

lemma neighbour_interval:
  assumes "0 < n" "0 \<le> dest" "dest < n" "0 < a" "2 * a < n" "0 \<le> i" "i < n"
  shows "in_range n ((i + a) mod n) ((i + 2 * a) mod n) dest \<longleftrightarrow> a \<le> sim_dist n i dest \<and> sim_dist n i dest < 2 * a"
proof -
  let ?d = "sim_dist n i dest"
  have d: "0 \<le> ?d" "?d < n" using assms(1) by (simp_all add: sim_dist_def)
  have r: "((i + 2 * a) mod n - (i + a) mod n) mod n = a"
    using assms by (simp add: mod_simps)
  then have ne: "(i + a) mod n \<noteq> (i + 2 * a) mod n" using assms(4) by auto
  have v: "(dest - (i + a) mod n) mod n = (?d - a) mod n" by (simp add: sim_dist_def mod_simps algebra_simps)
  have "(?d - a) mod n = (if a \<le> ?d then ?d - a else ?d - a + n)"
  proof (cases "a \<le> ?d")
    case True with d assms show ?thesis by simp
  next
    case False
    have "(?d - a) mod n = (?d - a + n) mod n" by simp
    also have "\<dots> = ?d - a + n" using False d assms by (intro mod_pos_pos_trivial) auto
    finally show ?thesis using False by simp
  qed
  then show ?thesis using in_range_clockwise [of "(i + a) mod n" n "(i + 2 * a) mod n" dest] assms ne d
    by (auto simp: v r)
qed

text \<open>A user of the ring with \<open>n\<close> users at its place.\<close>

definition user_at :: "int \<Rightarrow> int \<Rightarrow> dae_user \<Rightarrow> bool" where
  "user_at n i u \<longleftrightarrow> du_id u = i \<and> du_count u = floor_log2 (nat n) \<and>
     du_neighbours u = map (\<lambda>j. (i + 2 ^ j) mod n) [0..<floor_log2 (nat n)]"

lemma floor_log2_int:
  assumes "0 < n"
  shows "2 ^ floor_log2 (nat n) \<le> n" "n < 2 * 2 ^ floor_log2 (nat n)"
proof -
  have "2 ^ floor_log2 (nat n) \<le> nat n" "nat n < 2 ^ Suc (floor_log2 (nat n))"
    using floor_log2_bounds [of "nat n"] assms by auto
  then have "int (2 ^ floor_log2 (nat n)) \<le> n" "n < int (2 ^ Suc (floor_log2 (nat n)))" using assms by linarith+
  then show "2 ^ floor_log2 (nat n) \<le> n" "n < 2 * 2 ^ floor_log2 (nat n)" by simp_all
qed

lemma floor_log2_pos: "2 \<le> n \<Longrightarrow> 0 < floor_log2 (nat n)"
  by (subst floor_log2.simps) auto

lemma idx_loop_spec:
  assumes "2 \<le> n" "0 \<le> i" "i < n" "0 \<le> dest" "dest < n" "k < floor_log2 (nat n)"
  defines "nb \<equiv> map (\<lambda>j. (i + 2 ^ j) mod n) [0..<floor_log2 (nat n)]"
  shows "\<exists>j. idx_loop n nb dest k idx = int j \<and> j < k \<and> 2 ^ j \<le> sim_dist n i dest \<and> sim_dist n i dest < 2 * 2 ^ j \<or>
    idx_loop n nb dest k idx = idx \<and> \<not> (1 \<le> sim_dist n i dest \<and> sim_dist n i dest < 2 ^ k)"
  using assms(6)
proof (induction k)
  case (Suc k)
  have "(2 :: int) ^ Suc (Suc k) \<le> 2 ^ floor_log2 (nat n)" using Suc.prems by (intro power_increasing) auto
  then have "2 * (2 * 2 ^ k) \<le> n" using floor_log2_int(1) [of n] assms(1) by simp
  moreover have "(0 :: int) < 2 ^ k" by simp
  ultimately have "(0 :: int) < 2 ^ k" "2 * 2 ^ k < n" by linarith+
  then have r: "in_range n (nb ! k) (nb ! (k + 1)) dest \<longleftrightarrow> 2 ^ k \<le> sim_dist n i dest \<and> sim_dist n i dest < 2 * 2 ^ k"
    using neighbour_interval [of n dest "2 ^ k" i] Suc.prems assms(1-5) by (simp add: nb_def)
  show ?case
  proof (cases "in_range n (nb ! k) (nb ! (k + 1)) dest")
    case True then show ?thesis using r by (intro exI [of _ k]) simp
  next
    case False
    then obtain j where "idx_loop n nb dest k idx = int j \<and> j < k \<and> 2 ^ j \<le> sim_dist n i dest \<and> sim_dist n i dest < 2 * 2 ^ j \<or>
        idx_loop n nb dest k idx = idx \<and> \<not> (1 \<le> sim_dist n i dest \<and> sim_dist n i dest < 2 ^ k)"
      using Suc by auto
    then show ?thesis using False r by (intro exI [of _ j]) auto
  qed
qed auto

text \<open>The neighbour chosen: the greatest power of two that does not pass the destination.\<close>

lemma get_idx_spec:
  assumes "2 \<le> n" "0 \<le> i" "i < n" "0 \<le> dest" "dest < n" "user_at n i u"
  obtains j where "get_idx n u dest = int j" "j < floor_log2 (nat n)" "arr_get (du_neighbours u) (get_idx n u dest) = Some ((i + 2 ^ j) mod n)"
    "i \<noteq> dest \<Longrightarrow> 2 ^ j \<le> sim_dist n i dest"
    "i \<noteq> dest \<Longrightarrow> sim_dist n i dest < 2 * 2 ^ j \<or> j = floor_log2 (nat n) - 1"
proof -
  let ?c = "floor_log2 (nat n)"
  have c: "0 < ?c" using floor_log2_pos [OF assms(1)] .
  have d: "i \<noteq> dest \<Longrightarrow> 1 \<le> sim_dist n i dest" using assms(2-5) by (rule sim_dist_pos)
  obtain j where j: "get_idx n u dest = int j \<and> j < ?c - 1 \<and> 2 ^ j \<le> sim_dist n i dest \<and> sim_dist n i dest < 2 * 2 ^ j \<or>
      get_idx n u dest = int ?c - 1 \<and> \<not> (1 \<le> sim_dist n i dest \<and> sim_dist n i dest < 2 ^ (?c - 1))"
    using idx_loop_spec [OF assms(1-5), of "?c - 1" "int ?c - 1"] assms(6) c by (auto simp: get_idx_def user_at_def)
  then obtain k where k: "get_idx n u dest = int k" "k < ?c" "i \<noteq> dest \<Longrightarrow> 2 ^ k \<le> sim_dist n i dest"
      "i \<noteq> dest \<Longrightarrow> sim_dist n i dest < 2 * 2 ^ k \<or> k = ?c - 1"
  proof (cases "get_idx n u dest = int ?c - 1 \<and> \<not> (1 \<le> sim_dist n i dest \<and> sim_dist n i dest < 2 ^ (?c - 1))")
    case True then show ?thesis using that [of "?c - 1"] c d by auto
  next
    case False then show ?thesis using that [of j] j by auto
  qed
  then show ?thesis using that [of k] assms(6) by (auto simp: user_at_def)
qed

definition sim_ok :: "dae_simulator \<Rightarrow> bool" where
  "sim_ok s \<longleftrightarrow> 2 \<le> sim_num_of_users s \<and> sim_users s \<noteq> [] \<and> int (length (sim_users s)) = sim_num_of_users s \<and>
     (\<forall>i < length (sim_users s). user_at (sim_num_of_users s) (int i) (sim_users s ! i))"

lemma sim_hop:
  assumes "sim_ok s" "0 \<le> i" "i < sim_num_of_users s" "0 \<le> dest" "dest < sim_num_of_users s" "i \<noteq> dest"
  obtains j where "j < floor_log2 (nat (sim_num_of_users s))" "2 ^ j \<le> sim_dist (sim_num_of_users s) i dest"
    "sim_dist (sim_num_of_users s) i dest < 2 * 2 ^ j \<or> j = floor_log2 (nat (sim_num_of_users s)) - 1"
    "sim_route s dest (Suc k) i = map_option (Cons ((i + 2 ^ j) mod sim_num_of_users s)) (sim_route s dest k ((i + 2 ^ j) mod sim_num_of_users s))"
    "sim_dist (sim_num_of_users s) ((i + 2 ^ j) mod sim_num_of_users s) dest = sim_dist (sim_num_of_users s) i dest - 2 ^ j"
    "0 \<le> (i + 2 ^ j) mod sim_num_of_users s" "(i + 2 ^ j) mod sim_num_of_users s < sim_num_of_users s"
proof -
  let ?n = "sim_num_of_users s"
  have "nat i < length (sim_users s)" using assms(1-3) by (auto simp: sim_ok_def)
  then have "user_at ?n (int (nat i)) (sim_users s ! nat i)" using assms(1) by (simp only: sim_ok_def)
  then obtain u where u: "arr_get (sim_users s) i = Some u" "user_at ?n i u" using assms(1-3)
    by (auto simp: arr_get_def sim_ok_def)
  have n: "2 \<le> ?n" using assms(1) by (simp add: sim_ok_def)
  show ?thesis
  proof (rule get_idx_spec [OF n assms(2-5) u(2)])
    fix j assume j: "j < floor_log2 (nat ?n)" "arr_get (du_neighbours u) (get_idx ?n u dest) = Some ((i + 2 ^ j) mod ?n)"
      "i \<noteq> dest \<Longrightarrow> 2 ^ j \<le> sim_dist ?n i dest" "i \<noteq> dest \<Longrightarrow> sim_dist ?n i dest < 2 * 2 ^ j \<or> j = floor_log2 (nat ?n) - 1"
    have d: "sim_dist ?n ((i + 2 ^ j) mod ?n) dest = sim_dist ?n i dest - 2 ^ j"
      using j(3) assms(6) n by (intro sim_dist_hop) auto
    have r: "sim_route s dest (Suc k) i = map_option (Cons ((i + 2 ^ j) mod ?n)) (sim_route s dest k ((i + 2 ^ j) mod ?n))"
      using assms(6) u(1) j(2) by (cases "sim_route s dest k ((i + 2 ^ j) mod ?n)") simp_all
    have "0 < ?n" using n by simp
    then show thesis
      using that [OF j(1) j(3) [OF assms(6)] j(4) [OF assms(6)] r d] by simp
  qed
qed

text \<open>One bit of the distance is removed per hop.\<close>

lemma route_bits:
  assumes "sim_ok s" "0 \<le> i" "i < sim_num_of_users s" "0 \<le> dest" "dest < sim_num_of_users s"
    "sim_dist (sim_num_of_users s) i dest < 2 ^ k" "k \<le> floor_log2 (nat (sim_num_of_users s))"
  shows "returns (sim_route s dest (k + e) i) (\<lambda>r. length r \<le> k)"
  using assms
proof (induction k arbitrary: i)
  case 0
  then have "i = dest" using sim_dist_pos [of i "sim_num_of_users s" dest] by (cases "i = dest") auto
  then show ?case by (cases e) simp_all
next
  case (Suc k)
  let ?n = "sim_num_of_users s"
  show ?case
  proof (cases "i = dest")
    case False
    show ?thesis
    proof (rule sim_hop [OF Suc.prems(1-5) False, of "k + e"])
      fix j
      assume j: "2 ^ j \<le> sim_dist ?n i dest" "sim_dist ?n i dest < 2 * 2 ^ j \<or> j = floor_log2 (nat ?n) - 1"
        "sim_route s dest (Suc (k + e)) i = map_option (Cons ((i + 2 ^ j) mod ?n)) (sim_route s dest (k + e) ((i + 2 ^ j) mod ?n))"
        "sim_dist ?n ((i + 2 ^ j) mod ?n) dest = sim_dist ?n i dest - 2 ^ j"
        "0 \<le> (i + 2 ^ j) mod ?n" "(i + 2 ^ j) mod ?n < ?n"
      have "sim_dist ?n i dest - 2 ^ j < 2 ^ k"
      proof (cases "j < k")
        case True
        then have "(2 :: int) ^ j \<le> 2 ^ k" "j \<noteq> floor_log2 (nat ?n) - 1" using Suc.prems(7) by auto
        then show ?thesis using j(2) by linarith
      next
        case False
        then have "(2 :: int) ^ k \<le> 2 ^ j" by simp
        then show ?thesis using Suc.prems(6) unfolding power_Suc by linarith
      qed
      then have "returns (sim_route s dest (k + e) ((i + 2 ^ j) mod ?n)) (\<lambda>r. length r \<le> k)"
        using Suc.prems j(4-6) by (intro Suc.IH) auto
      then show ?thesis using j(3) by (auto simp: returns_def)
    qed
  qed simp
qed

text \<open>The last neighbour may be needed twice more when the number of users is not a power of two.\<close>

lemma route_far:
  assumes "sim_ok s" "0 \<le> i" "i < sim_num_of_users s" "0 \<le> dest" "dest < sim_num_of_users s"
  defines "c \<equiv> floor_log2 (nat (sim_num_of_users s))"
  assumes "sim_dist (sim_num_of_users s) i dest < 2 ^ c + int m * 2 ^ (c - 1)"
  shows "returns (sim_route s dest (c + m) i) (\<lambda>r. length r \<le> c + m)"
  using assms(2,3,7)
proof (induction m arbitrary: i)
  case 0
  then show ?case using route_bits [OF assms(1) _ _ assms(4,5), of i c 0] by (simp add: c_def)
next
  case (Suc m)
  let ?n = "sim_num_of_users s" and ?d = "sim_dist (sim_num_of_users s) i dest"
  have c: "0 < c" using assms(1) by (simp add: c_def sim_ok_def floor_log2_pos)
  consider "i = dest" | "?d < 2 ^ c" | "i \<noteq> dest" "\<not> ?d < 2 ^ c" by blast
  then show ?case
  proof cases
    case 2
    then have "returns (sim_route s dest (c + Suc m) i) (\<lambda>r. length r \<le> c)"
      using Suc.prems assms(4,5) by (intro route_bits [OF assms(1)]) (simp_all add: c_def)
    then show ?thesis by (rule returns_mono) simp
  next
    case 3
    show ?thesis
    proof (rule sim_hop [OF assms(1) Suc.prems(1,2) assms(4,5) 3(1), of "c + m"], fold c_def)
      fix j
      assume j: "j < c" "?d < 2 * 2 ^ j \<or> j = c - 1"
        "sim_route s dest (Suc (c + m)) i = map_option (Cons ((i + 2 ^ j) mod ?n)) (sim_route s dest (c + m) ((i + 2 ^ j) mod ?n))"
        "sim_dist ?n ((i + 2 ^ j) mod ?n) dest = ?d - 2 ^ j" "0 \<le> (i + 2 ^ j) mod ?n" "(i + 2 ^ j) mod ?n < ?n"
      have "(2 :: int) ^ Suc j \<le> 2 ^ c" using j(1) by (intro power_increasing) auto
      then have jc: "j = c - 1" using j(2) 3(2) by auto
      have "sim_dist ?n ((i + 2 ^ j) mod ?n) dest < 2 ^ c + int m * 2 ^ (c - 1)"
        using j(4) Suc.prems(3) unfolding jc by (simp add: algebra_simps)
      then have "returns (sim_route s dest (c + m) ((i + 2 ^ j) mod ?n)) (\<lambda>r. length r \<le> c + m)"
        using j(5,6) by (intro Suc.IH)
      then show ?thesis using j(3) by (auto simp: returns_def)
    qed
  qed simp
qed

lemma those_map_Some: "(\<And>x. x \<in> set xs \<Longrightarrow> g x = Some (f x)) \<Longrightarrow> those (map g xs) = Some (map f xs)"
  by (induction xs) simp_all

lemma init_user_at:
  assumes "2 \<le> n" "n \<le> 2 ^ 30" "0 \<le> i" "i < n"
  shows "init_user n i = Some \<lparr>du_total_recv_msg_latencies = 10, du_total_recv_msg_count = 1, du_id = i, du_queues = (\<lambda>_. []),
    du_send_queue = [], du_neighbours = map (\<lambda>j. (i + 2 ^ j) mod n) [0..<floor_log2 (nat n)], du_count = floor_log2 (nat n),
    du_total_msg_count = 0, du_recv_messages = []\<rparr>"
proof -
  have "map_option (\<lambda>x. x mod n) (c_int (i + 2 ^ j)) = Some ((i + 2 ^ j) mod n)" if "j < floor_log2 (nat n)" for j
  proof -
    have "(2 :: int) ^ j \<le> 2 ^ floor_log2 (nat n)" using that by (intro power_increasing) auto
    then have "2 ^ j \<le> n" using floor_log2_int(1) [of n] assms(1) by linarith
    then have "i + 2 ^ j < 2 ^ 31" using assms by simp
    moreover have "(0 :: int) \<le> 2 ^ j" by simp
    ultimately have "- (2 ^ 31) \<le> i + 2 ^ j" "i + 2 ^ j < 2 ^ 31" using assms(3) by linarith+
    then show ?thesis unfolding c_int_def by simp
  qed
  then have "those (map (\<lambda>j. map_option (\<lambda>x. x mod n) (c_int (i + 2 ^ j))) [0..<floor_log2 (nat n)]) =
      Some (map (\<lambda>j. (i + 2 ^ j) mod n) [0..<floor_log2 (nat n)])"
    by (intro those_map_Some) auto
  then show ?thesis using assms(1) by (simp add: init_user_def Let_def)
qed

lemma sim_start_ok:
  assumes "2 \<le> n" "n \<le> 2 ^ 30"
  obtains s where "sim_start n = Some s" "sim_ok s" "sim_num_of_users s = n" "sim_step s = 0"
    "\<forall>u \<in> set (sim_users s). du_send_queue u = [] \<and> du_recv_messages u = [] \<and> du_total_msg_count u = 0 \<and> du_total_recv_msg_count u = 1 \<and> du_total_recv_msg_latencies u = 10"
proof -
  let ?u = "\<lambda>i. the (init_user n (int i))"
  have u: "init_user n (int i) = Some (?u i)" "user_at n (int i) (?u i)"
      "du_send_queue (?u i) = [] \<and> du_recv_messages (?u i) = [] \<and> du_total_msg_count (?u i) = 0 \<and> du_total_recv_msg_count (?u i) = 1 \<and> du_total_recv_msg_latencies (?u i) = 10"
    if "i < nat n" for i
    using init_user_at [of n "int i"] that assms by (simp_all add: user_at_def)
  let ?s = "\<lparr>sim_num_of_users = n, sim_step = 0, sim_users = map ?u [0..<nat n], sim_draws = 0\<rparr>"
  have "those (map (\<lambda>i. init_user n (int i)) [0..<nat n]) = Some (map ?u [0..<nat n])"
    using u(1) by (intro those_map_Some) auto
  then have "sim_start n = Some ?s" by (simp add: sim_start_def)
  moreover have "sim_ok ?s" using u(2) assms by (simp add: sim_ok_def)
  ultimately show ?thesis using that [of ?s] u(3) by auto
qed

subsection \<open>A round\<close>

text \<open>
  Messages with a destination on the ring, a birth up to \<open>now\<close> and at most \<open>b\<close> hops. In a user's send queue they
  have at most \<open>b\<close> hops and among the received ones at most \<open>c\<close>; the latencies stay below what \<open>count\<close> messages
  can have gathered.
\<close>

definition msgs_ok :: "int \<Rightarrow> int \<Rightarrow> int \<Rightarrow> dae_msg list \<Rightarrow> bool" where
  "msgs_ok n now b ms \<longleftrightarrow> (\<forall>m \<in> set ms. 0 \<le> dm_dest m \<and> dm_dest m < n \<and> 0 \<le> dm_t m \<and> dm_t m \<le> now \<and> 0 \<le> dm_step m \<and> dm_step m \<le> b)"

definition user_ok :: "int \<Rightarrow> int \<Rightarrow> int \<Rightarrow> int \<Rightarrow> int \<Rightarrow> dae_user \<Rightarrow> bool" where
  "user_ok n now b c i u \<longleftrightarrow> user_at n i u \<and> msgs_ok n now b (du_send_queue u) \<and> msgs_ok n now c (du_recv_messages u) \<and>
     du_total_msg_count u = int (length (du_send_queue u)) \<and> 1 \<le> du_total_recv_msg_count u \<and>
     0 \<le> du_total_recv_msg_latencies u \<and> du_total_recv_msg_latencies u \<le> (2 ^ 31 - 1) * du_total_recv_msg_count u"

definition users_ok :: "int \<Rightarrow> int \<Rightarrow> dae_simulator \<Rightarrow> bool" where
  "users_ok b c s \<longleftrightarrow> 2 \<le> sim_num_of_users s \<and> int (length (sim_users s)) = sim_num_of_users s \<and>
     0 \<le> sim_step s \<and> sim_step s < 2 ^ 31 \<and>
     (\<forall>i < length (sim_users s). user_ok (sim_num_of_users s) (sim_step s) b c (int i) (sim_users s ! i))"

text \<open>Between two rounds no message has made more hops than there were rounds.\<close>

definition sim_inv :: "dae_simulator \<Rightarrow> bool" where
  "sim_inv s \<longleftrightarrow> users_ok (sim_step s) (sim_step s) s"

lemma user_ok_mono: "user_ok n now b c i u \<Longrightarrow> now \<le> now' \<Longrightarrow> b \<le> b' \<Longrightarrow> c \<le> c' \<Longrightarrow> user_ok n now' b' c' i u"
  by (fastforce simp: user_ok_def msgs_ok_def)

lemma users_ok_mono: "users_ok b c s \<Longrightarrow> b \<le> b' \<Longrightarrow> c \<le> c' \<Longrightarrow> users_ok b' c' s"
  using user_ok_mono [of _ "sim_step s" b c _ _ "sim_step s" b' c'] by (simp add: users_ok_def)

text \<open>Messages a user holds and has received.\<close>

definition user_load :: "dae_user \<Rightarrow> int" where
  "user_load u = int (length (du_send_queue u)) + int (length (du_recv_messages u)) + du_total_recv_msg_count u"

definition sim_load :: "dae_simulator \<Rightarrow> int" where
  "sim_load s = sum_list (map user_load (sim_users s))"

lemma sum_list_map_update:
  fixes f :: "'a \<Rightarrow> int"
  shows "i < length xs \<Longrightarrow> sum_list (map f (xs[i := x])) = sum_list (map f xs) + f x - f (xs ! i)"
  by (induction xs arbitrary: i) (auto split: nat.splits)

lemma member_le_sum_list_int:
  fixes xs :: "int list"
  shows "x \<in> set xs \<Longrightarrow> (\<And>y. y \<in> set xs \<Longrightarrow> 0 \<le> y) \<Longrightarrow> x \<le> sum_list xs"
proof (induction xs)
  case (Cons y ys)
  have "0 \<le> sum_list ys" using Cons.prems(2) by (intro sum_list_nonneg) simp
  then show ?case using Cons by fastforce
qed simp

lemma user_load_le:
  assumes "users_ok b c s" "i < length (sim_users s)"
  shows "user_load (sim_users s ! i) \<le> sim_load s"
  unfolding sim_load_def
proof (rule member_le_sum_list_int)
  fix y assume "y \<in> set (map user_load (sim_users s))"
  then obtain j where "j < length (sim_users s)" "y = user_load (sim_users s ! j)" by (auto simp: in_set_conv_nth)
  then show "0 \<le> y" using assms(1) by (fastforce simp: users_ok_def user_ok_def user_load_def)
qed (use assms(2) in simp)

lemma users_ok_update:
  assumes "users_ok b c s" "i < length (sim_users s)" "user_ok (sim_num_of_users s) (sim_step s) b c (int i) u"
  shows "users_ok b c (s\<lparr>sim_users := (sim_users s)[i := u], sim_draws := k\<rparr>)"
    "users_ok b c (s\<lparr>sim_users := (sim_users s)[i := u]\<rparr>)"
    "sim_load (s\<lparr>sim_users := (sim_users s)[i := u], sim_draws := k\<rparr>) = sim_load s + user_load u - user_load (sim_users s ! i)"
    "sim_load (s\<lparr>sim_users := (sim_users s)[i := u]\<rparr>) = sim_load s + user_load u - user_load (sim_users s ! i)"
  using assms by (auto simp: users_ok_def sim_load_def nth_list_update sum_list_map_update)

text \<open>The place of a user does not depend on its queues and counters.\<close>

lemma user_at_upd [simp]:
  "user_at n i (u\<lparr>du_recv_messages := ms\<rparr>) = user_at n i u"
  "user_at n i (u\<lparr>du_queues := q, du_send_queue := ms, du_total_msg_count := k\<rparr>) = user_at n i u"
  "user_at n i (u\<lparr>du_total_msg_count := k, du_send_queue := ms\<rparr>) = user_at n i u"
  "user_at n i (u\<lparr>du_total_recv_msg_count := k, du_total_recv_msg_latencies := l\<rparr>) = user_at n i u"
  "user_at n i (u\<lparr>du_total_recv_msg_latencies := l, du_total_recv_msg_count := k\<rparr>) = user_at n i u"
  by (simp_all add: user_at_def)

lemma enqueue_ok:
  assumes "user_ok n now b c i u" "msgs_ok n now b [m]" "int (length (du_send_queue u)) + 1 < 2 ^ 31"
  shows "returns (enqueue idx m u) (\<lambda>v. user_ok n now b c i v \<and> user_load v = user_load u + 1 \<and> du_recv_messages v = du_recv_messages u)"
  using assms by (auto simp: enqueue_def c_int_def user_ok_def msgs_ok_def user_load_def)

text \<open>Passing on the messages \<open>ms\<close> makes each of them one hop older.\<close>

lemma pass_on_ok:
  assumes "user_ok n now (c + 1) c i (u\<lparr>du_recv_messages := ms\<rparr>)" "user_load (u\<lparr>du_recv_messages := ms\<rparr>) < 2 ^ 31" "c + 1 < 2 ^ 31"
  shows "returns (pass_on n rnd k ms u) (\<lambda>(v, k'). user_ok n now (c + 1) c i v \<and> user_load v = user_load (u\<lparr>du_recv_messages := ms\<rparr>))"
  using assms
proof (induction ms arbitrary: u k)
  case (Cons m ms)
  let ?u = "u\<lparr>du_recv_messages := ms\<rparr>" and ?m = "m\<lparr>dm_ram := get_exp_random (rnd k), dm_step := dm_step m + 1\<rparr>"
  have m: "0 \<le> dm_step m" "dm_step m \<le> c" "msgs_ok n now (c + 1) [?m]" and u: "user_ok n now (c + 1) c i ?u"
    using Cons.prems(1) by (auto simp: user_ok_def msgs_ok_def)
  have load: "user_load (u\<lparr>du_recv_messages := m # ms\<rparr>) = user_load ?u + 1" by (simp add: user_load_def)
  have st: "c_int (dm_step m + 1) = Some (dm_step m + 1)" using m Cons.prems(3) by (simp add: c_int_def)
  have "int (length (du_send_queue ?u)) + 1 < 2 ^ 31"
    using u Cons.prems(2) unfolding load by (simp add: user_load_def user_ok_def)
  from enqueue_ok [OF u m(3) this, of "get_idx n u (dm_dest m)"]
  have "returns (do { v \<leftarrow> enqueue (get_idx n u (dm_dest m)) ?m ?u; pass_on n rnd (k + 1) ms v })
    (\<lambda>(v, k'). user_ok n now (c + 1) c i v \<and> user_load v = user_load (u\<lparr>du_recv_messages := m # ms\<rparr>))"
  proof (rule returns_bind)
    fix v assume v: "user_ok n now (c + 1) c i v \<and> user_load v = user_load ?u + 1 \<and> du_recv_messages v = du_recv_messages ?u"
    then have same: "v\<lparr>du_recv_messages := ms\<rparr> = v" by simp
    show "returns (pass_on n rnd (k + 1) ms v)
        (\<lambda>(v, k'). user_ok n now (c + 1) c i v \<and> user_load v = user_load (u\<lparr>du_recv_messages := m # ms\<rparr>))"
      using Cons.IH [of v "k + 1", unfolded same] v load Cons.prems(2,3) by simp
  qed
  then show ?case using st by simp
qed simp

lemma emit_ok:
  assumes "user_ok n now now now i u" "0 < n" "0 \<le> now" "now + 1 < 2 ^ 31" "user_load u + 1 < 2 ^ 31"
  shows "returns (emit_real_message n now rnd k u) (\<lambda>(v, k'). user_ok n now (now + 1) now i v \<and> user_load v = user_load u + 1)"
proof -
  obtain dest idx where d: "gen_random_dest n u (rnd k) = (dest, idx)" "dest = uint (rnd k) mod n"
    by (simp add: gen_random_dest_def Let_def)
  let ?m = "\<lparr>dm_dest = dest, dm_step = 0, dm_ram = get_exp_random (rnd (k + 1)), dm_t = now\<rparr>"
  have u: "user_ok n now (now + 1) now i u" using user_ok_mono [OF assms(1)] by simp
  have m: "msgs_ok n now (now + 1) [?m]" using assms(2,3) d(2) by (simp add: msgs_ok_def)
  have "int (length (du_send_queue u)) + 1 < 2 ^ 31" using u assms(5) by (simp add: user_load_def user_ok_def)
  from enqueue_ok [OF u m this, of idx]
  have "returns (do { u1 \<leftarrow> enqueue idx ?m u; pass_on n rnd (k + 2) (du_recv_messages u1) u1 })
    (\<lambda>(v, k'). user_ok n now (now + 1) now i v \<and> user_load v = user_load u + 1)"
  proof (rule returns_bind)
    fix v assume v: "user_ok n now (now + 1) now i v \<and> user_load v = user_load u + 1 \<and> du_recv_messages v = du_recv_messages u"
    have same: "v\<lparr>du_recv_messages := du_recv_messages v\<rparr> = v" by simp
    show "returns (pass_on n rnd (k + 2) (du_recv_messages v) v) (\<lambda>(v, k'). user_ok n now (now + 1) now i v \<and> user_load v = user_load u + 1)"
      using pass_on_ok [of n now now i "du_recv_messages v" v rnd "k + 2", unfolded same] v assms(4,5) by (simp only: simp_thms)
  qed
  then show ?thesis using d(1) by (simp add: emit_real_message_def)
qed

text \<open>While the users emit, those before the index have emitted.\<close>

lemma emit_all_ok:
  assumes "users_ok (sim_step s + 1) (sim_step s) s" "\<forall>j \<in> set is. j < length (sim_users s) \<and>
      user_ok (sim_num_of_users s) (sim_step s) (sim_step s) (sim_step s) (int j) (sim_users s ! j)"
    "distinct is" "sim_load s + int (length is) < 2 ^ 31" "sim_step s + 1 < 2 ^ 31"
  shows "returns (emit_all rnd is s) (\<lambda>s'. users_ok (sim_step s + 1) (sim_step s) s' \<and> sim_load s' = sim_load s + int (length is) \<and>
    length (sim_users s') = length (sim_users s) \<and> sim_step s' = sim_step s \<and> sim_num_of_users s' = sim_num_of_users s)"
  using assms
proof (induction "is" arbitrary: s)
  case (Cons i "is")
  let ?n = "sim_num_of_users s" and ?t = "sim_step s"
  have i: "i < length (sim_users s)" "user_ok ?n ?t ?t ?t (int i) (sim_users s ! i)" using Cons.prems(2) by simp_all
  have "returns (emit_real_message ?n ?t rnd (sim_draws s) (sim_users s ! i))
      (\<lambda>(v, k'). user_ok ?n ?t (?t + 1) ?t (int i) v \<and> user_load v = user_load (sim_users s ! i) + 1)"
    using i(2) Cons.prems(1,4,5) user_load_le [OF Cons.prems(1) i(1)]
    by (intro emit_ok) (auto simp: users_ok_def)
  then show ?case unfolding emit_all.simps
  proof (rule returns_bind)
    fix vk :: "dae_user \<times> nat" assume "case vk of (v, k') \<Rightarrow> user_ok ?n ?t (?t + 1) ?t (int i) v \<and> user_load v = user_load (sim_users s ! i) + 1"
    then obtain v k where vk: "vk = (v, k)" "user_ok ?n ?t (?t + 1) ?t (int i) v" "user_load v = user_load (sim_users s ! i) + 1" by auto
    let ?s = "s\<lparr>sim_users := (sim_users s)[i := v], sim_draws := k\<rparr>"
    have "users_ok (?t + 1) ?t ?s" "sim_load ?s = sim_load s + 1"
      using users_ok_update(1,3) [OF Cons.prems(1) i(1) vk(2)] vk(3) by simp_all
    moreover have "\<forall>j \<in> set is. j < length (sim_users ?s) \<and> user_ok ?n ?t ?t ?t (int j) (sim_users ?s ! j)"
    proof
      fix j assume "j \<in> set is"
      then have "j \<noteq> i" "j < length (sim_users s) \<and> user_ok ?n ?t ?t ?t (int j) (sim_users s ! j)" using Cons.prems(2,3) by auto
      then show "j < length (sim_users ?s) \<and> user_ok ?n ?t ?t ?t (int j) (sim_users ?s ! j)" by simp
    qed
    ultimately show "returns (case vk of (u, k) \<Rightarrow> emit_all rnd is (s\<lparr>sim_users := (sim_users s)[i := u], sim_draws := k\<rparr>))
        (\<lambda>s'. users_ok (?t + 1) ?t s' \<and> sim_load s' = sim_load s + int (length (i # is)) \<and>
          length (sim_users s') = length (sim_users s) \<and> sim_step s' = ?t \<and> sim_num_of_users s' = ?n)"
      using Cons.IH [of ?s] Cons.prems(3-5) unfolding vk(1) by (auto elim!: returns_mono)
  qed
qed simp

lemma recv_message_ok:
  assumes "user_ok n now b b i u" "msgs_ok n now b [m]" "user_load u + 1 < 2 ^ 31" "now < 2 ^ 31"
  shows "returns (recv_message now m u) (\<lambda>v. user_ok n now b b i v \<and> user_load v = user_load u + 1 \<and> du_send_queue v = du_send_queue u)"
proof (cases "dm_dest m = du_id u")
  case True
  let ?k = "du_total_recv_msg_count u" and ?l = "du_total_recv_msg_latencies u" and ?d = "now - dm_t m"
  have u: "1 \<le> ?k" "0 \<le> ?l" "?l \<le> (2 ^ 31 - 1) * ?k" "0 \<le> ?d" "?d < 2 ^ 31" "?k + 1 < 2 ^ 31"
    using assms by (auto simp: user_ok_def msgs_ok_def user_load_def)
  then have l: "?l + ?d \<le> (2 ^ 31 - 1) * (?k + 1)" "?l + ?d < 2 ^ 63" by (simp_all add: algebra_simps)
  then have "recv_message now m u = Some (u\<lparr>du_total_recv_msg_count := ?k + 1, du_total_recv_msg_latencies := ?l + ?d\<rparr>)"
    using True u by (simp add: recv_message_def c_int_def c_long_def)
  then show ?thesis using assms(1) l(1) u by (simp add: user_ok_def user_load_def)
next
  case False
  then show ?thesis using assms(1,2) by (auto simp: recv_message_def user_ok_def msgs_ok_def user_load_def)
qed

text \<open>What an operation of the sending loop keeps.\<close>

definition sim_keeps :: "int \<Rightarrow> dae_simulator \<Rightarrow> dae_simulator \<Rightarrow> bool" where
  "sim_keeps b s s' \<longleftrightarrow> users_ok b b s' \<and> sim_load s' = sim_load s \<and> length (sim_users s') = length (sim_users s) \<and>
     sim_step s' = sim_step s \<and> sim_num_of_users s' = sim_num_of_users s"

lemma send_real_ok:
  assumes "users_ok b b s" "i < length (sim_users s)" "sim_load s + 1 < 2 ^ 31"
  shows "returns (send_real_message i s) (sim_keeps b s)"
proof (cases "du_send_queue (sim_users s ! i)")
  case Nil then show ?thesis using assms by (simp add: send_real_message_def sim_keeps_def)
next
  case (Cons m q)
  let ?n = "sim_num_of_users s" and ?t = "sim_step s" and ?u = "sim_users s ! i"
  have n: "2 \<le> ?n" "int i < ?n" "user_ok ?n ?t b b (int i) ?u" "?t < 2 ^ 31" using assms by (auto simp: users_ok_def)
  then have m: "0 \<le> dm_dest m" "dm_dest m < ?n" "user_at ?n (int i) ?u" "msgs_ok ?n ?t b [m]"
    using Cons by (auto simp: user_ok_def msgs_ok_def)
  obtain nb where nb: "arr_get (du_neighbours ?u) (get_idx ?n ?u (dm_dest m)) = Some nb" "0 \<le> nb" "nb < ?n"
    using get_idx_spec [OF n(1) _ n(2) m(1-3), of thesis] n(1) by fastforce
  have nbl: "nat nb < length (sim_users s)" using nb(2,3) assms(1) by (auto simp: users_ok_def)
  then have vok: "user_ok ?n ?t b b (int (nat nb)) (sim_users s ! nat nb)" using assms(1) by (simp only: users_ok_def)
  have "user_load (sim_users s ! nat nb) + 1 < 2 ^ 31" using user_load_le [OF assms(1) nbl] assms(3) by linarith
  then obtain v where v: "recv_message ?t m (sim_users s ! nat nb) = Some v" "user_ok ?n ?t b b (int (nat nb)) v"
      "user_load v = user_load (sim_users s ! nat nb) + 1" "du_send_queue v = du_send_queue (sim_users s ! nat nb)"
    using recv_message_ok [OF vok m(4)] n(4) by (auto simp: returns_def)
  let ?us = "(sim_users s)[nat nb := v]" and ?s1 = "s\<lparr>sim_users := (sim_users s)[nat nb := v]\<rparr>"
  have s1: "users_ok b b ?s1" "sim_load ?s1 = sim_load s + 1" using users_ok_update(2,4) [OF assms(1) nbl v(2)] v(3) by simp_all
  have q: "du_send_queue (?us ! i) = m # q" using Cons v(4) assms(2) by (cases "nat nb = i") simp_all
  have ui: "user_ok ?n ?t b b (int i) (?us ! i)" using s1(1) assms(2) by (auto simp: users_ok_def)
  have "user_load (?us ! i) \<le> sim_load s + 1" using user_load_le [OF s1(1), of i] s1(2) assms(2) by simp
  then have k: "du_total_msg_count (?us ! i) = 1 + int (length q)" "int (length q) < 2 ^ 31"
    using ui q assms(3) by (auto simp: user_ok_def user_load_def)
  define w where "w = (?us ! i)\<lparr>du_total_msg_count := int (length q), du_send_queue := q\<rparr>"
  have w: "user_ok ?n ?t b b (int i) w" "user_load w = user_load (?us ! i) - 1"
    using ui q by (auto simp: w_def user_ok_def msgs_ok_def user_load_def)
  have "users_ok b b (s\<lparr>sim_users := ?us[i := w]\<rparr>)" "sim_load (s\<lparr>sim_users := ?us[i := w]\<rparr>) = sim_load s"
    using users_ok_update(2,4) [OF s1(1), of i w] w s1(2) assms(2) by simp_all
  moreover have "send_real_message i s = Some (s\<lparr>sim_users := ?us[i := w]\<rparr>)"
    using Cons nb nbl v(1) q k by (simp add: send_real_message_def hand_over_def arr_get_def arr_set_def w_def Let_def c_int_def)
  ultimately show ?thesis by (simp add: sim_keeps_def)
qed

lemma send_times_ok:
  assumes "users_ok b b s" "i < length (sim_users s)" "sim_load s + 1 < 2 ^ 31"
  shows "returns (send_times k i s) (sim_keeps b s)"
  using assms
proof (induction k arbitrary: s)
  case (Suc k)
  show ?case unfolding send_times.simps
  proof (rule returns_bind [OF send_real_ok [OF Suc.prems]])
    fix s' assume "sim_keeps b s s'"
    then show "returns (send_times k i s') (sim_keeps b s)"
      using Suc.IH [of s'] Suc.prems(2,3) by (auto simp: sim_keeps_def elim!: returns_mono)
  qed
qed (simp add: sim_keeps_def)

text \<open>The mean of latencies below \<open>2^31\<close> each fits an \<open>int\<close>; a printout forgets the messages received.\<close>

lemma print_info_ok:
  assumes "user_ok n now b c i u"
  shows "returns (print_info u) (\<lambda>v. user_ok n now b c i v \<and> user_load v \<le> user_load u)"
proof -
  let ?k = "du_total_recv_msg_count u" and ?l = "du_total_recv_msg_latencies u"
  have u: "1 \<le> ?k" "0 \<le> ?l" "?l \<le> (2 ^ 31 - 1) * ?k" using assms by (auto simp: user_ok_def)
  have "?l div ?k \<le> 2 ^ 31 - 1" using u zdiv_mono1 [OF u(3), of ?k] by simp
  moreover have "?l sdiv ?k = ?l div ?k" "0 \<le> ?l div ?k" using u by (cases "?l = 0"; simp add: signed_divide_int_def pos_imp_zdiv_nonneg_iff)+
  ultimately have mean: "sint (word_of_int (?l sdiv ?k) :: u32) = ?l div ?k" "0 \<le> ?l div ?k" "?l div ?k \<le> 2 ^ 31 - 1"
    by (simp_all add: signed_of_int signed_take_bit_int_eq_self)
  then show ?thesis using assms u(1) by (simp add: print_info_def Let_def user_ok_def user_load_def)
qed

text \<open>After the users before the index have sent; only a printout lowers the count.\<close>

definition sim_sent :: "bool \<Rightarrow> int \<Rightarrow> dae_simulator \<Rightarrow> dae_simulator \<Rightarrow> bool" where
  "sim_sent print b s s' \<longleftrightarrow> users_ok b b s' \<and> sim_load s' \<le> sim_load s \<and> (\<not> print \<longrightarrow> sim_load s' = sim_load s) \<and>
     length (sim_users s') = length (sim_users s) \<and> sim_step s' = sim_step s \<and> sim_num_of_users s' = sim_num_of_users s"

lemma send_all_ok:
  assumes "users_ok b b s" "\<forall>i \<in> set is. i < length (sim_users s)" "sim_load s + 1 < 2 ^ 31"
  shows "returns (send_all_batches print is s) (sim_sent print b s)"
  using assms
proof (induction "is" arbitrary: s)
  case (Cons i "is")
  note i = Cons.prems(2) [rule_format, of i, simplified]
  show ?case unfolding send_all_batches.simps send_batch_messages_def
  proof (rule returns_bind [OF send_times_ok [OF Cons.prems(1) i Cons.prems(3)]])
    fix s1 assume s1: "sim_keeps b s s1"
    let ?p = "if print \<and> i < 1024 then map_option (\<lambda>u. s1\<lparr>sim_users := (sim_users s1)[i := u]\<rparr>) (print_info (sim_users s1 ! i)) else Some s1"
    have i1: "i < length (sim_users s1)" "users_ok b b s1" using s1 i by (simp_all add: sim_keeps_def)
    then have "user_ok (sim_num_of_users s1) (sim_step s1) b b (int i) (sim_users s1 ! i)" by (simp add: users_ok_def)
    from print_info_ok [OF this] have "returns ?p (sim_sent print b s)"
      using s1 users_ok_update(2,4) [OF i1(2,1)] i1(2) by (auto simp: sim_keeps_def sim_sent_def returns_def)
    then show "returns (do { s2 \<leftarrow> ?p; send_all_batches print is s2 }) (sim_sent print b s)"
    proof (rule returns_bind)
      fix s2 assume "sim_sent print b s s2"
      then show "returns (send_all_batches print is s2) (sim_sent print b s)"
        using Cons.IH [of s2] Cons.prems(2,3) by (auto simp: sim_sent_def elim!: returns_mono)
    qed
  qed
qed (simp add: sim_sent_def)

subsection \<open>Properties\<close>

text \<open>
  C38. Greedy routing in the simulator: with at least two users, a message at any user reaches its destination,
  and it is handed over at most twice more often than \<open>log2\<close> of the number of users.
\<close>

theorem simulator_routes:
  assumes "2 \<le> n" "n \<le> 2 ^ 30" "0 \<le> i" "i < n" "0 \<le> dest" "dest < n"
  shows "returns (sim_start n) (\<lambda>s. returns (sim_route s dest (floor_log2 (nat n) + 2) i) (\<lambda>r. length r \<le> floor_log2 (nat n) + 2))"
proof (rule sim_start_ok [OF assms(1,2)])
  fix s assume s: "sim_start n = Some s" "sim_ok s" "sim_num_of_users s = n"
  let ?c = "floor_log2 (nat n)"
  have "(2 :: int) ^ ?c = 2 * 2 ^ (?c - 1)" using floor_log2_pos [OF assms(1)] by (cases ?c) simp_all
  moreover have "sim_dist n i dest < 2 * 2 ^ ?c" using floor_log2_int(2) [of n] assms(1) pos_mod_bound [of n "dest - i"]
    unfolding sim_dist_def by linarith
  ultimately have "sim_dist n i dest < 2 ^ ?c + int 2 * 2 ^ (?c - 1)" by simp
  then show ?thesis using route_far [OF s(2), of i dest 2] assms(3-6) s by simp
qed

theorem simulator_routes_witness:
  "returns (sim_start 6) (\<lambda>s. returns (sim_route s 1 (floor_log2 (nat 6) + 2) 2) (\<lambda>r. length r \<le> floor_log2 (nat 6) + 2))"
  by (rule simulator_routes) simp_all

lemma sim_round_ok:
  assumes "sim_inv s" "sim_load s + sim_num_of_users s + 1 < 2 ^ 31" "sim_step s + 1 < 2 ^ 31"
  shows "returns (sim_round rnd print s) (\<lambda>s'. sim_inv s' \<and> sim_num_of_users s' = sim_num_of_users s \<and> sim_step s' = sim_step s + 1 \<and>
    sim_load s' \<le> sim_load s + sim_num_of_users s \<and> (\<not> print \<longrightarrow> sim_load s' = sim_load s + sim_num_of_users s))"
proof -
  let ?is = "[0..<length (sim_users s)]" and ?t = "sim_step s" and ?n = "sim_num_of_users s"
  have u: "users_ok ?t ?t s" "int (length (sim_users s)) = ?n" using assms(1) by (simp_all add: sim_inv_def users_ok_def)
  then have "returns (emit_all rnd ?is s) (\<lambda>s'. users_ok (?t + 1) ?t s' \<and> sim_load s' = sim_load s + int (length ?is) \<and>
      length (sim_users s') = length (sim_users s) \<and> sim_step s' = ?t \<and> sim_num_of_users s' = ?n)"
    using assms(2,3) users_ok_mono [OF u(1), of "?t + 1" ?t] by (intro emit_all_ok) (auto simp: users_ok_def)
  then show ?thesis unfolding sim_round_def Let_def
  proof (rule returns_bind)
    fix s1 assume s1: "users_ok (?t + 1) ?t s1 \<and> sim_load s1 = sim_load s + int (length ?is) \<and>
      length (sim_users s1) = length (sim_users s) \<and> sim_step s1 = ?t \<and> sim_num_of_users s1 = ?n"
    then have load: "sim_load s1 = sim_load s + ?n" using u(2) by simp
    have "returns (send_all_batches print ?is s1) (sim_sent print (?t + 1) s1)"
      using s1 assms(2) load users_ok_mono [of "?t + 1" ?t s1 "?t + 1" "?t + 1"] by (intro send_all_ok) auto
    then show "returns (do { s2 \<leftarrow> send_all_batches print ?is s1; st \<leftarrow> c_int (sim_step s2 + 1); Some (s2\<lparr>sim_step := st\<rparr>) })
      (\<lambda>s'. sim_inv s' \<and> sim_num_of_users s' = ?n \<and> sim_step s' = ?t + 1 \<and>
        sim_load s' \<le> sim_load s + ?n \<and> (\<not> print \<longrightarrow> sim_load s' = sim_load s + ?n))"
    proof (rule returns_bind)
      fix s2 assume s2: "sim_sent print (?t + 1) s1 s2"
      let ?s = "s2\<lparr>sim_step := ?t + 1\<rparr>"
      have st: "sim_step s2 = ?t" "0 \<le> ?t" "sim_num_of_users s2 = ?n" "users_ok (?t + 1) (?t + 1) s2"
        using s1 s2 u(1) unfolding sim_sent_def by (simp_all add: users_ok_def [of ?t ?t])
      then have "c_int (sim_step s2 + 1) = Some (?t + 1)" using assms(3) by (simp add: c_int_def)
      moreover have "sim_inv ?s"
        using st assms(3) user_ok_mono [of ?n ?t "?t + 1" "?t + 1" _ _ "?t + 1" "?t + 1" "?t + 1"] by (simp add: sim_inv_def users_ok_def)
      moreover have "sim_load ?s = sim_load s2" by (simp add: sim_load_def)
      ultimately show "returns (do { st \<leftarrow> c_int (sim_step s2 + 1); Some (s2\<lparr>sim_step := st\<rparr>) })
        (\<lambda>s'. sim_inv s' \<and> sim_num_of_users s' = ?n \<and> sim_step s' = ?t + 1 \<and>
          sim_load s' \<le> sim_load s + ?n \<and> (\<not> print \<longrightarrow> sim_load s' = sim_load s + ?n))"
        using s2 st(3) load by (simp add: sim_sent_def)
    qed
  qed
qed

lemma sim_run_ok:
  assumes "sim_inv s" "sim_load s + int (length prints) * sim_num_of_users s + 1 < 2 ^ 31" "sim_step s + int (length prints) < 2 ^ 31"
  shows "returns (sim_run rnd prints s) (\<lambda>s'. sim_inv s' \<and> sim_step s' = sim_step s + int (length prints) \<and>
    (True \<notin> set prints \<longrightarrow> sim_load s' = sim_load s + int (length prints) * sim_num_of_users s))"
  using assms
proof (induction prints arbitrary: s)
  case (Cons p ps)
  have n: "0 \<le> int (length ps) * sim_num_of_users s" using Cons.prems(1) by (simp add: sim_inv_def users_ok_def)
  show ?case unfolding sim_run.simps
  proof (rule returns_bind [OF sim_round_ok [OF Cons.prems(1)]])
    fix s' assume s': "sim_inv s' \<and> sim_num_of_users s' = sim_num_of_users s \<and> sim_step s' = sim_step s + 1 \<and>
      sim_load s' \<le> sim_load s + sim_num_of_users s \<and> (\<not> p \<longrightarrow> sim_load s' = sim_load s + sim_num_of_users s)"
    then have "returns (sim_run rnd ps s') (\<lambda>s''. sim_inv s'' \<and> sim_step s'' = sim_step s' + int (length ps) \<and>
        (True \<notin> set ps \<longrightarrow> sim_load s'' = sim_load s' + int (length ps) * sim_num_of_users s'))"
      using Cons.prems(2,3) by (intro Cons.IH) (auto simp: algebra_simps)
    then show "returns (sim_run rnd ps s') (\<lambda>s'. sim_inv s' \<and> sim_step s' = sim_step s + int (length (p # ps)) \<and>
        (True \<notin> set (p # ps) \<longrightarrow> sim_load s' = sim_load s + int (length (p # ps)) * sim_num_of_users s))"
      using s' by (auto simp: algebra_simps elim!: returns_mono)
  qed (use Cons.prems n in \<open>auto simp: algebra_simps\<close>)
qed simp

text \<open>
  C39. As long as users times rounds stays below the range of an \<open>int\<close>, the simulation stays within defined
  behaviour and loses count of no message: from the start with \<open>n\<close> users, after \<open>r\<close> rounds with \<open>n (r + 1) + 1 < 2^31\<close> and
  any random numbers, no counter has overflowed, \<open>step\<close> is \<open>r\<close>, every user is at its place, the messages in its queues have
  destinations on the ring and made at most \<open>r\<close> hops, and \<open>total_msg_count\<close> is the length of its send queue. If no
  round printed (a printout resets the receive counters), the number of messages held and received, with the one
  every receive counter starts from, is one per user and round more than at the start; which messages they are is
  not stated. The loop of the code has no bound on the rounds; beyond this one its \<open>int\<close> counters may overflow.
\<close>

theorem simulator_runs:
  assumes "2 \<le> n" "n * (int (length prints) + 1) + 1 < 2 ^ 31" "n \<le> 2 ^ 30"
  shows "returns (sim_start n) (\<lambda>s. returns (sim_run rnd prints s) (\<lambda>s'. sim_inv s' \<and> sim_step s' = int (length prints) \<and>
    (True \<notin> set prints \<longrightarrow> sim_load s' = n + int (length prints) * n)))"
proof (rule sim_start_ok [OF assms(1,3)])
  fix s assume s: "sim_start n = Some s" "sim_ok s" "sim_num_of_users s = n" "sim_step s = 0"
    "\<forall>u \<in> set (sim_users s). du_send_queue u = [] \<and> du_recv_messages u = [] \<and> du_total_msg_count u = 0 \<and> du_total_recv_msg_count u = 1 \<and> du_total_recv_msg_latencies u = 10"
  have "map user_load (sim_users s) = replicate (length (sim_users s)) 1"
    using s(5) by (intro replicate_eqI) (auto simp: user_load_def)
  then have load: "sim_load s = n" using s(2,3) by (simp add: sim_load_def sim_ok_def sum_list_replicate)
  have inv: "sim_inv s" using s(2-5) by (auto simp: sim_inv_def users_ok_def sim_ok_def user_ok_def msgs_ok_def)
  have "int (length prints) \<le> n * int (length prints)" using assms(1) by (simp add: mult_le_cancel_right1)
  then have "sim_step s + int (length prints) < 2 ^ 31" using s(4) assms(1,2) by (simp add: algebra_simps)
  then show ?thesis using sim_run_ok [OF inv, of prints rnd] load s(1,3,4) assms(2) by (simp add: algebra_simps)
qed

theorem simulator_runs_witness:
  "returns (sim_start 5) (\<lambda>s. returns (sim_run (\<lambda>k. of_nat (3 * k)) [False, False] s) (\<lambda>s'. sim_inv s' \<and> sim_step s' = int (length [False, False]) \<and>
    (True \<notin> set [False, False] \<longrightarrow> sim_load s' = 5 + int (length [False, False]) * 5)))"
  by (rule simulator_runs) simp_all

end
