(* ===== verification/PoolSim.thy ===== *)
theory PoolSim
  imports Prelude "HOL-Library.Signed_Division"
begin

text \<open>
  The simulator of message pools (src/src/simulation/PoolUser.cpp, PoolSimulator.cpp): users on a ring who
  send a random message of their pool, or a dummy, to a user nearer to its destination. Random numbers come
  from a stream \<open>rnd\<close> at a position that is carried along; \<open>prob\<close> is the percentage of dropped messages, which
  the code computes with \<open>pow\<close> and \<open>exp\<close> from the fill of the pool and the hops of the message, with an integer
  division by the hops plus one. \<open>None\<close> is undefined behaviour, among it that division by zero and an overflow of
  the hops, an \<open>int\<close>.
\<close>

subsection \<open>State\<close>

record pool_user =
  pu_sent_pool :: "(int \<times> int \<times> int) list"
  pu_recv_pool :: "(int \<times> int \<times> int \<times> bool) list"
  pu_cnt_send :: int
  pu_index :: int

record pool_simulator =
  ps_cnt_users :: int
  ps_range :: int
  ps_users :: "pool_user list"
  ps_draws :: nat

definition sent_pool_size :: nat where "sent_pool_size = 1000"

definition init_pool_user :: "int \<Rightarrow> pool_user" where
  "init_pool_user i = \<lparr>pu_sent_pool = replicate sent_pool_size (0, 0, 0), pu_recv_pool = [], pu_cnt_send = 0, pu_index = i\<rparr>"

definition pool_sim_start :: "int \<Rightarrow> int \<Rightarrow> pool_simulator" where
  "pool_sim_start cnt rng = \<lparr>ps_cnt_users = cnt, ps_range = rng, ps_users = map (\<lambda>i. init_pool_user (int i)) [0..<nat cnt], ps_draws = 0\<rparr>"

subsection \<open>A user\<close>

definition append_sent :: "int \<times> int \<times> int \<Rightarrow> pool_user \<Rightarrow> pool_user option" where
  "append_sent t u = do {
     pool \<leftarrow> arr_set (pu_sent_pool u) (pu_cnt_send u) t;
     Some (u\<lparr>pu_sent_pool := pool, pu_cnt_send := pu_cnt_send u + 1\<rparr>) }"

definition recv_msg :: "int \<Rightarrow> int \<Rightarrow> int \<Rightarrow> bool \<Rightarrow> pool_user \<Rightarrow> pool_user option" where
  "recv_msg src dest cnt dropped u = (if dropped then Some u
     else do { hops \<leftarrow> c_int (cnt + 1); append_sent (src, dest, hops) u })"

definition handle_send_msg :: "int \<Rightarrow> int \<Rightarrow> int \<Rightarrow> bool \<Rightarrow> pool_user \<Rightarrow> pool_user" where
  "handle_send_msg src dest cnt dropped u =
     (if dest = pu_index u then u else u\<lparr>pu_recv_pool := pu_recv_pool u @ [(src, dest, cnt, dropped)]\<rparr>)"

text \<open>Distance on the ring, and the receiver with the number of draws; the sums are those of \<open>uint32_t\<close>.\<close>

definition real_d :: "int \<Rightarrow> int \<Rightarrow> int \<Rightarrow> int" where
  "real_d cnt index dest =
     (let d = dest - index in if \<bar>d\<bar> > cnt sdiv 2 then cnt - \<bar>d\<bar> else \<bar>d\<bar>)"

definition pool_receiver :: "int \<Rightarrow> int \<Rightarrow> int \<Rightarrow> int \<Rightarrow> u32 \<Rightarrow> (int \<times> nat) option" where
  "pool_receiver cnt rng index dest r =
     (let d = dest - index; h = (word_of_int (rng sdiv 2) :: u32); n = (word_of_int cnt :: u32)
      in if real_d cnt index dest < rng sdiv 2 then Some (dest, 0)
         else if h = 0 \<or> n = 0 then None
         else if index - dest > cnt sdiv 2 \<or> (d > 0 \<and> d < cnt sdiv 2)
           then Some (sint ((word_of_int index + r mod h) mod n), 1)
         else Some (sint ((word_of_int index - r mod h + n) mod n), 1))"

definition deliver :: "int \<Rightarrow> int \<Rightarrow> int \<Rightarrow> int \<Rightarrow> bool \<Rightarrow> pool_user list \<Rightarrow> pool_user list option" where
  "deliver receiver src dest cnt dropped us = do {
     v \<leftarrow> arr_get us receiver;
     arr_set us receiver (handle_send_msg src dest cnt dropped v) }"

definition send_dummy :: "(nat \<Rightarrow> u32) \<Rightarrow> nat \<Rightarrow> pool_simulator \<Rightarrow> pool_simulator option" where
  "send_dummy rnd i s =
     (let u = ps_users s ! i; k = ps_draws s; n = (word_of_int (ps_cnt_users s) :: u32)
      in if n = 0 then None
         else let dest = sint (rnd k mod n)
           in if dest = pu_index u then Some (s\<lparr>ps_draws := k + 1\<rparr>)
              else do {
                (receiver, c) \<leftarrow> pool_receiver (ps_cnt_users s) (ps_range s) (pu_index u) dest (rnd (k + 1));
                us \<leftarrow> deliver receiver (pu_index u) dest 0 False (ps_users s);
                Some (s\<lparr>ps_users := us, ps_draws := k + 1 + c\<rparr>) })"

definition send_msg :: "(int \<Rightarrow> int \<Rightarrow> int) \<Rightarrow> (nat \<Rightarrow> u32) \<Rightarrow> int \<Rightarrow> nat \<Rightarrow> pool_simulator \<Rightarrow> pool_simulator option" where
  "send_msg prob rnd index i s =
     (let u = ps_users s ! i; k = ps_draws s
      in do {
        (src, dest, cnt) \<leftarrow> arr_get (pu_sent_pool u) index;
        (receiver, c) \<leftarrow> pool_receiver (ps_cnt_users s) (ps_range s) (pu_index u) dest (rnd k);
        hops \<leftarrow> c_int (cnt + 1);
        _ \<leftarrow> (if hops = 0 then None else Some ());
        let dropped = (uint (rnd (k + c) mod 100) \<le> prob (pu_cnt_send u) cnt);
        l \<leftarrow> arr_get (pu_sent_pool u) (pu_cnt_send u - 1);
        p1 \<leftarrow> arr_set (pu_sent_pool u) index l;
        p2 \<leftarrow> arr_set p1 (pu_cnt_send u - 1) (src, dest, cnt);
        us \<leftarrow> deliver receiver src dest cnt dropped
               ((ps_users s)[i := u\<lparr>pu_sent_pool := p2, pu_cnt_send := pu_cnt_send u - 1\<rparr>]);
        Some (s\<lparr>ps_users := us, ps_draws := k + c + 1\<rparr>) })"

text \<open>The loop over what has been received.\<close>

fun recv_all :: "(int \<times> int \<times> int \<times> bool) list \<Rightarrow> pool_user \<Rightarrow> pool_user option" where
  "recv_all [] u = Some (u\<lparr>pu_recv_pool := []\<rparr>)"
| "recv_all ((src, dest, cnt, dropped) # ms) u = do {
     u' \<leftarrow> recv_msg src dest cnt dropped (u\<lparr>pu_recv_pool := ms\<rparr>);
     recv_all ms u' }"

definition generate_msg :: "int \<Rightarrow> u32 \<Rightarrow> pool_user \<Rightarrow> pool_user option" where
  "generate_msg n r u =
     (if uint (r mod 10) > 8
      then if n = 0 then None
        else let dest = (pu_index u + 40) smod n
          in if dest \<noteq> pu_index u then append_sent (pu_index u, dest, 0) u else Some u
      else Some u)"

definition pool_user_run :: "(int \<Rightarrow> int \<Rightarrow> int) \<Rightarrow> (nat \<Rightarrow> u32) \<Rightarrow> nat \<Rightarrow> pool_simulator \<Rightarrow> pool_simulator option" where
  "pool_user_run prob rnd i s = do {
     u1 \<leftarrow> generate_msg (ps_cnt_users s) (rnd (ps_draws s)) (ps_users s ! i);
     u2 \<leftarrow> recv_all (pu_recv_pool u1) u1;
     let m = max 200 (pu_cnt_send u2);
     let k = sint (rnd (ps_draws s + 1) mod word_of_int m);
     let s' = s\<lparr>ps_users := (ps_users s)[i := u2], ps_draws := ps_draws s + 2\<rparr>;
     if k \<ge> pu_cnt_send u2 then send_dummy rnd i s' else send_msg prob rnd k i s' }"

fun pool_round :: "(int \<Rightarrow> int \<Rightarrow> int) \<Rightarrow> (nat \<Rightarrow> u32) \<Rightarrow> nat list \<Rightarrow> pool_simulator \<Rightarrow> pool_simulator option" where
  "pool_round prob rnd [] s = Some s"
| "pool_round prob rnd (i # is) s = do { s' \<leftarrow> pool_user_run prob rnd i s; pool_round prob rnd is s' }"

subsection \<open>The next hop\<close>

lemma mod_once:
  assumes "0 \<le> (x :: int)" "x < 2 * n"
  shows "x mod n = (if x < n then x else x - n)"
proof (cases "x < n")
  case False
  have "x mod n = (x - n) mod n" by simp
  also have "\<dots> = x - n" using assms False by (intro mod_pos_pos_trivial) auto
  finally show ?thesis using False by simp
qed (use assms in simp)

lemma sint_small: "0 \<le> x \<Longrightarrow> x < 2 ^ 31 \<Longrightarrow> sint (word_of_int x :: u32) = x"
  by (simp add: signed_of_int signed_take_bit_int_eq_self)

text \<open>\<open>a\<close> steps up or down the ring.\<close>

lemma sdiv_half [simp]: "0 \<le> (n :: int) \<Longrightarrow> n sdiv 2 = n div 2"
  by (cases "n = 0") (simp_all add: signed_divide_int_def)

lemma real_d_eq: "0 < cnt \<Longrightarrow> real_d cnt index dest =
   (if dest - index > cnt div 2 then cnt - (dest - index) else if index - dest > cnt div 2 then cnt - (index - dest)
    else \<bar>dest - index\<bar>)"
  by (auto simp: real_d_def Let_def)

lemma up_closer:
  fixes n :: int
  assumes "0 \<le> i" "i < n" "0 \<le> dest" "dest < n" "0 \<le> a" "a \<le> real_d n i dest"
    "i - dest > n div 2 \<or> (dest - i > 0 \<and> dest - i < n div 2)"
  shows "0 \<le> (i + a) mod n" "(i + a) mod n < n" "real_d n ((i + a) mod n) dest \<le> real_d n i dest"
proof -
  have n: "0 < n" using assms by simp
  have a: "a < n" using assms n by (auto simp: real_d_eq split: if_splits)
  show "0 \<le> (i + a) mod n" "(i + a) mod n < n" using n by simp_all
  have "(i + a) mod n = (if i + a < n then i + a else i + a - n)" using assms a by (intro mod_once) auto
  then show "real_d n ((i + a) mod n) dest \<le> real_d n i dest"
    using assms n by (auto simp: real_d_eq split: if_splits)
qed

lemma down_closer:
  fixes n :: int
  assumes "0 \<le> i" "i < n" "0 \<le> dest" "dest < n" "0 \<le> a" "a \<le> real_d n i dest" "i \<noteq> dest"
    "\<not> (i - dest > n div 2 \<or> (dest - i > 0 \<and> dest - i < n div 2))"
  shows "0 \<le> (i - a + n) mod n" "(i - a + n) mod n < n" "real_d n ((i - a + n) mod n) dest \<le> real_d n i dest"
proof -
  have n: "0 < n" using assms by simp
  have a: "a < n" using assms n by (auto simp: real_d_eq split: if_splits)
  show "0 \<le> (i - a + n) mod n" "(i - a + n) mod n < n" using n by simp_all
  have "(i - a + n) mod n = (if i - a + n < n then i - a + n else i - a + n - n)" using assms a by (intro mod_once) auto
  then show "real_d n ((i - a + n) mod n) dest \<le> real_d n i dest"
    using assms n by (auto simp: real_d_eq split: if_splits)
qed

lemma word_mod_small:
  assumes "0 \<le> x" "x < 2 ^ 32" "0 < n" "n < 2 ^ 31"
  shows "sint ((word_of_int x :: u32) mod word_of_int n) = x mod n"
proof -
  have "uint ((word_of_int x :: u32) mod word_of_int n) = x mod n"
    using assms by (simp add: uint_mod_distrib unsigned_of_int take_bit_int_eq_self)
  then have "(word_of_int x :: u32) mod word_of_int n = word_of_int (x mod n)" by (metis word_of_int_uint)
  moreover have "0 \<le> x mod n" "x mod n < 2 ^ 31" using assms(3,4) pos_mod_bound [of n x] pos_mod_sign [of n x] by linarith+
  ultimately show ?thesis by (simp only: sint_small)
qed

text \<open>The next hop exists and is not further from the destination.\<close>

lemma pool_receiver_closer:
  assumes "0 \<le> i" "i < n" "0 \<le> dest" "dest < n" "i \<noteq> dest" "n \<le> 2 ^ 30" "2 \<le> rng" "rng < 2 ^ 31"
  shows "returns (pool_receiver n rng i dest r) (\<lambda>(v, c). 0 \<le> v \<and> v < n \<and> real_d n v dest \<le> real_d n i dest)"
proof (cases "real_d n i dest < rng div 2")
  case True
  have "real_d n dest dest = 0" "0 \<le> real_d n i dest" using assms by (auto simp: real_d_eq)
  then show ?thesis using True assms by (simp add: pool_receiver_def)
next
  case False
  let ?h = "rng div 2" and ?up = "i - dest > n div 2 \<or> (dest - i > 0 \<and> dest - i < n div 2)"
  define a where "a = uint (r mod word_of_int ?h)"
  have h: "0 < ?h" "?h < 2 ^ 31" using assms(7,8) by auto
  have uh: "uint (word_of_int ?h :: u32) = ?h" "uint (word_of_int n :: u32) = n"
    using h assms by (simp_all add: unsigned_of_int take_bit_int_eq_self)
  then have nz: "(word_of_int ?h :: u32) \<noteq> 0" "(word_of_int n :: u32) \<noteq> 0" using h(1) assms by auto
  have a: "0 \<le> a" "a < ?h" using h(1) uh by (simp_all add: a_def uint_mod_distrib)
  have aw: "r mod word_of_int ?h = word_of_int a" by (simp only: a_def word_of_int_uint)
  have ad: "a \<le> real_d n i dest" "a \<le> n" using a(2) False assms by (auto simp: real_d_eq split: if_splits)
  show ?thesis
  proof (cases ?up)
    case True
    have "sint ((word_of_int i + r mod word_of_int ?h :: u32) mod word_of_int n) = (i + a) mod n"
      unfolding aw wi_hom_add using assms a(1) ad(2) by (intro word_mod_small) auto
    then have "pool_receiver n rng i dest r = Some ((i + a) mod n, 1)"
      using False True assms nz by (simp add: pool_receiver_def Let_def)
    then show ?thesis using up_closer [OF assms(1-4) a(1) ad(1) True] by simp
  next
    case up: False
    have "sint ((word_of_int i - r mod word_of_int ?h + word_of_int n :: u32) mod word_of_int n) = (i - a + n) mod n"
      unfolding aw wi_hom_sub wi_hom_add using assms a(1) ad(2) by (intro word_mod_small) auto
    then have "pool_receiver n rng i dest r = Some ((i - a + n) mod n, 1)"
      using False up assms nz by (auto simp: pool_receiver_def Let_def)
    then show ?thesis using down_closer [OF assms(1-4) a(1) ad(1) assms(5) up] by simp
  qed
qed

subsection \<open>The pool of a user\<close>

definition dest_ok :: "int \<Rightarrow> int \<Rightarrow> int \<Rightarrow> bool" where
  "dest_ok n i d \<longleftrightarrow> 0 \<le> d \<and> d < n \<and> d \<noteq> i"

definition hops_ok :: "int \<Rightarrow> int \<Rightarrow> bool" where
  "hops_ok h cnt \<longleftrightarrow> 0 \<le> cnt \<and> cnt \<le> h"

text \<open>A user whose pool holds messages of at most \<open>b\<close> hops and who has received messages of at most \<open>c\<close>.\<close>

definition pu_ok :: "int \<Rightarrow> int \<Rightarrow> int \<Rightarrow> int \<Rightarrow> pool_user \<Rightarrow> bool" where
  "pu_ok n b c i u \<longleftrightarrow> pu_index u = i \<and> length (pu_sent_pool u) = sent_pool_size \<and> 0 \<le> pu_cnt_send u \<and>
     pu_cnt_send u \<le> int sent_pool_size \<and> 
     (\<forall>j < nat (pu_cnt_send u). dest_ok n i (fst (snd (pu_sent_pool u ! j))) \<and> hops_ok b (snd (snd (pu_sent_pool u ! j)))) \<and>
     (\<forall>m \<in> set (pu_recv_pool u). dest_ok n i (fst (snd m)) \<and> hops_ok c (fst (snd (snd m))))"

text \<open>A state in which no message has made more than \<open>h\<close> hops.\<close>

definition ps_inv :: "int \<Rightarrow> pool_simulator \<Rightarrow> bool" where
  "ps_inv h s \<longleftrightarrow> 2 \<le> ps_cnt_users s \<and> ps_cnt_users s \<le> 2 ^ 30 \<and> 2 \<le> ps_range s \<and> ps_range s < 2 ^ 31 \<and>
     int (length (ps_users s)) = ps_cnt_users s \<and>
     (\<forall>i < length (ps_users s). pu_ok (ps_cnt_users s) h h (int i) (ps_users s ! i))"

lemma pu_ok_mono: "pu_ok n b c i u \<Longrightarrow> b \<le> b' \<Longrightarrow> c \<le> c' \<Longrightarrow> pu_ok n b' c' i u"
  by (fastforce simp: pu_ok_def hops_ok_def)

lemma append_sent_ok:
  assumes "pu_ok n b c i u" "dest_ok n i (fst (snd t))" "hops_ok b (snd (snd t))" "pu_cnt_send u < int sent_pool_size"
  obtains u' where "append_sent t u = Some u'" "pu_ok n b c i u'" "pu_cnt_send u' = pu_cnt_send u + 1"
    "pu_recv_pool u' = pu_recv_pool u"
proof -
  let ?u = "u\<lparr>pu_sent_pool := (pu_sent_pool u)[nat (pu_cnt_send u) := t], pu_cnt_send := pu_cnt_send u + 1\<rparr>"
  have "append_sent t u = Some ?u" using assms by (simp add: append_sent_def arr_set_def pu_ok_def)
  moreover have "pu_ok n b c i ?u"
    using assms by (auto simp: pu_ok_def nth_list_update nat_add_distrib less_Suc_eq)
  ultimately show ?thesis using that [of ?u] by simp
qed

lemma append_sent_full: "pu_ok n b c i u \<Longrightarrow> pu_cnt_send u = int sent_pool_size \<Longrightarrow> append_sent t u = None"
  by (simp add: append_sent_def arr_set_def pu_ok_def)

definition undropped :: "(int \<times> int \<times> int \<times> bool) list \<Rightarrow> nat" where
  "undropped ms = length (filter (\<lambda>(_, _, _, dropped). \<not> dropped) ms)"

lemma undropped_simps [simp]:
  "undropped [] = 0" "undropped ((src, dest, cnt, dropped) # ms) = (if dropped then undropped ms else Suc (undropped ms))"
  by (simp_all add: undropped_def)

lemma recv_all_cases:
  assumes "pu_ok n (c + 1) c i (u\<lparr>pu_recv_pool := ms\<rparr>)" "c + 1 < 2 ^ 31"
  shows "if pu_cnt_send u + int (undropped ms) \<le> int sent_pool_size
    then returns (recv_all ms u) (\<lambda>u'. pu_ok n (c + 1) c i u' \<and> pu_cnt_send u' = pu_cnt_send u + int (undropped ms))
    else recv_all ms u = None"
  using assms(1)
proof (induction ms arbitrary: u)
  case Nil then show ?case by (auto simp: pu_ok_def)
next
  case (Cons m ms)
  obtain src dest cnt dropped where m: "m = (src, dest, cnt, dropped)" by (cases m)
  let ?u = "u\<lparr>pu_recv_pool := ms\<rparr>" and ?t = "(src, dest, cnt + 1)"
  have ok: "pu_ok n (c + 1) c i ?u" "dest_ok n i dest" "hops_ok c cnt" using Cons.prems m by (auto simp: pu_ok_def)
  then have t: "dest_ok n i (fst (snd ?t))" "hops_ok (c + 1) (snd (snd ?t))" by (simp_all add: hops_ok_def)
  show ?case
  proof (cases dropped)
    case True then show ?thesis using Cons.IH [of ?u] ok m by (simp add: recv_msg_def split: if_splits)
  next
    case False
    then have r: "recv_msg src dest cnt dropped ?u = append_sent ?t ?u"
      using ok(3) assms(2) by (simp add: recv_msg_def c_int_def hops_ok_def)
    show ?thesis
    proof (cases "pu_cnt_send u < int sent_pool_size")
      case True
      obtain u' where u': "append_sent ?t ?u = Some u'" "pu_ok n (c + 1) c i u'" "pu_cnt_send u' = pu_cnt_send u + 1"
          "pu_recv_pool u' = ms"
        using append_sent_ok [OF ok(1) t] True by auto
      have "u'\<lparr>pu_recv_pool := ms\<rparr> = u'" using u'(4) by simp
      then have "pu_ok n (c + 1) c i (u'\<lparr>pu_recv_pool := ms\<rparr>)" using u'(2) by (simp only:)
      from Cons.IH [OF this] have "if pu_cnt_send u' + int (undropped ms) \<le> int sent_pool_size
          then returns (recv_all ms u') (\<lambda>u''. pu_ok n (c + 1) c i u'' \<and> pu_cnt_send u'' = pu_cnt_send u' + int (undropped ms))
          else recv_all ms u' = None" .
      then show ?thesis using u' r False m by (simp add: add.assoc split: if_splits)
    next
      case full: False
      then have "pu_cnt_send ?u = int sent_pool_size" using ok(1) by (simp add: pu_ok_def)
      then show ?thesis using append_sent_full [OF ok(1)] r False m full by simp
    qed
  qed
qed

text \<open>Whether a user generates a message.\<close>

definition fresh :: "int \<Rightarrow> int \<Rightarrow> u32 \<Rightarrow> bool" where
  "fresh n i r \<longleftrightarrow> uint (r mod 10) > 8 \<and> (i + 40) smod n \<noteq> i"

lemma generate_cases:
  assumes "pu_ok n b c i u" "0 \<le> i" "i < n" "0 \<le> b"
  shows "if pu_cnt_send u + of_bool (fresh n i r) \<le> int sent_pool_size
    then returns (generate_msg n r u) (\<lambda>u'. pu_ok n b c i u' \<and> pu_cnt_send u' = pu_cnt_send u + of_bool (fresh n i r) \<and> pu_recv_pool u' = pu_recv_pool u)
    else generate_msg n r u = None"
proof (cases "fresh n i r")
  case False then show ?thesis using assms by (auto simp: generate_msg_def fresh_def pu_ok_def)
next
  case True
  let ?t = "(i, (i + 40) smod n, 0 :: int)"
  have g: "generate_msg n r u = append_sent ?t u" using True assms by (auto simp: generate_msg_def fresh_def pu_ok_def)
  have "(i + 40) smod n = (i + 40) mod n" using assms(2,3) by (simp add: signed_modulo_int_def)
  then have d: "dest_ok n i (fst (snd ?t))" "hops_ok b (snd (snd ?t))" using True assms(2-4) by (auto simp: dest_ok_def hops_ok_def fresh_def)
  show ?thesis
  proof (cases "pu_cnt_send u < int sent_pool_size")
    case less: True
    show ?thesis using append_sent_ok [OF assms(1) d less] less True unfolding g by (auto simp: returns_def)
  next
    case full: False
    then have "pu_cnt_send u = int sent_pool_size" using assms(1) by (simp add: pu_ok_def)
    then show ?thesis using append_sent_full [OF assms(1)] True g by simp
  qed
qed

lemma handle_send_ok:
  assumes "pu_ok n b c i v" "0 \<le> dest" "dest < n" "hops_ok c cnt"
  shows "pu_ok n b c i (handle_send_msg src dest cnt dropped v)"
  using assms by (auto simp: handle_send_msg_def pu_ok_def dest_ok_def)

lemma deliver_ok:
  assumes "ps_inv h s" "0 \<le> receiver" "receiver < ps_cnt_users s" "0 \<le> dest" "dest < ps_cnt_users s" "hops_ok h cnt"
  shows "returns (deliver receiver src dest cnt dropped (ps_users s)) (\<lambda>us. ps_inv h (s\<lparr>ps_users := us, ps_draws := k\<rparr>))"
proof -
  have l: "nat receiver < length (ps_users s)" using assms by (auto simp: ps_inv_def)
  then have "pu_ok (ps_cnt_users s) h h (int (nat receiver)) (ps_users s ! nat receiver)" using assms(1) by (simp only: ps_inv_def)
  then have "pu_ok (ps_cnt_users s) h h (int (nat receiver)) (handle_send_msg src dest cnt dropped (ps_users s ! nat receiver))"
    by (rule handle_send_ok [OF _ assms(4-6)])
  then show ?thesis using l assms by (auto simp: deliver_def arr_get_def arr_set_def ps_inv_def nth_list_update)
qed

lemma send_dummy_ok:
  assumes "ps_inv h s" "i < length (ps_users s)" "0 \<le> h"
  shows "returns (send_dummy rnd i s) (ps_inv h)"
proof -
  let ?n = "ps_cnt_users s" and ?k = "ps_draws s"
  have n: "2 \<le> ?n" "?n \<le> 2 ^ 30" "2 \<le> ps_range s" "ps_range s < 2 ^ 31" "int i < ?n" "pu_index (ps_users s ! i) = int i"
    using assms by (auto simp: ps_inv_def pu_ok_def)
  define dest where "dest = sint (rnd ?k mod word_of_int ?n)"
  have "dest = uint (rnd ?k) mod ?n"
    using word_mod_small [of "uint (rnd ?k)" ?n] n(1,2) uint_lt2p [of "rnd ?k"] by (simp add: dest_def)
  then have d: "0 \<le> dest" "dest < ?n" using n(1) by simp_all
  have nz: "(word_of_int ?n :: u32) \<noteq> 0"
  proof
    assume "(word_of_int ?n :: u32) = 0"
    then have "uint (word_of_int ?n :: u32) = 0" by simp
    then show False using n(1,2) by (simp add: unsigned_of_int take_bit_int_eq_self)
  qed
  show ?thesis
  proof (cases "dest = int i")
    case True then show ?thesis using assms nz n(6) by (simp add: send_dummy_def dest_def ps_inv_def Let_def)
  next
    case False
    have r: "returns (pool_receiver ?n (ps_range s) (int i) dest (rnd (?k + 1))) (\<lambda>(v, c). 0 \<le> v \<and> v < ?n)"
      using pool_receiver_closer [of "int i" ?n dest "ps_range s" "rnd (?k + 1)"] n d False by (auto elim!: returns_mono)
    then obtain v c where v: "pool_receiver ?n (ps_range s) (int i) dest (rnd (?k + 1)) = Some (v, c)" "0 \<le> v" "v < ?n"
      by (auto simp: returns_def)
    have "hops_ok h 0" using assms(3) by (simp add: hops_ok_def)
    then show ?thesis using deliver_ok [OF assms(1) v(2,3) d, of 0 "int i" False "?k + 1 + c"] v(1) False nz n(6)
      by (auto simp: send_dummy_def Let_def dest_def returns_def)
  qed
qed

lemma send_msg_ok:
  assumes "ps_inv h s" "i < length (ps_users s)" "0 \<le> k" "k < pu_cnt_send (ps_users s ! i)" "h + 1 < 2 ^ 31"
  shows "returns (send_msg prob rnd k i s) (ps_inv h)"
proof -
  let ?n = "ps_cnt_users s" and ?u = "ps_users s ! i"
  have n: "2 \<le> ?n" "?n \<le> 2 ^ 30" "2 \<le> ps_range s" "ps_range s < 2 ^ 31" "int i < ?n" "pu_ok ?n h h (int i) ?u"
    using assms by (auto simp: ps_inv_def)
  then have u: "pu_index ?u = int i" "length (pu_sent_pool ?u) = sent_pool_size" "pu_cnt_send ?u \<le> int sent_pool_size"
    by (simp_all add: pu_ok_def)
  obtain src dest cnt where t: "pu_sent_pool ?u ! nat k = (src, dest, cnt)" by (cases "pu_sent_pool ?u ! nat k")
  have "nat k < nat (pu_cnt_send ?u)" using assms(3,4) by simp
  then have "dest_ok ?n (int i) (fst (snd (pu_sent_pool ?u ! nat k)))" "hops_ok h (snd (snd (pu_sent_pool ?u ! nat k)))"
    using n(6) unfolding pu_ok_def by blast+
  then have d: "0 \<le> dest" "dest < ?n" "int i \<noteq> dest" "hops_ok h cnt" using t by (auto simp: dest_ok_def)
  then have hops: "c_int (cnt + 1) = Some (cnt + 1)" "cnt + 1 \<noteq> 0" using assms(5) by (simp_all add: hops_ok_def c_int_def)
  obtain v c where v: "pool_receiver ?n (ps_range s) (int i) dest (rnd (ps_draws s)) = Some (v, c)" "0 \<le> v" "v < ?n"
    using pool_receiver_closer [of "int i" ?n dest "ps_range s" "rnd (ps_draws s)"] n d by (auto simp: returns_def)
  define pool where "pool = (pu_sent_pool ?u)[nat k := pu_sent_pool ?u ! nat (pu_cnt_send ?u - 1), nat (pu_cnt_send ?u - 1) := (src, dest, cnt)]"
  let ?w = "?u\<lparr>pu_sent_pool := pool, pu_cnt_send := pu_cnt_send ?u - 1\<rparr>"
  have "dest_ok ?n (int i) (fst (snd (pool ! j))) \<and> hops_ok h (snd (snd (pool ! j)))" if j: "j < nat (pu_cnt_send ?u - 1)" for j
  proof -
    have ok: "dest_ok ?n (int i) (fst (snd (pu_sent_pool ?u ! l))) \<and> hops_ok h (snd (snd (pu_sent_pool ?u ! l)))"
      if "l < nat (pu_cnt_send ?u)" for l using n(6) that unfolding pu_ok_def by blast
    have "dest_ok ?n (int i) (fst (snd (pu_sent_pool ?u ! j))) \<and> hops_ok h (snd (snd (pu_sent_pool ?u ! j)))"
      "dest_ok ?n (int i) (fst (snd (pu_sent_pool ?u ! nat (pu_cnt_send ?u - 1)))) \<and> hops_ok h (snd (snd (pu_sent_pool ?u ! nat (pu_cnt_send ?u - 1))))"
      using j assms(3,4) by (auto intro!: ok)
    then show ?thesis using j assms(3,4) u by (simp add: pool_def nth_list_update)
  qed
  then have w: "pu_ok ?n h h (int i) ?w" using n(6) assms(3,4) by (auto simp: pu_ok_def pool_def)
  let ?s = "s\<lparr>ps_users := (ps_users s)[i := ?w]\<rparr>" and ?drop = "uint (rnd (ps_draws s + c) mod 100) \<le> prob (pu_cnt_send ?u) cnt"
  have s': "ps_inv h ?s" using assms(1,2) w by (auto simp: ps_inv_def nth_list_update)
  have "send_msg prob rnd k i s = map_option (\<lambda>us. s\<lparr>ps_users := us, ps_draws := ps_draws s + c + 1\<rparr>)
      (deliver v src dest cnt ?drop ((ps_users s)[i := ?w]))"
    using assms(3,4) u t v(1) hops by (cases "deliver v src dest cnt ?drop ((ps_users s)[i := ?w])")
      (simp_all add: send_msg_def arr_get_def arr_set_def pool_def Let_def)
  then show ?thesis
    using deliver_ok [OF s', of v dest cnt src ?drop "ps_draws s + c + 1"] v(2,3) d by (auto simp: returns_def)
qed

lemma pool_start_inv:
  assumes "2 \<le> n" "n \<le> 2 ^ 30" "2 \<le> rng" "rng < 2 ^ 31"
  shows "ps_inv 0 (pool_sim_start n rng)"
  using assms by (simp add: ps_inv_def pool_sim_start_def pu_ok_def init_pool_user_def)

subsection \<open>Property\<close>

text \<open>
  C40. The pool simulator never names a user or a pool entry that does not exist, except that pools overflow: a
  turn of a user in a consistent state ends in a consistent state exactly when what the pool holds, what
  the user generates and what it has received without the mark to drop it are at most a thousand. A turn adds at
  most one to the hops of a message; the state before may be any in which no message has made \<open>2^31 - 2\<close> hops.
\<close>

theorem pool_turn_safe_iff:
  assumes "ps_inv h s" "i < length (ps_users s)" "0 \<le> h" "h + 2 < 2 ^ 31"
  shows "returns (pool_user_run prob rnd i s) (ps_inv (h + 1)) \<longleftrightarrow>
    pu_cnt_send (ps_users s ! i) + of_bool (fresh (ps_cnt_users s) (int i) (rnd (ps_draws s))) + int (undropped (pu_recv_pool (ps_users s ! i)))
      \<le> int sent_pool_size"
proof -
  let ?n = "ps_cnt_users s" and ?u = "ps_users s ! i" and ?f = "of_bool (fresh (ps_cnt_users s) (int i) (rnd (ps_draws s))) :: int"
  have u0: "pu_ok ?n h h (int i) ?u" "int i < ?n" using assms by (auto simp: ps_inv_def)
  have u: "pu_ok ?n (h + 1) h (int i) ?u" using pu_ok_mono [OF u0(1)] by simp
  have g: "if pu_cnt_send ?u + ?f \<le> int sent_pool_size
    then returns (generate_msg ?n (rnd (ps_draws s)) ?u) (\<lambda>u'. pu_ok ?n (h + 1) h (int i) u' \<and> pu_cnt_send u' = pu_cnt_send ?u + ?f \<and> pu_recv_pool u' = pu_recv_pool ?u)
    else generate_msg ?n (rnd (ps_draws s)) ?u = None"
    using assms(3) by (intro generate_cases [OF u _ u0(2)]) simp_all
  show ?thesis
  proof (cases "pu_cnt_send ?u + ?f \<le> int sent_pool_size")
    case False then show ?thesis using g by (simp add: pool_user_run_def returns_def)
  next
    case True
    then obtain u1 where u1: "generate_msg ?n (rnd (ps_draws s)) ?u = Some u1" "pu_ok ?n (h + 1) h (int i) u1"
        "pu_cnt_send u1 = pu_cnt_send ?u + ?f" "pu_recv_pool u1 = pu_recv_pool ?u"
      using g by (auto simp: returns_def)
    have "pu_ok ?n (h + 1) h (int i) (u1\<lparr>pu_recv_pool := pu_recv_pool u1\<rparr>)" "h + 1 < 2 ^ 31" using u1(2) assms(4) by simp_all
    note r = recv_all_cases [OF this]
    show ?thesis
    proof (cases "pu_cnt_send u1 + int (undropped (pu_recv_pool u1)) \<le> int sent_pool_size")
      case False then show ?thesis using r u1 by (simp add: pool_user_run_def returns_def)
    next
      case fits: True
      then obtain u2 where u2: "recv_all (pu_recv_pool u1) u1 = Some u2" "pu_ok ?n (h + 1) h (int i) u2"
        using r by (auto simp: returns_def)
      let ?s = "s\<lparr>ps_users := (ps_users s)[i := u2], ps_draws := ps_draws s + 2\<rparr>"
      let ?k = "sint (rnd (ps_draws s + 1) mod word_of_int (max 200 (pu_cnt_send u2)))"
      have s': "ps_inv (h + 1) ?s" "i < length (ps_users ?s)"
        using assms(1,2) pu_ok_mono [OF u2(2), of "h + 1" "h + 1"] pu_ok_mono [of ?n h h _ _ "h + 1" "h + 1"]
        by (auto simp: ps_inv_def nth_list_update)
      have "max 200 (pu_cnt_send u2) < 2 ^ 31" using u2(2) by (simp add: pu_ok_def sent_pool_size_def)
      then have "?k = uint (rnd (ps_draws s + 1)) mod max 200 (pu_cnt_send u2)"
        using word_mod_small [of "uint (rnd (ps_draws s + 1))" "max 200 (pu_cnt_send u2)"] uint_lt2p [of "rnd (ps_draws s + 1)"] by simp
      then have k: "0 \<le> ?k" by simp
      have "returns (if ?k \<ge> pu_cnt_send u2 then send_dummy rnd i ?s else send_msg prob rnd ?k i ?s) (ps_inv (h + 1))"
        using send_dummy_ok [OF s'] send_msg_ok [OF s' k] assms(2-4) by simp
      then show ?thesis using u1 u2 fits by (simp add: pool_user_run_def Let_def split: if_splits)
    qed
  qed
qed

theorem pool_turn_safe_iff_witness:
  "returns (pool_user_run (\<lambda>_ _. 0) (\<lambda>_. 9) 1 (pool_sim_start 100 10)) (ps_inv (0 + 1)) \<longleftrightarrow>
    pu_cnt_send (ps_users (pool_sim_start 100 10) ! 1) + of_bool (fresh (ps_cnt_users (pool_sim_start 100 10)) (int 1) ((\<lambda>_. 9) (ps_draws (pool_sim_start 100 10)))) +
      int (undropped (pu_recv_pool (ps_users (pool_sim_start 100 10) ! 1))) \<le> int sent_pool_size"
  by (rule pool_turn_safe_iff) (simp_all add: pool_start_inv, simp add: pool_sim_start_def)

end
