(* ===== verification/Crc.thy ===== *)
theory Crc
  imports Bytes
begin

text \<open>
  CRC32C of SCTP packets (src/src/packet/checksum.c): the table-driven loop and, as its specification, the
  division by the polynomial one bit at a time.
\<close>

subsection \<open>The code\<close>

definition crc_c :: "u32 list" where
  "crc_c =
    [0x00000000, 0xf26b8303, 0xe13b70f7, 0x1350f3f4, 0xc79a971f, 0x35f1141c, 0x26a1e7e8, 0xd4ca64eb,
     0x8ad958cf, 0x78b2dbcc, 0x6be22838, 0x9989ab3b, 0x4d43cfd0, 0xbf284cd3, 0xac78bf27, 0x5e133c24,
     0x105ec76f, 0xe235446c, 0xf165b798, 0x030e349b, 0xd7c45070, 0x25afd373, 0x36ff2087, 0xc494a384,
     0x9a879fa0, 0x68ec1ca3, 0x7bbcef57, 0x89d76c54, 0x5d1d08bf, 0xaf768bbc, 0xbc267848, 0x4e4dfb4b,
     0x20bd8ede, 0xd2d60ddd, 0xc186fe29, 0x33ed7d2a, 0xe72719c1, 0x154c9ac2, 0x061c6936, 0xf477ea35,
     0xaa64d611, 0x580f5512, 0x4b5fa6e6, 0xb93425e5, 0x6dfe410e, 0x9f95c20d, 0x8cc531f9, 0x7eaeb2fa,
     0x30e349b1, 0xc288cab2, 0xd1d83946, 0x23b3ba45, 0xf779deae, 0x05125dad, 0x1642ae59, 0xe4292d5a,
     0xba3a117e, 0x4851927d, 0x5b016189, 0xa96ae28a, 0x7da08661, 0x8fcb0562, 0x9c9bf696, 0x6ef07595,
     0x417b1dbc, 0xb3109ebf, 0xa0406d4b, 0x522bee48, 0x86e18aa3, 0x748a09a0, 0x67dafa54, 0x95b17957,
     0xcba24573, 0x39c9c670, 0x2a993584, 0xd8f2b687, 0x0c38d26c, 0xfe53516f, 0xed03a29b, 0x1f682198,
     0x5125dad3, 0xa34e59d0, 0xb01eaa24, 0x42752927, 0x96bf4dcc, 0x64d4cecf, 0x77843d3b, 0x85efbe38,
     0xdbfc821c, 0x2997011f, 0x3ac7f2eb, 0xc8ac71e8, 0x1c661503, 0xee0d9600, 0xfd5d65f4, 0x0f36e6f7,
     0x61c69362, 0x93ad1061, 0x80fde395, 0x72966096, 0xa65c047d, 0x5437877e, 0x4767748a, 0xb50cf789,
     0xeb1fcbad, 0x197448ae, 0x0a24bb5a, 0xf84f3859, 0x2c855cb2, 0xdeeedfb1, 0xcdbe2c45, 0x3fd5af46,
     0x7198540d, 0x83f3d70e, 0x90a324fa, 0x62c8a7f9, 0xb602c312, 0x44694011, 0x5739b3e5, 0xa55230e6,
     0xfb410cc2, 0x092a8fc1, 0x1a7a7c35, 0xe811ff36, 0x3cdb9bdd, 0xceb018de, 0xdde0eb2a, 0x2f8b6829,
     0x82f63b78, 0x709db87b, 0x63cd4b8f, 0x91a6c88c, 0x456cac67, 0xb7072f64, 0xa457dc90, 0x563c5f93,
     0x082f63b7, 0xfa44e0b4, 0xe9141340, 0x1b7f9043, 0xcfb5f4a8, 0x3dde77ab, 0x2e8e845f, 0xdce5075c,
     0x92a8fc17, 0x60c37f14, 0x73938ce0, 0x81f80fe3, 0x55326b08, 0xa759e80b, 0xb4091bff, 0x466298fc,
     0x1871a4d8, 0xea1a27db, 0xf94ad42f, 0x0b21572c, 0xdfeb33c7, 0x2d80b0c4, 0x3ed04330, 0xccbbc033,
     0xa24bb5a6, 0x502036a5, 0x4370c551, 0xb11b4652, 0x65d122b9, 0x97baa1ba, 0x84ea524e, 0x7681d14d,
     0x2892ed69, 0xdaf96e6a, 0xc9a99d9e, 0x3bc21e9d, 0xef087a76, 0x1d63f975, 0x0e330a81, 0xfc588982,
     0xb21572c9, 0x407ef1ca, 0x532e023e, 0xa145813d, 0x758fe5d6, 0x87e466d5, 0x94b49521, 0x66df1622,
     0x38cc2a06, 0xcaa7a905, 0xd9f75af1, 0x2b9cd9f2, 0xff56bd19, 0x0d3d3e1a, 0x1e6dcdee, 0xec064eed,
     0xc38d26c4, 0x31e6a5c7, 0x22b65633, 0xd0ddd530, 0x0417b1db, 0xf67c32d8, 0xe52cc12c, 0x1747422f,
     0x49547e0b, 0xbb3ffd08, 0xa86f0efc, 0x5a048dff, 0x8ecee914, 0x7ca56a17, 0x6ff599e3, 0x9d9e1ae0,
     0xd3d3e1ab, 0x21b862a8, 0x32e8915c, 0xc083125f, 0x144976b4, 0xe622f5b7, 0xf5720643, 0x07198540,
     0x590ab964, 0xab613a67, 0xb831c993, 0x4a5a4a90, 0x9e902e7b, 0x6cfbad78, 0x7fab5e8c, 0x8dc0dd8f,
     0xe330a81a, 0x115b2b19, 0x020bd8ed, 0xf0605bee, 0x24aa3f05, 0xd6c1bc06, 0xc5914ff2, 0x37faccf1,
     0x69e9f0d5, 0x9b8273d6, 0x88d28022, 0x7ab90321, 0xae7367ca, 0x5c18e4c9, 0x4f48173d, 0xbd23943e,
     0xf36e6f75, 0x0105ec76, 0x12551f82, 0xe03e9c81, 0x34f4f86a, 0xc69f7b69, 0xd5cf889d, 0x27a40b9e,
     0x79b737ba, 0x8bdcb4b9, 0x988c474d, 0x6ae7c44e, 0xbe2da0a5, 0x4c4623a6, 0x5f16d052, 0xad7d5351]"

definition CRC32C :: "u32 \<Rightarrow> byte \<Rightarrow> u32" where
  "CRC32C c d = drop_bit 8 c XOR crc_c ! unat ((c XOR ucast d) AND 0xff)"

text \<open>The bytes of the result are reversed by the shifts and reversed again by \<open>htonl\<close>.\<close>

definition sctp_crc32c :: "byte list \<Rightarrow> u32" where
  "sctp_crc32c packet = bswap32 (bswap32 (NOT (foldl CRC32C (NOT 0) packet)))"

subsection \<open>Division bit by bit\<close>

definition crc_poly :: u32 where "crc_poly = 0x82f63b78"

definition crc_bit :: "u32 \<Rightarrow> u32" where
  "crc_bit c = (if bit c 0 then drop_bit 1 c XOR crc_poly else drop_bit 1 c)"

definition crc_byte :: "u32 \<Rightarrow> byte \<Rightarrow> u32" where
  "crc_byte c d = (crc_bit ^^ 8) (c XOR ucast d)"

lemma crc_bit_xor: "crc_bit (a XOR b) = crc_bit a XOR crc_bit b"
  by (rule bit_word_eqI) (auto simp: crc_bit_def bit_simps)

lemma crc_bits_xor: "(crc_bit ^^ n) (a XOR b) = (crc_bit ^^ n) a XOR (crc_bit ^^ n) b"
  by (induction n arbitrary: a b) (simp_all add: crc_bit_xor)

text \<open>The table is linear: it is made of the entries at the powers of two.\<close>

definition xor_double :: "u32 list \<Rightarrow> u32 \<Rightarrow> u32 list" where
  "xor_double xs t = xs @ map (\<lambda>x. x XOR t) xs"

lemma of_nat_add_xor: "n < 2 ^ k \<Longrightarrow> (of_nat (n + 2 ^ k) :: u32) = of_nat n XOR of_nat (2 ^ k)"
proof -
  assume n: "n < 2 ^ k"
  have "n + 2 ^ k = n XOR 2 ^ k"
  proof -
    have "n AND 2 ^ k = 0"
    proof (rule bit_eqI)
      fix i have "bit n i \<Longrightarrow> i < k" using n by (metis bit_take_bit_iff take_bit_nat_eq_self)
      then show "bit (n AND 2 ^ k) i \<longleftrightarrow> bit (0 :: nat) i" by (auto simp: bit_simps)
    qed
    then show ?thesis by (rule disjunctive_add_eq_xor)
  qed
  then show ?thesis by (metis of_nat_xor_eq)
qed

lemma upt_double: "[0..<m + m] = [0..<m] @ map (\<lambda>n. n + m) [0..<m]"
  using upt_add_eq_append [of 0 m m] by (simp add: map_add_upt)

lemma linear_double:
  fixes f :: "u32 \<Rightarrow> u32"
  assumes "\<And>a b. f (a XOR b) = f a XOR f b"
  shows "map (\<lambda>n. f (of_nat n)) [0..<2 ^ Suc k] = xor_double (map (\<lambda>n. f (of_nat n)) [0..<2 ^ k]) (f (of_nat (2 ^ k)))"
proof -
  have "[0..<2 ^ Suc k] = [0..<2 ^ k] @ map (\<lambda>n. n + 2 ^ k) [0..<2 ^ k]"
    unfolding power_Suc mult_2 by (rule upt_double)
  then have "map (\<lambda>n. f (of_nat n)) [0..<2 ^ Suc k] =
      map (\<lambda>n. f (of_nat n)) [0..<2 ^ k] @ map (\<lambda>n. f (of_nat (n + 2 ^ k))) [0..<2 ^ k]" by (simp only: map_append map_map comp_def)
  also have "map (\<lambda>n. f (of_nat (n + 2 ^ k))) [0..<2 ^ k] = map (\<lambda>n. f (of_nat n) XOR f (of_nat (2 ^ k))) [0..<2 ^ k]"
    using of_nat_add_xor [of _ k] assms by (intro map_cong) (simp_all only: set_upt atLeastLessThan_iff)
  finally show ?thesis by (simp only: xor_double_def map_map comp_def)
qed

lemmas crc_double = linear_double [of "crc_bit ^^ 8", OF crc_bits_xor]

lemma crc_powers:
  "(crc_bit ^^ 8) 1 = 0xf26b8303"
  "(crc_bit ^^ 8) 2 = 0xe13b70f7"
  "(crc_bit ^^ 8) 4 = 0xc79a971f"
  "(crc_bit ^^ 8) 8 = 0x8ad958cf"
  "(crc_bit ^^ 8) 16 = 0x105ec76f"
  "(crc_bit ^^ 8) 32 = 0x20bd8ede"
  "(crc_bit ^^ 8) 64 = 0x417b1dbc"
  "(crc_bit ^^ 8) 128 = 0x82f63b78"
  by code_simp+

lemma crc_c_doubles: "crc_c = xor_double (xor_double (xor_double (xor_double (xor_double (xor_double (xor_double (xor_double [0] 0xf26b8303) 0xe13b70f7) 0xc79a971f) 0x8ad958cf) 0x105ec76f) 0x20bd8ede) 0x417b1dbc) 0x82f63b78"
  by code_simp

lemma crc_table: "crc_c = map (\<lambda>n. (crc_bit ^^ 8) (of_nat n)) [0..<256]"
proof -
  let ?T = "\<lambda>k. map (\<lambda>n. (crc_bit ^^ 8) (of_nat n)) [0..<2 ^ k]"
  have "?T 0 = [0]" by code_simp
  then have "?T (Suc (Suc (Suc (Suc (Suc (Suc (Suc (Suc 0)))))))) = crc_c"
    unfolding crc_double crc_c_doubles by (simp add: crc_powers)
  then show ?thesis by simp
qed

lemma crc_bits_shift:
  assumes "take_bit n a = 0"
  shows "(crc_bit ^^ n) a = drop_bit n a"
  using assms
proof (induction n arbitrary: a)
  case (Suc n)
  have z: "\<not> bit a i" if "i < Suc n" for i using Suc.prems that by (metis bit_0_eq bit_take_bit_iff bot_apply bot_bool_def)
  then have "crc_bit a = drop_bit 1 a" using z [of 0] by (simp add: crc_bit_def)
  moreover have "take_bit n (drop_bit 1 a) = 0" by (rule bit_word_eqI) (use z in \<open>auto simp: bit_simps\<close>)
  ultimately show ?case using Suc.IH [of "drop_bit 1 a"] by (simp only: funpow_Suc_right comp_apply drop_bit_drop_bit) simp
qed simp

lemma crc_step: "CRC32C c d = crc_byte c d"
proof -
  let ?x = "c XOR ucast d" and ?l = "(c XOR ucast d) AND 0xff"
  have l8: "take_bit 8 ?x = ?l" by (simp add: take_bit_eq_mask mask_eq_decr_exp)
  then have "unat ?l = take_bit 8 (unat ?x)" by (metis unsigned_take_bit_eq)
  then have l: "unat ?l < 256" by (simp add: take_bit_eq_mod)
  then have t: "crc_c ! unat ?l = (crc_bit ^^ 8) ?l" unfolding crc_table by simp
  let ?h = "push_bit 8 (drop_bit 8 ?x)"
  have x: "?x = ?h XOR take_bit 8 ?x" by (rule bit_word_eqI) (auto simp: bit_simps)
  have "take_bit 8 ?h = 0" by (rule bit_word_eqI) (auto simp: bit_simps)
  then have "(crc_bit ^^ 8) ?h = drop_bit 8 ?h" by (rule crc_bits_shift)
  also have "\<dots> = drop_bit 8 c" by (rule bit_word_eqI) (auto simp: bit_simps dest: bit_imp_le_length)
  finally have h: "(crc_bit ^^ 8) ?h = drop_bit 8 c" .
  have "(crc_bit ^^ 8) ?x = (crc_bit ^^ 8) ?h XOR (crc_bit ^^ 8) (take_bit 8 ?x)" by (subst x) (rule crc_bits_xor)
  then show ?thesis unfolding CRC32C_def crc_byte_def t h l8 by (rule sym)
qed

text \<open>
  C35. The table-driven CRC32C of SCTP packets is the remainder of the division by the Castagnoli polynomial
  one bit at a time, starting from all ones and complemented.
\<close>

theorem crc32c_bitwise: "sctp_crc32c packet = NOT (foldl crc_byte (NOT 0) packet)"
proof -
  have "CRC32C = crc_byte" by (intro ext) (rule crc_step)
  then show ?thesis by (simp only: sctp_crc32c_def bswap32_bswap32)
qed

end
