(* ===== verification/RouteTable.thy ===== *)
theory RouteTable
  imports Numerals Bytes
begin

text \<open>
  The routing table of the tunnel on Linux (src/src/utils/RouteTable.cpp, RouteTable.h): what is read from
  \<open>/proc/net/route\<close> and from a file of networks, and the entries handed to the kernel with \<open>ioctl\<close>.
  An address is the number with its first byte highest. The kernel's answer is an argument. \<open>None\<close> is undefined
  behaviour.
\<close>

subsection \<open>Addresses and numbers\<close>

definition NUL :: char where "NUL = CHR 0x00"

definition octet :: "string \<Rightarrow> nat option" where
  "octet s =
     (if s \<noteq> [] \<and> list_all is_digit s \<and> (length s = 1 \<or> hd s \<noteq> CHR ''0'') \<and> digits_val 0 s \<le> 255
      then Some (digits_val 0 s) else None)"

definition inet_pton :: "string \<Rightarrow> u32 option" where
  "inet_pton s =
     (case map octet (split_at CHR ''.'' s) of
        [Some a, Some b, Some c, Some d] \<Rightarrow> Some (of_nat (((a * 256 + b) * 256 + c) * 256 + d))
      | _ \<Rightarrow> None)"

definition inet_ntoa :: "u32 \<Rightarrow> string" where
  "inet_ntoa x =
     (let n = unat x
      in to_string (n div 2 ^ 24) @ ''.'' @ to_string (n div 2 ^ 16 mod 256) @ ''.'' @ to_string (n div 2 ^ 8 mod 256) @ ''.'' @
         to_string (n mod 256))"

text \<open>\<open>getline\<close> into a buffer of \<open>n\<close> bytes; it fails on a line that does not fit.\<close>

definition getline :: "nat \<Rightarrow> string \<Rightarrow> (string \<times> string) option" where
  "getline n s =
     (let l = takeWhile (\<lambda>c. c \<noteq> CHR 0x0A) s
      in if s = [] \<or> length l > n - 1 then None else Some (l, drop (length l + 1) s))"

lemma getline_shorter: "getline n s = Some (l, s') \<Longrightarrow> length s' < length s"
proof -
  assume a: "getline n s = Some (l, s')"
  then have "s \<noteq> []" "s' = drop (length l + 1) s" by (auto simp: getline_def Let_def split: if_splits)
  then show ?thesis by (cases s) auto
qed

subsection \<open>Rows and entries\<close>

record route_row =
  row_dst :: string
  row_netmask :: string
  row_netmask_sharp :: int
  row_gateway :: string
  row_dev :: string

definition RouteRow :: route_row where
  "RouteRow = \<lparr>row_dst = [], row_netmask = [], row_netmask_sharp = -1, row_gateway = [], row_dev = []\<rparr>"

text \<open>What is set of the kernel's \<open>struct rtentry\<close>; the flags are those of \<open>net/route.h\<close>.\<close>

definition RTF_UP :: u32 where "RTF_UP = 1"
definition RTF_GATEWAY :: u32 where "RTF_GATEWAY = 2"
definition RTF_HOST :: u32 where "RTF_HOST = 4"

record rtentry =
  rt_dst :: u32
  rt_gateway :: u32
  rt_genmask :: u32
  rt_flags :: u32
  rt_metric :: nat
  rt_dev :: string

datatype route_op = AddRoute rtentry | DelRoute rtentry

record route_table =
  rt_modified :: bool
  rt_tunnel_gateway :: string
  rt_default_gateway :: string
  rt_default_dev :: string

definition RouteTable0 :: route_table where
  "RouteTable0 = \<lparr>rt_modified = False, rt_tunnel_gateway = [], rt_default_gateway = [], rt_default_dev = []\<rparr>"

text \<open>An address that does not parse stays zero: \<open>inet_pton\<close> returns 0 and not a negative number.\<close>

definition addr_of :: "string \<Rightarrow> u32" where
  "addr_of s = (case inet_pton s of Some a \<Rightarrow> a | None \<Rightarrow> 0)"

fun netmask_loop :: "nat \<Rightarrow> nat \<Rightarrow> u32 \<Rightarrow> u32 option" where
  "netmask_loop i 0 m = Some m"
| "netmask_loop i (Suc k) m = (if i > 31 then None else netmask_loop (i + 1) k (m OR push_bit (31 - i) 1))"

definition netmask_of :: "route_row \<Rightarrow> u32 option" where
  "netmask_of row =
     (if row_netmask_sharp row = -1 then Some (addr_of (row_netmask row))
      else netmask_loop 0 (nat (row_netmask_sharp row)) 0)"

definition add_route_row :: "route_row \<Rightarrow> bool \<Rightarrow> route_op option" where
  "add_route_row row host = do {
     m \<leftarrow> netmask_of row;
     Some (AddRoute \<lparr>rt_dst = addr_of (row_dst row), rt_gateway = addr_of (row_gateway row), rt_genmask = m,
       rt_flags = (if host then RTF_UP OR RTF_GATEWAY OR RTF_HOST else RTF_UP OR RTF_GATEWAY), rt_metric = 100, rt_dev = row_dev row\<rparr>) }"

definition del_route_row :: "route_row \<Rightarrow> route_op option" where
  "del_route_row row = do {
     m \<leftarrow> netmask_of row;
     Some (DelRoute \<lparr>rt_dst = addr_of (row_dst row), rt_gateway = addr_of (row_gateway row), rt_genmask = m,
       rt_flags = 0, rt_metric = 0, rt_dev = row_dev row\<rparr>) }"

text \<open>What both return for the kernel's error number, 0 without an error: an existing route is no error.\<close>

definition ioctl_result :: "int \<Rightarrow> int" where
  "ioctl_result errno = (if errno = 0 \<or> errno = 17 then 0 else -1)"

definition set_default_as_tunnel :: "route_table \<Rightarrow> string \<Rightarrow> string \<Rightarrow> (route_table \<times> route_op list) option" where
  "set_default_as_tunnel t tunnel_name gateway =
     (let row = RouteRow\<lparr>row_dst := ''0.0.0.0'', row_netmask_sharp := 1, row_gateway := gateway, row_netmask := ''128.0.0.0'', row_dev := tunnel_name\<rparr>
      in do {
        a \<leftarrow> add_route_row row False;
        b \<leftarrow> add_route_row (row\<lparr>row_dst := ''128.0.0.0''\<rparr>) False;
        Some (t\<lparr>rt_tunnel_gateway := gateway\<rparr>, [a, b]) })"

subsection \<open>The default route\<close>

text \<open>One line of \<open>/proc/net/route\<close>: \<open>substr(0, last)\<close> leaves out the last character, and a field counts
  only when a tab ends it.\<close>

definition trim_line :: "string \<Rightarrow> string" where
  "trim_line s =
     (let r = dropWhile (\<lambda>c. c = CHR '' '') (rev s) in if r = [] then s else rev (tl r))"

definition tab_fields :: "string \<Rightarrow> string list" where
  "tab_fields s = filter (\<lambda>w. w \<noteq> []) (butlast (split_at CHR 0x09 s))"

function route_rows :: "string \<Rightarrow> route_row \<Rightarrow> (route_row list \<times> route_row) option" where
  "route_rows s row =
     (case getline 1500 s of
        None \<Rightarrow> Some ([], row)
      | Some (l, s') \<Rightarrow>
          let arr = tab_fields (trim_line l)
          in if length arr < 8 then None
             else let row' = row\<lparr>row_dev := arr ! 0, row_dst := arr ! 1, row_gateway := arr ! 2, row_netmask := arr ! 7\<rparr>
               in do {
                 (rows, r) \<leftarrow> route_rows s' row';
                 Some (row' # rows, r) })"
  by auto
termination by (relation "measure (\<lambda>(s, row). length s)") (auto dest: getline_shorter)

declare route_rows.simps [simp del]

text \<open>The numbers in the file are in the machine's order, so the first byte of the address is the lowest.\<close>

definition hex_addr :: "string \<Rightarrow> string" where
  "hex_addr s = inet_ntoa (bswap32 (word_of_int (strtol s 16)))"

definition get_default_route :: "string option \<Rightarrow> route_row option" where
  "get_default_route proc =
     (case proc of
        None \<Rightarrow> Some RouteRow
      | Some s \<Rightarrow> do {
          (rows, r) \<leftarrow> route_rows s RouteRow;
          Some (foldl (\<lambda>row itr. if row_dst itr = ''00000000''
                  then row\<lparr>row_dst := ''0.0.0.0'', row_dev := row_dev itr, row_gateway := hex_addr (row_gateway itr), row_netmask := hex_addr (row_netmask itr)\<rparr>
                  else row)
                (r\<lparr>row_dst := []\<rparr>) rows) })"

subsection \<open>A file of networks\<close>

text \<open>The buffer of 100 bytes keeps what earlier lines left behind the current one.\<close>

definition fill_buf :: "string \<Rightarrow> string \<Rightarrow> string" where
  "fill_buf buf l = l @ NUL # drop (length l + 1) buf"

definition c_str :: "string \<Rightarrow> nat \<Rightarrow> string option" where
  "c_str buf i = (if NUL \<in> set (drop i buf) then Some (takeWhile (\<lambda>c. c \<noteq> NUL) (drop i buf)) else None)"

fun slash_loop :: "nat \<Rightarrow> string \<Rightarrow> route_row \<Rightarrow> (string \<times> route_row) option" where
  "slash_loop 0 buf row = Some (buf, row)"
| "slash_loop (Suc k) buf row =
     (let i = 100 - Suc k
      in if buf ! i = CHR ''/''
         then do {
           let buf' = buf[i := NUL];
           dst \<leftarrow> c_str buf' 0;
           num \<leftarrow> c_str buf' (i + 1);
           slash_loop k buf' (row\<lparr>row_dst := dst, row_netmask_sharp := sint (word_of_int (strtol num 0) :: u32)\<rparr>) }
         else slash_loop k buf row)"

function chn_lines :: "(route_row \<Rightarrow> route_op option) \<Rightarrow> string \<Rightarrow> string \<Rightarrow> route_row \<Rightarrow> route_op list option" where
  "chn_lines f s buf row =
     (case getline 100 s of
        None \<Rightarrow> Some []
      | Some (l, s') \<Rightarrow> do {
          (buf', row') \<leftarrow> slash_loop 100 (fill_buf buf l) row;
          a \<leftarrow> f row';
          as \<leftarrow> chn_lines f s' buf' row';
          Some (a # as) })"
  by auto
termination by (relation "measure (\<lambda>(f, s, buf, row). length s)") (auto dest: getline_shorter)

declare chn_lines.simps [simp del]

text \<open>
  \<open>file\<close> is \<open>None\<close> for a file that cannot be opened; \<open>buf\<close> is what the buffer on the stack holds before.
  The results are the return value, the object and the requests to the kernel.
\<close>

definition set_chnroute ::
  "string option \<Rightarrow> string \<Rightarrow> route_table \<Rightarrow> string \<Rightarrow> string option \<Rightarrow> string \<Rightarrow> (int \<times> route_table \<times> route_op list) option" where
  "set_chnroute proc buf t filename content remote_ip = do {
     r \<leftarrow> get_default_route proc;
     let row = r\<lparr>row_dst := remote_ip, row_netmask := ''255.255.255.255'', row_netmask_sharp := 32\<rparr>;
     a \<leftarrow> add_route_row row True;
     let t' = t\<lparr>rt_default_gateway := row_gateway row, rt_default_dev := row_dev row, rt_modified := True\<rparr>;
     if filename = [] then Some (0, t', [a])
     else case content of
       None \<Rightarrow> Some (-1, t', [a])
     | Some s \<Rightarrow> do {
         as \<leftarrow> chn_lines (\<lambda>row. add_route_row row False) s buf row;
         Some (0, t', a # as) } }"

definition delete_chnroute ::
  "string \<Rightarrow> route_table \<Rightarrow> string \<Rightarrow> string option \<Rightarrow> (int \<times> route_table \<times> route_op list) option" where
  "delete_chnroute buf t filename content =
     (if \<not> rt_modified t \<or> filename = [] then Some (0, t, [])
      else let row = RouteRow\<lparr>row_dst := ''0.0.0.0'', row_netmask_sharp := 1, row_gateway := rt_tunnel_gateway t, row_dev := rt_default_dev t, row_netmask := ''128.0.0.0''\<rparr>
        in do {
          a \<leftarrow> del_route_row row;
          b \<leftarrow> del_route_row (row\<lparr>row_dst := ''128.0.0.0''\<rparr>);
          let row' = row\<lparr>row_dst := ''128.0.0.0'', row_gateway := rt_default_gateway t\<rparr>;
          case content of
            None \<Rightarrow> Some (-1, t, [a, b])
          | Some s \<Rightarrow> do {
              as \<leftarrow> chn_lines del_route_row s buf row';
              Some (0, t\<lparr>rt_modified := False\<rparr>, a # b # as) } })"

subsection \<open>Masks\<close>

lemma netmask_loop_bits:
  assumes "i + k \<le> 32" "m = NOT (mask (32 - i))"
  shows "netmask_loop i k m = Some (NOT (mask (32 - (i + k))))"
  using assms
proof (induction k arbitrary: i m)
  case (Suc k)
  have "m OR push_bit (31 - i) 1 = NOT (mask (32 - Suc i))"
    using Suc.prems by (intro bit_word_eqI) (auto simp: bit_simps)
  then have "netmask_loop (Suc i) k (m OR push_bit (31 - i) 1) = Some (NOT (mask (32 - (Suc i + k))))"
    using Suc.prems(1) by (intro Suc.IH) simp_all
  then show ?case using Suc.prems(1) by simp
qed simp

lemma netmask_prefix: "n \<le> 32 \<Longrightarrow> netmask_loop 0 n 0 = Some (NOT (mask (32 - n)))"
proof -
  assume "n \<le> 32"
  moreover have "(0 :: u32) = NOT (mask (32 - 0))" by (rule bit_word_eqI) (simp add: bit_simps)
  ultimately show ?thesis using netmask_loop_bits [of 0 n "0"] by simp
qed

lemma netmask_too_long: "i \<le> 32 \<Longrightarrow> 32 < i + k \<Longrightarrow> netmask_loop i k m = None"
  by (induction k arbitrary: i m) auto

text \<open>What an entry matches.\<close>

definition matches :: "rtentry \<Rightarrow> u32 \<Rightarrow> bool" where
  "matches e a \<longleftrightarrow> a AND rt_genmask e = rt_dst e"

lemma and_one_bit: "(a :: u32) AND push_bit k 1 = (if bit a k then push_bit k 1 else 0)"
  by (rule bit_word_eqI) (auto simp: bit_simps)

lemma top_bit: "(a :: u32) AND 0x80000000 = (if bit a 31 then 0x80000000 else 0)"
  using and_one_bit [of a 31] by simp

text \<open>
  Sending everything through the tunnel: the two entries that are added, both for the tunnel's device and
  gateway, halve the addresses. Every address matches exactly one of them, with one bit, so that they are
  preferred to a default route and every longer prefix is preferred to them.
\<close>

theorem tunnel_takes_default:
  "returns (set_default_as_tunnel t dev gateway) (\<lambda>(t', ops). rt_tunnel_gateway t' = gateway \<and>
    (\<exists>e1 e2. ops = [AddRoute e1, AddRoute e2] \<and> (\<forall>a. matches e1 a \<noteq> matches e2 a) \<and>
      rt_genmask e1 = NOT (mask 31) \<and> rt_genmask e2 = NOT (mask 31) \<and>
      rt_gateway e1 = addr_of gateway \<and> rt_gateway e2 = addr_of gateway \<and> rt_dev e1 = dev \<and> rt_dev e2 = dev))"
proof -
  have a: "addr_of ''0.0.0.0'' = 0" "addr_of ''128.0.0.0'' = 0x80000000"
    by (simp_all add: addr_of_def inet_pton_def octet_def digits_val_def digit_val_def is_digit_def)
  have m: "NOT (mask 31) = (0x80000000 :: u32)" by code_simp
  have n: "netmask_loop 0 (Suc 0) 0 = Some 0x80000000" using netmask_prefix [of 1] m by simp
  show ?thesis
    by (simp add: set_default_as_tunnel_def add_route_row_def netmask_of_def a m n matches_def top_bit del: netmask_loop.simps)
qed

subsection \<open>Addresses\<close>

lemma to_string_no_char: "\<not> is_digit c \<Longrightarrow> c \<notin> set (to_string n)"
  using to_string_digits [of n] by (auto simp: list_all_iff)

lemma octet_to_string: "n \<le> 255 \<Longrightarrow> octet (to_string n) = Some n"
proof -
  assume n: "n \<le> 255"
  have "length (to_string n) = 1 \<or> hd (to_string n) \<noteq> CHR ''0''"
    using hd_to_string [of n] by (cases "n = 0") (simp_all add: to_string.simps [of 0])
  then show ?thesis using n by (simp add: octet_def to_string_digits to_string_nonempty digits_val_to_string)
qed

text \<open>An address that has been printed is read back as the same address.\<close>

theorem inet_roundtrip: "inet_pton (inet_ntoa x) = Some x"
proof -
  let ?n = "unat x"
  have lt: "?n < 2 ^ 32" using unsigned_less [of x] by simp
  have dot: "CHR ''.'' \<notin> set (to_string k)" for k by (rule to_string_no_char) (simp add: is_digit_def)
  have s: "split_at CHR ''.'' (inet_ntoa x) =
      [to_string (?n div 2 ^ 24), to_string (?n div 2 ^ 16 mod 256), to_string (?n div 2 ^ 8 mod 256), to_string (?n mod 256)]"
    unfolding inet_ntoa_def Let_def using dot by (simp add: split_at_append split_at_none)
  have b: "?n div 2 ^ 24 \<le> 255" "?n div 2 ^ 16 mod 256 \<le> 255" "?n div 2 ^ 8 mod 256 \<le> 255" "?n mod 256 \<le> 255"
    using lt by (auto simp: less_Suc_eq_le [symmetric])
  have "((?n div 2 ^ 24 * 256 + ?n div 2 ^ 16 mod 256) * 256 + ?n div 2 ^ 8 mod 256) * 256 + ?n mod 256 = ?n"
  proof -
    have "?n div 2 ^ 24 = ?n div 2 ^ 16 div 256" "?n div 2 ^ 16 = ?n div 2 ^ 8 div 256" "?n div 2 ^ 8 = ?n div 256"
      by (simp_all add: div_mult2_eq [symmetric])
    then show ?thesis by (metis div_mult_mod_eq)
  qed
  then show ?thesis unfolding inet_pton_def s using b by (simp add: octet_to_string)
qed

subsection \<open>Networks from a file\<close>

definition net_line :: "string \<times> nat \<Rightarrow> string" where
  "net_line net = fst net @ CHR ''/'' # to_string (snd net)"

definition render_nets :: "(string \<times> nat) list \<Rightarrow> string" where
  "render_nets nets = concat (map (\<lambda>net. net_line net @ [CHR 0x0A]) nets)"

definition chn_net_ok :: "string \<times> nat \<Rightarrow> bool" where
  "chn_net_ok net \<longleftrightarrow> CHR ''/'' \<notin> set (fst net) \<and> NUL \<notin> set (fst net) \<and> CHR 0x0A \<notin> set (fst net) \<and> snd net \<le> 32 \<and>
     length (net_line net) \<le> 99"

text \<open>The buffer is not initialised; what it holds at first is an argument of the model. Here it has no slash.\<close>

definition clean_buf :: "string \<Rightarrow> bool" where
  "clean_buf buf \<longleftrightarrow> length buf = 100 \<and> CHR ''/'' \<notin> set buf"

lemma slash_skip:
  assumes "d \<le> k" "k \<le> 100" "\<And>i. 100 - k \<le> i \<Longrightarrow> i < 100 - k + d \<Longrightarrow> buf ! i \<noteq> CHR ''/''"
  shows "slash_loop k buf row = slash_loop (k - d) buf row"
  using assms
proof (induction d arbitrary: k)
  case (Suc d)
  then obtain k' where k: "k = Suc k'" by (cases k) auto
  have "buf ! (100 - Suc k') \<noteq> CHR ''/''" using Suc.prems k by simp
  then have "slash_loop k buf row = slash_loop k' buf row" using k by simp
  also have "\<dots> = slash_loop (k' - d) buf row" using Suc.prems k by (intro Suc.IH) auto
  finally show ?case using k by simp
qed simp

lemma digit_not_special: "is_digit c \<Longrightarrow> c \<noteq> CHR ''/'' \<and> c \<noteq> NUL \<and> c \<noteq> CHR 0x0A"
  by (auto simp: is_digit_def NUL_def)

lemma to_string_plain: "CHR ''/'' \<notin> set (to_string n)" "NUL \<notin> set (to_string n)" "CHR 0x0A \<notin> set (to_string n)"
  using to_string_no_char [of _ n] digit_not_special by auto

lemma takeWhile_until: "c \<notin> set w \<Longrightarrow> takeWhile (\<lambda>x. x \<noteq> c) (w @ c # r) = w"
  by (induction w) auto

lemma c_str_append: "NUL \<notin> set w \<Longrightarrow> c_str (p @ w @ NUL # r) (length p) = Some w"
  by (simp add: c_str_def takeWhile_until)

lemma slash_line:
  assumes "chn_net_ok net" "clean_buf buf"
  obtains buf' where "slash_loop 100 (fill_buf buf (net_line net)) row =
      Some (buf', row\<lparr>row_dst := fst net, row_netmask_sharp := int (snd net)\<rparr>)" "clean_buf buf'"
proof -
  let ?ip = "fst net" and ?num = "to_string (snd net)" and ?rest = "drop (length (net_line net) + 1) buf"
  let ?b = "fill_buf buf (net_line net)" and ?b' = "?ip @ NUL # ?num @ NUL # ?rest" and ?i = "length (fst net)"
  have b: "?b = ?ip @ CHR ''/'' # ?num @ NUL # ?rest" by (simp add: fill_buf_def net_line_def)
  have l: "length ?b = 100" "length ?b' = 100" "?i \<le> 98"
    using assms by (auto simp: fill_buf_def net_line_def chn_net_ok_def clean_buf_def)
  have clean: "clean_buf ?b'"
    using assms l(2) to_string_plain(1) by (auto simp: clean_buf_def chn_net_ok_def NUL_def dest: in_set_dropD)
  have "slash_loop 100 ?b row = slash_loop (100 - ?i) ?b row"
    using assms(1) l(3) unfolding b by (intro slash_skip) (auto simp: nth_append chn_net_ok_def dest: nth_mem)
  also have "100 - ?i = Suc (99 - ?i)" using l(3) by simp
  also have "slash_loop (Suc (99 - ?i)) ?b row =
      slash_loop (99 - ?i) ?b' (row\<lparr>row_dst := ?ip, row_netmask_sharp := int (snd net)\<rparr>)"
  proof -
    have idx: "100 - Suc (99 - ?i) = ?i" using l(3) by simp
    have upd: "?b[?i := NUL] = ?b'" "?b ! ?i = CHR ''/''" unfolding b by simp_all
    have dst: "c_str ?b' 0 = Some ?ip" using c_str_append [of ?ip "[]" "?num @ NUL # ?rest"] assms(1) by (simp add: chn_net_ok_def)
    have num: "c_str ?b' (?i + 1) = Some ?num"
      using c_str_append [of ?num "?ip @ [NUL]" ?rest] to_string_plain(2) by simp
    have sm: "sint (word_of_int x :: u32) = x" if "0 \<le> x" "x \<le> 32" for x
      using that by (simp add: signed_of_int signed_take_bit_int_eq_self)
    have st: "strtol ?num 0 = int (snd net)" using assms(1) by (intro strtol_to_string) (simp add: chn_net_ok_def)
    have v: "sint (word_of_int (strtol ?num 0) :: u32) = int (snd net)"
      unfolding st using assms(1) by (intro sm) (auto simp: chn_net_ok_def)
    show ?thesis unfolding slash_loop.simps Let_def idx upd(1) dst num using upd(2) v by simp
  qed
  also have "\<dots> = slash_loop (99 - ?i - (99 - ?i)) ?b' (row\<lparr>row_dst := ?ip, row_netmask_sharp := int (snd net)\<rparr>)"
  proof (rule slash_skip)
    fix j assume "j < 100 - (99 - ?i) + (99 - ?i)"
    then have "j < length ?b'" unfolding l(2) by simp
    then show "?b' ! j \<noteq> CHR ''/''" using clean by (metis clean_buf_def nth_mem)
  qed simp_all
  finally show ?thesis using that clean by simp
qed

lemma getline_net: "chn_net_ok net \<Longrightarrow> getline 100 (net_line net @ CHR 0x0A # s) = Some (net_line net, s)"
proof -
  assume ok: "chn_net_ok net"
  have "CHR 0x0A \<notin> set (net_line net)" using ok to_string_plain(3) by (auto simp: net_line_def chn_net_ok_def)
  then have "takeWhile (\<lambda>c. c \<noteq> CHR 0x0A) (net_line net @ CHR 0x0A # s) = net_line net" by (rule takeWhile_until)
  then show ?thesis using ok by (simp add: getline_def chn_net_ok_def)
qed

lemma chn_lines_nets:
  assumes "\<forall>net \<in> set nets. chn_net_ok net" "clean_buf buf"
  shows "chn_lines f (render_nets nets) buf row =
    those (map (\<lambda>net. f (row\<lparr>row_dst := fst net, row_netmask_sharp := int (snd net)\<rparr>)) nets)"
  using assms
proof (induction nets arbitrary: buf row)
  case Nil then show ?case by (simp add: chn_lines.simps [of f] render_nets_def getline_def)
next
  case (Cons net nets)
  let ?row = "row\<lparr>row_dst := fst net, row_netmask_sharp := int (snd net)\<rparr>"
  have r: "render_nets (net # nets) = net_line net @ CHR 0x0A # render_nets nets" by (simp add: render_nets_def)
  obtain buf' where b: "slash_loop 100 (fill_buf buf (net_line net)) row = Some (buf', ?row)" "clean_buf buf'"
    using slash_line [of net buf row] Cons.prems by auto
  have "chn_lines f (render_nets nets) buf' ?row = those (map (\<lambda>net. f (row\<lparr>row_dst := fst net, row_netmask_sharp := int (snd net)\<rparr>)) nets)"
    using Cons.IH [of buf' ?row] Cons.prems b(2) by simp
  then show ?case using Cons.prems b(1) unfolding r
    by (subst chn_lines.simps) (auto simp: getline_net map_conv_bind_option comp_def split: option.splits)
qed

text \<open>The entry for a network.\<close>

definition net_entry :: "route_row \<Rightarrow> u32 \<Rightarrow> nat \<Rightarrow> string \<times> nat \<Rightarrow> rtentry" where
  "net_entry r flags metric net = \<lparr>rt_dst = addr_of (fst net), rt_gateway = addr_of (row_gateway r), rt_genmask = NOT (mask (32 - snd net)),
     rt_flags = flags, rt_metric = metric, rt_dev = row_dev r\<rparr>"

text \<open>
  A slash that happens to be in the uninitialised part of the buffer behind the line is found too, and the mask is
  then taken from what follows it: the line \<open>1.0.1.0/24\<close> is read with the length 0.
\<close>

lemma stray_slash_misread:
  "map_option (\<lambda>(buf, row). (row_dst row, row_netmask_sharp row))
     (slash_loop 100 (fill_buf (replicate 50 NUL @ CHR ''/'' # replicate 49 NUL) (net_line (''1.0.1.0'', 24))) RouteRow) =
   Some (''1.0.1.0'', 0)"
  by code_simp

text \<open>
  C37. A file of networks is installed and removed completely, provided that the two uninitialised buffers of 100
  bytes on the stack into which the lines are read (one when setting, one when deleting) happen to hold no slash:
  for every file whose lines are an address, a slash and a length up to 32, with at most 99 characters, after the
  host route to the remote end an entry for each line in order is requested, with the mask of its length and the
  gateway and device of the default route; deleting with the same file, after the two entries of the tunnel,
  requests the removal of exactly these. Without the condition on the buffers the first line may be misread, as
  \<open>stray_slash_misread\<close> shows.
\<close>

theorem chnroute_roundtrip:
  assumes "\<forall>net \<in> set nets. chn_net_ok net" "clean_buf buf" "clean_buf buf2" "filename \<noteq> []" "get_default_route proc = Some r"
  shows "returns (set_chnroute proc buf t filename (Some (render_nets nets)) remote_ip) (\<lambda>(ret, t', ops). ret = 0 \<and>
    ops = AddRoute (net_entry r (RTF_UP OR RTF_GATEWAY OR RTF_HOST) 100 (remote_ip, 32)) # map (\<lambda>net. AddRoute (net_entry r (RTF_UP OR RTF_GATEWAY) 100 net)) nets \<and>
    returns (delete_chnroute buf2 t' filename (Some (render_nets nets))) (\<lambda>(ret, t'', ops). ret = 0 \<and> \<not> rt_modified t'' \<and>
      drop 2 ops = map (\<lambda>net. DelRoute (net_entry r 0 0 net)) nets))"
proof -
  have n: "those (map g nets) = Some (map h nets)" if "\<And>net. net \<in> set nets \<Longrightarrow> g net = Some (h net)" for g :: "string \<times> nat \<Rightarrow> route_op option" and h
    using that by (induction nets) auto
  have len: "snd net \<le> 32" if "net \<in> set nets" for net using assms(1) that by (auto simp: chn_net_ok_def)
  have m1: "netmask_loop 0 (Suc 0) 0 = Some (NOT (mask 31))" using netmask_prefix [of 1] by simp
  have m32: "netmask_loop 0 32 0 = Some (NOT (mask 0))" using netmask_prefix [of 32] by simp
  show ?thesis
    using assms(4,5) len
    by (simp add: set_chnroute_def delete_chnroute_def Let_def chn_lines_nets [OF assms(1,2)] chn_lines_nets [OF assms(1,3)]
        n [of _ "\<lambda>net. AddRoute (net_entry r (RTF_UP OR RTF_GATEWAY) 100 net)"] n [of _ "\<lambda>net. DelRoute (net_entry r 0 0 net)"]
        add_route_row_def del_route_row_def netmask_of_def netmask_prefix net_entry_def m1 m32 del: netmask_loop.simps)
qed

theorem chnroute_roundtrip_witness:
  "returns (set_chnroute None (replicate 100 NUL) RouteTable0 ''f'' (Some (render_nets [(''1.0.1.0'', 24), (''10.0.0.0'', 8)])) ''8.8.8.8'') (\<lambda>(ret, t', ops). ret = 0 \<and>
    ops = AddRoute (net_entry RouteRow (RTF_UP OR RTF_GATEWAY OR RTF_HOST) 100 (''8.8.8.8'', 32)) # map (\<lambda>net. AddRoute (net_entry RouteRow (RTF_UP OR RTF_GATEWAY) 100 net)) [(''1.0.1.0'', 24), (''10.0.0.0'', 8)] \<and>
    returns (delete_chnroute (replicate 100 NUL) t' ''f'' (Some (render_nets [(''1.0.1.0'', 24), (''10.0.0.0'', 8)]))) (\<lambda>(ret, t'', ops). ret = 0 \<and> \<not> rt_modified t'' \<and>
      drop 2 ops = map (\<lambda>net. DelRoute (net_entry RouteRow 0 0 net)) [(''1.0.1.0'', 24), (''10.0.0.0'', 8)]))"
  by (rule chnroute_roundtrip)
    (simp_all add: chn_net_ok_def net_line_def NUL_def to_string.simps clean_buf_def get_default_route_def)

end
