(* ===== verification/Tunnel.thy ===== *)
theory Tunnel
  imports RouteTable
begin

text \<open>
  The tunnel device on Linux (src/src/utils/SharpTunnel.cpp, SharpTunnel.h): opening it, giving it an address, and
  what it offers as a gateway to the routing table. \<open>os\<close> is the kernel: what it returns for a system call. An
  operation returns its value, the object and the system calls it has made in order. An address in a system
  call is the number with its first byte highest.
\<close>

subsection \<open>The code\<close>

datatype sys_call =
    OpenTun
  | TunSetIff string u32
  | CloseFd int
  | DgramSocket
  | SIOCSIFADDR string u32
  | SIOCSIFMTU string int
  | SIOCSIFNETMASK string u32
  | SIOCSIFFLAGS string u32

record sharp_tunnel =
  st_tun :: int
  st_running :: bool
  st_mtu :: int
  st_dev_name :: string
  st_ip_address :: string
  st_tunnel_gateway :: string
  st_tunnel_ip :: u32
  st_tunnel_network :: u32

text \<open>The constructor leaves the descriptor and the two addresses as they were in memory.\<close>

definition SharpTunnel :: "int \<Rightarrow> u32 \<Rightarrow> u32 \<Rightarrow> string \<Rightarrow> string \<Rightarrow> int \<Rightarrow> sharp_tunnel" where
  "SharpTunnel old_tun old_ip old_network dev_n ip dev_mtu =
     \<lparr>st_tun = old_tun, st_running = False, st_mtu = dev_mtu, st_dev_name = dev_n, st_ip_address = ip,
      st_tunnel_gateway = [], st_tunnel_ip = old_ip, st_tunnel_network = old_network\<rparr>"

definition IFNAMSIZ :: nat where "IFNAMSIZ = 16"
definition IFF_UP :: u32 where "IFF_UP = 1"
definition IFF_TUN :: u32 where "IFF_TUN = 1"
definition IFF_NO_PI :: u32 where "IFF_NO_PI = 0x1000"

text \<open>\<open>strncpy\<close> into the cleared field of a request.\<close>

definition ifr_name :: "sharp_tunnel \<Rightarrow> string" where
  "ifr_name t = take IFNAMSIZ (st_dev_name t)"

text \<open>Requests one after the other until one fails.\<close>

fun requests :: "(sys_call \<Rightarrow> int) \<Rightarrow> sys_call list \<Rightarrow> int \<times> sys_call list" where
  "requests os [] = (0, [])"
| "requests os (c # cs) =
     (if os c = -1 then (-1, [c]) else let (r, done) = requests os cs in (r, c # done))"

definition tunnel_shutdown :: "sharp_tunnel \<Rightarrow> int \<times> sharp_tunnel \<times> sys_call list" where
  "tunnel_shutdown t = (if \<not> st_running t then (0, t, []) else (0, t, [CloseFd (st_tun t)]))"

definition address_requests :: "sharp_tunnel \<Rightarrow> u32 \<Rightarrow> sys_call list" where
  "address_requests t ip =
     [SIOCSIFADDR (ifr_name t) ip, SIOCSIFMTU (ifr_name t) (st_mtu t),
      SIOCSIFNETMASK (ifr_name t) (addr_of ''255.255.255.0''), SIOCSIFFLAGS (ifr_name t) IFF_UP]"

definition set_ip :: "(sys_call \<Rightarrow> int) \<Rightarrow> sharp_tunnel \<Rightarrow> int \<times> sharp_tunnel \<times> sys_call list" where
  "set_ip os t =
     (let tunnel_ip = addr_of (st_ip_address t);
          t' = t\<lparr>st_tunnel_ip := tunnel_ip, st_tunnel_network := tunnel_ip AND 0xffffff00\<rparr>
      in case inet_pton (st_ip_address t) of
           None \<Rightarrow> (-1, t', [DgramSocket])
         | Some ip \<Rightarrow> let (r, done) = requests os (address_requests t ip) in (r, t', DgramSocket # done))"

text \<open>The overloaded \<open>set_ip\<close> takes the address in network order.\<close>

definition set_ip_raw :: "(sys_call \<Rightarrow> int) \<Rightarrow> u32 \<Rightarrow> sharp_tunnel \<Rightarrow> int \<times> sharp_tunnel \<times> sys_call list" where
  "set_ip_raw os ip t =
     (let (r, done) = requests os (address_requests t (bswap32 ip))
      in if r = -1 then (-1, t, DgramSocket # done)
         else let gate = bswap32 (bswap32 (ip AND 0xffffff) + 1)
           in (0, t\<lparr>st_tunnel_gateway := inet_ntoa (bswap32 gate)\<rparr>, DgramSocket # done))"

definition tunnel_init :: "(sys_call \<Rightarrow> int) \<Rightarrow> bool \<Rightarrow> sharp_tunnel \<Rightarrow> int \<times> sharp_tunnel \<times> sys_call list" where
  "tunnel_init os setip t =
     (let fd = os OpenTun; iff = TunSetIff (ifr_name t) (IFF_TUN OR IFF_NO_PI)
      in if fd < 0 then (-1, t, [OpenTun])
         else if os iff < 0 then (-1, t, [OpenTun, iff, CloseFd fd])
         else let t1 = t\<lparr>st_tun := fd\<rparr>
           in if setip
              then let (r, t2, done) = set_ip os t1
                in if r < 0 then (-1, t2, OpenTun # iff # done)
                   else (0, t2\<lparr>st_running := True\<rparr>, OpenTun # iff # done)
              else (0, t1\<lparr>st_running := True\<rparr>, [OpenTun, iff]))"

definition get_local_tunnel_ip :: "sharp_tunnel \<Rightarrow> u32" where
  "get_local_tunnel_ip t = st_tunnel_ip t"

definition get_local_tunnel_network :: "sharp_tunnel \<Rightarrow> u32" where
  "get_local_tunnel_network t = st_tunnel_network t"

definition get_tunnel_gateway :: "sharp_tunnel \<Rightarrow> string" where
  "get_tunnel_gateway t = st_tunnel_gateway t"

subsection \<open>Requests\<close>

lemma requests_outcome:
  "requests os cs = (if \<forall>c \<in> set cs. os c \<noteq> -1 then (0, cs) else (-1, takeWhile (\<lambda>c. os c \<noteq> -1) cs @ [the (find (\<lambda>c. os c = -1) cs)]))"
  by (induction cs) auto

lemma requests_prefix: "\<exists>rest. cs = snd (requests os cs) @ rest"
  by (induction cs) (auto split: prod.splits)

lemma no_close_requests: "CloseFd fd \<notin> set (snd (requests os (address_requests t ip)))"
proof -
  obtain rest where "address_requests t ip = snd (requests os (address_requests t ip)) @ rest" using requests_prefix by blast
  then have "set (snd (requests os (address_requests t ip))) \<subseteq> set (address_requests t ip)" by (metis Un_upper1 set_append)
  moreover have "CloseFd fd \<notin> set (address_requests t ip)" by (simp add: address_requests_def)
  ultimately show ?thesis by blast
qed

lemma requests_value: "fst (requests os cs) = 0 \<or> fst (requests os cs) = -1"
  by (simp add: requests_outcome)

text \<open>
  Starting the tunnel succeeds exactly when the kernel grants every request and the address is one, and only
  then it runs and a shutdown closes its descriptor; the address and the network are then those of the
  configuration.
\<close>

theorem tunnel_starts_iff:
  assumes "\<not> st_running t"
  shows "case tunnel_init os True t of (r, t', calls) \<Rightarrow>
    (r = 0 \<longleftrightarrow> 0 \<le> os OpenTun \<and> 0 \<le> os (TunSetIff (ifr_name t) (IFF_TUN OR IFF_NO_PI)) \<and>
       (\<exists>ip. inet_pton (st_ip_address t) = Some ip \<and> (\<forall>c \<in> set (address_requests t ip). os c \<noteq> -1))) \<and>
    (r \<noteq> 0 \<longrightarrow> r = -1) \<and> (st_running t' \<longleftrightarrow> r = 0) \<and>
    snd (snd (tunnel_shutdown t')) = (if r = 0 then [CloseFd (os OpenTun)] else []) \<and>
    (r = 0 \<longrightarrow> inet_pton (st_ip_address t) = Some (get_local_tunnel_ip t') \<and> get_local_tunnel_network t' = get_local_tunnel_ip t' AND NOT (mask 8))"
proof -
  have n: "(0xffffff00 :: u32) = NOT (mask 8)" by code_simp
  show ?thesis
    using assms by (auto simp: tunnel_init_def set_ip_def requests_outcome Let_def tunnel_shutdown_def address_requests_def
        ifr_name_def addr_of_def n get_local_tunnel_ip_def get_local_tunnel_network_def split: option.splits)
qed

theorem tunnel_starts_iff_witness:
  "case tunnel_init (\<lambda>_. 3) True (SharpTunnel 0 0 0 ''tun0'' ''10.0.0.2'' 1400) of (r, t', calls) \<Rightarrow>
     r = 0 \<and> get_local_tunnel_ip t' = 0x0a000002 \<and> snd (snd (tunnel_shutdown t')) = [CloseFd 3]"
proof -
  let ?t = "SharpTunnel 0 0 0 ''tun0'' ''10.0.0.2'' 1400"
  have "inet_pton ''10.0.0.2'' = Some 0x0a000002"
    by (simp add: inet_pton_def octet_def digits_val_def digit_val_def is_digit_def)
  then show ?thesis
    using tunnel_starts_iff [where t = ?t and os = "\<lambda>_. 3"] by (auto simp: SharpTunnel_def split: prod.splits)
qed

text \<open>
  When the address cannot be set, nothing closes the descriptor: \<open>init\<close> does not, and \<open>shutdown\<close> does nothing
  because the tunnel is not marked as running.
\<close>

theorem tunnel_descriptor_leaks:
  assumes "\<not> st_running t" "0 \<le> os OpenTun" "0 \<le> os (TunSetIff (ifr_name t) (IFF_TUN OR IFF_NO_PI))" "inet_pton (st_ip_address t) = None"
  shows "\<exists>t' calls. tunnel_init os True t = (-1, t', calls) \<and> st_tun t' = os OpenTun \<and>
    CloseFd (os OpenTun) \<notin> set calls \<and> tunnel_shutdown t' = (0, t', [])"
  using assms by (auto simp: tunnel_init_def set_ip_def tunnel_shutdown_def Let_def)

text \<open>A second shutdown closes the descriptor a second time.\<close>

theorem tunnel_closes_twice:
  "st_running t \<Longrightarrow> \<exists>t'. tunnel_shutdown t = (0, t', [CloseFd (st_tun t)]) \<and> tunnel_shutdown t' = (0, t', [CloseFd (st_tun t)])"
  by (simp add: tunnel_shutdown_def)


subsection \<open>The gateway\<close>

lemma bswap32_low_bytes: "bswap32 (ip AND 0xffffff) = bswap32 ip AND NOT (mask 8)"
proof -
  have m: "ip AND 0xffffff = take_bit 24 ip" by (simp add: take_bit_eq_mask mask_eq_decr_exp)
  show ?thesis
  proof (rule bit_word_eqI)
    fix n assume "n < LENGTH(32)"
    then have "n < 32" by simp
    then consider "n < 8" | "8 \<le> n" "n < 16" | "16 \<le> n" "n < 24" | "24 \<le> n" "n < 32" by linarith
    then show "bit (bswap32 (ip AND 0xffffff)) n \<longleftrightarrow> bit (bswap32 ip AND NOT (mask 8)) n"
      unfolding m by cases (auto simp: bit_bswap32 bit_simps)
  qed
qed

lemma first_host: "(x AND NOT (mask 8)) + 1 = (x AND NOT (mask 8)) OR (1 :: u32)"
  by (rule disjunctive_add) (auto simp: bit_simps)

lemma first_host_bits:
  "((x AND NOT (mask 8)) + 1) AND NOT (mask 8) = x AND NOT (mask 8 :: u32)" "((x AND NOT (mask 8)) + 1) AND mask 8 = (1 :: u32)"
  unfolding first_host by (rule bit_word_eqI, auto simp: bit_simps)+

text \<open>
  C36. The tunnel carries all traffic: after \<open>set_ip(address)\<close> has succeeded, the gateway of the tunnel is the first address
  of the network of 256 addresses around it, and making it the default requests two routes, through this gateway and the
  tunnel's device, of which every address matches exactly one. A tunnel that has only been constructed and started with
  \<open>init\<close>, also when this sets the configured address, has no gateway: the two routes still cover every address, but go to
  gateway 0.0.0.0.
\<close>

theorem tunnel_routes_everything:
  "(set_ip_raw os ip t = (0, t', calls) \<longrightarrow> SIOCSIFADDR (ifr_name t) (bswap32 ip) \<in> set calls \<and>
     returns (set_default_as_tunnel rt (st_dev_name t') (get_tunnel_gateway t')) (\<lambda>(rt', ops).
       \<exists>e1 e2. ops = [AddRoute e1, AddRoute e2] \<and> (\<forall>a. matches e1 a \<noteq> matches e2 a) \<and>
         rt_dev e1 = st_dev_name t \<and> rt_dev e2 = st_dev_name t \<and> rt_gateway e2 = rt_gateway e1 \<and>
         rt_gateway e1 AND NOT (mask 8) = bswap32 ip AND NOT (mask 8) \<and> rt_gateway e1 AND mask 8 = 1)) \<and>
   (tunnel_init os setip (SharpTunnel old_tun old_ip old_network dev addr mtu) = (0, t0, calls0) \<longrightarrow>
     returns (set_default_as_tunnel rt (st_dev_name t0) (get_tunnel_gateway t0)) (\<lambda>(rt', ops).
       \<exists>e1 e2. ops = [AddRoute e1, AddRoute e2] \<and> (\<forall>a. matches e1 a \<noteq> matches e2 a) \<and>
         rt_dev e1 = dev \<and> rt_dev e2 = dev \<and> rt_gateway e1 = 0 \<and> rt_gateway e2 = 0))"
proof (intro conjI impI)
  assume s: "set_ip_raw os ip t = (0, t', calls)"
  have r: "requests os (address_requests t (bswap32 ip)) = (0, address_requests t (bswap32 ip))"
    using s by (auto simp: set_ip_raw_def requests_outcome split: if_splits)
  then have t': "t' = t\<lparr>st_tunnel_gateway := inet_ntoa ((bswap32 ip AND NOT (mask 8)) + 1)\<rparr>"
      "calls = DgramSocket # address_requests t (bswap32 ip)"
    using s by (auto simp: set_ip_raw_def bswap32_bswap32 bswap32_low_bytes Let_def)
  have g: "addr_of (get_tunnel_gateway t') = (bswap32 ip AND NOT (mask 8)) + 1"
    unfolding t' by (simp add: get_tunnel_gateway_def addr_of_def inet_roundtrip)
  have dev: "st_dev_name t' = st_dev_name t" by (simp add: t')
  show "SIOCSIFADDR (ifr_name t) (bswap32 ip) \<in> set calls" by (simp add: t' address_requests_def)
  show "returns (set_default_as_tunnel rt (st_dev_name t') (get_tunnel_gateway t')) (\<lambda>(rt', ops).
       \<exists>e1 e2. ops = [AddRoute e1, AddRoute e2] \<and> (\<forall>a. matches e1 a \<noteq> matches e2 a) \<and>
         rt_dev e1 = st_dev_name t \<and> rt_dev e2 = st_dev_name t \<and> rt_gateway e2 = rt_gateway e1 \<and>
         rt_gateway e1 AND NOT (mask 8) = bswap32 ip AND NOT (mask 8) \<and> rt_gateway e1 AND mask 8 = 1)"
    by (rule returns_mono [OF tunnel_takes_default]) (auto simp: g first_host_bits dev)
next
  assume i: "tunnel_init os setip (SharpTunnel old_tun old_ip old_network dev addr mtu) = (0, t0, calls0)"
  then have t0: "st_dev_name t0 = dev" "st_tunnel_gateway t0 = []"
    by (auto simp: tunnel_init_def set_ip_def SharpTunnel_def Let_def split: if_splits option.splits prod.splits)
  have "addr_of [] = 0" by (simp add: addr_of_def inet_pton_def split: option.splits)
  then show "returns (set_default_as_tunnel rt (st_dev_name t0) (get_tunnel_gateway t0)) (\<lambda>(rt', ops).
       \<exists>e1 e2. ops = [AddRoute e1, AddRoute e2] \<and> (\<forall>a. matches e1 a \<noteq> matches e2 a) \<and>
         rt_dev e1 = dev \<and> rt_dev e2 = dev \<and> rt_gateway e1 = 0 \<and> rt_gateway e2 = 0)"
    using t0 by (intro returns_mono [OF tunnel_takes_default]) (auto simp: get_tunnel_gateway_def)
qed

theorem tunnel_routes_everything_witness:
  "returns (set_default_as_tunnel RouteTable0 ''tun0'' (get_tunnel_gateway (fst (snd (set_ip_raw (\<lambda>_. 0) 0x0200000a (SharpTunnel 0 0 0 ''tun0'' [] 1400))))))
     (\<lambda>(rt', ops). \<exists>e1 e2. ops = [AddRoute e1, AddRoute e2] \<and> rt_gateway e1 AND mask 8 = 1) \<and>
   returns (set_default_as_tunnel RouteTable0 ''tun0'' (get_tunnel_gateway (fst (snd (tunnel_init (\<lambda>_. 3) False (SharpTunnel 0 0 0 ''tun0'' [] 1400))))))
     (\<lambda>(rt', ops). \<exists>e1 e2. ops = [AddRoute e1, AddRoute e2] \<and> rt_gateway e1 = 0)"
proof -
  let ?t = "SharpTunnel 0 0 0 ''tun0'' [] 1400"
  obtain t' calls where s: "set_ip_raw (\<lambda>_. 0) 0x0200000a ?t = (0, t', calls)" "st_dev_name t' = ''tun0''"
    by (simp add: set_ip_raw_def requests_outcome Let_def SharpTunnel_def)
  obtain t0 calls0 where i: "tunnel_init (\<lambda>_. 3) False ?t = (0, t0, calls0)" "st_dev_name t0 = ''tun0''"
    by (simp add: tunnel_init_def Let_def SharpTunnel_def)
  show ?thesis
    using mp [OF conjunct1 [OF tunnel_routes_everything] s(1), of RouteTable0]
      mp [OF conjunct2 [OF tunnel_routes_everything] i(1), of RouteTable0] s i
    by (auto simp: returns_def)
qed

end
