(* ===== verification/Checksum.thy ===== *)
theory Checksum
  imports Prelude
begin

unbundle bit_operations_syntax

text \<open>
  Checksums of IP packets (src/src/packet/checksum.c, packet_checksum.c), on a machine that stores
  the low byte first. A packet is its bytes; \<open>None\<close> is an access outside of them. Assertions are compiled out.
\<close>

subsection \<open>The Internet checksum\<close>

definition le16 :: "byte \<Rightarrow> byte \<Rightarrow> u64" where
  "le16 a b = of_nat (unat a + 256 * unat b)"

definition le32 :: "byte \<Rightarrow> byte \<Rightarrow> byte \<Rightarrow> byte \<Rightarrow> u64" where
  "le32 a b c d = of_nat (unat a + 256 * unat b + 65536 * unat c + 16777216 * unat d)"

text \<open>Four bytes at a time, then two, then one, which \<open>ntohs\<close> of the byte shifted by eight leaves as it is.\<close>

fun ip_checksum_partial :: "byte list \<Rightarrow> u64 \<Rightarrow> u64" where
  "ip_checksum_partial (a # b # c # d # p) s = ip_checksum_partial p (s + le32 a b c d)"
| "ip_checksum_partial [a, b, c] s = s + le16 a b + ucast c"
| "ip_checksum_partial [a, b] s = s + le16 a b"
| "ip_checksum_partial [a] s = s + ucast a"
| "ip_checksum_partial [] s = s"

lemma fold_step:
  "unat (drop_bit n s + take_bit n s :: u64) = unat s div 2 ^ n + unat s mod 2 ^ n"
proof -
  have d: "unat (drop_bit n s) = unat s div 2 ^ n" unfolding unat_drop_bit_eq by (rule drop_bit_eq_div)
  have t: "unat (take_bit n s) = unat s mod 2 ^ n" unfolding unsigned_take_bit_eq by (rule take_bit_eq_mod)
  have "unat s div 2 ^ n + unat s mod 2 ^ n \<le> unat s"
  proof -
    have "unat s div 2 ^ n \<le> unat s div 2 ^ n * 2 ^ n" by simp
    then show ?thesis using div_mult_mod_eq [of "unat s" "2 ^ n"] by linarith
  qed
  also have "\<dots> < 2 ^ 64" using unsigned_less [of s] by simp
  finally show ?thesis using d t by (simp add: unat_word_ariths)
qed

lemma fold_step_less:
  assumes "2 ^ n \<le> unat (s :: u64)" "0 < n"
  shows "unat (drop_bit n s + take_bit n s) < unat s"
proof -
  have q: "0 < unat s div 2 ^ n" using assms(1) by (simp add: div_greater_zero_iff)
  have "(2 :: nat) ^ 1 \<le> 2 ^ n" using assms(2) by (intro power_increasing) auto
  then have "unat s div 2 ^ n * 2 \<le> unat s div 2 ^ n * 2 ^ n" by simp
  then have "unat s div 2 ^ n < unat s div 2 ^ n * 2 ^ n" using q by linarith
  then show ?thesis unfolding fold_step using div_mult_mod_eq [of "unat s" "2 ^ n"] by linarith
qed

lemma and_mask_take_bit: "(s :: u64) AND 0xffffffff = take_bit 32 s" "(s :: u64) AND 0xffff = take_bit 16 s"
  by (simp_all add: take_bit_eq_mask mask_eq_decr_exp)

lemma take_bit_self: "take_bit n s = s \<longleftrightarrow> unat (s :: u64) < 2 ^ n"
proof
  assume "take_bit n s = s"
  then have "unat s mod 2 ^ n = unat s" by (metis unsigned_take_bit_eq take_bit_eq_mod)
  then show "unat s < 2 ^ n" by (metis mod_less_divisor zero_less_numeral zero_less_power)
next
  assume "unat s < 2 ^ n"
  then have "unat (take_bit n s) = unat s" unfolding unsigned_take_bit_eq by (simp add: take_bit_eq_mod)
  then show "take_bit n s = s" by (simp only: word_unat_eq_iff)
qed

lemma high_bits: "(s :: u64) AND NOT 0xffffffff \<noteq> 0 \<longleftrightarrow> 2 ^ 32 \<le> unat s"
proof -
  have "s AND NOT 0xffffffff = 0 \<longleftrightarrow> s AND 0xffffffff = s"
  proof
    assume "s AND NOT 0xffffffff = 0"
    moreover have "s = (s AND 0xffffffff) OR (s AND NOT 0xffffffff)" by (rule bit_word_eqI) (auto simp: bit_simps)
    ultimately show "s AND 0xffffffff = s" by simp
  next
    assume "s AND 0xffffffff = s"
    then have "s AND NOT 0xffffffff = (s AND 0xffffffff) AND NOT 0xffffffff" by simp
    also have "\<dots> = 0" by (rule bit_word_eqI) (auto simp: bit_simps)
    finally show "s AND NOT 0xffffffff = 0" .
  qed
  then show ?thesis unfolding and_mask_take_bit take_bit_self by linarith
qed

lemma middle_bits_less: "(s :: u64) AND 0xffff0000 \<noteq> 0 \<Longrightarrow> 2 ^ 16 \<le> unat s"
proof (rule ccontr)
  assume a: "s AND 0xffff0000 \<noteq> 0" "\<not> 2 ^ 16 \<le> unat s"
  then have "s = s AND 0xffff" unfolding and_mask_take_bit using take_bit_self [of 16 s] by simp
  then have "s AND 0xffff0000 = s AND (0xffff AND 0xffff0000)" by (metis and.assoc)
  then show False using a(1) by simp
qed

lemma middle_bits: "unat s < 2 ^ 32 \<Longrightarrow> (s :: u64) AND 0xffff0000 \<noteq> 0 \<longleftrightarrow> 2 ^ 16 \<le> unat s"
proof -
  assume "unat s < 2 ^ 32"
  then have "s = s AND 0xffffffff" unfolding and_mask_take_bit using take_bit_self [of 32 s] by simp
  also have "\<dots> = s AND (0xffff OR 0xffff0000)" by simp
  also have "\<dots> = (s AND 0xffff) OR (s AND 0xffff0000)" by (rule bit.conj_disj_distrib)
  finally have "s AND 0xffff0000 = 0 \<Longrightarrow> take_bit 16 s = s" by (simp add: and_mask_take_bit)
  then show ?thesis using middle_bits_less [of s] take_bit_self [of 16 s] by linarith
qed

text \<open>The two loops that add the carries in.\<close>

function fold32 :: "u64 \<Rightarrow> u64" where
  "fold32 s = (if s AND NOT 0xffffffff \<noteq> 0 then fold32 (drop_bit 32 s + (s AND 0xffffffff)) else s)"
  by auto
termination
  by (relation "measure unat") (simp_all only: and_mask_take_bit high_bits in_measure fold_step_less wf_measure)

function fold16 :: "u64 \<Rightarrow> u64" where
  "fold16 s = (if s AND 0xffff0000 \<noteq> 0 then fold16 (drop_bit 16 s + (s AND 0xffff)) else s)"
  by auto
termination
  by (relation "measure unat") (auto simp: and_mask_take_bit intro!: fold_step_less dest: middle_bits_less)

declare fold32.simps [simp del] fold16.simps [simp del]

definition ip_checksum_fold :: "u64 \<Rightarrow> 16 word" where
  "ip_checksum_fold s = ucast (NOT (fold16 (fold32 s)))"

subsection \<open>One's complement\<close>

text \<open>The representative of a sum modulo \<open>65535\<close> that the folding gives: zero only for zero.\<close>

definition oc :: "nat \<Rightarrow> nat" where
  "oc s = (if s = 0 then 0 else (s - 1) mod 65535 + 1)"

lemma oc_bound: "oc s \<le> 65535"
  by (simp add: oc_def Suc_le_eq)

lemma oc_zero [simp]: "oc s = 0 \<longleftrightarrow> s = 0" "oc 0 = 0" "0 < oc s \<longleftrightarrow> 0 < s"
  by (simp_all add: oc_def)

lemma oc_mod: "oc s mod 65535 = s mod 65535"
proof (cases "s = 0")
  case False
  then have "oc s mod 65535 = Suc ((s - 1) mod 65535) mod 65535" by (simp add: oc_def)
  also have "\<dots> = Suc (s - 1) mod 65535" by (rule mod_Suc_eq)
  finally show ?thesis using False by simp
qed simp

lemma oc_unique:
  assumes "r \<le> 65535" "r mod 65535 = s mod 65535" "r = 0 \<longleftrightarrow> s = 0"
  shows "r = oc s"
proof (cases "s = 0")
  case False
  have "r mod 65535 = oc s mod 65535" using assms(2) by (simp add: oc_mod)
  moreover have "0 < r" "0 < oc s" "r \<le> 65535" "oc s \<le> 65535" using False assms oc_bound by auto
  ultimately show ?thesis by (cases "r = 65535"; cases "oc s = 65535") auto
qed (use assms in simp)

lemma oc_cong: "s mod 65535 = t mod 65535 \<Longrightarrow> (s = 0 \<longleftrightarrow> t = 0) \<Longrightarrow> oc s = oc t"
  by (rule oc_unique) (simp_all add: oc_bound oc_mod)

lemma carry_mod:
  assumes "n = 16 \<or> n = 32"
  shows "((x :: nat) div 2 ^ n + x mod 2 ^ n) mod 65535 = x mod 65535"
proof -
  have m: "(2 :: nat) ^ n mod 65535 = 1" using assms by auto
  have "x mod 65535 = (x div 2 ^ n * 2 ^ n + x mod 2 ^ n) mod 65535" by (simp only: div_mult_mod_eq)
  also have "\<dots> = (x div 2 ^ n * (2 ^ n mod 65535) + x mod 2 ^ n) mod 65535" by (metis mod_add_left_eq mod_mult_right_eq)
  finally show ?thesis using m by simp
qed

lemma carry_zero: "(x :: nat) div 2 ^ n + x mod 2 ^ n = 0 \<longleftrightarrow> x = 0"
  using div_mult_mod_eq [of x "2 ^ n"] by auto

lemma fold32_spec: "unat (fold32 s) < 2 ^ 32 \<and> unat (fold32 s) mod 65535 = unat s mod 65535 \<and> (unat (fold32 s) = 0 \<longleftrightarrow> unat s = 0)"
proof (induction s rule: fold32.induct)
  case (1 s)
  show ?case
  proof (cases "2 ^ 32 \<le> unat s")
    case True
    then have "fold32 s = fold32 (drop_bit 32 s + take_bit 32 s)"
      by (subst fold32.simps) (simp only: high_bits and_mask_take_bit if_True)
    then show ?thesis using 1 True carry_mod [of 32 "unat s"] carry_zero [of "unat s" 32]
      by (simp only: high_bits and_mask_take_bit fold_step) simp
  next
    case False
    then have "fold32 s = s" by (subst fold32.simps) (simp only: high_bits if_False)
    then show ?thesis using False by simp
  qed
qed

lemma fold16_spec:
  assumes "unat s < 2 ^ 32"
  shows "unat (fold16 s) \<le> 65535 \<and> unat (fold16 s) mod 65535 = unat s mod 65535 \<and> (unat (fold16 s) = 0 \<longleftrightarrow> unat s = 0)"
  using assms
proof (induction s rule: fold16.induct)
  case (1 s)
  show ?case
  proof (cases "2 ^ 16 \<le> unat s")
    case True
    then have eq: "fold16 s = fold16 (drop_bit 16 s + take_bit 16 s)"
      using "1.prems" by (subst fold16.simps) (simp only: middle_bits and_mask_take_bit if_True)
    have "unat (drop_bit 16 s + take_bit 16 s) < 2 ^ 32" using fold_step_less [OF True] "1.prems" by simp
    then have "unat (fold16 (drop_bit 16 s + take_bit 16 s)) \<le> 65535 \<and>
        unat (fold16 (drop_bit 16 s + take_bit 16 s)) mod 65535 = unat (drop_bit 16 s + take_bit 16 s) mod 65535 \<and>
        (unat (fold16 (drop_bit 16 s + take_bit 16 s)) = 0 \<longleftrightarrow> unat (drop_bit 16 s + take_bit 16 s) = 0)"
      using "1.IH" True "1.prems" by (simp only: middle_bits and_mask_take_bit)
    then show ?thesis unfolding eq fold_step using carry_mod [of 16 "unat s"] carry_zero [of "unat s" 16] by simp
  next
    case False
    then have "fold16 s = s" using "1.prems" by (subst fold16.simps) (simp only: middle_bits if_False)
    then show ?thesis using False by simp
  qed
qed

lemma unat_fold: "unat (fold16 (fold32 s)) = oc (unat s)"
  using fold32_spec [of s] fold16_spec [of "fold32 s"] by (intro oc_unique) auto

lemma unat_checksum_fold: "unat (ip_checksum_fold s) = 65535 - oc (unat s)"
proof -
  let ?x = "fold16 (fold32 s)"
  have "ucast (NOT ?x) = NOT (ucast ?x :: 16 word)" by (rule bit_word_eqI) (auto simp: bit_simps)
  moreover have "unat (NOT w) = 65535 - unat w" for w :: "16 word"
  proof -
    have "NOT w = - 1 - w" by (simp add: not_eq_complement)
    moreover have "w \<le> - 1" by simp
    ultimately have "unat (NOT w) = unat (- 1 :: 16 word) - unat w" by (simp only: unat_sub)
    then show ?thesis by (simp add: unsigned_minus_1_eq_mask mask_eq_exp_minus_1)
  qed
  moreover have "unat (ucast ?x :: 16 word) = unat ?x"
    using unat_fold [of s] oc_bound [of "unat s"] by (simp add: unsigned_ucast_eq take_bit_nat_eq_self)
  ultimately show ?thesis using unat_fold [of s] by (simp add: ip_checksum_fold_def)
qed

subsection \<open>Packets\<close>

definition ipv4_checksum :: "byte list \<Rightarrow> 16 word" where
  "ipv4_checksum h = ip_checksum_fold (ip_checksum_partial h 0)"

definition tcp_udp_v4_header_checksum_partial :: "byte list \<Rightarrow> byte list \<Rightarrow> byte \<Rightarrow> nat \<Rightarrow> u64" where
  "tcp_udp_v4_header_checksum_partial src_ip dst_ip protocol len =
     ip_checksum_partial (src_ip @ dst_ip @ [0, protocol, of_nat (len div 256), of_nat (len mod 256)]) 0"

definition tcp_udp_v4_checksum :: "byte list \<Rightarrow> byte list \<Rightarrow> byte \<Rightarrow> byte list \<Rightarrow> 16 word" where
  "tcp_udp_v4_checksum src_ip dst_ip protocol payload =
     ip_checksum_fold (ip_checksum_partial payload (tcp_udp_v4_header_checksum_partial src_ip dst_ip protocol (length payload)))"

definition tcp_udp_v6_header_checksum_partial :: "byte list \<Rightarrow> byte list \<Rightarrow> byte \<Rightarrow> nat \<Rightarrow> u64" where
  "tcp_udp_v6_header_checksum_partial src_ip dst_ip protocol len =
     ip_checksum_partial (src_ip @ dst_ip @ [of_nat (len div 2 ^ 24), of_nat (len div 2 ^ 16), of_nat (len div 256), of_nat len] @
       [0, 0, 0, protocol]) 0"

definition tcp_udp_v6_checksum :: "byte list \<Rightarrow> byte list \<Rightarrow> byte \<Rightarrow> byte list \<Rightarrow> 16 word" where
  "tcp_udp_v6_checksum src_ip dst_ip protocol payload =
     ip_checksum_fold (ip_checksum_partial payload (tcp_udp_v6_header_checksum_partial src_ip dst_ip protocol (length payload)))"

text \<open>Reading a part of the packet and writing two bytes of it.\<close>

definition slice :: "nat \<Rightarrow> nat \<Rightarrow> byte list \<Rightarrow> byte list option" where
  "slice off len p = (if off + len \<le> length p then Some (take len (drop off p)) else None)"

definition put16 :: "nat \<Rightarrow> 16 word \<Rightarrow> byte list \<Rightarrow> byte list option" where
  "put16 off w p = (if off + 2 \<le> length p then Some (p[off := ucast w, off + 1 := ucast (drop_bit 8 w)]) else None)"

definition fill :: "nat \<Rightarrow> nat \<Rightarrow> nat \<Rightarrow> (byte list \<Rightarrow> 16 word) \<Rightarrow> byte list \<Rightarrow> byte list option" where
  "fill off len check f p = do {
     p0 \<leftarrow> put16 (off + check) 0 p;
     part \<leftarrow> slice off len p0;
     put16 (off + check) (f part) p0 }"

definition IPPROTO_ICMP :: byte where "IPPROTO_ICMP = 1"
definition IPPROTO_TCP :: byte where "IPPROTO_TCP = 6"
definition IPPROTO_UDP :: byte where "IPPROTO_UDP = 17"
definition IPPROTO_ICMPV6 :: byte where "IPPROTO_ICMPV6 = 58"

definition ipv4_version :: "byte list \<Rightarrow> nat" where "ipv4_version p = unat (p ! 0) div 16"
definition ipv4_header_len :: "byte list \<Rightarrow> nat" where "ipv4_header_len p = unat (p ! 0) mod 16 * 4"
definition ipv4_tot_len :: "byte list \<Rightarrow> nat" where "ipv4_tot_len p = unat (p ! 2) * 256 + unat (p ! 3)"
definition ipv4_protocol :: "byte list \<Rightarrow> byte" where "ipv4_protocol p = p ! 9"
definition ipv4_src :: "byte list \<Rightarrow> byte list" where "ipv4_src p = take 4 (drop 12 p)"
definition ipv4_dst :: "byte list \<Rightarrow> byte list" where "ipv4_dst p = take 4 (drop 16 p)"

text \<open>
  The bytes of layer 4 are an \<open>int\<close>, negative when the total length is less than the header; as the \<open>uint16_t\<close>
  of a TCP or UDP checksum it wraps around, as the \<open>size_t\<close> of an ICMP one it leaves the packet.
\<close>

definition checksum_ipv4_packet :: "byte list \<Rightarrow> byte list option" where
  "checksum_ipv4_packet p =
     (if length p < 20 then None
      else let hl = ipv4_header_len p
        in do {
          p2 \<leftarrow> fill 0 hl 10 ipv4_checksum p;
          let l4_bytes = int (ipv4_tot_len p2) - int hl;
          let len = nat (l4_bytes mod 65536);
          if ipv4_protocol p2 = IPPROTO_TCP
          then fill hl len 16 (tcp_udp_v4_checksum (ipv4_src p2) (ipv4_dst p2) IPPROTO_TCP) p2
          else if ipv4_protocol p2 = IPPROTO_UDP
          then fill hl len 6 (tcp_udp_v4_checksum (ipv4_src p2) (ipv4_dst p2) IPPROTO_UDP) p2
          else if ipv4_protocol p2 = IPPROTO_ICMP
          then if l4_bytes < 0 then None else fill hl (nat l4_bytes) 2 ipv4_checksum p2
          else Some p2 })"

definition ipv6_payload_len :: "byte list \<Rightarrow> nat" where "ipv6_payload_len p = unat (p ! 4) * 256 + unat (p ! 5)"
definition ipv6_next_header :: "byte list \<Rightarrow> byte" where "ipv6_next_header p = p ! 6"
definition ipv6_src :: "byte list \<Rightarrow> byte list" where "ipv6_src p = take 16 (drop 8 p)"
definition ipv6_dst :: "byte list \<Rightarrow> byte list" where "ipv6_dst p = take 16 (drop 24 p)"

definition checksum_ipv6_packet :: "byte list \<Rightarrow> byte list option" where
  "checksum_ipv6_packet p =
     (if length p < 40 then None
      else let l4_bytes = ipv6_payload_len p; f = tcp_udp_v6_checksum (ipv6_src p) (ipv6_dst p)
        in if ipv6_next_header p = IPPROTO_TCP then fill 40 l4_bytes 16 (f IPPROTO_TCP) p
           else if ipv6_next_header p = IPPROTO_UDP then fill 40 l4_bytes 6 (f IPPROTO_UDP) p
           else if ipv6_next_header p = IPPROTO_ICMPV6 then fill 40 l4_bytes 2 (f IPPROTO_ICMPV6) p
           else Some p)"

definition checksum_packet :: "byte list \<Rightarrow> byte list option" where
  "checksum_packet p =
     (if p = [] then None
      else if ipv4_version p = 4 then checksum_ipv4_packet p
      else if ipv4_version p = 6 then checksum_ipv6_packet p
      else Some p)"

subsection \<open>Sums of words\<close>

fun w16 :: "byte list \<Rightarrow> nat" where
  "w16 (a # b # p) = unat a + 256 * unat b + w16 p"
| "w16 [a] = unat a"
| "w16 [] = 0"

lemma unat_byte: "unat (a :: byte) < 256"
  using unsigned_less [of a] by simp

lemma unat_small64: "x < 2 ^ 64 \<Longrightarrow> unat (of_nat x :: u64) = x"
  by (simp add: unsigned_of_nat take_bit_nat_eq_self)

lemma unat_ucast_byte: "unat (ucast (a :: byte) :: u64) = unat a"
  using unat_byte [of a] by (simp add: unsigned_ucast_eq take_bit_nat_eq_self)

lemma unat_add64: "unat (a :: u64) + unat b < 2 ^ 64 \<Longrightarrow> unat (a + b) = unat a + unat b"
  by (simp add: unat_word_ariths)

lemma unat_le16: "unat (le16 a b) = unat a + 256 * unat b" "unat a + 256 * unat b < 65536"
proof -
  show "unat a + 256 * unat b < 65536" using unat_byte [of a] unat_byte [of b] by linarith
  then show "unat (le16 a b) = unat a + 256 * unat b" unfolding le16_def by (intro unat_small64) simp
qed

lemma unat_le32:
  "unat (le32 a b c d) = unat a + 256 * unat b + 65536 * unat c + 16777216 * unat d"
  "unat a + 256 * unat b + 65536 * unat c + 16777216 * unat d < 4294967296"
proof -
  show "unat a + 256 * unat b + 65536 * unat c + 16777216 * unat d < 4294967296"
    using unat_byte [of a] unat_byte [of b] unat_byte [of c] unat_byte [of d] by linarith
  then show "unat (le32 a b c d) = unat a + 256 * unat b + 65536 * unat c + 16777216 * unat d"
    unfolding le32_def by (intro unat_small64) simp
qed

lemma partial_sum:
  assumes "unat s + length p * 2 ^ 32 < 2 ^ 64"
  shows "unat (ip_checksum_partial p s) mod 65535 = (unat s + w16 p) mod 65535 \<and>
    (unat (ip_checksum_partial p s) = 0 \<longleftrightarrow> unat s + w16 p = 0)"
  using assms
proof (induction p s rule: ip_checksum_partial.induct)
  case (1 a b c d p s)
  have lt: "unat (le32 a b c d) < 2 ^ 32" using unat_le32 [of a b c d] by simp
  have s: "unat (s + le32 a b c d) = unat s + unat (le32 a b c d)" using lt "1.prems" by (intro unat_add64) simp
  have "unat (s + le32 a b c d) + length p * 2 ^ 32 < 2 ^ 64" using s lt "1.prems" by simp
  note IH = "1.IH" [OF this]
  have w: "w16 (a # b # c # d # p) = unat a + 256 * unat b + unat c + 256 * unat d + w16 p" by simp
  have "unat (le32 a b c d) = unat a + 256 * unat b + unat c + 256 * unat d + 65535 * (unat c + 256 * unat d)"
    by (simp add: unat_le32(1))
  then have "unat (s + le32 a b c d) + w16 p = unat s + w16 (a # b # c # d # p) + 65535 * (unat c + 256 * unat d)"
    unfolding s w by simp
  then have "(unat (s + le32 a b c d) + w16 p) mod 65535 = (unat s + w16 (a # b # c # d # p)) mod 65535"
    by (simp only: mod_mult_self2)
  moreover have "unat (s + le32 a b c d) + w16 p = 0 \<longleftrightarrow> unat s + w16 (a # b # c # d # p) = 0"
    unfolding s w by (simp add: unat_le32(1))
  ultimately show ?case using IH by (simp only: ip_checksum_partial.simps)
next
  case (2 a b c s)
  have "unat (s + le16 a b + ucast c) = unat s + (unat a + 256 * unat b) + unat c"
    using "2.prems" unat_le16 [of a b] unat_byte [of c] by (simp add: unat_add64 unat_ucast_byte)
  then show ?case by (simp add: add.assoc)
next
  case (3 a b s)
  then show ?case using unat_le16 [of a b] by (simp add: unat_add64)
next
  case (4 a s)
  then show ?case using unat_byte [of a] by (simp add: unat_add64 unat_ucast_byte)
qed simp

lemma fold_partial:
  assumes "unat s + length p * 2 ^ 32 < 2 ^ 64"
  shows "unat (ip_checksum_fold (ip_checksum_partial p s)) = 65535 - oc (unat s + w16 p)"
  unfolding unat_checksum_fold using partial_sum [OF assms] by (metis oc_cong)

subsection \<open>RFC 1071\<close>

text \<open>The 16-bit words with the high byte first, an odd byte padded with zero, and their one's complement sum.\<close>

fun be_words :: "byte list \<Rightarrow> nat list" where
  "be_words (a # b # p) = (256 * unat a + unat b) # be_words p"
| "be_words [a] = [256 * unat a]"
| "be_words [] = []"

definition oc_add :: "nat \<Rightarrow> nat \<Rightarrow> nat" where
  "oc_add x y = (if x + y > 65535 then x + y - 65535 else x + y)"

definition rfc1071 :: "byte list \<Rightarrow> nat" where
  "rfc1071 p = 65535 - foldl oc_add 0 (be_words p)"

definition swap16 :: "nat \<Rightarrow> nat" where
  "swap16 x = x mod 256 * 256 + x div 256"

lemma oc_add_oc:
  assumes "y \<le> 65535"
  shows "oc_add (oc s) y = oc (s + y)"
proof (rule oc_unique)
  have b: "oc s \<le> 65535" by (rule oc_bound)
  show "oc_add (oc s) y \<le> 65535" using assms b by (simp add: oc_add_def) linarith
  have "oc_add (oc s) y mod 65535 = (oc s + y) mod 65535" by (simp add: oc_add_def le_mod_geq [of 65535 "oc s + y"])
  also have "\<dots> = (s + y) mod 65535" by (metis mod_add_left_eq oc_mod)
  finally show "oc_add (oc s) y mod 65535 = (s + y) mod 65535" .
  show "oc_add (oc s) y = 0 \<longleftrightarrow> s + y = 0" using b by (auto simp: oc_add_def)
qed

lemma foldl_oc_add: "\<forall>y \<in> set ys. y \<le> 65535 \<Longrightarrow> foldl oc_add (oc s) ys = oc (s + sum_list ys)"
  by (induction ys arbitrary: s) (simp_all add: oc_add_oc add.assoc)

lemma be_words_bound: "\<forall>y \<in> set (be_words p). y \<le> 65535"
proof (induction p rule: be_words.induct)
  case (1 a b p) then show ?case using unat_byte [of a] unat_byte [of b] by auto
next
  case (2 a) then show ?case using unat_byte [of a] by auto
qed simp

lemma be_words_w16:
  "(256 * w16 p) mod 65535 = sum_list (be_words p) mod 65535" "w16 p = 0 \<longleftrightarrow> sum_list (be_words p) = 0"
proof (induction p rule: be_words.induct)
  case (1 a b p)
  have "256 * w16 (a # b # p) = 256 * unat a + unat b + 256 * w16 p + 65535 * unat b" by simp
  then have "(256 * w16 (a # b # p)) mod 65535 = (256 * unat a + unat b + 256 * w16 p) mod 65535" by (simp only: mod_mult_self2)
  also have "\<dots> = (256 * unat a + unat b + sum_list (be_words p)) mod 65535" using "1.IH"(1) by (metis mod_add_right_eq)
  finally show "(256 * w16 (a # b # p)) mod 65535 = sum_list (be_words (a # b # p)) mod 65535" by simp
  show "w16 (a # b # p) = 0 \<longleftrightarrow> sum_list (be_words (a # b # p)) = 0" using "1.IH"(2) by auto
qed simp_all

lemma swap16_mod: "swap16 x mod 65535 = (256 * x) mod 65535"
proof -
  have "256 * x = swap16 x + 65535 * (x div 256)" unfolding swap16_def using div_mult_mod_eq [of x 256] by linarith
  then show ?thesis by (simp only: mod_mult_self2)
qed

lemma swap16_bound: "x \<le> 65535 \<Longrightarrow> swap16 x \<le> 65535"
proof -
  assume "x \<le> 65535"
  then have "x div 256 \<le> 255" by simp
  moreover have "x mod 256 \<le> 255" by (simp add: Suc_le_eq less_Suc_eq_le [symmetric])
  ultimately show ?thesis unfolding swap16_def by linarith
qed

lemma swap16_complement: "x \<le> 65535 \<Longrightarrow> swap16 (65535 - x) = 65535 - swap16 x"
proof -
  assume x: "x \<le> 65535"
  define h l where "h = x div 256" and "l = x mod 256"
  have hl: "x = h * 256 + l" "l < 256" "h < 256" using x by (auto simp: h_def l_def)
  have "65535 - x = (255 - h) * 256 + (255 - l)" using hl by simp
  then have "(65535 - x) mod 256 = (255 - l) mod 256" "(65535 - x) div 256 = (255 - h) + (255 - l) div 256"
    by (simp_all only: mod_mult_self3 div_mult_self3)
  then have "(65535 - x) mod 256 = 255 - l" "(65535 - x) div 256 = 255 - h" by simp_all
  moreover have "x mod 256 = l" "x div 256 = h" by (simp_all add: h_def l_def)
  ultimately show ?thesis using hl unfolding swap16_def by simp
qed

lemma swap16_oc: "swap16 (oc (w16 p)) = oc (sum_list (be_words p))"
proof (rule oc_unique)
  show "swap16 (oc (w16 p)) \<le> 65535" by (rule swap16_bound [OF oc_bound])
  have "swap16 (oc (w16 p)) mod 65535 = (256 * oc (w16 p)) mod 65535" by (rule swap16_mod)
  also have "\<dots> = (256 * w16 p) mod 65535" by (metis mod_mult_right_eq oc_mod)
  also have "\<dots> = sum_list (be_words p) mod 65535" by (rule be_words_w16)
  finally show "swap16 (oc (w16 p)) mod 65535 = sum_list (be_words p) mod 65535" .
  have "swap16 x = 0 \<longleftrightarrow> x = 0" for x
    using div_mult_mod_eq [of x 256] by (auto simp: swap16_def)
  then show "swap16 (oc (w16 p)) = 0 \<longleftrightarrow> sum_list (be_words p) = 0" using be_words_w16(2) [of p] by simp
qed

text \<open>
  C34. The Internet checksum, which the code computes with the low byte first and four bytes at a time, is
  the one of RFC 1071: its two bytes in memory are the one's complement of the one's complement sum of the
  16-bit words with the high byte first.
\<close>

theorem checksum_is_rfc1071:
  assumes "length p < 2 ^ 32"
  shows "swap16 (unat (ipv4_checksum p)) = rfc1071 p"
proof -
  have "unat (ipv4_checksum p) = 65535 - oc (w16 p)"
    unfolding ipv4_checksum_def using fold_partial [of 0 p] assms by simp
  then have "swap16 (unat (ipv4_checksum p)) = 65535 - oc (sum_list (be_words p))"
    using swap16_complement [OF oc_bound] by (simp add: swap16_oc)
  also have "oc (sum_list (be_words p)) = foldl oc_add (oc 0) (be_words p)"
    using foldl_oc_add [OF be_words_bound, of 0 p] by simp
  finally show ?thesis by (simp add: rfc1071_def)
qed

theorem checksum_is_rfc1071_witness:
  "swap16 (unat (ipv4_checksum [0x45, 0, 0, 0x73, 0, 0, 0x40, 0, 0x40, 0x11, 0, 0, 0xc0, 0xa8, 0, 1, 0xc0, 0xa8, 0, 0xc7])) =
     rfc1071 [0x45, 0, 0, 0x73, 0, 0, 0x40, 0, 0x40, 0x11, 0, 0, 0xc0, 0xa8, 0, 1, 0xc0, 0xa8, 0, 0xc7]"
  by (rule checksum_is_rfc1071) simp

subsection \<open>Filling checksums in\<close>

lemma w16_update:
  assumes "even k" "k + 1 < length p"
  shows "w16 (p[k := a, k + 1 := b]) + (unat (p ! k) + 256 * unat (p ! (k + 1))) = w16 p + (unat a + 256 * unat b)"
  using assms
proof (induction p arbitrary: k rule: w16.induct)
  case (1 x y p)
  show ?case
  proof (cases "k = 0")
    case False
    then obtain j where j: "k = j + 2" "even j" using "1.prems"(1) by atomize_elim presburger
    then have "j + 1 < length p" using "1.prems"(2) by simp
    note "1.IH" [OF j(2) this]
    moreover have "(x # y # p)[k := a, k + 1 := b] = x # y # p[j := a, j + 1 := b]" "(x # y # p) ! k = p ! j" "(x # y # p) ! (k + 1) = p ! (j + 1)"
      using j(1) by simp_all
    ultimately show ?thesis by simp
  qed simp
qed simp_all

lemma put16_eq: "put16 k w p = Some p' \<longleftrightarrow> k + 2 \<le> length p \<and> p' = p[k := ucast w, k + 1 := ucast (drop_bit 8 w)]"
  by (auto simp: put16_def)

lemma unat_halves: "unat (ucast w :: byte) + 256 * unat (ucast (drop_bit 8 w) :: byte) = unat (w :: 16 word)"
proof -
  have "unat w < 65536" using unsigned_less [of w] by simp
  then have h: "unat w div 256 < 256" by simp
  have "unat (ucast w :: byte) = unat w mod 256" by (simp add: unsigned_ucast_eq take_bit_eq_mod)
  moreover have "unat (ucast (drop_bit 8 w) :: byte) = unat w div 256"
    unfolding unsigned_ucast_eq unat_drop_bit_eq using h by (simp add: take_bit_eq_mod drop_bit_eq_div)
  ultimately show ?thesis by simp
qed

text \<open>The sum over a part that carries its own checksum is all ones.\<close>

lemma fill_verifies:
  assumes "even k" "k + 1 < length p" "unat s + length p * 2 ^ 32 < 2 ^ 64"
  defines "p0 \<equiv> p[k := 0, k + 1 := 0]"
  defines "w \<equiv> ip_checksum_fold (ip_checksum_partial p0 s)"
  shows "ip_checksum_fold (ip_checksum_partial (p0[k := ucast w, k + 1 := ucast (drop_bit 8 w)]) s) = 0"
proof -
  let ?p1 = "p0[k := ucast w, k + 1 := ucast (drop_bit 8 w)]" and ?S = "unat s + w16 p0"
  have w: "unat w = 65535 - oc ?S" unfolding w_def using assms(3) by (intro fold_partial) (simp add: p0_def)
  have "w16 ?p1 + 0 = w16 p0 + unat w"
    using w16_update [OF assms(1), of p0 "ucast w" "ucast (drop_bit 8 w)"] assms(2) unat_halves [of w] by (simp add: p0_def)
  then have S1: "unat s + w16 ?p1 = ?S + (65535 - oc ?S)" using w by simp
  have "oc (unat s + w16 ?p1) = 65535"
  proof (rule sym, rule oc_unique)
    have "(?S + (65535 - oc ?S)) mod 65535 = (oc ?S + (65535 - oc ?S)) mod 65535" by (metis mod_add_left_eq oc_mod)
    also have "oc ?S + (65535 - oc ?S) = 65535" using oc_bound [of ?S] by simp
    finally show "65535 mod 65535 = (unat s + w16 ?p1) mod 65535" unfolding S1 by simp
    show "(65535 :: nat) = 0 \<longleftrightarrow> unat s + w16 ?p1 = 0" unfolding S1 by auto
  qed simp
  moreover have "unat (ip_checksum_fold (ip_checksum_partial ?p1 s)) = 65535 - oc (unat s + w16 ?p1)"
    using assms(3) by (intro fold_partial) (simp add: p0_def)
  ultimately have "unat (ip_checksum_fold (ip_checksum_partial ?p1 s)) = 0" by simp
  then show ?thesis by (simp only: unat_eq_zero)
qed

text \<open>
  What filling in a checksum needs of the function that computes it: on the lengths it is used for it folds the sum
  of the bytes onto a start that depends on the length only, and the sum does not overflow. The three
  functions of the code are interpretations.
\<close>

locale checksum_function =
  fixes ok :: "nat \<Rightarrow> bool" and start :: "nat \<Rightarrow> u64" and f :: "byte list \<Rightarrow> 16 word"
  assumes folds: "ok (length x) \<Longrightarrow> f x = ip_checksum_fold (ip_checksum_partial x (start (length x)))"
    and small: "ok n \<Longrightarrow> unat (start n) + n * 2 ^ 32 < 2 ^ 64"
begin

lemma fill_ok:
  assumes "even check" "check + 2 \<le> len" "off + len \<le> length p" "ok len"
  shows "returns (fill off len check f p) (\<lambda>p'. length p' = length p \<and> f (take len (drop off p')) = 0 \<and>
    (\<forall>i. i \<noteq> off + check \<longrightarrow> i \<noteq> off + check + 1 \<longrightarrow> p' ! i = p ! i) \<and> take off p' = take off p)"
proof -
  let ?q = "take len (drop off p)" and ?p0 = "p[off + check := 0, off + check + 1 := 0]"
  let ?q0 = "?q[check := 0, check + 1 := 0]"
  have q: "length ?q = len" using assms(3) by simp
  have part: "take len (drop off (x[off + check := a, off + check + 1 := b])) = (take len (drop off x))[check := a, check + 1 := b]" for x a b
    by (simp add: drop_update_swap take_update_swap)
  define w where "w = f ?q0"
  let ?p' = "?p0[off + check := ucast w, off + check + 1 := ucast (drop_bit 8 w)]"
  have f: "f x = ip_checksum_fold (ip_checksum_partial x (start len))" if "length x = len" for x using folds [of x] assms(4) that by simp
  have f0: "w = ip_checksum_fold (ip_checksum_partial ?q0 (start len))" unfolding w_def using q by (intro f) simp
  have "put16 (off + check) 0 p = Some ?p0" using assms(2,3) by (simp add: put16_def)
  moreover have "slice off len ?p0 = Some ?q0" using assms(3) part [of p 0 0] by (simp add: slice_def)
  moreover have "put16 (off + check) w ?p0 = Some ?p'" using assms(2,3) by (simp add: put16_def)
  ultimately have r: "fill off len check f p = Some ?p'" by (simp add: fill_def w_def)
  have "take len (drop off ?p') = ?q0[check := ucast w, check + 1 := ucast (drop_bit 8 w)]"
    using part [of ?p0 "ucast w" "ucast (drop_bit 8 w)"] part [of p 0 0] by simp
  moreover have "ip_checksum_fold (ip_checksum_partial (?q0[check := ucast w, check + 1 := ucast (drop_bit 8 w)]) (start len)) = 0"
    unfolding f0 using assms q small [OF assms(4)] by (intro fill_verifies) auto
  ultimately have "f (take len (drop off ?p')) = 0" using f q by simp
  moreover have "take off ?p' = take off p" by simp
  ultimately show ?thesis unfolding r by simp
qed

end

interpretation header: checksum_function "\<lambda>n. n < 2 ^ 31" "\<lambda>_. 0" ipv4_checksum
  by unfold_locales (simp_all add: ipv4_checksum_def)

lemma partial_small: "unat (ip_checksum_partial p s) \<le> unat s + length p * 2 ^ 32"
proof (induction p s rule: ip_checksum_partial.induct)
  case (1 a b c d p s)
  have "unat (s + le32 a b c d) \<le> unat s + unat (le32 a b c d)" by (simp add: unat_word_ariths)
  then show ?case using 1 unat_le32 [of a b c d] by simp
next
  case (2 a b c s)
  have "unat (s + le16 a b + ucast c) \<le> unat s + unat (le16 a b) + unat (ucast c :: u64)"
    by (simp add: unat_word_ariths)
  then show ?case using unat_le16 [of a b] unat_byte [of c] by (simp add: unat_ucast_byte)
next
  case (3 a b s)
  have "unat (s + le16 a b) \<le> unat s + unat (le16 a b)" by (simp add: unat_word_ariths)
  then show ?case using unat_le16 [of a b] by simp
next
  case (4 a s)
  have "unat (s + ucast a) \<le> unat s + unat (ucast a :: u64)" by (simp add: unat_word_ariths)
  then show ?case using unat_byte [of a] by (simp add: unat_ucast_byte)
qed simp

lemma v4_header_small:
  assumes "length src = 4" "length dst = 4"
  shows "unat (tcp_udp_v4_header_checksum_partial src dst proto len) \<le> 12 * 2 ^ 32"
  unfolding tcp_udp_v4_header_checksum_partial_def
  using partial_small [of "src @ dst @ [0, proto, of_nat (len div 256), of_nat (len mod 256)]" 0] assms by simp

interpretation v4: checksum_function "\<lambda>n. n < 2 ^ 30 \<and> length src = 4 \<and> length dst = 4"
    "tcp_udp_v4_header_checksum_partial src dst proto" "tcp_udp_v4_checksum src dst proto" for src dst proto
proof unfold_locales
  fix n :: nat assume "n < 2 ^ 30 \<and> length src = 4 \<and> length dst = 4"
  then show "unat (tcp_udp_v4_header_checksum_partial src dst proto n) + n * 2 ^ 32 < 2 ^ 64"
    using v4_header_small [of src dst proto n] by simp
qed (simp add: tcp_udp_v4_checksum_def)

lemma v6_header_small:
  assumes "length src = 16" "length dst = 16"
  shows "unat (tcp_udp_v6_header_checksum_partial src dst proto len) \<le> 40 * 2 ^ 32"
  unfolding tcp_udp_v6_header_checksum_partial_def
  using partial_small [of "src @ dst @ [of_nat (len div 2 ^ 24), of_nat (len div 2 ^ 16), of_nat (len div 256), of_nat len] @ [0, 0, 0, proto]" 0] assms
  by simp

interpretation v6: checksum_function "\<lambda>n. n < 2 ^ 30 \<and> length src = 16 \<and> length dst = 16"
    "tcp_udp_v6_header_checksum_partial src dst proto" "tcp_udp_v6_checksum src dst proto" for src dst proto
proof unfold_locales
  fix n :: nat assume "n < 2 ^ 30 \<and> length src = 16 \<and> length dst = 16"
  then show "unat (tcp_udp_v6_header_checksum_partial src dst proto n) + n * 2 ^ 32 < 2 ^ 64"
    using v6_header_small [of src dst proto n] by simp
qed (simp add: tcp_udp_v6_checksum_def)

text \<open>Where the checksum of layer 4 is, and what a receiver computes over that layer.\<close>

definition check_offset :: "byte \<Rightarrow> nat" where
  "check_offset proto = (if proto = IPPROTO_TCP then 16 else if proto = IPPROTO_UDP then 6 else 2)"

definition l4_checksum :: "byte list \<Rightarrow> 16 word" where
  "l4_checksum p =
     (let hl = ipv4_header_len p
      in if ipv4_protocol p = IPPROTO_ICMP then ipv4_checksum (drop hl p)
         else tcp_udp_v4_checksum (ipv4_src p) (ipv4_dst p) (ipv4_protocol p) (drop hl p))"

text \<open>The fields of the header that filling in its checksum and bytes behind it leave alone.\<close>

definition same_header :: "byte list \<Rightarrow> byte list \<Rightarrow> bool" where
  "same_header p p' \<longleftrightarrow> length p' = length p \<and> (\<forall>i < 20. i \<noteq> 10 \<longrightarrow> i \<noteq> 11 \<longrightarrow> p' ! i = p ! i)"

lemma take_drop_nth_cong:
  assumes "length p' = length p" "\<And>i. k \<le> i \<Longrightarrow> i < k + n \<Longrightarrow> p' ! i = p ! i"
  shows "take n (drop k p') = take n (drop k p)"
  using assms by (intro nth_equalityI) auto

lemma same_header_fields:
  assumes "same_header p p'"
  shows "ipv4_header_len p' = ipv4_header_len p" "ipv4_tot_len p' = ipv4_tot_len p" "ipv4_protocol p' = ipv4_protocol p"
    "ipv4_src p' = ipv4_src p" "ipv4_dst p' = ipv4_dst p" "length p' = length p"
  using assms by (auto simp: same_header_def ipv4_header_len_def ipv4_tot_len_def ipv4_protocol_def ipv4_src_def ipv4_dst_def
      intro!: take_drop_nth_cong)

text \<open>An IPv4 packet whose length fields are right and whose layer 4 is one the code knows.\<close>

definition ipv4_ok :: "byte list \<Rightarrow> bool" where
  "ipv4_ok p \<longleftrightarrow> ipv4_version p = 4 \<and> 20 \<le> ipv4_header_len p \<and> ipv4_tot_len p = length p \<and>
     ipv4_protocol p \<in> {IPPROTO_TCP, IPPROTO_UDP, IPPROTO_ICMP} \<and>
     ipv4_header_len p + check_offset (ipv4_protocol p) + 2 \<le> length p"

definition check_bytes :: "byte list \<Rightarrow> nat set" where
  "check_bytes p = {10, 11, ipv4_header_len p + check_offset (ipv4_protocol p), ipv4_header_len p + check_offset (ipv4_protocol p) + 1}"

lemma checksum_packet_ok:
  assumes "ipv4_ok p"
  shows "returns (checksum_packet p) (\<lambda>p'. length p' = length p \<and> ipv4_checksum (take (ipv4_header_len p) p') = 0 \<and> l4_checksum p' = 0 \<and>
    (\<forall>i. i \<notin> check_bytes p \<longrightarrow> p' ! i = p ! i))"
proof -
  have a: "ipv4_version p = 4" "20 \<le> ipv4_header_len p" "ipv4_tot_len p = length p"
    "ipv4_protocol p \<in> {IPPROTO_TCP, IPPROTO_UDP, IPPROTO_ICMP}"
    "ipv4_header_len p + check_offset (ipv4_protocol p) + 2 \<le> length p" using assms by (auto simp: ipv4_ok_def)
  let ?hl = "ipv4_header_len p" and ?proto = "ipv4_protocol p" and ?co = "check_offset (ipv4_protocol p)"
  have small: "length p < 65536" unfolding a(3) [symmetric] ipv4_tot_len_def
    using unat_byte [of "p ! 2"] unat_byte [of "p ! 3"] by linarith
  have len: "20 \<le> length p" using a(2,5) by simp
  have "returns (fill 0 ?hl 10 ipv4_checksum p) (\<lambda>p'. length p' = length p \<and> ipv4_checksum (take ?hl (drop 0 p')) = 0 \<and>
      (\<forall>i. i \<noteq> 0 + 10 \<longrightarrow> i \<noteq> 0 + 10 + 1 \<longrightarrow> p' ! i = p ! i) \<and> take 0 p' = take 0 p)"
    using a(2,5) small by (intro header.fill_ok) auto
  then obtain p2 where p2: "fill 0 ?hl 10 ipv4_checksum p = Some p2" "length p2 = length p" "ipv4_checksum (take ?hl p2) = 0"
      "\<And>i. i \<noteq> 10 \<Longrightarrow> i \<noteq> 11 \<Longrightarrow> p2 ! i = p ! i"
    by (auto simp: returns_def)
  then have "same_header p p2" by (simp add: same_header_def)
  note h2 = same_header_fields [OF this]
  let ?len = "length p - ?hl"
  let ?f = "if ?proto = IPPROTO_ICMP then ipv4_checksum else tcp_udp_v4_checksum (ipv4_src p) (ipv4_dst p) ?proto"
  have l4: "ipv4_header_len p + check_offset ?proto + 2 \<le> length p2" "even ?co" "?len < 2 ^ 30"
    "length (ipv4_src p) = 4" "length (ipv4_dst p) = 4"
    using a(5) p2(2) small len by (auto simp: check_offset_def ipv4_src_def ipv4_dst_def)
  have "returns (fill ?hl ?len ?co ?f p2) (\<lambda>p'. length p' = length p2 \<and> ?f (take ?len (drop ?hl p')) = 0 \<and>
      (\<forall>i. i \<noteq> ?hl + ?co \<longrightarrow> i \<noteq> ?hl + ?co + 1 \<longrightarrow> p' ! i = p2 ! i) \<and> take ?hl p' = take ?hl p2)"
  proof (cases "?proto = IPPROTO_ICMP")
    case True
    then show ?thesis using l4 p2(2) header.fill_ok [of ?co ?len ?hl p2] by simp
  next
    case False
    then show ?thesis using l4 p2(2) v4.fill_ok [of ?co ?len ?hl p2 "ipv4_src p" "ipv4_dst p" ?proto] by simp
  qed
  then obtain p' where p': "fill ?hl ?len ?co ?f p2 = Some p'" "length p' = length p" "?f (take ?len (drop ?hl p')) = 0"
      "\<And>i. i \<noteq> ?hl + ?co \<Longrightarrow> i \<noteq> ?hl + ?co + 1 \<Longrightarrow> p' ! i = p2 ! i" "take ?hl p' = take ?hl p2"
    using p2(2) by (auto simp: returns_def)
  have "same_header p p'" using p'(2,4) p2(4) a(2) by (auto simp: same_header_def)
  note h' = same_header_fields [OF this]
  have "l4_checksum p' = 0" using p'(2,3) h' by (simp add: l4_checksum_def Let_def split: if_splits)
  moreover have "checksum_packet p = Some p'"
    using p2(1) p'(1) h2 a len small
    by (auto simp: checksum_packet_def checksum_ipv4_packet_def Let_def check_offset_def IPPROTO_TCP_def IPPROTO_UDP_def IPPROTO_ICMP_def
        of_nat_diff nat_diff_distrib)
  ultimately show ?thesis using p'(2,4,5) p2(3,4) by (simp add: check_bytes_def)
qed

text \<open>
  C33. A packet whose checksums have been filled in is accepted: for every IPv4 packet with TCP, UDP or ICMP whose
  length fields are right, the code returns, both the checksum a receiver computes over the IP header and the
  one over layer 4 are zero, and no byte outside the two checksum fields has changed.
\<close>

theorem checksum_packet_verifies:
  assumes "ipv4_ok p"
  shows "returns (checksum_packet p) (\<lambda>p'. length p' = length p \<and> ipv4_checksum (take (ipv4_header_len p) p') = 0 \<and> l4_checksum p' = 0 \<and>
    (\<forall>i. i \<notin> check_bytes p \<longrightarrow> p' ! i = p ! i))"
  using assms by (rule checksum_packet_ok)

definition sample_udp :: "byte list" where
  "sample_udp = [0x45, 0, 0, 31, 0, 7, 0, 0, 64, 17, 1, 2, 10, 0, 0, 1, 10, 0, 0, 2, 0, 53, 0, 54, 0, 11, 9, 9, 1, 2, 3]"

theorem checksum_packet_verifies_witness:
  "returns (checksum_packet sample_udp) (\<lambda>p'. length p' = 31 \<and> ipv4_checksum (take 20 p') = 0 \<and> l4_checksum p' = 0 \<and> p' ! 30 = 3)"
proof -
  have "ipv4_ok sample_udp" "ipv4_header_len sample_udp = 20" "30 \<notin> check_bytes sample_udp" "length sample_udp = 31" "sample_udp ! 30 = 3"
    by (simp_all add: ipv4_ok_def sample_udp_def ipv4_version_def ipv4_header_len_def ipv4_tot_len_def ipv4_protocol_def check_offset_def
      IPPROTO_TCP_def IPPROTO_UDP_def IPPROTO_ICMP_def check_bytes_def)
  then show ?thesis using checksum_packet_verifies [of sample_udp] by (auto simp: returns_def)
qed

text \<open>The same for IPv6, which has only the checksum of layer 4.\<close>

theorem checksum_ipv6_verifies:
  assumes "ipv4_version p = 6" "length p = 40 + ipv6_payload_len p" "ipv6_next_header p \<in> {IPPROTO_TCP, IPPROTO_UDP, IPPROTO_ICMPV6}"
    "check_offset (ipv6_next_header p) + 2 \<le> ipv6_payload_len p"
  shows "returns (checksum_packet p) (\<lambda>p'. tcp_udp_v6_checksum (ipv6_src p') (ipv6_dst p') (ipv6_next_header p') (drop 40 p') = 0 \<and> take 40 p' = take 40 p)"
proof -
  let ?proto = "ipv6_next_header p" and ?len = "ipv6_payload_len p"
  let ?f = "tcp_udp_v6_checksum (ipv6_src p) (ipv6_dst p) ?proto"
  have len: "?len < 65536" unfolding ipv6_payload_len_def using unat_byte [of "p ! 4"] unat_byte [of "p ! 5"] by linarith
  have "returns (fill 40 ?len (check_offset ?proto) ?f p) (\<lambda>p'. length p' = length p \<and> ?f (take ?len (drop 40 p')) = 0 \<and>
      (\<forall>i. i \<noteq> 40 + check_offset ?proto \<longrightarrow> i \<noteq> 40 + check_offset ?proto + 1 \<longrightarrow> p' ! i = p ! i) \<and> take 40 p' = take 40 p)"
    using len assms(2,4) by (intro v6.fill_ok) (auto simp: check_offset_def ipv6_src_def ipv6_dst_def)
  moreover have "checksum_packet p = fill 40 ?len (check_offset ?proto) ?f p"
    using assms by (auto simp: checksum_packet_def checksum_ipv6_packet_def check_offset_def Let_def IPPROTO_TCP_def IPPROTO_UDP_def IPPROTO_ICMPV6_def)
  ultimately obtain p' where p': "checksum_packet p = Some p'" "length p' = length p" "?f (take ?len (drop 40 p')) = 0" "take 40 p' = take 40 p"
    by (auto simp: returns_def)
  have "p' ! i = p ! i" if "i < 40" for i using p'(4) that by (metis nth_take)
  then have "ipv6_src p' = ipv6_src p" "ipv6_dst p' = ipv6_dst p" "ipv6_next_header p' = ?proto"
    using p'(2) by (auto simp: ipv6_src_def ipv6_dst_def ipv6_next_header_def intro!: take_drop_nth_cong)
  then show ?thesis using p' assms(2) by simp
qed

end
