(* ===== verification/IPPacket.thy ===== *)
theory IPPacket
  imports Checksum RouteTable
begin

text \<open>
  The accessors of a raw IP packet (src/src/packet/IPPacket.hpp) and what rewriting an address and filling in
  the checksums gives. \<open>inet_aton\<close>, which also reads forms that \<open>inet_pton\<close> rejects, is an argument: it returns
  the address with its first byte highest, or \<open>None\<close> for a text it does not accept.
\<close>

subsection \<open>The code\<close>

definition src_ip :: "byte list \<Rightarrow> string" where
  "src_ip p = inet_ntoa (bswap32 (of_nat (get32 (drop 12 p))))"

definition dest_ip :: "byte list \<Rightarrow> string" where
  "dest_ip p = inet_ntoa (bswap32 (of_nat (get32 (drop 16 p))))"

definition raw_src_ip :: "byte list \<Rightarrow> u32" where
  "raw_src_ip p = of_nat (get32 (drop 12 p))"

definition raw_dest_ip :: "byte list \<Rightarrow> u32" where
  "raw_dest_ip p = of_nat (get32 (drop 16 p))"

definition set_raw_src :: "u32 \<Rightarrow> byte list \<Rightarrow> byte list" where
  "set_raw_src ip p = take 12 p @ put32 (unat ip) @ drop 16 p"

definition set_raw_dest :: "u32 \<Rightarrow> byte list \<Rightarrow> byte list" where
  "set_raw_dest ip p = take 16 p @ put32 (unat ip) @ drop 20 p"

definition set_src_ip :: "(string \<Rightarrow> u32 option) \<Rightarrow> string \<Rightarrow> byte list \<Rightarrow> int \<times> byte list" where
  "set_src_ip inet_aton ip p = (case inet_aton ip of None \<Rightarrow> (0, p) | Some a \<Rightarrow> (1, set_raw_src (bswap32 a) p))"

definition set_dst_ip :: "(string \<Rightarrow> u32 option) \<Rightarrow> string \<Rightarrow> byte list \<Rightarrow> int \<times> byte list" where
  "set_dst_ip inet_aton ip p = (case inet_aton ip of None \<Rightarrow> (0, p) | Some a \<Rightarrow> (1, set_raw_dest (bswap32 a) p))"

definition icmpv4 :: "byte list \<Rightarrow> byte list" where
  "icmpv4 p = drop (ipv4_header_len p) p"

definition is_ip :: "byte list \<Rightarrow> bool" where
  "is_ip p \<longleftrightarrow> ipv4_version p = 4"

definition is_support_layer4 :: "byte list \<Rightarrow> bool" where
  "is_support_layer4 p \<longleftrightarrow> ipv4_protocol p = IPPROTO_ICMP \<or> ipv4_protocol p = IPPROTO_TCP \<or> ipv4_protocol p = IPPROTO_ICMP"

subsection \<open>Rewriting addresses\<close>

text \<open>UDP packets have a checksum and are not among the supported ones.\<close>

lemma udp_unsupported: "ipv4_protocol p = IPPROTO_UDP \<Longrightarrow> \<not> is_support_layer4 p"
  by (simp add: is_support_layer4_def IPPROTO_UDP_def IPPROTO_TCP_def IPPROTO_ICMP_def)

lemma length_set_raw [simp]:
  "20 \<le> length p \<Longrightarrow> length (set_raw_src ip p) = length p" "20 \<le> length p \<Longrightarrow> length (set_raw_dest ip p) = length p"
  by (simp_all add: set_raw_src_def set_raw_dest_def)

lemma set_raw_nth:
  assumes "20 \<le> length p"
  shows "i < 12 \<or> 16 \<le> i \<Longrightarrow> set_raw_src ip p ! i = p ! i" "i < 16 \<or> 20 \<le> i \<Longrightarrow> set_raw_dest ip p ! i = p ! i"
  using assms by (auto simp: set_raw_src_def set_raw_dest_def nth_append)

lemma raw_of_set:
  assumes "20 \<le> length p"
  shows "raw_src_ip (set_raw_src ip p) = ip" "raw_dest_ip (set_raw_dest ip p) = ip"
    "raw_dest_ip (set_raw_src ip p) = raw_dest_ip p" "raw_src_ip (set_raw_dest ip p) = raw_src_ip p"
proof -
  have g: "of_nat (get32 (put32 (unat ip) @ xs)) = ip" for xs
  proof -
    have "unat ip < 2 ^ 32" using unsigned_less [of ip] by simp
    then show ?thesis by (simp add: get32_put32)
  qed
  show "raw_src_ip (set_raw_src ip p) = ip" "raw_dest_ip (set_raw_dest ip p) = ip"
    using assms by (simp_all add: raw_src_ip_def raw_dest_ip_def set_raw_src_def set_raw_dest_def g)
  show "raw_dest_ip (set_raw_src ip p) = raw_dest_ip p" "raw_src_ip (set_raw_dest ip p) = raw_src_ip p"
    using assms by (simp_all add: raw_src_ip_def raw_dest_ip_def get32_def set_raw_nth)
qed

lemma ipv4_ok_set:
  assumes "ipv4_ok p"
  shows "ipv4_ok (set_raw_src ip p)" "ipv4_ok (set_raw_dest ip p)"
proof -
  have "20 \<le> length p" using assms by (auto simp: ipv4_ok_def)
  then show "ipv4_ok (set_raw_src ip p)" "ipv4_ok (set_raw_dest ip p)"
    using assms by (simp_all add: ipv4_ok_def ipv4_version_def ipv4_header_len_def ipv4_tot_len_def ipv4_protocol_def set_raw_nth)
qed

lemma raw_same:
  assumes "ipv4_ok p" "length p' = length p" "\<And>i. i \<notin> check_bytes p \<Longrightarrow> p' ! i = p ! i"
  shows "raw_src_ip p' = raw_src_ip p" "raw_dest_ip p' = raw_dest_ip p"
proof -
  have "20 \<le> ipv4_header_len p" "20 \<le> length p" using assms(1) by (auto simp: ipv4_ok_def)
  then have "p' ! i = p ! i" if "12 \<le> i" "i < 20" for i using that by (intro assms(3)) (auto simp: check_bytes_def)
  then show "raw_src_ip p' = raw_src_ip p" "raw_dest_ip p' = raw_dest_ip p"
    using assms(2) \<open>20 \<le> length p\<close> by (simp_all add: raw_src_ip_def raw_dest_ip_def get32_def)
qed

text \<open>
  Rewriting the destination: an address written into a correct packet as text is what the packet then
  reports, the source stays, and after the checksums have been filled in a receiver accepts the packet. The library's
  \<open>inet_aton\<close> need only read what \<open>inet_pton\<close> reads.
\<close>

theorem rewritten_packet_accepted:
  assumes "ipv4_ok p" "\<forall>s a. inet_pton s = Some a \<longrightarrow> inet_aton s = Some a"
  shows "case set_dst_ip inet_aton (inet_ntoa x) p of (r, q) \<Rightarrow> r = 1 \<and>
    returns (checksum_packet q) (\<lambda>p'. dest_ip p' = inet_ntoa x \<and> src_ip p' = src_ip p \<and>
      ipv4_checksum (take (ipv4_header_len p') p') = 0 \<and> l4_checksum p' = 0)"
proof -
  let ?q = "set_raw_dest (bswap32 x) p"
  have len: "20 \<le> length p" using assms(1) by (auto simp: ipv4_ok_def)
  have s: "set_dst_ip inet_aton (inet_ntoa x) p = (1, ?q)" using assms(2) by (simp add: set_dst_ip_def inet_roundtrip)
  have q: "ipv4_ok ?q" using assms(1) by (rule ipv4_ok_set)
  obtain p' where p': "checksum_packet ?q = Some p'" "length p' = length ?q" "ipv4_checksum (take (ipv4_header_len ?q) p') = 0"
      "l4_checksum p' = 0" "\<And>i. i \<notin> check_bytes ?q \<Longrightarrow> p' ! i = ?q ! i"
    using checksum_packet_ok [OF q] by (auto simp: returns_def)
  have "20 \<le> ipv4_header_len ?q" using q by (simp add: ipv4_ok_def)
  then have "ipv4_header_len p' = ipv4_header_len ?q" using p'(5) [of 0] by (auto simp: ipv4_header_len_def check_bytes_def)
  moreover have "raw_dest_ip p' = bswap32 x" "raw_src_ip p' = raw_src_ip p"
    using raw_same [OF q p'(2,5)] raw_of_set [OF len, of "bswap32 x"] by auto
  ultimately show ?thesis using s p'
    by (simp add: dest_ip_def src_ip_def raw_dest_ip_def raw_src_ip_def bswap32_bswap32)
qed

theorem rewritten_packet_accepted_witness:
  "returns (checksum_packet (snd (set_dst_ip inet_pton (inet_ntoa 0x0a000009) sample_udp))) (\<lambda>p'. dest_ip p' = inet_ntoa 0x0a000009)"
proof -
  have "ipv4_ok sample_udp"
    by (simp add: ipv4_ok_def sample_udp_def ipv4_version_def ipv4_header_len_def ipv4_tot_len_def ipv4_protocol_def check_offset_def
      IPPROTO_TCP_def IPPROTO_UDP_def IPPROTO_ICMP_def)
  then show ?thesis using rewritten_packet_accepted [of sample_udp inet_pton "0x0a000009"] by (auto simp: returns_def split: prod.splits)
qed

end
