(* ===== verification/Apps.thy ===== *)
theory Apps
  imports Prelude
begin

text \<open>
  The two small applications on the socket interface (src/app/pingpong/PingPongServer.cpp and
  src/app/buffersend/BufferSend.cpp): a client that pings and waits, a client that keeps a number of requests under
  way, and their servers. What a socket returns is an argument, a list of outcomes of \<open>recv\<close>; what is
  sent is a result. \<open>None\<close> is undefined behaviour.
\<close>

definition id_size :: nat where "id_size = 128"

text \<open>The C string in the first field of a message; a buffer without an end of string is read past its end.\<close>

definition msg_id :: "byte list \<Rightarrow> byte list option" where
  "msg_id buf = (if 0 \<in> set buf then Some (takeWhile (\<lambda>b. b \<noteq> 0) buf) else None)"

definition set_id :: "byte list \<Rightarrow> byte list option" where
  "set_id key = (if length key < id_size then Some key else None)"

subsection \<open>The ping-pong server\<close>

text \<open>
  One turn of the loop on the result of \<open>recv\<close>, with what the buffer holds after it. The outcome is the message
  sent back, and whether the loop goes on.
\<close>

definition pingpong_turn :: "byte list \<Rightarrow> int \<Rightarrow> byte list \<Rightarrow> (byte list option \<times> bool) option" where
  "pingpong_turn key len buf =
     (if len < 0 then Some (None, False)
      else do {
        ident \<leftarrow> msg_id buf;
        if int (length buf) < len then None
        else if ident = key then Some (Some (take (nat len) buf), True)
        else Some (Some (take (nat len) buf), True) })"

subsection \<open>The ping-pong client\<close>

text \<open>
  Outcomes of \<open>recv\<close>: a timeout, an error, or a message with the index it carries and the time. Times are the
  nanoseconds of \<open>steady_clock\<close>, which never goes back; sums of round trips are far below \<open>2 ^ 64\<close>.
\<close>

datatype recv_event = Timeout | Invalid | Pong u32 int

record ping_client =
  pc_idx :: u64
  pc_i :: int
  pc_ii :: int
  pc_running :: bool
  pc_timestamp :: "u32 \<Rightarrow> int option"
  pc_total_time_ms :: int
  pc_sent :: "u32 list"

definition ping_init :: ping_client where
  "ping_init = \<lparr>pc_idx = 1, pc_i = 0, pc_ii = 0, pc_running = True, pc_timestamp = (\<lambda>_. None), pc_total_time_ms = 0, pc_sent = []\<rparr>"

definition duration_ms :: "int \<Rightarrow> int" where
  "duration_ms ns = ns div 1000000"

definition ping_send :: "(nat \<Rightarrow> int) \<Rightarrow> ping_client \<Rightarrow> ping_client" where
  "ping_send clock c =
     c\<lparr>pc_timestamp := (pc_timestamp c)(ucast (pc_idx c) \<mapsto> clock (length (pc_sent c))), pc_sent := pc_sent c @ [ucast (pc_idx c)]\<rparr>"

text \<open>The innermost loop; \<open>None\<close> with the state while it waits for \<open>recv\<close>.\<close>

fun ping_wait :: "recv_event list \<Rightarrow> ping_client \<Rightarrow> ping_client \<times> recv_event list option" where
  "ping_wait [] c = (c, None)"
| "ping_wait (Timeout # es) c = (c\<lparr>pc_idx := pc_idx c + 1\<rparr>, Some es)"
| "ping_wait (Invalid # es) c = (c\<lparr>pc_running := False\<rparr>, Some es)"
| "ping_wait (Pong k now # es) c =
     (if ucast k \<ge> pc_idx c - 1
      then let c' = c\<lparr>pc_idx := pc_idx c + 1, pc_i := pc_i c + 1\<rparr>
        in (case pc_timestamp c k of
              None \<Rightarrow> c'
            | Some t \<Rightarrow> c'\<lparr>pc_total_time_ms := pc_total_time_ms c + duration_ms (now - t), pc_ii := pc_ii c + 1\<rparr>, Some es)
      else ping_wait es (c\<lparr>pc_i := pc_i c + 1\<rparr>))"

lemma ping_wait_shorter: "ping_wait es c = (c', Some es') \<Longrightarrow> length es' < length es"
  by (induction es c rule: ping_wait.induct) (auto simp: Let_def split: if_splits)

text \<open>The middle loop, a batch of \<open>n\<close> replies.\<close>

function ping_batch :: "(nat \<Rightarrow> int) \<Rightarrow> int \<Rightarrow> recv_event list \<Rightarrow> ping_client \<Rightarrow> ping_client \<times> recv_event list option" where
  "ping_batch clock n es c =
     (case ping_wait es (ping_send clock c) of
        (c', None) \<Rightarrow> (c', None)
      | (c', Some es') \<Rightarrow> if pc_i c' \<ge> n then (c', Some es') else ping_batch clock n es' c')"
  by auto
termination by (relation "measure (\<lambda>(clock, n, es, c). length es)") (auto dest: ping_wait_shorter [OF sym])

declare ping_batch.simps [simp del]

lemma ping_batch_shorter: "ping_batch clock n es c = (c', Some es') \<Longrightarrow> length es' < length es"
proof (induction clock n es c rule: ping_batch.induct)
  case (1 clock n es c)
  obtain c1 r where w: "ping_wait es (ping_send clock c) = (c1, r)" by fastforce
  show ?case
  proof (cases r)
    case None then show ?thesis using "1.prems" w by (subst (asm) ping_batch.simps) simp
  next
    case (Some es1)
    have l: "length es1 < length es" using ping_wait_shorter w Some by blast
    show ?thesis
    proof (cases "pc_i c1 \<ge> n")
      case True then show ?thesis using "1.prems" w Some l by (subst (asm) ping_batch.simps) simp
    next
      case False
      then have "ping_batch clock n es1 c1 = (c', Some es')" using "1.prems" w Some by (subst (asm) ping_batch.simps) simp
      then show ?thesis using "1.IH" [OF w [symmetric]] Some False l by fastforce
    qed
  qed
qed

text \<open>
  The outer loop: the averages that are logged, and whether the client has closed its socket. The counters of a
  batch start from zero; a batch without a timed reply divides by zero.
\<close>

function ping_loop :: "(nat \<Rightarrow> int) \<Rightarrow> int \<Rightarrow> recv_event list \<Rightarrow> ping_client \<Rightarrow> (int list \<times> bool) option" where
  "ping_loop clock n es c =
     (case ping_batch clock n es (c\<lparr>pc_total_time_ms := 0, pc_i := 0, pc_ii := 0\<rparr>) of
        (c', None) \<Rightarrow> Some ([], False)
      | (c', Some es') \<Rightarrow>
          if \<not> pc_running c' then Some ([], True)
          else if pc_ii c' = 0 then None
          else do {
            (ls, closed) \<leftarrow> ping_loop clock n es' c';
            Some (pc_total_time_ms c' div pc_ii c' # ls, closed) })"
  by auto
termination by (relation "measure (\<lambda>(clock, n, es, c). length es)") (auto dest: ping_batch_shorter [OF sym])

declare ping_loop.simps [simp del]

subsection \<open>The buffer application\<close>

text \<open>One turn of the server: a reply of 500 bytes, or none to a wrong key.\<close>

definition buffersend_turn :: "byte list \<Rightarrow> int \<Rightarrow> byte list \<Rightarrow> (byte list option \<times> bool) option" where
  "buffersend_turn key len buf =
     (if len \<le> 0 then Some (None, False)
      else do {
        ident \<leftarrow> msg_id buf;
        if ident = key then if length buf < 500 then None else Some (Some (take 500 buf), True)
        else Some (None, True) })"

text \<open>The client on the return values of \<open>recv\<close>: requests sent, batches completed, whether it has closed.\<close>

record fetch_client =
  fc_recv_count :: int
  fc_sent :: nat
  fc_batches :: nat
  fc_closed :: bool

definition fetch_init :: "int \<Rightarrow> fetch_client" where
  "fetch_init n = \<lparr>fc_recv_count = 0, fc_sent = nat n, fc_batches = 0, fc_closed = False\<rparr>"

fun fetch_loop :: "int \<Rightarrow> int list \<Rightarrow> fetch_client \<Rightarrow> fetch_client" where
  "fetch_loop n [] c = c"
| "fetch_loop n (len # ls) c =
     (if len = 0 then fetch_loop n ls (c\<lparr>fc_sent := fc_sent c + 1\<rparr>)
      else if len < 0 then c\<lparr>fc_closed := True\<rparr>
      else let c' = c\<lparr>fc_recv_count := fc_recv_count c + 1, fc_sent := fc_sent c + 1\<rparr>
        in fetch_loop n ls (if fc_recv_count c' = n then c'\<lparr>fc_recv_count := 0, fc_batches := fc_batches c + 1\<rparr> else c'))"

subsection \<open>Properties\<close>

text \<open>The replies of a server that returns every ping, the \<open>j\<close>-th at time \<open>t j\<close>.\<close>

definition echoes :: "(nat \<Rightarrow> int) \<Rightarrow> nat \<Rightarrow> nat \<Rightarrow> recv_event list" where
  "echoes t m n = map (\<lambda>j. Pong (of_nat (j + 1)) (t j)) [m..<n]"

lemma ping_echo_step:
  assumes "pc_idx c = of_nat (m + 1)" "length (pc_sent c) = m" "m < 2 ^ 32 - 1"
  shows "ping_wait (Pong (of_nat (m + 1)) now # es) (ping_send clock c) =
    (c\<lparr>pc_idx := of_nat (m + 2), pc_i := pc_i c + 1, pc_ii := pc_ii c + 1, pc_total_time_ms := pc_total_time_ms c + duration_ms (now - clock m),
       pc_timestamp := (pc_timestamp c)(of_nat (m + 1) \<mapsto> clock m), pc_sent := pc_sent c @ [of_nat (m + 1)]\<rparr>, Some es)"
proof -
  have u: "ucast (of_nat (m + 1) :: u64) = (of_nat (m + 1) :: u32)" "ucast (of_nat (m + 1) :: u32) = (of_nat (m + 1) :: u64)"
    using assms(3) by (simp_all add: unsigned_of_nat take_bit_nat_eq_self del: of_nat_add of_nat_Suc)
  have "unat (of_nat (m + 1) :: u64) = m + 1" using assms(3) by (simp add: unsigned_of_nat take_bit_nat_eq_self del: of_nat_add of_nat_Suc)
  then have le: "(of_nat (m + 1) :: u64) - 1 \<le> of_nat (m + 1)" unfolding word_le_nat_alt
    using unat_minus_one [of "of_nat (m + 1) :: u64"] by (cases "(of_nat (m + 1) :: u64) = 0") (simp_all del: of_nat_add of_nat_Suc)
  have n2: "(of_nat (m + 1) :: u64) + 1 = of_nat (m + 2)" by simp
  show ?thesis
    using assms u le n2 by (simp add: ping_send_def Let_def del: of_nat_add of_nat_Suc)
qed

lemma ping_batch_echoes:
  assumes "pc_idx c = of_nat (m + 1)" "length (pc_sent c) = m" "pc_i c = int m" "m < n" "n < 2 ^ 32"
  shows "\<exists>c'. ping_batch clock (int n) (echoes t m n) c = (c', Some []) \<and> pc_sent c' = pc_sent c @ map of_nat [m + 1..<n + 1] \<and>
    pc_ii c' = pc_ii c + int (n - m) \<and> pc_running c' = pc_running c \<and>
    pc_total_time_ms c' = pc_total_time_ms c + sum_list (map (\<lambda>j. duration_ms (t j - clock j)) [m..<n])"
  using assms
proof (induction "n - m" arbitrary: m c)
  case (Suc d)
  let ?c = "c\<lparr>pc_idx := of_nat (m + 2), pc_i := pc_i c + 1, pc_ii := pc_ii c + 1, pc_total_time_ms := pc_total_time_ms c + duration_ms (t m - clock m),
       pc_timestamp := (pc_timestamp c)(of_nat (m + 1) \<mapsto> clock m), pc_sent := pc_sent c @ [of_nat (m + 1)]\<rparr>"
  have e: "echoes t m n = Pong (of_nat (m + 1)) (t m) # echoes t (Suc m) n"
    using Suc.prems(4) by (simp add: echoes_def upt_conv_Cons)
  have w: "ping_wait (echoes t m n) (ping_send clock c) = (?c, Some (echoes t (Suc m) n))"
    unfolding e using Suc.prems by (intro ping_echo_step) auto
  show ?case
  proof (cases "Suc m = n")
    case True
    then have "ping_batch clock (int n) (echoes t m n) c = (?c, Some [])"
      unfolding ping_batch.simps [of clock "int n" "echoes t m n" c] w using Suc.prems(3) by (simp add: echoes_def)
    then show ?thesis using True by (intro exI [of _ ?c]) (auto simp: upt_conv_Cons)
  next
    case False
    then have b: "ping_batch clock (int n) (echoes t m n) c = ping_batch clock (int n) (echoes t (Suc m) n) ?c"
      unfolding ping_batch.simps [of clock "int n" "echoes t m n" c] w using Suc.prems(3,4) by simp
    have "\<exists>c'. ping_batch clock (int n) (echoes t (Suc m) n) ?c = (c', Some []) \<and> pc_sent c' = pc_sent ?c @ map of_nat [Suc m + 1..<n + 1] \<and>
        pc_ii c' = pc_ii ?c + int (n - Suc m) \<and> pc_running c' = pc_running ?c \<and>
        pc_total_time_ms c' = pc_total_time_ms ?c + sum_list (map (\<lambda>j. duration_ms (t j - clock j)) [Suc m..<n])"
      using Suc.hyps(2) Suc.prems False by (intro Suc.hyps(1)) auto
    then obtain c' where c': "ping_batch clock (int n) (echoes t (Suc m) n) ?c = (c', Some [])" "pc_sent c' = pc_sent ?c @ map of_nat [Suc m + 1..<n + 1]"
        "pc_ii c' = pc_ii ?c + int (n - Suc m)" "pc_running c' = pc_running ?c"
        "pc_total_time_ms c' = pc_total_time_ms ?c + sum_list (map (\<lambda>j. duration_ms (t j - clock j)) [Suc m..<n])"
      by blast
    have u: "[m + 1..<n + 1] = (m + 1) # [Suc m + 1..<n + 1]" "[m..<n] = m # [Suc m..<n]"
      using Suc.prems(4) by (simp_all add: upt_conv_Cons del: upt_Suc)
    show ?thesis unfolding b u using c' Suc.prems(4) by (intro exI [of _ c']) (simp del: upt_Suc)
  qed
qed simp

text \<open>
  Ping-pong measures round trips: when every ping is returned, a batch of \<open>n\<close> sends the pings 1 to \<open>n\<close>, each
  after the reply to the one before, and logs the average of the \<open>n\<close> round trip times.
\<close>

theorem pingpong_measures:
  assumes "0 < n" "n < 2 ^ 32"
  shows "(\<exists>c'. ping_batch clock (int n) (echoes t 0 n) ping_init = (c', Some []) \<and> pc_sent c' = map of_nat [1..<n + 1]) \<and>
    ping_loop clock (int n) (echoes t 0 n) ping_init =
      Some ([sum_list (map (\<lambda>j. duration_ms (t j - clock j)) [0..<n]) div int n], False)"
proof -
  obtain c' where c: "ping_batch clock (int n) (echoes t 0 n) ping_init = (c', Some [])" "pc_sent c' = map of_nat [1..<n + 1]"
      "pc_ii c' = int n" "pc_running c'" "pc_total_time_ms c' = sum_list (map (\<lambda>j. duration_ms (t j - clock j)) [0..<n])"
    using ping_batch_echoes [of ping_init 0 n clock t] assms by (auto simp: ping_init_def)
  have "ping_batch clock k [] c = (ping_send clock c, None)" for k c by (subst ping_batch.simps) simp
  then have "ping_loop clock (int n) [] c' = Some ([], False)" by (subst ping_loop.simps) simp
  moreover have "ping_init\<lparr>pc_total_time_ms := 0, pc_i := 0, pc_ii := 0\<rparr> = ping_init" by (simp add: ping_init_def)
  ultimately have "ping_loop clock (int n) (echoes t 0 n) ping_init =
      Some ([sum_list (map (\<lambda>j. duration_ms (t j - clock j)) [0..<n]) div int n], False)"
    using c assms(1) by (subst ping_loop.simps) simp
  then show ?thesis using c(1,2) by blast
qed

theorem pingpong_measures_witness:
  "ping_loop (\<lambda>j. 5000000 * int j) 2 [Pong 1 3000000, Pong 2 10000000] ping_init = Some ([4], False)"
  using pingpong_measures [of 2 "\<lambda>j. 5000000 * int j" "\<lambda>j. if j = 0 then 3000000 else 10000000"]
  by (simp add: echoes_def duration_ms_def upt_rec)

text \<open>
  On an invalid connection the client does not stop: while its batch is not complete it sends again after
  every error.
\<close>

theorem ping_never_gives_up:
  assumes "pc_i c < n"
  shows "\<exists>c'. ping_batch clock n (replicate k Invalid) c = (c', None) \<and> length (pc_sent c') = length (pc_sent c) + k + 1"
  using assms
proof (induction k arbitrary: c)
  case 0 then show ?case by (subst ping_batch.simps) (simp add: ping_send_def)
next
  case (Suc k)
  let ?c = "(ping_send clock c)\<lparr>pc_running := False\<rparr>"
  have "ping_batch clock n (replicate (Suc k) Invalid) c = ping_batch clock n (replicate k Invalid) ?c"
    using Suc.prems by (subst ping_batch.simps) (simp add: ping_send_def)
  moreover have "pc_i ?c < n" "length (pc_sent ?c) = length (pc_sent c) + 1" using Suc.prems by (simp_all add: ping_send_def)
  ultimately show ?case using Suc.IH [of ?c] by auto
qed

text \<open>A reply with an index that was not sent yet counts as one, and a batch of nothing else divides by zero.\<close>

theorem ping_future_reply_crashes: "ping_loop clock 1 [Pong 7 now] ping_init = None"
proof -
  have "ping_batch clock 1 [Pong 7 now] (ping_init\<lparr>pc_total_time_ms := 0, pc_i := 0, pc_ii := 0\<rparr>) =
      ((ping_send clock ping_init)\<lparr>pc_idx := 2, pc_i := 1\<rparr>, Some [])"
    by (subst ping_batch.simps) (simp add: ping_send_def ping_init_def Let_def)
  then show ?thesis by (subst ping_loop.simps) (simp add: ping_send_def ping_init_def)
qed

text \<open>The buffer client: one request per answer and per timeout, so as many as at first stay under way.\<close>

theorem fetch_window:
  assumes "0 < n" "\<forall>l \<in> set ls. 0 \<le> l" "0 \<le> fc_recv_count c" "fc_recv_count c < n"
  shows "fc_sent (fetch_loop n ls c) = fc_sent c + length ls \<and> \<not> fc_closed (fetch_loop n ls c) = (\<not> fc_closed c) \<and>
    int (fc_batches (fetch_loop n ls c)) * n + fc_recv_count (fetch_loop n ls c) =
      int (fc_batches c) * n + fc_recv_count c + int (length (filter (\<lambda>l. 0 < l) ls))"
  using assms
proof (induction ls arbitrary: c)
  case (Cons l ls)
  consider "l = 0" | "0 < l" "fc_recv_count c + 1 = n" | "0 < l" "fc_recv_count c + 1 < n" using Cons.prems by fastforce
  then show ?case
  proof cases
    case 1 then show ?thesis using Cons.IH [of "c\<lparr>fc_sent := fc_sent c + 1\<rparr>"] Cons.prems by simp
  next
    case 2
    then show ?thesis using Cons.IH [of "c\<lparr>fc_sent := fc_sent c + 1, fc_recv_count := 0, fc_batches := fc_batches c + 1\<rparr>"] Cons.prems
      by (auto simp: algebra_simps)
  next
    case 3
    then show ?thesis using Cons.IH [of "c\<lparr>fc_recv_count := fc_recv_count c + 1, fc_sent := fc_sent c + 1\<rparr>"] Cons.prems
      by (simp add: Let_def)
  qed
qed simp

end
