(* ===== verification/Wire.thy ===== *)
theory Wire
  imports Packet
begin

text \<open>
  The bytes of a packet: the layout of \<open>anonymous_header_t\<close> in the buffer of src/src/packet/AnonymousPacket.hpp, with the
  sizes, alignments and byte order of x86-64, what \<open>sendto\<close> transmits of it and what \<open>header()\<close> and \<open>payload()\<close> read from
  the buffer \<open>recvfrom\<close> fills. The theories on relays use the packet as a record; here the two views are proved to
  agree.
\<close>

subsection \<open>Members of the header\<close>

text \<open>Numbers with their low byte first.\<close>

fun le_bytes :: "nat \<Rightarrow> nat \<Rightarrow> byte list" where
  "le_bytes 0 n = []"
| "le_bytes (Suc k) n = of_nat (n mod 256) # le_bytes k (n div 256)"

fun le_nat :: "byte list \<Rightarrow> nat" where
  "le_nat [] = 0"
| "le_nat (b # bs) = unat b + 256 * le_nat bs"

definition put_u64 :: "u64 \<Rightarrow> byte list" where "put_u64 x = le_bytes 8 (unat x)"
definition get_u64 :: "byte list \<Rightarrow> u64" where "get_u64 bs = of_nat (le_nat bs)"
definition put_int :: "int \<Rightarrow> byte list" where "put_int x = le_bytes 4 (unat (word_of_int x :: u32))"
definition get_int :: "byte list \<Rightarrow> int" where "get_int bs = sint (of_nat (le_nat bs) :: u32)"
definition put_bool :: "bool \<Rightarrow> byte list" where "put_bool b = [if b then 1 else 0]"
definition get_bool :: "byte list \<Rightarrow> bool" where "get_bool bs = (hd bs \<noteq> 0)"

text \<open>C strings: \<open>strncpy\<close> of \<open>strlen + 1\<close> bytes leaves what lies behind the terminator.\<close>

definition put_str :: "string \<Rightarrow> byte list" where "put_str s = map (\<lambda>c. of_nat (of_char c)) s @ [0]"
definition get_str :: "byte list \<Rightarrow> string" where "get_str bs = map (\<lambda>b. char_of (unat b)) (takeWhile (\<lambda>b. b \<noteq> 0) bs)"

definition nul_free :: "string \<Rightarrow> bool" where "nul_free s \<longleftrightarrow> (\<forall>c \<in> set s. of_char c \<noteq> (0 :: nat))"

subsection \<open>The buffer\<close>

definition store :: "nat \<Rightarrow> byte list \<Rightarrow> byte list \<Rightarrow> byte list" where
  "store off bs buf = take off buf @ bs @ drop (off + length bs) buf"

definition load :: "byte list \<Rightarrow> nat \<Rightarrow> nat \<Rightarrow> byte list" where
  "load buf off n = take n (drop off buf)"

text \<open>The offsets of the members; the last one is the payload behind the header.\<close>

definition layout :: "anonymous_packet \<Rightarrow> (nat \<times> byte list) list" where
  "layout p =
     [(0, put_u64 (h_id p)), (8, put_int (h_size p)), (16, put_u64 (h_relay_id p)), (24, put_str (h_relay_ip p)),
      (48, put_u64 (h_relay_dest_id p)), (56, put_str (h_relay_dest_ip p)), (76, put_int (h_relay_dest_port p)),
      (80, put_u64 (h_relay_reply_id p)), (88, put_str (h_relay_reply_ip p)), (108, put_int (h_relay_reply_port p)),
      (112, put_u64 (h_key_id p)), (120, put_str (h_key_ip p)), (140, put_int (h_key_port p)),
      (144, put_int (h_index p)), (148, put_bool (h_msg_type p)), (149, put_bool (h_is_dest p)),
      (152, put_int (h_session_id p)), (sizeof_header, p_body p)]"

text \<open>The buffer of a packet, in memory that held \<open>buf\<close> before.\<close>

definition packet_bytes :: "byte list \<Rightarrow> anonymous_packet \<Rightarrow> byte list" where
  "packet_bytes buf p = fold (\<lambda>(off, bs). store off bs) (layout p) buf"

text \<open>What \<open>sendto\<close> transmits, and what is in a buffer that held \<open>buf\<close> after \<open>recvfrom\<close>.\<close>

definition sendto_bytes :: "byte list \<Rightarrow> anonymous_packet \<Rightarrow> byte list" where
  "sendto_bytes buf p = take (nat (total_size p)) (packet_bytes buf p)"

definition recvfrom_bytes :: "byte list \<Rightarrow> byte list \<Rightarrow> byte list" where
  "recvfrom_bytes buf bs = bs @ drop (length bs) buf"

text \<open>What the accessors read.\<close>

definition read_packet :: "byte list \<Rightarrow> anonymous_packet" where
  "read_packet buf =
     \<lparr>h_id = get_u64 (load buf 0 8), h_size = get_int (load buf 8 4), h_relay_id = get_u64 (load buf 16 8),
      h_relay_ip = get_str (drop 24 buf), h_relay_dest_id = get_u64 (load buf 48 8), h_relay_dest_ip = get_str (drop 56 buf),
      h_relay_dest_port = get_int (load buf 76 4), h_relay_reply_id = get_u64 (load buf 80 8),
      h_relay_reply_ip = get_str (drop 88 buf), h_relay_reply_port = get_int (load buf 108 4),
      h_key_id = get_u64 (load buf 112 8), h_key_ip = get_str (drop 120 buf), h_key_port = get_int (load buf 140 4),
      h_index = get_int (load buf 144 4), h_msg_type = get_bool (load buf 148 1), h_is_dest = get_bool (load buf 149 1),
      h_session_id = get_int (load buf 152 4), p_body = drop sizeof_header buf\<rparr>"

subsection \<open>Members survive\<close>

lemma length_le_bytes [simp]: "length (le_bytes k n) = k"
  by (induction k arbitrary: n) auto

lemma le_nat_bytes: "n < 256 ^ k \<Longrightarrow> le_nat (le_bytes k n) = n"
proof (induction k arbitrary: n)
  case (Suc k)
  have "unat (of_nat (n mod 256) :: byte) = n mod 256" by (simp add: unsigned_of_nat take_bit_eq_mod)
  moreover have "le_nat (le_bytes k (n div 256)) = n div 256" using Suc by (intro Suc.IH) (simp add: less_mult_imp_div_less mult.commute)
  ultimately show ?case by simp
qed simp

definition int_ok :: "int \<Rightarrow> bool" where "int_ok x \<longleftrightarrow> - (2 ^ 31) \<le> x \<and> x < 2 ^ 31"

lemma put_lengths [simp]:
  "length (put_u64 x) = 8" "length (put_int i) = 4" "length (put_bool b) = 1" "length (put_str s) = length s + 1"
  by (simp_all add: put_u64_def put_int_def put_bool_def put_str_def)

lemma get_put_u64: "get_u64 (put_u64 x) = x"
proof -
  have "unat x < 256 ^ 8" using unsigned_less [of x] by simp
  then show ?thesis by (simp add: get_u64_def put_u64_def le_nat_bytes)
qed

lemma get_put_int: "int_ok x \<Longrightarrow> get_int (put_int x) = x"
proof -
  assume "int_ok x"
  have "unat (word_of_int x :: u32) < 256 ^ 4" using unsigned_less [of "word_of_int x :: u32"] by simp
  then have "get_int (put_int x) = sint (word_of_int x :: u32)" by (simp add: get_int_def put_int_def le_nat_bytes)
  also have "\<dots> = x" using \<open>int_ok x\<close> by (simp add: int_ok_def sint_uint unsigned_of_int signed_take_bit_take_bit signed_take_bit_int_eq_self)
  finally show ?thesis .
qed

lemma get_put_bool: "get_bool (put_bool b) = b"
  by (simp add: get_bool_def put_bool_def)

lemma byte_char: "unat (of_nat (of_char c) :: byte) = of_char c"
proof -
  have "of_char c < (256 :: nat)" by (rule nat_of_char_less_256)
  then show ?thesis by (simp add: unsigned_of_nat take_bit_nat_eq_self)
qed

lemma get_put_str:
  assumes "nul_free s"
  shows "get_str (put_str s @ rest) = s"
proof -
  have nz: "(of_nat (of_char c) :: byte) \<noteq> 0" if "c \<in> set s" for c
    using that assms byte_char [of c] unfolding nul_free_def by (metis unsigned_0)
  have "takeWhile (\<lambda>b. b \<noteq> 0) (map (\<lambda>c. of_nat (of_char c)) s @ 0 # rest) = (map (\<lambda>c. of_nat (of_char c)) s :: byte list)"
    using nz by (induction s) auto
  then show ?thesis by (simp add: get_str_def put_str_def byte_char comp_def)
qed

subsection \<open>The layout has no overlap\<close>

lemma length_store: "off + length bs \<le> length buf \<Longrightarrow> length (store off bs buf) = length buf"
  by (simp add: store_def)

lemma drop_store: "off + length bs \<le> length buf \<Longrightarrow> drop off (store off bs buf) = bs @ drop (off + length bs) buf"
  by (simp add: store_def)

lemma load_store: "off + length bs \<le> length buf \<Longrightarrow> load (store off bs buf) off (length bs) = bs"
  by (simp add: load_def drop_store)

lemma take_store: "k \<le> off \<Longrightarrow> off \<le> length buf \<Longrightarrow> take k (store off bs buf) = take k buf"
  by (simp add: store_def min_absorb1)

text \<open>Members at ascending offsets, from \<open>lo\<close> on.\<close>

fun ascending :: "nat \<Rightarrow> (nat \<times> byte list) list \<Rightarrow> nat \<Rightarrow> bool" where
  "ascending lo [] hi \<longleftrightarrow> lo \<le> hi"
| "ascending lo ((off, bs) # ms) hi \<longleftrightarrow> lo \<le> off \<and> ascending (off + length bs) ms hi"

lemma ascending_le: "ascending lo ms hi \<Longrightarrow> lo \<le> hi"
  by (induction lo ms hi rule: ascending.induct) auto

lemma take_stores:
  "ascending lo ms (length buf) \<Longrightarrow> k \<le> lo \<Longrightarrow>
     take k (fold (\<lambda>(off, bs). store off bs) ms buf) = take k buf \<and> length (fold (\<lambda>(off, bs). store off bs) ms buf) = length buf"
proof (induction lo ms "length buf" arbitrary: buf rule: ascending.induct)
  case (2 lo off bs ms)
  have le: "off + length bs \<le> length buf" using 2(2) ascending_le [of "off + length bs" ms "length buf"] by simp
  then have l: "length (store off bs buf) = length buf" by (rule length_store)
  have "take k (fold (\<lambda>(off, bs). store off bs) ms (store off bs buf)) = take k (store off bs buf) \<and>
      length (fold (\<lambda>(off, bs). store off bs) ms (store off bs buf)) = length (store off bs buf)"
    using 2(1) [of "store off bs buf"] 2(2,3) l by simp
  then show ?case using 2(2,3) le l take_store [of k off buf bs] by simp
qed simp

lemma load_stores:
  assumes "ascending lo ms (length buf)" "(off, bs) \<in> set ms"
  shows "take (length bs) (drop off (fold (\<lambda>(off, bs). store off bs) ms buf)) = bs"
  using assms
proof (induction ms arbitrary: lo buf)
  case (Cons m ms)
  obtain o1 b1 where m: "m = (o1, b1)" by (cases m)
  have asc: "lo \<le> o1" "ascending (o1 + length b1) ms (length buf)" using Cons.prems(1) m by auto
  then have le: "o1 + length b1 \<le> length buf" using ascending_le by simp
  then have l: "length (store o1 b1 buf) = length buf" by (rule length_store)
  show ?case
  proof (cases "(off, bs) \<in> set ms")
    case True
    then show ?thesis using Cons.IH [of "o1 + length b1" "store o1 b1 buf"] asc(2) l m by simp
  next
    case False
    then have e: "off = o1" "bs = b1" using Cons.prems(2) m by auto
    let ?f = "fold (\<lambda>(off, bs). store off bs) ms (store o1 b1 buf)"
    have "take (o1 + length b1) ?f = take (o1 + length b1) (store o1 b1 buf)"
      using take_stores [of "o1 + length b1" ms "store o1 b1 buf"] asc(2) l by simp
    then have "take (length b1) (drop o1 ?f) = take (length b1) (drop o1 (store o1 b1 buf))"
      by (metis add.commute take_drop)
    also have "\<dots> = b1" using le by (simp add: drop_store)
    finally show ?thesis using m e by simp
  qed
qed simp

subsection \<open>A packet survives the network\<close>

text \<open>Packets whose numbers fit their members and whose addresses are C strings.\<close>

definition fits_header :: "anonymous_packet \<Rightarrow> bool" where
  "fits_header p \<longleftrightarrow> list_all int_ok [h_relay_dest_port p, h_relay_reply_port p, h_key_port p, h_index p, h_session_id p] \<and>
     list_all nul_free [h_relay_ip p, h_relay_dest_ip p, h_relay_reply_ip p, h_key_ip p]"

lemma layout_ascending: "wf_packet p \<Longrightarrow> ascending 0 (layout p) MAX_MTU"
  by (simp add: layout_def wf_packet_def wf_mem_def ip_ok_def packet_cap_defs)

lemma received_member:
  assumes "wf_packet p" "length buf = MAX_MTU" "(off, bs) \<in> set (layout p)" "off + length bs \<le> sizeof_header"
  shows "\<exists>rest. drop off (recvfrom_bytes buf' (sendto_bytes buf p)) = bs @ rest"
proof -
  let ?f = "packet_bytes buf p" and ?t = "nat (total_size p)"
  let ?r = "recvfrom_bytes buf' (sendto_bytes buf p)"
  have asc: "ascending 0 (layout p) (length buf)" using layout_ascending [OF assms(1)] assms(2) by simp
  have f: "length ?f = MAX_MTU" using take_stores [OF asc, of 0] assms(2) by (simp add: packet_bytes_def)
  have t: "sizeof_header \<le> ?t" "?t \<le> MAX_MTU"
    using assms(1) by (auto simp: total_size_def payload_size_def wf_packet_def packet_cap_defs)
  have "take (off + length bs) ?r = take (off + length bs) ?f"
    using t f assms(4) by (simp add: recvfrom_bytes_def sendto_bytes_def min_absorb1)
  then have "take (length bs) (drop off ?r) = take (length bs) (drop off ?f)" by (metis add.commute take_drop)
  also have "\<dots> = bs" using load_stores [OF asc assms(3)] by (simp add: packet_bytes_def)
  finally show ?thesis by (metis append_take_drop_id)
qed

lemma received_body:
  assumes "wf_packet p" "length buf = MAX_MTU"
  shows "drop sizeof_header (recvfrom_bytes buf' (sendto_bytes buf p)) =
    content p @ drop (sizeof_header + nat (h_size p)) buf'"
proof -
  let ?f = "packet_bytes buf p" and ?t = "nat (total_size p)"
  have asc: "ascending 0 (layout p) (length buf)" using layout_ascending [OF assms(1)] assms(2) by simp
  have f: "length ?f = MAX_MTU" using take_stores [OF asc, of 0] assms(2) by (simp add: packet_bytes_def)
  have t: "?t = sizeof_header + nat (h_size p)" "?t \<le> MAX_MTU"
    using assms(1) by (auto simp: total_size_def payload_size_def wf_packet_def packet_cap_defs nat_add_distrib)
  have "take (length (p_body p)) (drop sizeof_header ?f) = p_body p"
    using load_stores [OF asc, of sizeof_header "p_body p"] by (simp add: packet_bytes_def layout_def)
  then have b: "drop sizeof_header ?f = p_body p"
    using f assms(1) by (simp add: wf_packet_def wf_mem_def packet_cap_defs)
  have "drop sizeof_header (take ?t ?f) = take (nat (h_size p)) (drop sizeof_header ?f)" using t by (simp add: drop_take)
  then show ?thesis
    using b f t by (simp add: recvfrom_bytes_def sendto_bytes_def content_def payload_def payload_size_def min_absorb1)
qed

text \<open>The record view of the wire is right: what the accessors read after the bytes have travelled is the record that
  \<open>recvfrom_into\<close> gives.\<close>

lemma read_received:
  assumes wf: "wf_packet p" and fits: "fits_header p" and buf: "length buf = MAX_MTU" "length buf' = MAX_MTU"
  shows "read_packet (recvfrom_bytes buf' (sendto_bytes buf p)) =
    p\<lparr>p_body := content p @ drop (sizeof_header + nat (h_size p)) buf'\<rparr>"
proof -
  let ?r = "recvfrom_bytes buf' (sendto_bytes buf p)"
  have m: "\<exists>rest. drop off ?r = bs @ rest" if "(off, bs) \<in> set (layout p)" "off + length bs \<le> sizeof_header" for off bs
    using received_member [OF wf buf(1) that] .
  have ips: "length (h_relay_ip p) < 20" "length (h_relay_dest_ip p) < 20" "length (h_relay_reply_ip p) < 20" "length (h_key_ip p) < 20"
    using wf by (simp_all add: wf_packet_def ip_ok_def ip_cap_def)
  have size: "int_ok (h_size p)" using wf by (simp add: wf_packet_def int_ok_def packet_cap_defs)
  have u64: "get_u64 (load ?r off 8) = x" if "(off, put_u64 x) \<in> set (layout p)" "off + 8 \<le> sizeof_header" for off x
    using m [OF that(1)] that(2) by (auto simp: load_def get_put_u64)
  have int: "get_int (load ?r off 4) = x" if "(off, put_int x) \<in> set (layout p)" "off + 4 \<le> sizeof_header" "int_ok x" for off x
    using m [OF that(1)] that(2,3) by (auto simp: load_def get_put_int)
  have bool: "get_bool (load ?r off 1) = x" if "(off, put_bool x) \<in> set (layout p)" "off + 1 \<le> sizeof_header" for off x
    using m [OF that(1)] that(2) by (auto simp: load_def get_put_bool)
  have str: "get_str (drop off ?r) = x" if "(off, put_str x) \<in> set (layout p)" "off + length x + 1 \<le> sizeof_header" "nul_free x" for off x
    using m [OF that(1)] that(2,3) by (auto simp: get_put_str)
  have "get_u64 (load ?r 0 8) = h_id p" "get_u64 (load ?r 16 8) = h_relay_id p" "get_u64 (load ?r 48 8) = h_relay_dest_id p"
    "get_u64 (load ?r 80 8) = h_relay_reply_id p" "get_u64 (load ?r 112 8) = h_key_id p"
    by (rule u64; simp add: layout_def sizeof_header_def)+
  moreover have "get_int (load ?r 8 4) = h_size p" "get_int (load ?r 76 4) = h_relay_dest_port p"
    "get_int (load ?r 108 4) = h_relay_reply_port p" "get_int (load ?r 140 4) = h_key_port p" "get_int (load ?r 144 4) = h_index p"
    "get_int (load ?r 152 4) = h_session_id p"
    using fits size by - (rule int; simp add: layout_def sizeof_header_def fits_header_def)+
  moreover have "get_bool (load ?r 148 1) = h_msg_type p" "get_bool (load ?r 149 1) = h_is_dest p"
    by (rule bool; simp add: layout_def sizeof_header_def)+
  moreover have "get_str (drop 24 ?r) = h_relay_ip p" "get_str (drop 56 ?r) = h_relay_dest_ip p"
    "get_str (drop 88 ?r) = h_relay_reply_ip p" "get_str (drop 120 ?r) = h_key_ip p"
    using fits ips by - (rule str; simp add: layout_def sizeof_header_def fits_header_def)+
  ultimately show ?thesis
    unfolding read_packet_def received_body [OF wf buf(1)] by (cases p) simp
qed

lemma record_view:
  assumes "wf_packet p" "p_body mem = drop sizeof_header buf'"
  shows "recvfrom_into mem (on_wire p) = p\<lparr>p_body := content p @ drop (sizeof_header + nat (h_size p)) buf'\<rparr>"
proof -
  have "length (content p) = nat (h_size p)"
    using assms(1) by (simp add: content_def payload_def payload_size_def wf_packet_def wf_mem_def nat_le_iff)
  then show ?thesis using assms(2) by (simp add: recvfrom_into_def on_wire_def add.commute)
qed

text \<open>
  C16. A packet survives the network, byte by byte: a packet built with a payload, in a buffer that held anything, is sent
  with the bytes of its header and payload; whoever receives them into a buffer that held anything reads all seventeen
  members of the header as they were given to the constructor, the payload, and behind it what the buffer held. The
  addresses are C strings and the numbers are of type \<open>int\<close>; sizes and lengths fit because the constructor succeeded.
\<close>

theorem packet_roundtrip:
  assumes p: "AnonymousPacket18 mem i s_ip s_id r_ip r_id r_port reply_ip reply_id reply_port
     k_ip k_id k_port index internal package sz is_dest session = Some p"
    and mem: "wf_mem mem" and buf: "length buf = MAX_MTU" "length buf' = MAX_MTU"
    and ints: "\<forall>x \<in> {r_port, reply_port, k_port, index, session}. int_ok x"
    and strs: "\<forall>s \<in> {s_ip, r_ip, reply_ip, k_ip}. nul_free s"
  shows "read_packet (recvfrom_bytes buf' (sendto_bytes buf p)) =
     \<lparr>h_id = i, h_size = sz, h_relay_id = s_id, h_relay_ip = s_ip, h_relay_dest_id = r_id, h_relay_dest_ip = r_ip,
      h_relay_dest_port = r_port, h_relay_reply_id = reply_id, h_relay_reply_ip = reply_ip, h_relay_reply_port = reply_port,
      h_key_id = k_id, h_key_ip = k_ip, h_key_port = k_port, h_index = index, h_msg_type = internal, h_is_dest = is_dest,
      h_session_id = session, p_body = take (nat sz) package @ drop (sizeof_header + nat sz) buf'\<rparr>"
proof -
  obtain body where body: "memcpy_into (p_body mem) package sz = Some body"
    and eq: "p = \<lparr>h_id = i, h_size = sz, h_relay_id = s_id, h_relay_ip = s_ip, h_relay_dest_id = r_id, h_relay_dest_ip = r_ip,
      h_relay_dest_port = r_port, h_relay_reply_id = reply_id, h_relay_reply_ip = reply_ip, h_relay_reply_port = reply_port,
      h_key_id = k_id, h_key_ip = k_ip, h_key_port = k_port, h_index = index, h_msg_type = internal, h_is_dest = is_dest,
      h_session_id = session, p_body = body\<rparr>"
    using p by (auto simp: AnonymousPacket18_def bind_strncpy split: if_splits elim!: bind_SomeE)
  have "content p = take (nat sz) package"
    using memcpy_into_take [OF body] by (simp add: eq content_def payload_def payload_size_def)
  moreover have "fits_header p" using ints strs by (simp add: eq fits_header_def)
  ultimately show ?thesis
    using read_received [OF wf_packet_18 [OF p mem] _ buf] by (simp add: eq)
qed

theorem packet_roundtrip_witness:
  "\<exists>p. AnonymousPacket18 sample_mem 0xffff ''10.0.0.1'' 1 ''10.0.0.2'' 4 3010 ''10.0.0.3'' 1 3011
     ''10.0.0.4'' 6 3012 0 False [1, 2, 3] 2 True 7 = Some p \<and>
   read_packet (recvfrom_bytes (replicate MAX_MTU 9) (sendto_bytes (replicate MAX_MTU 5) p)) =
     \<lparr>h_id = 0xffff, h_size = 2, h_relay_id = 1, h_relay_ip = ''10.0.0.1'', h_relay_dest_id = 4, h_relay_dest_ip = ''10.0.0.2'',
      h_relay_dest_port = 3010, h_relay_reply_id = 1, h_relay_reply_ip = ''10.0.0.3'', h_relay_reply_port = 3011,
      h_key_id = 6, h_key_ip = ''10.0.0.4'', h_key_port = 3012, h_index = 0, h_msg_type = False, h_is_dest = True,
      h_session_id = 7, p_body = [1, 2] @ replicate 862 9\<rparr>"
proof -
  have "AnonymousPacket18 sample_mem 0xffff ''10.0.0.1'' 1 ''10.0.0.2'' 4 3010 ''10.0.0.3'' 1 3011
     ''10.0.0.4'' 6 3012 0 False [1, 2, 3] 2 True 7 \<noteq> None"
    by (simp add: AnonymousPacket18_def sample_mem_def packet_cap_defs memcpy_into_def)
  then obtain p where p: "AnonymousPacket18 sample_mem 0xffff ''10.0.0.1'' 1 ''10.0.0.2'' 4 3010 ''10.0.0.3'' 1 3011
     ''10.0.0.4'' 6 3012 0 False [1, 2, 3] 2 True 7 = Some p" by blast
  have ints: "\<forall>x \<in> {3010, 3011, 3012, 0, 7}. int_ok x" by (simp add: int_ok_def)
  have strs: "\<forall>s \<in> {''10.0.0.1'', ''10.0.0.2'', ''10.0.0.3'', ''10.0.0.4''}. nul_free s" by (simp add: nul_free_def)
  have bufs: "length (replicate MAX_MTU (5 :: byte)) = MAX_MTU" "length (replicate MAX_MTU (9 :: byte)) = MAX_MTU" by simp_all
  have "drop (sizeof_header + nat 2) (replicate MAX_MTU (9 :: byte)) = replicate 862 9"
    by (simp add: packet_cap_defs)
  then show ?thesis using p packet_roundtrip [OF p wf_sample_mem bufs ints strs] by simp
qed

end
