(* ===== verification/Spec2Isabelle.thy ===== *)
theory Spec2Isabelle
  imports Startup Repair Network Routing Maintenance DaeSocket FileShare Pools Neighbours TorRelay Loopix
    Simulator PoolSim Crc Tunnel IPPacket Apps Wire
begin

text \<open>
  Verification of DAENet, an anonymity overlay: relays form a Chord ring, route application messages
  along it, hide them among dummies in a shuffling pool, and let two peers meet at a dead drop that a
  shared seed selects. Paths below are under src/.

  \<^bold>\<open>The program and its theories\<close>

  A relay process is one \<open>DAENode\<close> (routing state and ring protocol), one \<open>DAEService\<close> (the calls
  the node makes on the network), one \<open>RandomSocket\<close> (receiving thread, dispatch, \<open>sendto\<close>), one
  packet pool and an event loop with timers. Applications talk to it through \<open>AnonymousSocket\<close>.

  \<^item> Prelude: option monad for undefined behaviour, checked arrays and copies, \<open>returns\<close>, words.
  \<^item> Strings: \<open>to_string\<close>, \<open>stoi\<close>, tokens. Numerals: \<open>strtol\<close>, \<open>stoll\<close>, \<open>stoull\<close>. Bytes: numbers in memory and their byte order.
  \<^item> Ring (src/p2p/DAENode.hpp): the two range tests, one of them in binary64 as the code has it.
  \<^item> Packet (src/packet/AnonymousPacket.hpp, src/message/message.hpp): message identifiers, the packet
    with its constructors, what of it crosses the wire. Wire: the bytes of a packet, as they lie in its buffer, are sent
    and are read again, and that the record is what they mean.
  \<^item> Queues (src/utils/Concurrent*Queue.hpp): the three queues and the locale \<open>buffer\<close> they, and the
    heap, interpret: nothing is lost, duplicated or invented.
  \<^item> Config (src/relay/RelayConfig.hpp): the configuration, its file format and what its options set.
  \<^item> Cli (src/utils/CLI11.hpp): the command line parser, with records for an option and for an \<open>App\<close>; an exception is
    the left value of a sum. CliLines: what a command line means, and that the parser computes it. CommandLine: the
    options the relay declares and the configuration a command line gives. AnyLine: arbitrary command lines.
  \<^item> Node (src/p2p/DAENode.cpp, .hpp): record \<open>dae_node\<close> and one definition per method and timer lambda; an
    operation returns the calls it makes on \<open>DAEProtocol\<close> and \<open>EventTask\<close> as a list of actions.
  \<^item> Socket (src/relay/RandomSocket.cpp, src/obfuscation/ShufflePool.cpp, DirectPool.cpp): record
    \<open>relay\<close>, sending, the pools and their batches.
  \<^item> Service (src/p2p/DAEService.hpp): every \<open>DAEProtocol\<close> method, construction, start, the tasks.
  \<^item> Dispatch (src/relay/RandomSocket.cpp): the receiving thread and a definition per message.
  \<^item> Routing: stable rings and the hops of a message and of a lookup.
  \<^item> Addresses, Network: relays that exchange datagrams, as the inductive relation \<open>net_step\<close>, in which a handler or a
    timer of a relay is one step; the locale \<open>invariant\<close> is interpreted for bounds and for truthful routing tables.
  \<^item> Startup (src/main.cpp, src/utils/Daemon.cpp): from the command line through the daemon to the running relay.
  \<^item> Delivery: what a relay holds; the locale \<open>fuzzing_pool\<close> with both pools as interpretations.
  \<^item> Maintenance: the ring protocol step by step, and hostile datagrams.
  \<^item> Joining: the exchange of one round of maintenance as a step of all nodes, and a node that joins a stable ring.
    Repair: rings of which only the successors are right; lookups in them still find the responsible node, and runs of
    \<open>fix_fingers\<close> with their answers make them stable.
  \<^item> DaeSocket (src/interface/dae, src/utils/RandomGenerator.hpp): the application socket.
  \<^item> Tcp (src/interface/tcp/AnonymousSocket.cpp): the TCP back end with its framing.
  \<^item> Tor (src/interface/tor/TorSocket.cpp): circuits, layered frames and the relays that peel or add a
    layer; the encryption is an argument with its laws as hypotheses. TorRelay: the loop that accepts connections and
    the threads that forward.
  \<^item> Loopix (src/interface/loopix/LoopixSocket.cpp): datagrams through a local mix client and the queues of
    the sockets.
  \<^item> Heaps (src/utils/Heap.hpp, ConcurrentHeap.hpp) and Pools (src/obfuscation/PoissionPool.cpp,
    UniformPool.cpp): the array heap, the locale \<open>keyed\<close> for comparisons by a key, and the two pools on it.
  \<^item> Neighbours (src/utils/OrderedVector.hpp, NeighbouringSet.cpp, src/relay/SocketHeader.cpp): bounded
    ordered arrays.
  \<^item> Md5 (app/filesharing/md5.h) and FileShare (app/filesharing/FileService.cpp, FileTask.cpp): hashing,
    announcing, finding, serving and reassembling files.
  \<^item> Apps (app/pingpong/PingPongServer.cpp, app/buffersend/BufferSend.cpp): the clients and servers that measure
    round trips, over the outcomes of \<open>recv\<close>.
  \<^item> Checksum (src/packet/checksum.c, packet_checksum.c), Crc (the CRC32C of checksum.c) and IPPacket
    (src/packet/IPPacket.hpp): raw IP packets as lists of bytes; the locale \<open>checksum_function\<close> has the three Internet
    checksums as interpretations.
  \<^item> RouteTable and Tunnel (src/utils/RouteTable.cpp, SharpTunnel.cpp, the Linux code): what is read from the
    system's files, and the requests made of the kernel as a list; its answers are an argument.
  \<^item> Simulator (src/simulation/DAESimulator.cpp) and PoolSim (PoolSimulator.cpp, PoolUser.cpp): the two
    simulators, with random numbers as arguments.

  \<^bold>\<open>How the code is modelled\<close>

  State is a record per class; an operation takes and returns it. \<open>None\<close> is undefined behaviour (an
  array or buffer overrun, division by zero, a signed sum out of range, an uninitialised pointer) or an uncaught
  exception, as each theory says. \<open>uint64_t\<close> and \<open>uint32_t\<close> are words; a C \<open>int\<close> is an \<open>int\<close>, checked by \<open>c_int\<close>
  where the code computes with it. Freshly allocated memory holds arbitrary old contents, which are
  arguments. Random numbers, the clock and what other threads do during a wait are arguments. A critical
  section or an event-loop callback is one step; the schedules are lists of steps or the step
  relation.

  Three assumptions are made of the compiled program where the language gives the code no meaning. The receiving
  thread and the event loop of a relay share its node without a lock; the model runs their callbacks one after the other, so
  torn writes of routing entries are outside it. \<open>DAENode::find_successor\<close> has no \<open>return\<close>; the model takes a call of it to
  come back with a value nobody uses. The arguments of a one-shot timer are deallocated in ways that do not match their
  allocation (src/utils/EventTask.cpp); the model leaves the deallocation out.

  \<^bold>\<open>What is shown\<close>

  On a stable ring messages and lookups reach the responsible node within \<open>m + 1\<close> hops, maintenance keeps such
  a ring, and a node that joins it is between its neighbours after three rounds, after which runs of
  \<open>fix_fingers\<close> make the larger ring stable again; lookups are already answered rightly while only the successors are right.
  In every reachable network, under any loss, duplication and reordering of datagrams and with handlers run one at a time,
  every relay handles each datagram for which its pool has room, and each timer while its counters have room, within the
  bounds of its arrays, buffers and integers, and every routing table names real participants.
  Inside a relay no application message is lost while the queues have room, a batch sends for each finger a dummy to it or
  a packet of its queue, dead drops exchange what two peers left, and equal seeds choose equal dead drops. Packets, frames,
  configuration files and keys survive their round trips; with one key for all relays an onion circuit
  is built along the chosen path and carries messages both ways while the layers fit a frame, and Loopix keeps the order of
  messages. The queues conserve their elements, and so does the heap while it is not popped empty; the Poisson pool does so
  unless it draws a negative index, and it respects deadlines while it is not empty. MD5 equals RFC 1321 for all but one
  residue of the length, uploaded files are found, and served exactly if they fit one message, and blocks are reassembled in
  any order. A command line in any order and spelling is parsed as it is meant or gives the first of its errors, the
  configuration file means the same except for the two switches it cannot turn off, and a sane command line starts a relay
  whose first datagram is its join
  request. The checksums are those of RFC 1071 and of the
  polynomial division of CRC32C, and packets verify after they have been filled in. The routes of the tunnel cover
  every address, through its gateway if it was given one, and the networks of a file are added and removed one for one if the
  buffer they are read into held no slash. The message flow simulator routes
  in a logarithmic number of hops and loses nothing until its counters are used up; the pool simulator is safe exactly while
  its pools do not overflow. The theorems on errors characterise where the code fails: unchecked indices and sizes from the
  network, the heap's inconsistent indices, the padding at 55 bytes, negative random indices, late
  blocks.

  \<^bold>\<open>Bounds\<close>

  The ring theorems need \<open>m \<le> 52\<close>, below which the binary64 comparison is exact. \<open>tcp_recv\<close> takes a list of
  arrivals and blocks when it is used up; one arrival per byte of the frame is enough. The loop over
  waiting file blocks is a partial function whose divergence is proved where it diverges. The loops of the
  applications and simulators that never end run over a list of outcomes or of rounds of any length. The
  simulator theorems are for up to \<open>2 ^ 30\<close> users, so that \<open>1 << i\<close> stays an \<open>int\<close>, and for as many rounds and hops as
  their \<open>int\<close> counters can count. The counters of the shuffle pool and the offsets of file blocks are \<open>int\<close>s too, with the same
  kind of bound. The loop of the command line
  parser ends because every step shortens what is left, in characters with one more for each argument.

  \<^bold>\<open>Not modelled\<close>

  Interleavings of threads inside a callback or a critical section, and deallocation, are not modelled (see above).
  The code of the tunnel and of the routing table for macOS and Windows is compiled on these systems only. The
  simulator src/simulation/DAEProtocolSimulator.hpp is written against an older \<open>DAEProtocol\<close>, whose methods
  have other parameters, and does not fit the present one. The declarations of the packetdrill headers beyond the
  fields that the checksums use and printing have no logic of their own. Of the command line parser, subcommands,
  configuration files, environment variables, validators, dependencies between options, vectors and the texts of help and
  errors are left out; the relay uses none of them. libevent, libsodium and glog are libraries.
\<close>

end
